(* ===== verification/Prelude.thy ===== *)
theory Prelude
  imports Main "HOL-Library.Word" "HOL-Library.Monad_Syntax"
begin

text \<open>
  Shared material of the development: the names of the machine types, the collections of
  simplification rules the component theories extend, and generic lemmas on lists, options and
  words that several components use.

  Conventions.  A partial operation of the program (a read of a cell that holds no object, a
  construction over a live object, an access past the end of a buffer) is \<open>None\<close> of an
  \<open>option\<close>; an ordinary failure that the code reports to its caller is part of the value it
  returns.  The do-notation on \<open>option\<close> sequences statements.
\<close>

section \<open>Machine types\<close>

type_synonym u8 = "8 word"
type_synonym u16 = "16 word"
type_synonym u32 = "32 word"
type_synonym u64 = "64 word"

text \<open>\<^verbatim>\<open>engine::Token\<close>: a name the user chooses.\<close>

type_synonym token = u64

section \<open>Rule collections\<close>

named_theorems cell_simps \<open>evaluation of lifetime-checked cell operations\<close>
named_theorems probe_simps \<open>evaluation of the probing hash table\<close>
named_theorems ring_simps \<open>index arithmetic of the ring buffers\<close>

section \<open>Options\<close>

lemma bind_eq_Some [simp]:
  "(Option.bind m f = Some y) \<longleftrightarrow> (\<exists>x. m = Some x \<and> f x = Some y)"
  by (cases m) auto

section \<open>Lists\<close>

lemma nth_update_if:
  "j < length xs \<Longrightarrow> (xs[i := v]) ! j = (if i = j then v else xs ! j)"
  by (auto simp: nth_list_update)

lemma update_commute:
  "i \<noteq> j \<Longrightarrow> xs[i := a, j := b] = xs[j := b, i := a]"
  by (rule list_update_swap)

lemma take_Suc_update:
  "n < length xs \<Longrightarrow> take (Suc n) (xs[n := v]) = take n xs @ [v]"
  by (simp add: take_Suc_conv_app_nth)

lemma map_nth_upt_append:
  "i \<le> j \<Longrightarrow> j \<le> k \<Longrightarrow> map f [i..<k] = map f [i..<j] @ map f [j..<k]"
  by (metis map_append upt_add_eq_append le_add_diff_inverse)

lemma butlast_update_last:
  assumes "i < length xs"
  shows "length (butlast (xs[i := last xs])) = length xs - 1"
  using assms by simp

section \<open>Searching and erasing\<close>

text \<open>\<^verbatim>\<open>ext::find_if\<close> and the erase of a vector, which moves the last element into the hole and in a checked build
  refuses to erase at the end.\<close>

fun position :: "('a \<Rightarrow> bool) \<Rightarrow> 'a list \<Rightarrow> nat option" where
  "position p [] = None"
| "position p (x # xs) = (if p x then Some 0 else map_option Suc (position p xs))"

definition erase_at :: "nat \<Rightarrow> 'a list \<Rightarrow> 'a list" where
  "erase_at i xs = butlast (xs[i := last xs])"

lemma position_absent: "x \<notin> set xs \<Longrightarrow> position (\<lambda>y. y = x) (xs @ [x]) = Some (length xs)"
  by (induction xs) auto

lemma position_Some: "position P xs = Some n \<Longrightarrow> n < length xs \<and> P (xs ! n)"
  by (induction xs arbitrary: n) (auto split: if_splits)

lemma length_erase_at [simp]: "length (erase_at n xs) = length xs - 1"
  by (simp add: erase_at_def)

lemma position_None: "position P xs = None \<longleftrightarrow> (\<forall>x \<in> set xs. \<not> P x)"
  by (induction xs) auto

lemma position_member: "x \<in> set xs \<Longrightarrow> \<exists>n. position (\<lambda>a. a = x) xs = Some n \<and> n < length xs \<and> xs ! n = x"
  using position_None [of "\<lambda>a. a = x" xs] position_Some [of "\<lambda>a. a = x" xs] by (cases "position (\<lambda>a. a = x) xs") auto

section \<open>Loops\<close>

text \<open>A loop over a list whose body may be undefined.\<close>

fun fold_opt :: "('a \<Rightarrow> 's \<Rightarrow> 's option) \<Rightarrow> 'a list \<Rightarrow> 's \<Rightarrow> 's option" where
  "fold_opt f [] s = Some s"
| "fold_opt f (x # xs) s = do { s \<leftarrow> f x s; fold_opt f xs s }"

lemma fold_opt_invariant:
  assumes "fold_opt f xs s = Some t" "I s" "\<And>x s t. x \<in> set xs \<Longrightarrow> I s \<Longrightarrow> f x s = Some t \<Longrightarrow> I t"
  shows "I t"
  using assms by (induction xs arbitrary: s) auto

section \<open>Words\<close>

lemma unat_of_nat_small [simp]:
  "n < 2 ^ LENGTH('a) \<Longrightarrow> unat (word_of_nat n :: 'a::len word) = n"
  by (simp add: unat_of_nat take_bit_nat_eq_self)

end
