(* ===== verification/Machine_Arith.thy ===== *)
theory Machine_Arith
  imports Prelude
begin

unbundle bit_operations_syntax

text \<open>
  The machine arithmetic of \<^verbatim>\<open>utility/bitmanip.hpp\<close> (the power-of-two ceiling that sizes every
  dynamic container, and the count of trailing zeros) and of \<^verbatim>\<open>utility/overflow.hpp\<close>
  (the overflow-reporting additions and multiplications for the compilers that have no builtin).
  Every definition keeps the width of the C type, integer promotion included.
\<close>

section \<open>Power-of-two ceiling and trailing zeros\<close>

definition clp2_32 :: "u32 \<Rightarrow> u32" where
  "clp2_32 x0 =
    (let x = x0 - 1;
         x = x OR drop_bit 1 x;
         x = x OR drop_bit 2 x;
         x = x OR drop_bit 4 x;
         x = x OR drop_bit 8 x;
         x = x OR drop_bit 16 x
     in x + 1)"

definition clp2_64 :: "u64 \<Rightarrow> u64" where
  "clp2_64 x0 =
    (let x = x0 - 1;
         x = x OR drop_bit 1 x;
         x = x OR drop_bit 2 x;
         x = x OR drop_bit 4 x;
         x = x OR drop_bit 8 x;
         x = x OR drop_bit 16 x;
         x = x OR drop_bit 32 x
     in x + 1)"

text \<open>The branch of \<^verbatim>\<open>ntz\<close> for compilers other than GNU: Gaudet's algorithm.\<close>

definition ntz :: "u64 \<Rightarrow> int" where
  "ntz x =
    (let y = x AND (- x);
         bz = (if y \<noteq> 0 then 0 else 1);
         b5 = (if y AND 0x00000000ffffffff \<noteq> 0 then 0 else 32);
         b4 = (if y AND 0x0000ffff0000ffff \<noteq> 0 then 0 else 16);
         b3 = (if y AND 0x00ff00ff00ff00ff \<noteq> 0 then 0 else 8);
         b2 = (if y AND 0x0f0f0f0f0f0f0f0f \<noteq> 0 then 0 else 4);
         b1 = (if y AND 0x3333333333333333 \<noteq> 0 then 0 else 2);
         b0 = (if y AND 0x5555555555555555 \<noteq> 0 then 0 else 1)
     in bz + b5 + b4 + b3 + b2 + b1 + b0)"

section \<open>Overflow-reporting arithmetic\<close>

text \<open>
  Reference: the behaviour GNU documents for \<^verbatim>\<open>__builtin_add_overflow\<close> and
  \<^verbatim>\<open>__builtin_mul_overflow\<close>, to which the last part of \<^verbatim>\<open>overflow.hpp\<close> forwards.  The
  operation is performed in infinite precision, the result is the value cast to the type, and the
  flag says whether the cast changed it.
\<close>

definition builtin_add_s :: "'a::len word \<Rightarrow> 'a word \<Rightarrow> bool \<times> 'a word" where
  "builtin_add_s a b = (let r = sint a + sint b; c = word_of_int r in (sint c \<noteq> r, c))"

definition builtin_add_u :: "'a::len word \<Rightarrow> 'a word \<Rightarrow> bool \<times> 'a word" where
  "builtin_add_u a b = (let r = uint a + uint b; c = word_of_int r in (uint c \<noteq> r, c))"

definition builtin_mul_s :: "'a::len word \<Rightarrow> 'a word \<Rightarrow> bool \<times> 'a word" where
  "builtin_mul_s a b = (let r = sint a * sint b; c = word_of_int r in (sint c \<noteq> r, c))"

definition builtin_mul_u :: "'a::len word \<Rightarrow> 'a word \<Rightarrow> bool \<times> 'a word" where
  "builtin_mul_u a b = (let r = uint a * uint b; c = word_of_int r in (uint c \<noteq> r, c))"

text \<open>
  The branch for ARM.  The overloads for \<^verbatim>\<open>signed char\<close> and \<^verbatim>\<open>short\<close> compute the flag on
  operands that integer promotion has extended to 32 bits: \<open>a\<close> and \<open>b\<close> by their sign, the unsigned
  sum \<open>c\<close> by zeros.  The wider overloads, of 32 and 64 bits, are not promoted.
\<close>

definition add_overflow_arm_narrow :: "'a::len word \<Rightarrow> 'a word \<Rightarrow> bool \<times> 'a word" where
  "add_overflow_arm_narrow a b =
    (let c = a + b;
         a' = scast a :: u32; b' = scast b :: u32; c' = ucast c :: u32
     in (signed_drop_bit (LENGTH('a) - 1) (NOT (a' XOR b') AND (c' XOR a')) \<noteq> 0, c))"

definition add_overflow_arm_wide :: "'a::len word \<Rightarrow> 'a word \<Rightarrow> bool \<times> 'a word" where
  "add_overflow_arm_wide a b =
    (let c = a + b
     in (drop_bit (LENGTH('a) - 1) (NOT (a XOR b) AND (c XOR a)) \<noteq> 0, c))"

definition add_overflow_arm_s :: "'a::len word \<Rightarrow> 'a word \<Rightarrow> bool \<times> 'a word" where
  "add_overflow_arm_s a b =
    (if LENGTH('a) < 32 then add_overflow_arm_narrow a b else add_overflow_arm_wide a b)"

definition add_overflow_arm_u :: "'a::len word \<Rightarrow> 'a word \<Rightarrow> bool \<times> 'a word" where
  "add_overflow_arm_u a b = (let c = a + b in (c < a, c))"

text \<open>
  The branch for x86.  \<open>addcarry\<close> is the compiler intrinsic \<^verbatim>\<open>_addcarry_uN\<close> with no carry in.
  The signed overloads flip the sign bits, add, and compare the carry with the sign of the sum.
\<close>

definition addcarry :: "'a::len word \<Rightarrow> 'a word \<Rightarrow> bool \<times> 'a word" where
  "addcarry a b = (2 ^ LENGTH('a) \<le> uint a + uint b, a + b)"

definition add_overflow_x86_s :: "'a::len word \<Rightarrow> 'a word \<Rightarrow> bool \<times> 'a word" where
  "add_overflow_x86_s a b =
    (let sign = push_bit (LENGTH('a) - 1) 1;
         (carry, unsigned_result) = addcarry (a XOR sign) (b XOR sign)
     in ((if carry then 1 else 0) = drop_bit (LENGTH('a) - 1) unsigned_result, unsigned_result))"

definition add_overflow_x86_u :: "'a::len word \<Rightarrow> 'a word \<Rightarrow> bool \<times> 'a word" where
  "add_overflow_x86_u a b = (let (carry, result) = addcarry a b in (carry, result))"

text \<open>
  Multiplication through the type \<open>'b\<close> of twice the width (for 64 bits on x64 and ARM64 the pair
  of words of \<^verbatim>\<open>_mul128\<close>, \<^verbatim>\<open>__mulh\<close> and \<^verbatim>\<open>_umul128\<close>): the high half must be the sign, or
  zero, extension of the low half.
\<close>

definition mul_overflow_wide_s ::
    "'b::len itself \<Rightarrow> 'a::len word \<Rightarrow> 'a word \<Rightarrow> bool \<times> 'a word" where
  "mul_overflow_wide_s _ a b =
    (let c = scast a * scast b :: 'b word;
         ch = ucast (signed_drop_bit LENGTH('a) c) :: 'a word;
         cl = ucast c :: 'a word
     in (ch \<noteq> signed_drop_bit (LENGTH('a) - 1) cl, cl))"

definition mul_overflow_wide_u ::
    "'b::len itself \<Rightarrow> 'a::len word \<Rightarrow> 'a word \<Rightarrow> bool \<times> 'a word" where
  "mul_overflow_wide_u _ a b =
    (let c = ucast a * ucast b :: 'b word;
         ch = ucast (drop_bit LENGTH('a) c) :: 'a word;
         cl = ucast c :: 'a word
     in (ch \<noteq> 0, cl))"

text \<open>The 64-bit overloads for compilers with no 128-bit product: four 32-bit products.\<close>

definition mul_split :: "u64 \<Rightarrow> u64 \<Rightarrow> u64 \<times> u64" where
  "mul_split a b =
    (let al = a AND 0xffffffff; ah = drop_bit 32 a;
         bl = b AND 0xffffffff; bh = drop_bit 32 b;
         x = al * bl; y = ah * bl; z = al * bh; w = ah * bh;
         carry_sum = drop_bit 32 x + (y AND 0xffffffff) + (z AND 0xffffffff)
     in (drop_bit 32 carry_sum + drop_bit 32 y + drop_bit 32 z + w,
         push_bit 32 carry_sum OR (x AND 0xffffffff)))"

definition mul_overflow_split_s :: "u64 \<Rightarrow> u64 \<Rightarrow> bool \<times> u64" where
  "mul_overflow_split_s a b =
    (let (ch, cl) = mul_split a b in (ch \<noteq> signed_drop_bit 63 cl, cl))"

definition mul_overflow_split_u :: "u64 \<Rightarrow> u64 \<Rightarrow> bool \<times> u64" where
  "mul_overflow_split_u a b = (let (ch, cl) = mul_split a b in (ch \<noteq> 0, cl))"

section \<open>Bit smearing\<close>

text \<open>After the stages \<open>1, 2, \<dots>, m\<close> a bit is set iff one of the \<open>2 m\<close> bits from it upwards was.\<close>

definition smeared :: "nat \<Rightarrow> 'a::len word \<Rightarrow> 'a word \<Rightarrow> bool" where
  "smeared m x y \<longleftrightarrow> (\<forall>n. bit y n \<longleftrightarrow> (\<exists>j<m. bit x (n + j)))"

lemma smeared_start: "smeared 1 x x"
  by (simp add: smeared_def)

lemma smeared_step:
  assumes "smeared m x y"
  shows "smeared (m + m) x (y OR drop_bit m y)"
proof -
  have split: "(\<exists>j<m + m. bit x (n + j)) \<longleftrightarrow>
      (\<exists>j<m. bit x (n + j)) \<or> (\<exists>j<m. bit x (m + n + j))" for n
  proof
    assume "\<exists>j<m + m. bit x (n + j)"
    then obtain j where j: "j < m + m" "bit x (n + j)" by blast
    show "(\<exists>j<m. bit x (n + j)) \<or> (\<exists>j<m. bit x (m + n + j))"
    proof (cases "j < m")
      case False
      then have "j - m < m" "m + n + (j - m) = n + j" using j by auto
      then show ?thesis using j by metis
    qed (use j in blast)
  next
    assume "(\<exists>j<m. bit x (n + j)) \<or> (\<exists>j<m. bit x (m + n + j))"
    then show "\<exists>j<m + m. bit x (n + j)"
    proof
      assume "\<exists>j<m. bit x (m + n + j)"
      then obtain j where "j < m" "bit x (n + (m + j))" by (auto simp: ac_simps)
      then show ?thesis by (intro exI [of _ "m + j"]) auto
    qed (meson trans_less_add1)
  qed
  show ?thesis
    using assms unfolding smeared_def
    by (simp add: bit_or_iff bit_drop_bit_eq split)
qed

text \<open>Once every bit above is covered, the word is a mask that ends at the highest set bit.\<close>

lemma smeared_mask:
  fixes x y :: "'a::len word"
  assumes "smeared m x y" "LENGTH('a) \<le> m" "2 ^ k \<le> uint x" "uint x < 2 ^ Suc k"
  shows "y = mask (Suc k)"
proof (rule bit_word_eqI)
  fix n assume n: "n < LENGTH('a)"
  have high: "\<not> bit x i" if "Suc k \<le> i" for i
  proof -
    have "uint x < 2 ^ i" using assms(4) that
      by (meson less_le_trans one_le_numeral power_increasing)
    then have "\<not> bit (uint x) i"
      by (metis bit_take_bit_iff not_less order_refl take_bit_int_eq_self uint_ge_0)
    then show ?thesis using bit_imp_le_length [of x i] by (auto simp: bit_uint_iff)
  qed
  have top: "bit x k"
  proof -
    have "uint x div 2 ^ k = 1"
      using assms(3,4) by (intro int_div_pos_eq [of _ _ _ "uint x - 2 ^ k"]) auto
    then have "bit (uint x) k" by (simp add: bit_iff_odd)
    then show ?thesis by (simp add: bit_uint_iff)
  qed
  have kl: "k < LENGTH('a)" using top bit_imp_le_length by blast
  have "(\<exists>j<m. bit x (n + j)) \<longleftrightarrow> n \<le> k"
  proof
    assume "\<exists>j<m. bit x (n + j)"
    then obtain j where "bit x (n + j)" by blast
    then have "\<not> Suc k \<le> n + j" using high by blast
    then show "n \<le> k" by simp
  next
    assume "n \<le> k"
    then have "k - n < m" "bit x (n + (k - n))" using top kl assms(2) by auto
    then show "\<exists>j<m. bit x (n + j)" by blast
  qed
  then show "bit y n = bit (mask (Suc k) :: 'a word) n"
    using assms(1) n by (auto simp: smeared_def bit_mask_iff)
qed


lemma power_bracket:
  assumes "0 < (x::int)" "x < 2 ^ L"
  obtains k where "k < L" "2 ^ k \<le> x" "x < 2 ^ Suc k"
proof -
  let ?P = "\<lambda>k. x < 2 ^ Suc k"
  have "?P L" using assms by simp
  then have least: "?P (LEAST k. ?P k)" by (rule LeastI)
  define k where "k = (LEAST k. ?P k)"
  have up: "x < 2 ^ Suc k" using least by (simp add: k_def)
  have low: "2 ^ k \<le> x"
  proof (cases k)
    case 0
    then show ?thesis using assms(1) by simp
  next
    case (Suc j)
    then have "\<not> ?P j" unfolding k_def by (metis lessI not_less_Least)
    then show ?thesis using Suc by simp
  qed
  have "k < L"
    using low assms(2) by (metis le_less_trans linorder_not_le one_le_numeral power_increasing not_less)
  then show thesis using that up low by blast
qed

lemma smeared_double:
  "smeared m x y \<Longrightarrow> n = m + m \<Longrightarrow> smeared n x (y OR drop_bit m y)"
  by (simp only: smeared_step)

lemma clp2_64_smeared: "\<exists>y. clp2_64 x = y + 1 \<and> smeared 64 (x - 1) y"
  unfolding clp2_64_def Let_def
  by (rule exI, rule conjI, rule refl) (rule smeared_double smeared_start | simp)+

lemma clp2_32_smeared: "\<exists>y. clp2_32 x = y + 1 \<and> smeared 32 (x - 1) y"
  unfolding clp2_32_def Let_def
  by (rule exI, rule conjI, rule refl) (rule smeared_double smeared_start | simp)+

lemma smeared_ceiling:
  fixes x y :: "'a::len word"
  assumes "smeared m (x - 1) y" "LENGTH('a) \<le> m" "2 ^ k < uint x" "uint x \<le> 2 ^ Suc k"
    "Suc k < LENGTH('a)"
  shows "uint (y + 1) = 2 ^ Suc k"
proof -
  have pos: "1 \<le> uint x" using assms(3) by (smt (verit) zero_less_power)
  then have "1 \<le> x" by (simp add: word_le_def)
  then have ux: "uint (x - 1) = uint x - 1" by (simp add: uint_minus_simple_alt [THEN iffD1])
  have "y = mask (Suc k)"
    using assms ux by (intro smeared_mask [of m "x - 1" y k]) auto
  then have "y + 1 = 2 ^ Suc k" by (simp add: mask_eq_exp_minus_1)
  then show ?thesis using assms(5) by (simp add: uint_2p word_greater_zero_iff del: power_Suc)
qed


section \<open>Overflow flags against exact arithmetic\<close>

lemma uint_exp_small: "n < LENGTH('a) \<Longrightarrow> uint (2 ^ n :: 'a::len word) = 2 ^ n"
  by (simp add: uint_2p word_greater_zero_iff)

lemma two_halves: "(2::int) ^ LENGTH('a::len) = 2 * 2 ^ (LENGTH('a) - 1)"
  by (metis Suc_pred' len_gt_0 power_Suc)

lemma uint_flip_sign:
  fixes a :: "'a::len word"
  shows "uint (a XOR push_bit (LENGTH('a) - 1) 1) = sint a + 2 ^ (LENGTH('a) - 1)"
proof -
  let ?n = "LENGTH('a) - 1"
  have n: "?n < LENGTH('a)" by simp
  have "uint (a XOR push_bit ?n 1) = uint a XOR push_bit ?n 1"
    using n uint_exp_small [OF n] by (simp add: unsigned_xor_eq push_bit_of_1)
  also have "\<dots> = uint a + (if bit (uint a) ?n then - (2 ^ ?n) else 2 ^ ?n)"
    unfolding flip_bit_eq_xor [symmetric]
    by (simp add: flip_bit_eq_if set_bit_eq unset_bit_eq)
  also have "\<dots> = sint a + 2 ^ ?n"
  proof -
    have "sint a = uint a - 2 * 2 ^ ?n * of_bool (bit (uint a) ?n)"
      using two_halves [where 'a = 'a] take_bit_int_eq_self [OF uint_ge_0 uint_lt2p, of a]
      by (simp add: sint_uint signed_take_bit_eq_take_bit_minus)
    then show ?thesis by simp
  qed
  finally show ?thesis .
qed

lemma sint_add_cases:
  fixes a b :: "'a::len word"
  defines "M \<equiv> 2 ^ (LENGTH('a) - 1)" and "S \<equiv> sint a + sint b"
  shows "sint (a + b) = (if S < - M then S + 2 * M else if M \<le> S then S - 2 * M else S)"
proof -
  have ra: "- M \<le> sint a" "sint a < M" and rb: "- M \<le> sint b" "sint b < M"
    using sint_ge [of a] sint_lt [of a] sint_ge [of b] sint_lt [of b] by (auto simp: M_def)
  have M2: "2 * M = 2 ^ Suc (LENGTH('a) - 1)" by (simp only: M_def power_Suc)
  have eq: "sint (a + b) = signed_take_bit (LENGTH('a) - 1) S"
    by (simp add: sint_word_add S_def)
  have shift: "signed_take_bit (LENGTH('a) - 1) T = T" if "- M \<le> T" "T < M" for T
    using that by (intro signed_take_bit_int_eq_self) (auto simp: M_def)
  have per: "signed_take_bit (LENGTH('a) - 1) S = signed_take_bit (LENGTH('a) - 1) (S + 2 * M * k)" for k
    unfolding M2 signed_take_bit_eq_iff_take_bit_eq
    by (simp add: take_bit_eq_mod)
  show ?thesis
    using eq shift [of S] per [of 1] per [of "-1"] shift [of "S + 2 * M"] shift [of "S - 2 * M"]
      ra rb S_def by (auto simp: not_less)
qed

lemma drop_last_bit:
  fixes c :: "'a::len word"
  shows "drop_bit (LENGTH('a) - 1) c = of_bool (sint c < 0)"
proof (rule bit_word_eqI)
  fix n assume "n < LENGTH('a)"
  show "bit (drop_bit (LENGTH('a) - 1) c) n = bit (of_bool (sint c < 0) :: 'a word) n"
  proof (cases n)
    case 0
    then show ?thesis by (simp add: bit_drop_bit_eq bit_last_iff)
  next
    case (Suc m)
    then have "\<not> bit c (LENGTH('a) - 1 + n)" using bit_imp_le_length [of c] by force
    then show ?thesis using Suc by (simp add: bit_drop_bit_eq bit_1_iff)
  qed
qed

lemma builtin_add_s_eq:
  "builtin_add_s a b = (\<not> (- (2 ^ (LENGTH('a) - 1)) \<le> sint a + sint b \<and>
     sint a + sint b < 2 ^ (LENGTH('a) - 1)), a + (b :: 'a::len word))"
proof -
  have "word_of_int (sint a + sint b) = a + b" by simp
  then show ?thesis
    using sint_add_cases [of a b] sint_ge [of "a + b"] sint_lt [of "a + b"]
    by (auto simp: builtin_add_s_def Let_def)
qed

lemma builtin_add_u_eq:
  "builtin_add_u a b = (2 ^ LENGTH('a) \<le> uint a + uint b, a + (b :: 'a::len word))"
  using uint_lt2p [of "a + b"]
  by (auto simp: builtin_add_u_def Let_def uint_plus_if' wi_hom_syms)

lemma add_overflow_x86_s_eq: "add_overflow_x86_s a b = builtin_add_s a (b :: 'a::len word)"
proof -
  let ?s = "push_bit (LENGTH('a) - 1) 1 :: 'a word"
  have sum: "(a XOR ?s) + (b XOR ?s) = a + b"
  proof -
    have "(a XOR ?s) + (b XOR ?s) = word_of_int (sint a + sint b + 2 ^ LENGTH('a))"
    proof -
      have "(a XOR ?s) + (b XOR ?s) = word_of_int (uint (a XOR ?s) + uint (b XOR ?s))" by simp
      also have "uint (a XOR ?s) + uint (b XOR ?s) = sint a + sint b + 2 ^ LENGTH('a)"
        unfolding uint_flip_sign two_halves by linarith
      finally show ?thesis .
    qed
    then show ?thesis by simp
  qed
  have carry: "fst (addcarry (a XOR ?s) (b XOR ?s)) \<longleftrightarrow> 0 \<le> sint a + sint b"
    unfolding addcarry_def fst_conv uint_flip_sign two_halves by linarith
  have "add_overflow_x86_s a b = ((0 \<le> sint a + sint b) = (sint (a + b) < 0), a + b)"
    using carry sum unfolding add_overflow_x86_s_def Let_def addcarry_def
    by (simp add: drop_last_bit [simplified])
  then show ?thesis
    using sint_add_cases [of a b] sint_ge [of a] sint_ge [of b] sint_lt [of a] sint_lt [of b]
    by (auto simp: builtin_add_s_eq split: if_splits)
qed

lemma add_overflow_u_eq:
  "add_overflow_x86_u a b = builtin_add_u a b"
  "add_overflow_arm_u a b = builtin_add_u a (b :: 'a::len word)"
proof -
  show "add_overflow_x86_u a b = builtin_add_u a b"
    by (simp add: add_overflow_x86_u_def addcarry_def builtin_add_u_eq)
  have "a + b < a \<longleftrightarrow> 2 ^ LENGTH('a) \<le> uint a + uint b"
    using uint_lt2p [of a] uint_lt2p [of b] uint_ge_0 [of b]
    by (auto simp: word_less_def uint_plus_if')
  then show "add_overflow_arm_u a b = builtin_add_u a b"
    by (simp add: add_overflow_arm_u_def builtin_add_u_eq Let_def)
qed

lemma add_overflow_arm_wide_eq: "add_overflow_arm_wide a b = builtin_add_s a (b :: 'a::len word)"
proof -
  let ?c = "a + b"
  have sg: "sint (x XOR y) < 0 \<longleftrightarrow> (sint x < 0) \<noteq> (sint y < 0)"
    and sn: "sint (NOT x) < 0 \<longleftrightarrow> \<not> sint x < 0"
    and sa: "sint (x AND y) < 0 \<longleftrightarrow> sint x < 0 \<and> sint y < 0" for x y :: "'a word"
    by (simp_all add: bit_last_iff [symmetric] bit_xor_iff bit_not_iff bit_and_iff del: bit_last_iff)
  have "add_overflow_arm_wide a b =
      ((sint a < 0) = (sint b < 0) \<and> (sint ?c < 0) \<noteq> (sint a < 0), ?c)"
    unfolding add_overflow_arm_wide_def Let_def drop_last_bit by (auto simp: sg sn sa)
  then show ?thesis
    using sint_add_cases [of a b] sint_ge [of a] sint_ge [of b] sint_lt [of a] sint_lt [of b]
    by (auto simp: builtin_add_s_eq split: if_splits)
qed

text \<open>The promoted operands: from the sign bit of the narrow type on, \<open>a\<close> and \<open>b\<close> repeat their sign and \<open>c\<close>, above
  it, is zero.  So two negative operands leave every bit above set, whatever the sum.\<close>

lemma signed_drop_bit_zero_iff:
  assumes "n < LENGTH('b)"
  shows "signed_drop_bit n (w :: 'b::len word) = 0 \<longleftrightarrow> (\<forall>m. n \<le> m \<and> m < LENGTH('b) \<longrightarrow> \<not> bit w m)"
proof
  assume h: "signed_drop_bit n w = 0"
  show "\<forall>m. n \<le> m \<and> m < LENGTH('b) \<longrightarrow> \<not> bit w m"
  proof (intro allI impI)
    fix m assume m: "n \<le> m \<and> m < LENGTH('b)"
    then have "bit (signed_drop_bit n w) (m - n) \<longleftrightarrow> bit w m"
      using bit_signed_drop_bit_iff [of n w "m - n"] by auto
    then show "\<not> bit w m" using h by simp
  qed
next
  assume h: "\<forall>m. n \<le> m \<and> m < LENGTH('b) \<longrightarrow> \<not> bit w m"
  show "signed_drop_bit n w = 0"
    by (rule bit_word_eqI) (use h assms in \<open>auto simp: bit_signed_drop_bit_iff\<close>)
qed

lemma add_overflow_arm_narrow_eq:
  assumes "LENGTH('a::len) < 32"
  shows "add_overflow_arm_narrow a b =
    (fst (builtin_add_s a b) \<or> sint a < 0 \<and> sint b < 0, snd (builtin_add_s a (b :: 'a word)))"
proof -
  let ?c = "a + b" and ?n = "LENGTH('a) - 1"
  let ?w = "NOT ((scast a :: u32) XOR scast b) AND ((ucast ?c :: u32) XOR scast a)"
  have s: "bit x ?n \<longleftrightarrow> sint x < 0" for x :: "'a word" by (simp add: bit_last_iff)
  have bits: "bit ?w m \<longleftrightarrow> (sint a < 0 \<longleftrightarrow> sint b < 0) \<and> ((m = ?n \<and> sint ?c < 0) \<noteq> (sint a < 0))"
    if m: "?n \<le> m" "m < 32" for m
  proof -
    have "bit (scast x :: u32) m \<longleftrightarrow> sint x < 0" for x :: "'a word"
      using m s [of x] by (simp add: bit_signed_iff min_def)
    moreover have "bit (ucast ?c :: u32) m \<longleftrightarrow> m = ?n \<and> sint ?c < 0"
    proof (cases "m = ?n")
      case True
      then show ?thesis using m s [of ?c] by (simp add: bit_unsigned_iff)
    next
      case False
      then have "\<not> bit ?c m" using m(1) bit_imp_le_length [of ?c m] by force
      then show ?thesis using False by (simp add: bit_unsigned_iff)
    qed
    ultimately show ?thesis using m(2) by (simp add: bit_and_iff bit_not_iff bit_xor_iff)
  qed
  have "signed_drop_bit ?n ?w \<noteq> 0 \<longleftrightarrow> (\<exists>m. ?n \<le> m \<and> m < 32 \<and> bit ?w m)"
    using assms signed_drop_bit_zero_iff [of ?n ?w] by auto
  also have "\<dots> \<longleftrightarrow> (sint a < 0 \<longleftrightarrow> sint b < 0) \<and> (sint ?c < 0 \<or> sint a < 0)" (is "_ \<longleftrightarrow> ?r")
  proof
    assume "\<exists>m. ?n \<le> m \<and> m < 32 \<and> bit ?w m"
    then show ?r using bits by blast
  next
    assume r: ?r
    show "\<exists>m. ?n \<le> m \<and> m < 32 \<and> bit ?w m"
    proof (cases "sint a < 0")
      case True
      have "?n \<le> 31" "(31 :: nat) < 32" "31 \<noteq> ?n" using assms by simp_all
      then show ?thesis using bits [of 31] True r by blast
    next
      case False
      have "?n \<le> ?n" "?n < 32" using assms by simp_all
      then show ?thesis using bits [of ?n] False r by blast
    qed
  qed
  finally have "add_overflow_arm_narrow a b = (?r, ?c)" by (simp add: add_overflow_arm_narrow_def Let_def)
  then show ?thesis
    using sint_add_cases [of a b] sint_ge [of a] sint_ge [of b] sint_lt [of a] sint_lt [of b]
    by (auto simp: builtin_add_s_eq split: if_splits)
qed

lemma add_overflow_arm_s_eq:
  "add_overflow_arm_s a b = (fst (builtin_add_s a b) \<or> LENGTH('a) < 32 \<and> sint a < 0 \<and> sint b < 0,
     snd (builtin_add_s a (b :: 'a::len word)))"
  by (simp add: add_overflow_arm_s_def add_overflow_arm_narrow_eq add_overflow_arm_wide_eq)

subsection \<open>Multiplication\<close>

lemma sint_scast_wide:
  "LENGTH('a::len) \<le> LENGTH('b::len) \<Longrightarrow> sint (scast (a :: 'a word) :: 'b word) = sint a"
  using sint_ge [of a] sint_lt [of a]
  by (simp add: signed_scast_eq)
    (rule signed_take_bit_int_eq_self;
      smt (verit) diff_le_mono one_le_numeral power_increasing One_nat_def)

lemma ucast_of_sint:
  "LENGTH('a::len) \<le> LENGTH('b::len) \<Longrightarrow> (ucast (c :: 'b word) :: 'a word) = word_of_int (sint c)"
proof (rule word_uint_eqI)
  assume l: "LENGTH('a) \<le> LENGTH('b)"
  have "uint (ucast c :: 'a word) = take_bit LENGTH('a) (take_bit LENGTH('b) (sint c))"
    by (simp only: unsigned_ucast_eq uint_sint [of c])
  then show "uint (ucast c :: 'a word) = uint (word_of_int (sint c) :: 'a word)"
    using l by (simp only: take_bit_take_bit uint_word_of_int_eq min_absorb1)
qed

lemma sint_signed_drop: "sint (signed_drop_bit n (c :: 'a::len word)) = sint c div 2 ^ n"
  by (simp add: drop_bit_eq_div sint_signed_drop_bit_eq)

lemma uint_ucast_wide:
  "LENGTH('a::len) \<le> LENGTH('b::len) \<Longrightarrow> uint (ucast (c :: 'a word) :: 'b word) = uint c"
  by (simp add: bintr_uint unsigned_ucast_eq)

lemma uint_drop: "uint (drop_bit n (c :: 'a::len word)) = uint c div 2 ^ n"
  by (metis drop_bit_eq_div take_bit_int_eq_self uint_lt2p unsigned_drop_bit_eq unsigned_greater_eq)

text \<open>The high and low halves of a product against its signed reading, over the integers.\<close>

lemma high_is_sign_iff:
  fixes P M :: int
  assumes "0 < M"
  shows "P div (2 * M) = (if M \<le> P mod (2 * M) then - 1 else 0) \<longleftrightarrow> - M \<le> P \<and> P < M"
proof -
  have P: "P = 2 * M * (P div (2 * M)) + P mod (2 * M)" by simp
  have L: "0 \<le> P mod (2 * M)" "P mod (2 * M) < 2 * M" using assms by auto
  show ?thesis
  proof
    assume H: "P div (2 * M) = (if M \<le> P mod (2 * M) then - 1 else 0)"
    show "- M \<le> P \<and> P < M"
      using P L H by (cases "M \<le> P mod (2 * M)") auto
  next
    assume R: "- M \<le> P \<and> P < M"
    show "P div (2 * M) = (if M \<le> P mod (2 * M) then - 1 else 0)"
    proof (cases "0 \<le> P")
      case True
      then show ?thesis using R assms by (simp add: div_pos_pos_trivial mod_pos_pos_trivial)
    next
      case False
      have "P div (2 * M) = - 1"
        using R False assms by (intro int_div_pos_eq [of _ _ _ "P + 2 * M"]) auto
      moreover have "P mod (2 * M) = P + 2 * M"
        using P calculation by (metis add.commute add_diff_cancel_left' minus_diff_eq mult_minus1_right uminus_add_conv_diff)
      ultimately show ?thesis using R False by simp
    qed
  qed
qed

lemma sint_word_of_int_cases:
  "sint (word_of_int P :: 'a::len word) =
    (let L = P mod 2 ^ LENGTH('a) in if 2 ^ (LENGTH('a) - 1) \<le> L then L - 2 ^ LENGTH('a) else L)"
proof -
  let ?L = "P mod 2 ^ LENGTH('a)"
  have "uint (word_of_int P :: 'a word) = ?L" by (simp add: uint_word_of_int_eq take_bit_eq_mod)
  moreover have "sint (word_of_int P :: 'a word) =
      uint (word_of_int P :: 'a word) - 2 ^ LENGTH('a) * of_bool (bit (word_of_int P :: 'a word) (LENGTH('a) - 1))"
    using take_bit_int_eq_self [OF uint_ge_0 uint_lt2p, of "word_of_int P :: 'a word"]
    by (simp add: sint_uint signed_take_bit_eq_take_bit_minus bit_uint_iff)
  moreover have "bit (word_of_int P :: 'a word) (LENGTH('a) - 1) \<longleftrightarrow> 2 ^ (LENGTH('a) - 1) \<le> ?L"
  proof -
    have "0 \<le> ?L" "?L < 2 * 2 ^ (LENGTH('a) - 1)" using two_halves [where 'a = 'a] by auto
    moreover have "bit (word_of_int P :: 'a word) (LENGTH('a) - 1) = odd (?L div 2 ^ (LENGTH('a) - 1))"
      using calculation by (metis \<open>uint (word_of_int P) = P mod 2 ^ LENGTH('a)\<close> bit_iff_odd bit_uint_iff
          diff_less len_gt_0 zero_less_one)
    moreover have "?L div 2 ^ (LENGTH('a) - 1) = 1" if "2 ^ (LENGTH('a) - 1) \<le> ?L"
      using that calculation by (intro int_div_pos_eq [of _ _ _ "?L - 2 ^ (LENGTH('a) - 1)"]) auto
    ultimately show ?thesis
      by (cases "?L < 2 ^ (LENGTH('a) - 1)") (auto simp: div_pos_pos_trivial)
  qed
  ultimately show ?thesis by (simp add: Let_def)
qed

lemma mul_overflow_wide_s_eq:
  fixes a b :: "'a::len word"
  assumes "LENGTH('b::len) = 2 * LENGTH('a)"
  shows "mul_overflow_wide_s TYPE('b) a b = builtin_mul_s a b"
proof -
  define M :: int where "M = 2 ^ (LENGTH('a) - 1)"
  define P where "P = sint a * sint b"
  have M: "0 < M" "2 ^ LENGTH('a) = 2 * M" using two_halves [where 'a = 'a] by (auto simp: M_def)
  have ra: "- M \<le> sint a" "sint a < M" and rb: "- M \<le> sint b" "sint b < M"
    using sint_ge [of a] sint_lt [of a] sint_ge [of b] sint_lt [of b] by (auto simp: M_def)
  have absP: "\<bar>P\<bar> \<le> M * M"
    unfolding P_def abs_mult using ra rb by (intro mult_mono) auto
  have MM: "M * M * 2 = 2 ^ (LENGTH('b) - 1)"
  proof -
    have "LENGTH('b) - 1 = (LENGTH('a) - 1) + (LENGTH('a) - 1) + 1"
      using assms len_gt_0 [where 'a = 'a] by linarith
    then show ?thesis by (simp add: M_def power_add)
  qed
  define c where "c = (scast a * scast b :: 'b word)"
  have sc: "sint c = P"
  proof -
    have "sint c = signed_take_bit (LENGTH('b) - 1) P"
      using assms by (simp add: c_def sint_word_mult sint_scast_wide P_def)
    moreover have "- (2 ^ (LENGTH('b) - 1)) \<le> P" "P < 2 ^ (LENGTH('b) - 1)"
      using absP MM M(1) by (smt (verit) mult_pos_pos)+
    ultimately show ?thesis by (simp add: signed_take_bit_int_eq_self)
  qed
  define ch where "ch = (ucast (signed_drop_bit LENGTH('a) c) :: 'a word)"
  define cl where "cl = (ucast c :: 'a word)"
  have le: "LENGTH('a) \<le> LENGTH('b)" using assms by simp
  have cl: "cl = word_of_int P" by (simp only: cl_def ucast_of_sint [OF le] sc)
  have "ch = word_of_int (P div (2 * M))"
    by (simp only: ch_def ucast_of_sint [OF le] sint_signed_drop sc M(2))
  moreover have "- M \<le> P div (2 * M) \<and> P div (2 * M) < M"
  proof -
    have "P div (2 * M) \<le> (M * M) div (2 * M)" "(- M * M) div (2 * M) \<le> P div (2 * M)"
      by (rule zdiv_mono1; use absP M(1) in auto)+
    then have "P div (2 * M) \<le> M div 2" "(- M) div 2 \<le> P div (2 * M)"
      using M(1) by (simp_all only: div_mult_mult2)
    moreover have "M div 2 < M" "- M \<le> (- M) div 2" using M(1) by linarith+
    ultimately show ?thesis by simp
  qed
  ultimately have sch: "sint ch = P div (2 * M)"
    by (simp add: M_def signed_take_bit_int_eq_self signed_of_int)
  have "sint (signed_drop_bit (LENGTH('a) - 1) cl) = (if M \<le> P mod (2 * M) then - 1 else 0)"
  proof -
    have L: "0 \<le> P mod (2 * M)" "P mod (2 * M) < 2 * M" using M(1) by auto
    have "sint cl = (if M \<le> P mod (2 * M) then P mod (2 * M) - 2 * M else P mod (2 * M))"
      unfolding cl sint_word_of_int_cases Let_def M(2) M_def [symmetric] ..
    then show ?thesis
      using L M(1) unfolding sint_signed_drop M_def [symmetric]
      by (auto simp: div_pos_pos_trivial intro: int_div_pos_eq [of _ _ _ "P mod (2 * M) - M"])
  qed
  then have "ch \<noteq> signed_drop_bit (LENGTH('a) - 1) cl \<longleftrightarrow> \<not> (- M \<le> P \<and> P < M)"
    using sch high_is_sign_iff [OF M(1), of P] by (metis signed_word_eqI)
  moreover have "sint (word_of_int P :: 'a word) = P \<longleftrightarrow> - M \<le> P \<and> P < M"
    using sint_ge [of cl] sint_lt [of cl] cl
    by (auto simp: M_def signed_take_bit_int_eq_self signed_of_int signed_take_bit_int_eq_self_iff)
  ultimately show ?thesis
    unfolding mul_overflow_wide_s_def builtin_mul_s_def Let_def c_def [symmetric] ch_def [symmetric]
      cl_def [symmetric] P_def [symmetric] using cl by simp
qed

lemma div_square_less:
  fixes K P :: int
  assumes "0 < K" "P < K * K"
  shows "P div K < K"
proof (rule ccontr)
  assume "\<not> P div K < K"
  then have "K * K \<le> P div K * K" using assms(1) by (intro mult_right_mono) auto
  also have "\<dots> \<le> P" using assms(1) by (metis add_le_same_cancel1 div_mult_mod_eq le_add_same_cancel1 pos_mod_sign)
  finally show False using assms(2) by simp
qed

lemma mul_overflow_wide_u_eq:
  fixes a b :: "'a::len word"
  assumes "LENGTH('b::len) = 2 * LENGTH('a)"
  shows "mul_overflow_wide_u TYPE('b) a b = builtin_mul_u a b"
proof -
  let ?P = "uint a * uint b"
  have le: "LENGTH('a) \<le> LENGTH('b)" using assms by simp
  have b2: "(2::int) ^ LENGTH('b) = 2 ^ LENGTH('a) * 2 ^ LENGTH('a)"
    using assms by (simp add: mult_2 power_add)
  have P: "0 \<le> ?P" "?P < 2 ^ LENGTH('a) * 2 ^ LENGTH('a)"
    using uint_lt2p [of a] uint_lt2p [of b] by (auto intro: mult_strict_mono)
  define c where "c = (ucast a * ucast b :: 'b word)"
  have uc: "uint c = ?P"
    using P b2 by (simp only: c_def uint_word_ariths uint_ucast_wide [OF le] mod_pos_pos_trivial)
  have cl: "(ucast c :: 'a word) = word_of_int ?P" using uc by (metis ucast_eq)
  have "?P div 2 ^ LENGTH('a) < 2 ^ LENGTH('a)" "0 \<le> ?P div 2 ^ LENGTH('a)"
    using P div_square_less [of "2 ^ LENGTH('a)" ?P] by (auto simp: pos_imp_zdiv_nonneg_iff)
  then have "uint (ucast (drop_bit LENGTH('a) c) :: 'a word) = ?P div 2 ^ LENGTH('a)"
    by (simp add: unsigned_ucast_eq uint_drop uc take_bit_int_eq_self)
  then have ch: "(ucast (drop_bit LENGTH('a) c) :: 'a word) \<noteq> 0 \<longleftrightarrow> ?P div 2 ^ LENGTH('a) \<noteq> 0"
    by (metis unsigned_0 word_uint_eq_iff)
  have "uint (word_of_int ?P :: 'a word) = ?P mod 2 ^ LENGTH('a)"
    by (simp only: uint_word_of_int_eq take_bit_eq_mod)
  then have "uint (word_of_int ?P :: 'a word) \<noteq> ?P \<longleftrightarrow> ?P div 2 ^ LENGTH('a) \<noteq> 0"
    using P(1) by (metis div_mult_mod_eq add.commute add.right_neutral mod_mult_self2_is_0 mult_zero_left
        mod_div_trivial)
  then show ?thesis
    unfolding mul_overflow_wide_u_def builtin_mul_u_def Let_def c_def [symmetric] using ch cl by simp
qed

lemma low_half: "uint ((c :: u64) AND 0xffffffff) = uint c mod 2 ^ 32"
proof -
  have "(0xffffffff :: u64) = mask 32" by (simp add: mask_eq_exp_minus_1)
  then show ?thesis
    by (simp only: and_mask_bintr uint_word_of_int_eq take_bit_take_bit) (simp add: take_bit_eq_mod)
qed

lemma long_product:
  fixes al ah bl bh B :: int
  assumes B: "0 < B" and r: "0 \<le> al" "al < B" "0 \<le> ah" "0 \<le> bl" "bl < B" "0 \<le> bh"
  defines "x \<equiv> al * bl" and "y \<equiv> ah * bl" and "z \<equiv> al * bh" and "w \<equiv> ah * bh"
  defines "cs \<equiv> x div B + y mod B + z mod B"
  defines "P \<equiv> (ah * B + al) * (bh * B + bl)"
  shows "P div (B * B) = cs div B + y div B + z div B + w"
    and "P mod (B * B) = cs mod B * B + x mod B"
proof -
  let ?h = "cs div B + y div B + z div B + w" and ?l = "cs mod B * B + x mod B"
  have "P = w * (B * B) + (y + z) * B + x"
    by (simp add: P_def x_def y_def z_def w_def algebra_simps)
  have P: "P = ?h * (B * B) + ?l"
  proof -
    define X Y Z C where "X = x div B" and "Y = y div B" and "Z = z div B" and "C = cs div B"
    define x' y' z' c' where "x' = x mod B" and "y' = y mod B" and "z' = z mod B" and "c' = cs mod B"
    have e: "x = X * B + x'" "y = Y * B + y'" "z = Z * B + z'" "X + y' + z' = C * B + c'"
      unfolding X_def Y_def Z_def C_def x'_def y'_def z'_def c'_def
      by (simp_all add: cs_def flip: cs_def)
    have "P = w * (B * B) + (Y * B + y' + (Z * B + z')) * B + (X * B + x')"
      using \<open>P = w * (B * B) + (y + z) * B + x\<close> e(1-3) by simp
    also have "\<dots> = (w + Y + Z) * (B * B) + (X + y' + z') * B + x'" by (simp add: algebra_simps)
    also have "\<dots> = (C + Y + Z + w) * (B * B) + (c' * B + x')" by (simp only: e(4)) (simp add: algebra_simps)
    finally show ?thesis by (simp add: X_def Y_def Z_def C_def x'_def y'_def z'_def c'_def)
  qed
  have "0 \<le> cs mod B" "cs mod B < B" "0 \<le> x mod B" "x mod B < B" using B by auto
  then have l: "0 \<le> ?l" "?l < B * B"
    using mult_right_mono [of "cs mod B" "B - 1" B] by (auto simp: left_diff_distrib)
  show "P div (B * B) = ?h" using P l by (intro int_div_pos_eq [of _ _ _ ?l]) (auto simp: mult.commute)
  show "P mod (B * B) = ?l" using P l by (simp add: mod_pos_pos_trivial)
qed

lemma uint_mult_small: "uint u * uint v < 2 ^ LENGTH('a) \<Longrightarrow> uint (u * v) = uint u * uint (v :: 'a::len word)"
  by (simp only: uint_word_ariths) (simp add: mod_pos_pos_trivial)

lemma uint_add_small: "uint u + uint v < 2 ^ LENGTH('a) \<Longrightarrow> uint (u + v) = uint u + uint (v :: 'a::len word)"
  by (simp add: uint_plus_if')

lemma uint_shifted_or:
  "uint (push_bit 32 c OR (x AND 0xffffffff)) = uint (c :: u64) mod 2 ^ 32 * 2 ^ 32 + uint (x :: u64) mod 2 ^ 32"
proof -
  have m: "(0xffffffff :: u64) = mask 32" by (simp add: mask_eq_exp_minus_1)
  have "push_bit 32 c AND (x AND 0xffffffff) = 0"
    unfolding m by (rule bit_word_eqI) (auto simp: bit_simps)
  then have "push_bit 32 c OR (x AND 0xffffffff) = push_bit 32 c + (x AND 0xffffffff)"
    by (simp add: disjunctive_add_eq_or)
  moreover have "uint (push_bit 32 c) = uint c mod 2 ^ 32 * 2 ^ 32"
    using mult_mod_right [of "2 ^ 32" "uint c" "2 ^ 32"]
    by (simp add: push_bit_eq_mult uint_word_ariths mult.commute)
  moreover have "uint c mod 2 ^ 32 * 2 ^ 32 \<le> (2 ^ 32 - 1) * 2 ^ 32" "uint x mod 2 ^ 32 < 2 ^ 32"
    by (intro mult_right_mono) auto
  ultimately show ?thesis by (simp add: uint_add_small low_half del: push_bit_numeral)
qed

lemma uint_halves_bound: "0 \<le> uint (a :: u64) div 2 ^ 32" "uint (a :: u64) div 2 ^ 32 < 2 ^ 32"
  "0 \<le> uint (a :: u64) mod 2 ^ 32" "uint (a :: u64) mod 2 ^ 32 < 2 ^ 32"
  using uint_lt2p [of a] div_square_less [of "2 ^ 32" "uint a"] by (auto simp: pos_imp_zdiv_nonneg_iff)

lemma mul_split_halves:
  "uint (fst (mul_split a b)) = uint a * uint b div 2 ^ 64"
  "uint (snd (mul_split a b)) = uint a * uint b mod 2 ^ 64"
proof -
  let ?B = "2 ^ 32 :: int" and ?m = "0xffffffff :: u64"
  define al ah bl bh where "al = uint a mod ?B" and "ah = uint a div ?B"
    and "bl = uint b mod ?B" and "bh = uint b div ?B"
  note d = al_def ah_def bl_def bh_def
  have r: "0 \<le> al" "al < ?B" "0 \<le> ah" "ah < ?B" "0 \<le> bl" "bl < ?B" "0 \<le> bh" "bh < ?B"
    unfolding d by (rule uint_halves_bound)+
  have ab: "uint a * uint b = (ah * ?B + al) * (bh * ?B + bl)" by (simp add: d)
  have small: "p * q < 2 ^ LENGTH(64)" if "0 \<le> p" "p < ?B" "0 \<le> q" "q < ?B" for p q
    using that mult_strict_mono' [of p ?B q ?B] by auto
  define X Y Z W where "X = (a AND ?m) * (b AND ?m)" and "Y = drop_bit 32 a * (b AND ?m)"
    and "Z = (a AND ?m) * drop_bit 32 b" and "W = drop_bit 32 a * drop_bit 32 b"
  have X: "uint X = al * bl" and Y: "uint Y = ah * bl" and Z: "uint Z = al * bh" and W: "uint W = ah * bh"
    unfolding X_def Y_def Z_def W_def
    by (subst uint_mult_small; simp only: low_half uint_drop d [symmetric] small r)+
  define cs where "cs = al * bl div ?B + ah * bl mod ?B + al * bh mod ?B"
  define CS where "CS = drop_bit 32 X + (Y AND ?m) + (Z AND ?m)"
  have CS: "uint CS = cs"
    using uint_halves_bound [of X] uint_halves_bound [of Y] uint_halves_bound [of Z]
    unfolding CS_def cs_def X [symmetric] Y [symmetric] Z [symmetric]
    by (simp add: uint_add_small low_half uint_drop)
  note long = long_product [of ?B al ah bl bh, folded ab cs_def]
  have lp: "uint a * uint b div 2 ^ 64 = cs div ?B + ah * bl div ?B + al * bh div ?B + ah * bh"
    and lm: "uint a * uint b mod 2 ^ 64 = cs mod ?B * ?B + al * bl mod ?B"
    using long r by simp_all
  have pos: "0 \<le> cs div ?B" "0 \<le> ah * bl div ?B" "0 \<le> al * bh div ?B" "0 \<le> ah * bh"
    using r CS uint_ge_0 [of CS] by (simp_all add: pos_imp_zdiv_nonneg_iff)
  have top: "uint a * uint b div 2 ^ 64 < 2 ^ 64"
    using uint_lt2p [of a] uint_lt2p [of b] by (intro div_square_less mult_strict_mono) auto
  have split: "mul_split a b = (drop_bit 32 CS + drop_bit 32 Y + drop_bit 32 Z + W, push_bit 32 CS OR (X AND ?m))"
    unfolding mul_split_def Let_def X_def Y_def Z_def W_def CS_def ..
  show "uint (fst (mul_split a b)) = uint a * uint b div 2 ^ 64"
    using top pos unfolding split fst_conv lp
    by (simp add: uint_add_small uint_drop CS Y Z W)
  show "uint (snd (mul_split a b)) = uint a * uint b mod 2 ^ 64"
    unfolding split snd_conv uint_shifted_or lm by (simp only: CS X)
qed

lemma mul_overflow_split_u_eq: "mul_overflow_split_u a b = builtin_mul_u a b"
proof -
  have "snd (mul_split a b) = word_of_int (uint a * uint b)"
    by (rule word_uint_eqI) (simp add: mul_split_halves uint_word_ariths)
  moreover have "fst (mul_split a b) \<noteq> 0 \<longleftrightarrow> uint a * uint b div 2 ^ 64 \<noteq> 0"
    using mul_split_halves(1) [of a b] by (metis unsigned_0 word_uint_eq_iff)
  moreover have "uint (word_of_int (uint a * uint b) :: u64) \<noteq> uint a * uint b \<longleftrightarrow> uint a * uint b div 2 ^ 64 \<noteq> 0"
    using mul_split_halves(2) [of a b] calculation(1)
      div_mult_mod_eq [of "uint a * uint b" "2 ^ 64"] by auto
  ultimately show ?thesis
    by (simp add: mul_overflow_split_u_def builtin_mul_u_def Let_def case_prod_beta)
qed

lemma and_uminus_lowest:
  fixes x :: "'a::len word"
  assumes "bit x n" "\<forall>m<n. \<not> bit x m"
  shows "x AND - x = 2 ^ n"
proof -
  have n: "n < LENGTH('a)" using assms(1) by (rule bit_imp_le_length)
  have "x - 1 = unset_bit n x + mask n"
    using assms(1) by (simp add: unset_bit_eq mask_eq_exp_minus_1)
  also have "\<dots> = unset_bit n x OR mask n"
    using assms(2) by (intro disjunctive_add_eq_or) (auto simp: bit_eq_iff bit_simps)
  finally have "x AND - x = x AND NOT (unset_bit n x OR mask n)"
    by (simp add: minus_eq_not_minus_1)
  also have "\<dots> = 2 ^ n"
    using assms n by (intro bit_word_eqI) (auto simp: bit_simps)
  finally show ?thesis .
qed

definition parity_sum :: "nat \<Rightarrow> nat" where
  "parity_sum n =
    (if odd ((0x00000000ffffffff :: nat) div 2 ^ n) then 0 else 32)
    + (if odd ((0x0000ffff0000ffff :: nat) div 2 ^ n) then 0 else 16)
    + (if odd ((0x00ff00ff00ff00ff :: nat) div 2 ^ n) then 0 else 8)
    + (if odd ((0x0f0f0f0f0f0f0f0f :: nat) div 2 ^ n) then 0 else 4)
    + (if odd ((0x3333333333333333 :: nat) div 2 ^ n) then 0 else 2)
    + (if odd ((0x5555555555555555 :: nat) div 2 ^ n) then 0 else 1)"

lemma parity_sum_table: "list_all (\<lambda>n. parity_sum n = n) [0..<64]"
  by (simp add: upt_rec parity_sum_def)

lemma parity_sum_id: "n < 64 \<Longrightarrow> parity_sum n = n"
  using parity_sum_table by (simp add: list_all_iff)

lemma bit_numeral_u64:
  "n < 64 \<Longrightarrow> bit (word_of_nat k :: u64) n \<longleftrightarrow> odd (k div 2 ^ n)"
  by (simp add: bit_of_nat_iff flip: bit_iff_odd)

lemma ntz_power_bits:
  assumes "n < 64" "x AND - x = (2 ^ n :: u64)"
  shows "ntz x = int (parity_sum n)"
proof -
  have test: "(2 ^ n :: u64) AND m \<noteq> 0 \<longleftrightarrow> bit m n" for m
    using and_exp_eq_0_iff_not_bit [of m n] by (simp add: and.commute)
  have nz: "(2 ^ n :: u64) \<noteq> 0" using assms(1) by simp
  note bits = bit_numeral_u64 [OF assms(1), of "0x00000000ffffffff"] bit_numeral_u64 [OF assms(1), of "0x0000ffff0000ffff"]
    bit_numeral_u64 [OF assms(1), of "0x00ff00ff00ff00ff"] bit_numeral_u64 [OF assms(1), of "0x0f0f0f0f0f0f0f0f"]
    bit_numeral_u64 [OF assms(1), of "0x3333333333333333"] bit_numeral_u64 [OF assms(1), of "0x5555555555555555"]
  show ?thesis
    unfolding ntz_def Let_def assms(2) test parity_sum_def
    using nz bits by (simp add: of_nat_add)
qed

lemma clp2_64_power:
  assumes "0 < x" "uint x \<le> 2 ^ 63"
  shows "\<exists>k. uint (clp2_64 x) = 2 ^ k \<and> uint x \<le> 2 ^ k \<and> 2 ^ k < 2 * uint x"
proof (cases "uint x = 1")
  case True
  then have "x = 1" by (metis uint_1_eq word_uint_eq_iff)
  then show ?thesis by (intro exI [of _ 0]) (simp add: clp2_64_def)
next
  case False
  have "0 < uint x" using assms(1) by (simp add: word_less_def)
  then have "0 < uint x - 1" "uint x - 1 < 2 ^ 63" using False assms(2) by auto
  then obtain k where k: "k < 63" "2 ^ k \<le> uint x - 1" "uint x - 1 < 2 ^ Suc k"
    by (rule power_bracket)
  obtain y where y: "clp2_64 x = y + 1" "smeared 64 (x - 1) y" using clp2_64_smeared by blast
  have "uint (y + 1) = 2 ^ Suc k"
    using y(2) k by (intro smeared_ceiling [of 64 x y k]) auto
  then show ?thesis using y(1) k by (intro exI [of _ "Suc k"]) auto
qed

lemma clp2_64_nat:
  assumes "0 < n" "n \<le> 2 ^ 63"
  shows "\<exists>k. unat (clp2_64 (word_of_nat n)) = 2 ^ k \<and> n \<le> 2 ^ k \<and> 2 ^ k < 2 * n"
proof -
  let ?w = "word_of_nat n :: u64"
  have u: "unat ?w = n" using assms(2) by (intro unat_of_nat_small) simp
  then have i: "uint ?w = int n" by (metis uint_nat)
  have "0 < ?w" using u assms(1) by (metis unat_0 word_gt_0 less_irrefl)
  moreover have "uint ?w \<le> 2 ^ 63" using i assms(2) by simp
  ultimately obtain k where k: "uint (clp2_64 ?w) = 2 ^ k" "int n \<le> 2 ^ k" "2 ^ k < 2 * int n"
    using clp2_64_power [of ?w] i by metis
  have "unat (clp2_64 ?w) = 2 ^ k" using k(1) by (simp add: unat_eq_nat_uint nat_power_eq)
  moreover have "n \<le> 2 ^ k" using k(2) by (metis of_nat_le_iff of_nat_numeral of_nat_power)
  moreover have "2 ^ k < 2 * n" using k(3) by (metis of_nat_less_iff of_nat_mult of_nat_numeral of_nat_power)
  ultimately show ?thesis by blast
qed

lemma clp2_64_ge: "0 < n \<Longrightarrow> n \<le> 2 ^ 63 \<Longrightarrow> n \<le> unat (clp2_64 (word_of_nat n))"
  using clp2_64_nat [of n] by auto

section \<open>Properties\<close>

text \<open>\<^verbatim>\<open>clp2\<close> on 64 bits returns the least power of two that is at least its argument, for every
  argument from 1 to \<open>2^63\<close>; the bit-smearing loop never rounds up too far.\<close>
theorem clp2_64_correct:
  assumes "0 < x" "uint x \<le> 2 ^ 63"
  shows "\<exists>k. uint (clp2_64 x) = 2 ^ k \<and> uint x \<le> 2 ^ k \<and> 2 ^ k < 2 * uint x"
  using assms by (rule clp2_64_power)

theorem clp2_64_correct_witness:
  "\<exists>k. uint (clp2_64 100) = 2 ^ k \<and> uint (100 :: u64) \<le> 2 ^ k \<and> 2 ^ k < 2 * uint (100 :: u64)"
  by (rule clp2_64_correct) (simp_all add: word_less_def)

text \<open>Outside that range \<^verbatim>\<open>clp2\<close> wraps to zero: for 0 and for every argument above \<open>2^63\<close>, which is
  what the callers detect with their test \<^verbatim>\<open>new_capacity < min_capacity\<close>.\<close>
theorem clp2_64_wraps: "x = 0 \<or> 2 ^ 63 < uint x \<Longrightarrow> clp2_64 x = 0"
proof -
  assume h: "x = 0 \<or> 2 ^ 63 < uint x"
  obtain y where y: "clp2_64 x = y + 1" "smeared 64 (x - 1) y" using clp2_64_smeared by blast
  have "2 ^ 63 \<le> uint (x - 1)"
  proof (cases "x = 0")
    case False
    then have "1 \<le> x" using word_neq_0_conv [of x] by (simp add: word_le_def word_less_def)
    then have "uint (x - 1) = uint x - 1" by (simp add: uint_minus_simple_alt [THEN iffD1])
    then show ?thesis using h False by simp
  qed (simp add: unsigned_minus_1_eq_mask mask_eq_exp_minus_1)
  then have "y = mask (Suc 63)"
    using y(2) uint_lt2p [of "x - 1"] by (intro smeared_mask [of 64 "x - 1" y 63]) auto
  then show ?thesis using y(1) by (simp add: mask_eq_exp_minus_1)
qed

theorem clp2_64_wraps_witness: "clp2_64 0 = 0 \<and> clp2_64 0x8000000000000001 = 0"
  using clp2_64_wraps [where x = 0] clp2_64_wraps [where x = "0x8000000000000001"] by simp

text \<open>\<^verbatim>\<open>ntz\<close> returns the index of the lowest set bit of its argument.\<close>
theorem ntz_correct:
  assumes "bit x n" "\<forall>m<n. \<not> bit x m"
  shows "ntz x = int n"
  using and_uminus_lowest [OF assms] ntz_power_bits [of n x] parity_sum_id [of n]
    bit_imp_le_length [OF assms(1)] by simp

theorem ntz_correct_witness: "ntz 40 = 3"
proof -
  have "bit (40 :: u64) 3" by (simp add: bit_numeral_rec)
  moreover have "\<forall>m<3. \<not> bit (40 :: u64) m"
    by (simp add: numeral_3_eq_3 less_Suc_eq bit_numeral_rec)
  ultimately show ?thesis using ntz_correct [of 40 3] by simp
qed

text \<open>C32: how the additions written for compilers without a builtin compare with the builtin.  The x86 versions and the
  unsigned ARM version return the same sum and the same flag at every width.  The signed ARM version returns the same
  sum at every width, and the same flag from 32 bits on; for the narrower types, which integer promotion widens, it
  reports an overflow when there is one and, besides, whenever both operands are negative.\<close>
theorem add_overflow_exact:
  fixes a b :: "'a::len word"
  shows "add_overflow_x86_s a b = builtin_add_s a b \<and> add_overflow_x86_u a b = builtin_add_u a b \<and>
    add_overflow_arm_u a b = builtin_add_u a b \<and>
    add_overflow_arm_s a b = (fst (builtin_add_s a b) \<or> LENGTH('a) < 32 \<and> sint a < 0 \<and> sint b < 0, snd (builtin_add_s a b))"
  by (simp add: add_overflow_x86_s_eq add_overflow_arm_s_eq add_overflow_u_eq)

text \<open>The multiplications through a type of twice the width, and the 64-bit unsigned multiplication
  through four 32-bit products, return the same product and the same flag as the builtin.\<close>
theorem mul_overflow_exact:
  fixes a b :: "'a::len word" and p q :: u64
  assumes "LENGTH('b::len) = 2 * LENGTH('a)"
  shows "mul_overflow_wide_s TYPE('b) a b = builtin_mul_s a b \<and>
    mul_overflow_wide_u TYPE('b) a b = builtin_mul_u a b \<and>
    mul_overflow_split_u p q = builtin_mul_u p q"
  using assms by (simp add: mul_overflow_wide_s_eq mul_overflow_wide_u_eq mul_overflow_split_u_eq)

theorem mul_overflow_exact_witness:
  "mul_overflow_wide_s TYPE(64) (7 :: u32) 5 = builtin_mul_s 7 5 \<and>
    mul_overflow_wide_u TYPE(64) (7 :: u32) 5 = builtin_mul_u 7 5 \<and>
    mul_overflow_split_u 3 4 = builtin_mul_u 3 4"
  by (rule mul_overflow_exact) simp

text \<open>The ARM overloads for promoted types are wrong.  For \<^verbatim>\<open>signed char\<close> operands \<open>-1\<close> and \<open>-1\<close> the
  sum is \<open>-2\<close> and fits, but the flag reports an overflow, because the promoted operands differ from the
  zero-extended sum above bit 7.\<close>
theorem add_overflow_arm_narrow_spurious:
  "add_overflow_arm_s (- 1 :: u8) (- 1) = (True, - 2) \<and> builtin_add_s (- 1 :: u8) (- 1) = (False, - 2)"
  by (simp add: add_overflow_arm_s_def add_overflow_arm_narrow_def builtin_add_s_eq Let_def)

text \<open>The signed 64-bit multiplication through four products is wrong: it takes the high half of the
  unsigned product for the signed one, and reports an overflow for \<open>-1 * 1\<close>.\<close>
theorem mul_overflow_split_s_spurious:
  "mul_overflow_split_s (- 1) 1 = (True, - 1) \<and> builtin_mul_s (- 1 :: u64) 1 = (False, - 1)"
  by code_simp

end
