(* ===== verification/Storage.thy ===== *)
theory Storage
  imports Machine_Arith
begin

text \<open>
  The storages of \<^verbatim>\<open>utility/storage.hpp\<close> under lifetime checking.  A storage is a row of cells; a cell
  holds no object (\<open>Raw\<close>), an object (\<open>Live\<close>) or an object that has been moved from (\<open>Moved\<close>).
  Constructing over an object, destructing or assigning where there is none, reading a moved-from
  object and leaving the row are the undefined behaviours, and are \<open>None\<close>.  Deallocating a row that
  still holds objects loses them, and is \<open>None\<close> too.

  The two kinds of storage are told apart by the configuration: a \<^verbatim>\<open>static_storage\<close> has a capacity
  in its type; a \<^verbatim>\<open>dynamic_storage\<close> asks an allocator, which may refuse.  The allocator is not part of
  the model, so whether it grants \<open>n\<close> cells is a parameter.
\<close>

section \<open>Cells\<close>

datatype 'a cell = Raw | Moved | Live 'a

fun construct_at :: "nat \<Rightarrow> 'a \<Rightarrow> 'a cell list \<Rightarrow> 'a cell list option" where
  "construct_at i x cs = (if i < length cs \<and> cs ! i = Raw then Some (cs[i := Live x]) else None)"

fun destruct_at :: "nat \<Rightarrow> 'a cell list \<Rightarrow> 'a cell list option" where
  "destruct_at i cs = (if i < length cs \<and> cs ! i \<noteq> Raw then Some (cs[i := Raw]) else None)"

text \<open>\<^verbatim>\<open>*p\<close>, \<^verbatim>\<open>std::move(*p)\<close> (\<^verbatim>\<open>iter_move\<close>) and \<^verbatim>\<open>*p = value\<close>.\<close>

fun read_at :: "nat \<Rightarrow> 'a cell list \<Rightarrow> 'a option" where
  "read_at i cs = (if i < length cs then (case cs ! i of Live x \<Rightarrow> Some x | _ \<Rightarrow> None) else None)"

fun move_at :: "nat \<Rightarrow> 'a cell list \<Rightarrow> ('a \<times> 'a cell list) option" where
  "move_at i cs = do { x \<leftarrow> read_at i cs; Some (x, cs[i := Moved]) }"

fun assign_at :: "nat \<Rightarrow> 'a \<Rightarrow> 'a cell list \<Rightarrow> 'a cell list option" where
  "assign_at i x cs = (if i < length cs \<and> cs ! i \<noteq> Raw then Some (cs[i := Live x]) else None)"

text \<open>\<^verbatim>\<open>*dst = std::move(*src)\<close>.  Where both are the same object the assignment is a self-move, which
  leaves the object in the valid but unspecified state of a moved-from object.\<close>

fun move_assign :: "nat \<Rightarrow> nat \<Rightarrow> 'a cell list \<Rightarrow> 'a cell list option" where
  "move_assign dst src cs = do {
     (y, cs') \<leftarrow> move_at src cs;
     if dst = src then Some cs' else assign_at dst y cs' }"

section \<open>Ranges\<close>

text \<open>\<^verbatim>\<open>construct_fill(begin, count, value)\<close>, \<^verbatim>\<open>construct_range(start, begin, end)\<close> over given values and
  over move iterators into another row, and \<^verbatim>\<open>destruct_range(begin, end)\<close>.\<close>

fun construct_fill :: "nat \<Rightarrow> nat \<Rightarrow> 'a \<Rightarrow> 'a cell list \<Rightarrow> 'a cell list option" where
  "construct_fill i 0 x cs = Some cs"
| "construct_fill i (Suc n) x cs = do { cs' \<leftarrow> construct_at i x cs; construct_fill (Suc i) n x cs' }"

fun construct_range :: "nat \<Rightarrow> 'a list \<Rightarrow> 'a cell list \<Rightarrow> 'a cell list option" where
  "construct_range i [] cs = Some cs"
| "construct_range i (x # xs) cs = do { cs' \<leftarrow> construct_at i x cs; construct_range (Suc i) xs cs' }"

fun construct_copy :: "nat \<Rightarrow> nat \<Rightarrow> nat \<Rightarrow> 'a cell list \<Rightarrow> 'a cell list \<Rightarrow> 'a cell list option" where
  "construct_copy i j 0 src cs = Some cs"
| "construct_copy i j (Suc n) src cs =
    do { x \<leftarrow> read_at j src; cs' \<leftarrow> construct_at i x cs; construct_copy (Suc i) (Suc j) n src cs' }"

fun construct_move ::
    "nat \<Rightarrow> nat \<Rightarrow> nat \<Rightarrow> 'a cell list \<Rightarrow> 'a cell list \<Rightarrow> ('a cell list \<times> 'a cell list) option" where
  "construct_move i j 0 src cs = Some (src, cs)"
| "construct_move i j (Suc n) src cs =
    do { (x, src') \<leftarrow> move_at j src; cs' \<leftarrow> construct_at i x cs;
         construct_move (Suc i) (Suc j) n src' cs' }"

fun destruct_count :: "nat \<Rightarrow> nat \<Rightarrow> 'a cell list \<Rightarrow> 'a cell list option" where
  "destruct_count i 0 cs = Some cs"
| "destruct_count i (Suc n) cs = do { cs' \<leftarrow> destruct_at i cs; destruct_count (Suc i) n cs' }"

definition destruct_range :: "nat \<Rightarrow> nat \<Rightarrow> 'a cell list \<Rightarrow> 'a cell list option" where
  "destruct_range i j cs = (if i \<le> j then destruct_count i (j - i) cs else None)"

section \<open>Storages and reservation strategies\<close>

record config =
  static_capacity :: "nat option"
  alloc_ok :: "nat \<Rightarrow> bool"

record 'a storage =
  good :: bool
  cells :: "'a cell list"

definition fresh_storage :: "config \<Rightarrow> 'a storage" where
  "fresh_storage cfg = (case static_capacity cfg of
     Some C \<Rightarrow> \<lparr>good = True, cells = replicate C Raw\<rparr>
   | None \<Rightarrow> \<lparr>good = False, cells = []\<rparr>)"

definition storage_allocate :: "config \<Rightarrow> nat \<Rightarrow> 'a storage \<Rightarrow> bool \<times> 'a storage" where
  "storage_allocate cfg capacity st = (case static_capacity cfg of
     Some C \<Rightarrow> (capacity = C, st)
   | None \<Rightarrow> if alloc_ok cfg capacity then (True, \<lparr>good = True, cells = replicate capacity Raw\<rparr>)
             else (False, \<lparr>good = False, cells = []\<rparr>))"

definition storage_deallocate :: "config \<Rightarrow> nat \<Rightarrow> 'a storage \<Rightarrow> 'a storage option" where
  "storage_deallocate cfg capacity st = (case static_capacity cfg of
     Some C \<Rightarrow> if capacity = C then Some st else None
   | None \<Rightarrow> if good st \<and> length (cells st) = capacity \<and> (\<forall>c\<in>set (cells st). c = Raw)
             then Some \<lparr>good = False, cells = []\<rparr> else None)"

definition reserve_exact :: "config \<Rightarrow> nat \<Rightarrow> nat" where
  "reserve_exact cfg n = (case static_capacity cfg of Some C \<Rightarrow> C | None \<Rightarrow> n)"

definition reserve_power_of_two :: "config \<Rightarrow> nat \<Rightarrow> nat" where
  "reserve_power_of_two cfg n = (case static_capacity cfg of
     Some C \<Rightarrow> C | None \<Rightarrow> unat (clp2_64 (word_of_nat n)))"

definition reserve_nonempty :: "config \<Rightarrow> nat \<Rightarrow> nat" where
  "reserve_nonempty cfg n = reserve_power_of_two cfg (if n < 1 then 1 else n)"

section \<open>Range lemmas\<close>

text \<open>The rows the containers keep are a live prefix and a raw suffix; each range operation maps such a
  shape to such a shape.\<close>

lemma construct_fill_shape:
  "i = length pre \<Longrightarrow> construct_fill i n x (pre @ replicate n Raw @ post) = Some (pre @ replicate n (Live x) @ post)"
proof (induction n arbitrary: i pre)
  case (Suc n)
  have "construct_fill (Suc i) n x ((pre @ [Live x]) @ replicate n Raw @ post) =
      Some ((pre @ [Live x]) @ replicate n (Live x) @ post)"
    using Suc.prems by (intro Suc.IH) simp
  then show ?case using Suc.prems by (simp add: nth_append list_update_append)
qed simp

lemma construct_range_shape:
  "i = length pre \<Longrightarrow> construct_range i xs (pre @ replicate (length xs) Raw @ post) = Some (pre @ map Live xs @ post)"
proof (induction xs arbitrary: i pre)
  case (Cons x xs)
  have "construct_range (Suc i) xs ((pre @ [Live x]) @ replicate (length xs) Raw @ post) =
      Some ((pre @ [Live x]) @ map Live xs @ post)"
    using Cons.prems by (intro Cons.IH) simp
  then show ?case using Cons.prems by (simp add: nth_append list_update_append)
qed simp

lemma construct_copy_shape:
  "i = length pre \<Longrightarrow> j = length spre \<Longrightarrow>
   construct_copy i j (length xs) (spre @ map Live xs @ spost) (pre @ replicate (length xs) Raw @ post)
     = Some (pre @ map Live xs @ post)"
proof (induction xs arbitrary: i j pre spre)
  case (Cons x xs)
  have "construct_copy (Suc i) (Suc j) (length xs) ((spre @ [Live x]) @ map Live xs @ spost)
      ((pre @ [Live x]) @ replicate (length xs) Raw @ post) = Some ((pre @ [Live x]) @ map Live xs @ post)"
    using Cons.prems by (intro Cons.IH) simp_all
  then show ?case using Cons.prems by (simp add: nth_append list_update_append)
qed simp

lemma construct_move_shape:
  "i = length pre \<Longrightarrow> j = length spre \<Longrightarrow>
   construct_move i j (length xs) (spre @ map Live xs @ spost) (pre @ replicate (length xs) Raw @ post)
     = Some (spre @ replicate (length xs) Moved @ spost, pre @ map Live xs @ post)"
proof (induction xs arbitrary: i j pre spre)
  case (Cons x xs)
  have "construct_move (Suc i) (Suc j) (length xs) ((spre @ [Moved]) @ map Live xs @ spost)
      ((pre @ [Live x]) @ replicate (length xs) Raw @ post) =
      Some ((spre @ [Moved]) @ replicate (length xs) Moved @ spost, (pre @ [Live x]) @ map Live xs @ post)"
    using Cons.prems by (intro Cons.IH) simp_all
  then show ?case using Cons.prems by (simp add: nth_append list_update_append)
qed simp

lemma destruct_count_shape:
  "i = length pre \<Longrightarrow> \<forall>c\<in>set mid. c \<noteq> Raw \<Longrightarrow>
   destruct_count i (length mid) (pre @ mid @ post) = Some (pre @ replicate (length mid) Raw @ post)"
proof (induction mid arbitrary: i pre)
  case (Cons c mid)
  have "destruct_count (Suc i) (length mid) ((pre @ [Raw]) @ mid @ post) =
      Some ((pre @ [Raw]) @ replicate (length mid) Raw @ post)"
    using Cons.prems by (intro Cons.IH) auto
  then show ?case using Cons.prems by (simp add: nth_append list_update_append)
qed simp

lemma destruct_range_shape:
  assumes "i = length pre" "j = length pre + length mid" "\<forall>c\<in>set mid. c \<noteq> Raw"
  shows "destruct_range i j (pre @ mid @ post) = Some (pre @ replicate (length mid) Raw @ post)"
  using assms destruct_count_shape [of i pre mid post] by (simp add: destruct_range_def)

lemma destruct_range_empty [simp]: "destruct_range i i cs = Some cs"
  by (simp add: destruct_range_def)

lemma reserve_power_of_two_grows:
  "static_capacity cfg = None \<Longrightarrow> reserve_power_of_two cfg n < 2 ^ 64"
  using unsigned_less [of "clp2_64 (word_of_nat n)"] by (simp add: reserve_power_of_two_def)

section \<open>Single-cell lemmas\<close>

lemma construct_at_shape: "i = length pre \<Longrightarrow> construct_at i x (pre @ Raw # post) = Some (pre @ Live x # post)"
  by (simp add: nth_append list_update_append)

lemma destruct_at_shape:
  "i = length pre \<Longrightarrow> c \<noteq> Raw \<Longrightarrow> destruct_at i (pre @ c # post) = Some (pre @ Raw # post)"
  by (simp add: nth_append list_update_append)

lemma read_at_live: "i < length cs \<Longrightarrow> cs ! i = Live x \<Longrightarrow> read_at i cs = Some x"
  by simp

lemma move_at_live: "i < length cs \<Longrightarrow> cs ! i = Live x \<Longrightarrow> move_at i cs = Some (x, cs[i := Moved])"
  by simp

lemma assign_at_object: "i < length cs \<Longrightarrow> cs ! i \<noteq> Raw \<Longrightarrow> assign_at i x cs = Some (cs[i := Live x])"
  by simp

lemma destruct_at_object: "i < length cs \<Longrightarrow> cs ! i \<noteq> Raw \<Longrightarrow> destruct_at i cs = Some (cs[i := Raw])"
  by simp

lemma construct_at_raw: "i < length cs \<Longrightarrow> cs ! i = Raw \<Longrightarrow> construct_at i x cs = Some (cs[i := Live x])"
  by simp

lemma move_assign_self: "i < length cs \<Longrightarrow> cs ! i = Live x \<Longrightarrow> move_assign i i cs = Some (cs[i := Moved])"
  by simp

lemma move_assign_other:
  "i \<noteq> j \<Longrightarrow> i < length cs \<Longrightarrow> cs ! i \<noteq> Raw \<Longrightarrow> j < length cs \<Longrightarrow> cs ! j = Live x \<Longrightarrow>
   move_assign i j cs = Some (cs[j := Moved, i := Live x])"
  by simp

lemmas cell_defs = construct_at.simps destruct_at.simps read_at.simps move_at.simps assign_at.simps
  move_assign.simps

lemmas cell_steps [cell_simps] =
  read_at_live move_at_live assign_at_object destruct_at_object construct_at_raw
  move_assign_self move_assign_other

declare cell_defs [simp del]

end
