(* ===== verification/Vector.thy ===== *)
theory Vector
  imports Storage "HOL-Library.Multiset"
begin

text \<open>
  The vector of \<^verbatim>\<open>utility/container/vector.hpp\<close> with the copy and move operations it inherits from
  \<^verbatim>\<open>utility/container/container.hpp\<close>.  The positions \<^verbatim>\<open>cap_\<close> and \<^verbatim>\<open>end_\<close> are indices into the
  storage; an iterator argument is an index too.  Every operation is the whole function, on lifetime
  checked cells, and returns \<open>None\<close> where the code would use an object that is not there.
\<close>

record 'a vec =
  stor :: "'a storage"
  vcap :: nat
  vend :: nat

section \<open>Data operations\<close>

definition capacity :: "config \<Rightarrow> 'a vec \<Rightarrow> nat" where
  "capacity cfg v = (case static_capacity cfg of Some C \<Rightarrow> C | None \<Rightarrow> vcap v)"

definition vsize :: "'a vec \<Rightarrow> nat" where
  "vsize v = vend v"

abbreviation vcells :: "'a vec \<Rightarrow> 'a cell list" where
  "vcells v \<equiv> cells (stor v)"

abbreviation set_cells :: "'a cell list \<Rightarrow> 'a vec \<Rightarrow> 'a vec" where
  "set_cells cs v \<equiv> v\<lparr>stor := (stor v)\<lparr>cells := cs\<rparr>\<rparr>"

definition uninit_vec :: "config \<Rightarrow> 'a vec" where
  "uninit_vec cfg = \<lparr>stor = fresh_storage cfg, vcap = 0, vend = 0\<rparr>"

definition vec_release :: "config \<Rightarrow> 'a vec \<Rightarrow> 'a vec" where
  "vec_release cfg v = (if static_capacity cfg = None then v\<lparr>vcap := 0, vend := 0\<rparr> else v)"

definition vec_allocate :: "config \<Rightarrow> nat \<Rightarrow> 'a vec \<Rightarrow> bool \<times> 'a vec" where
  "vec_allocate cfg n v =
    (let (ok, st) = storage_allocate cfg n (stor v)
     in if ok then (True, v\<lparr>stor := st, vcap := n\<rparr>)
        else (False, vec_release cfg (v\<lparr>stor := st\<rparr>)))"

definition vec_new :: "config \<Rightarrow> nat \<Rightarrow> 'a vec" where
  "vec_new cfg min_capacity =
    (let (ok, v) = vec_allocate cfg (reserve_power_of_two cfg min_capacity) (uninit_vec cfg)
     in if ok then v\<lparr>vend := 0\<rparr> else v)"

definition vec_copy :: "'a vec \<Rightarrow> 'a vec \<Rightarrow> 'a vec option" where
  "vec_copy other v = do {
     cs \<leftarrow> construct_copy 0 0 (vend other) (vcells other) (vcells v);
     Some ((set_cells cs v)\<lparr>vend := vend other\<rparr>) }"

definition vec_move :: "'a vec \<Rightarrow> 'a vec \<Rightarrow> ('a vec \<times> 'a vec) option" where
  "vec_move other v = do {
     (ocs, cs) \<leftarrow> construct_move 0 0 (vend other) (vcells other) (vcells v);
     Some (set_cells ocs other, (set_cells cs v)\<lparr>vend := vend other\<rparr>) }"

definition vec_clear_data :: "'a vec \<Rightarrow> 'a vec option" where
  "vec_clear_data v = do { cs \<leftarrow> destruct_range 0 (vend v) (vcells v); Some (set_cells cs v) }"

definition vec_purge :: "config \<Rightarrow> 'a vec \<Rightarrow> 'a vec option" where
  "vec_purge cfg v =
    (if good (stor v) then do {
       cs \<leftarrow> destruct_range 0 (vend v) (vcells v);
       st \<leftarrow> storage_deallocate cfg (capacity cfg v) ((stor v)\<lparr>cells := cs\<rparr>);
       Some (v\<lparr>stor := st\<rparr>) }
     else Some v)"

definition vec_try_reallocate :: "config \<Rightarrow> nat \<Rightarrow> 'a vec \<Rightarrow> (bool \<times> 'a vec) option" where
  "vec_try_reallocate cfg min_capacity v =
    (if static_capacity cfg \<noteq> None then Some (False, v)
     else let new_capacity = reserve_power_of_two cfg min_capacity in
       if new_capacity < min_capacity then Some (False, v)
       else case vec_allocate cfg new_capacity (uninit_vec cfg) of
         (False, _) \<Rightarrow> Some (False, v)
       | (True, new_data) \<Rightarrow> do {
           (old, new_data) \<leftarrow> vec_move v new_data;
           _ \<leftarrow> vec_purge cfg old;
           Some (True, new_data) })"

section \<open>Vector operations\<close>

definition vec_clear :: "'a vec \<Rightarrow> 'a vec option" where
  "vec_clear v = do {
     cs \<leftarrow> destruct_range 0 (vend v) (vcells v);
     Some ((set_cells cs v)\<lparr>vend := 0\<rparr>) }"

definition try_reserve :: "config \<Rightarrow> nat \<Rightarrow> 'a vec \<Rightarrow> (bool \<times> 'a vec) option" where
  "try_reserve cfg min_capacity v =
    (if min_capacity \<le> capacity cfg v then Some (True, v)
     else vec_try_reallocate cfg min_capacity v)"

definition resize :: "config \<Rightarrow> nat \<Rightarrow> 'a \<Rightarrow> 'a vec \<Rightarrow> (bool \<times> 'a vec) option" where
  "resize cfg n x v =
    (if n < vsize v then do {
       cs \<leftarrow> destruct_range n (vend v) (vcells v);
       Some (True, (set_cells cs v)\<lparr>vend := n\<rparr>) }
     else do {
       (ok, v) \<leftarrow> (if n > capacity cfg v then vec_try_reallocate cfg n v else Some (True, v));
       if \<not> ok then Some (False, v)
       else do {
         cs \<leftarrow> construct_fill (vend v) (n - vsize v) x (vcells v);
         Some (True, (set_cells cs v)\<lparr>vend := n\<rparr>) } })"

definition emplace_back_no_failure :: "'a \<Rightarrow> 'a vec \<Rightarrow> 'a vec option" where
  "emplace_back_no_failure x v = do {
     cs \<leftarrow> construct_at (vend v) x (vcells v);
     Some ((set_cells cs v)\<lparr>vend := Suc (vend v)\<rparr>) }"

definition emplace_back_no_reallocate :: "config \<Rightarrow> 'a \<Rightarrow> 'a vec \<Rightarrow> (bool \<times> 'a vec) option" where
  "emplace_back_no_reallocate cfg x v =
    (if vend v \<noteq> capacity cfg v then do { v' \<leftarrow> emplace_back_no_failure x v; Some (True, v') }
     else Some (False, v))"

definition try_emplace_back :: "config \<Rightarrow> 'a \<Rightarrow> 'a vec \<Rightarrow> (bool \<times> 'a vec) option" where
  "try_emplace_back cfg x v = do {
     (ok, v) \<leftarrow> emplace_back_no_reallocate cfg x v;
     if ok then Some (True, v)
     else do {
       (ok, v) \<leftarrow> try_reserve cfg (vsize v + 1) v;
       if ok then do { v \<leftarrow> emplace_back_no_failure x v; Some (True, v) }
       else Some (False, v) } }"

fun push_back_range :: "'a list \<Rightarrow> 'a vec \<Rightarrow> 'a vec option" where
  "push_back_range [] v = Some v"
| "push_back_range (x # xs) v = do { v \<leftarrow> emplace_back_no_failure x v; push_back_range xs v }"

text \<open>\<^verbatim>\<open>insert(it, p)\<close> appends the element at \<^verbatim>\<open>it\<close> and overwrites it.  The appended value is a reference
  into the vector and \<^verbatim>\<open>it\<close> a pointer: when the append reallocates, both point into the row that has
  been deallocated, and using them is undefined.\<close>

definition insert :: "config \<Rightarrow> nat \<Rightarrow> 'a \<Rightarrow> 'a vec \<Rightarrow> (bool \<times> 'a vec) option" where
  "insert cfg it x v =
    (if it \<noteq> vend v then
       if vend v \<noteq> capacity cfg v then do {
         (y, cs) \<leftarrow> move_at it (vcells v);
         v \<leftarrow> emplace_back_no_failure y (set_cells cs v);
         cs \<leftarrow> assign_at it x (vcells v);
         Some (True, set_cells cs v) }
       else do {
         (ok, v') \<leftarrow> try_reserve cfg (vsize v + 1) v;
         if ok then None else Some (False, v') }
     else try_emplace_back cfg x v)"

definition erase :: "nat \<Rightarrow> 'a vec \<Rightarrow> 'a vec option" where
  "erase it v =
    (if \<not> (it < vend v) then Some v
     else do {
       let lst = vend v - 1;
       cs \<leftarrow> move_assign it lst (vcells v);
       cs \<leftarrow> destruct_at lst cs;
       Some ((set_cells cs v)\<lparr>vend := lst\<rparr>) })"

fun erase_loop :: "nat \<Rightarrow> nat \<Rightarrow> nat \<Rightarrow> 'a cell list \<Rightarrow> ('a cell list \<times> nat) option" where
  "erase_loop 0 it lst cs = Some (cs, lst)"
| "erase_loop (Suc n) it lst cs = do {
     cs \<leftarrow> move_assign it (lst - 1) cs;
     cs \<leftarrow> destruct_at (lst - 1) cs;
     erase_loop n (Suc it) (lst - 1) cs }"

definition erase_range :: "nat \<Rightarrow> nat \<Rightarrow> 'a vec \<Rightarrow> 'a vec option" where
  "erase_range from to v =
    (if \<not> (from \<le> to \<and> to \<le> vend v) then Some v
     else do {
       (cs, lst) \<leftarrow> erase_loop (to - from) from (vend v) (vcells v);
       Some ((set_cells cs v)\<lparr>vend := lst\<rparr>) })"

text \<open>The loops of the stable versions: \<^verbatim>\<open>for (; read != end; ++write, ++read) *write = move(*read)\<close>.\<close>

fun shift_down :: "nat \<Rightarrow> nat \<Rightarrow> nat \<Rightarrow> 'a cell list \<Rightarrow> 'a cell list option" where
  "shift_down 0 write read cs = Some cs"
| "shift_down (Suc n) write read cs = do {
     cs \<leftarrow> move_assign write read cs;
     shift_down n (Suc write) (Suc read) cs }"

definition erase_stable :: "nat \<Rightarrow> 'a vec \<Rightarrow> 'a vec option" where
  "erase_stable it v =
    (if \<not> (it < vend v) then Some v
     else do {
       cs \<leftarrow> shift_down (vend v - (it + 1)) it (it + 1) (vcells v);
       let write = it + (vend v - (it + 1));
       cs \<leftarrow> destruct_at write cs;
       Some ((set_cells cs v)\<lparr>vend := write\<rparr>) })"

definition erase_stable_range :: "nat \<Rightarrow> nat \<Rightarrow> 'a vec \<Rightarrow> 'a vec option" where
  "erase_stable_range from to v =
    (if \<not> (from \<le> to \<and> to \<le> vend v) then Some v
     else do {
       cs \<leftarrow> shift_down (vend v - to) from to (vcells v);
       let write = from + (vend v - to);
       cs \<leftarrow> destruct_range write (vend v) cs;
       Some ((set_cells cs v)\<lparr>vend := write\<rparr>) })"

definition at :: "nat \<Rightarrow> 'a vec \<Rightarrow> 'a option" where
  "at i v = read_at i (vcells v)"

section \<open>Copying and moving whole vectors\<close>

definition vec_fits :: "config \<Rightarrow> 'a vec \<Rightarrow> 'a vec \<Rightarrow> bool" where
  "vec_fits cfg v other \<longleftrightarrow> \<not> (capacity cfg v < vsize other)"

definition vec_capacity_for :: "config \<Rightarrow> 'a vec \<Rightarrow> nat" where
  "vec_capacity_for cfg other = reserve_power_of_two cfg (vsize other)"

definition vec_copy_construct :: "config \<Rightarrow> 'a vec \<Rightarrow> 'a vec option" where
  "vec_copy_construct cfg other =
    (case vec_allocate cfg (vec_capacity_for cfg other) (uninit_vec cfg) of
       (True, v) \<Rightarrow> vec_copy other v
     | (False, v) \<Rightarrow> Some v)"

definition vec_copy_assign :: "config \<Rightarrow> 'a vec \<Rightarrow> 'a vec \<Rightarrow> 'a vec option" where
  "vec_copy_assign cfg other v =
    (if vec_fits cfg v other then do { v \<leftarrow> vec_clear_data v; vec_copy other v }
     else do {
       v \<leftarrow> vec_purge cfg v;
       case vec_allocate cfg (vec_capacity_for cfg other) v of
         (True, v) \<Rightarrow> vec_copy other v
       | (False, v) \<Rightarrow> Some v })"

text \<open>Moving a dynamic vector takes its allocation over; the source is released.  A static vector whose
  element type is not trivially copyable moves its elements one by one.\<close>

definition vec_move_construct :: "config \<Rightarrow> 'a vec \<Rightarrow> ('a vec \<times> 'a vec) option" where
  "vec_move_construct cfg other =
    (if static_capacity cfg = None then
       Some (vec_release cfg (other\<lparr>stor := \<lparr>good = False, cells = []\<rparr>\<rparr>), other)
     else case vec_allocate cfg (vec_capacity_for cfg other) (uninit_vec cfg) of
       (True, v) \<Rightarrow> vec_move other v
     | (False, v) \<Rightarrow> Some (other, v))"

definition vec_move_assign :: "config \<Rightarrow> 'a vec \<Rightarrow> 'a vec \<Rightarrow> ('a vec \<times> 'a vec) option" where
  "vec_move_assign cfg other v =
    (if static_capacity cfg = None then do {
       _ \<leftarrow> vec_purge cfg v;
       Some (vec_release cfg (other\<lparr>stor := \<lparr>good = False, cells = []\<rparr>\<rparr>), other) }
     else if vec_fits cfg v other then do { v \<leftarrow> vec_clear_data v; vec_move other v }
     else do {
       v \<leftarrow> vec_purge cfg v;
       case vec_allocate cfg (vec_capacity_for cfg other) v of
         (True, v) \<Rightarrow> vec_move other v
       | (False, v) \<Rightarrow> Some (other, v) })"


section \<open>Representation\<close>

text \<open>\<open>vec_rep cfg v xs\<close>: the vector holds exactly the elements \<open>xs\<close>, in a row whose other cells are raw.\<close>

definition vec_rep :: "config \<Rightarrow> 'a vec \<Rightarrow> 'a list \<Rightarrow> bool" where
  "vec_rep cfg v xs \<longleftrightarrow>
     vend v = length xs \<and> length xs \<le> capacity cfg v \<and>
     vcells v = map Live xs @ replicate (capacity cfg v - length xs) Raw \<and>
     (good (stor v) \<or> capacity cfg v = 0 \<and> static_capacity cfg = None)"

lemma vec_repI:
  "vend v = length xs \<Longrightarrow> length xs \<le> capacity cfg v \<Longrightarrow>
   vcells v = map Live xs @ replicate (capacity cfg v - length xs) Raw \<Longrightarrow>
   good (stor v) \<or> capacity cfg v = 0 \<and> static_capacity cfg = None \<Longrightarrow> vec_rep cfg v xs"
  by (simp add: vec_rep_def)

lemma vec_repD:
  assumes "vec_rep cfg v xs"
  shows "vend v = length xs" "length xs \<le> capacity cfg v"
    "vcells v = map Live xs @ replicate (capacity cfg v - length xs) Raw"
    "length (vcells v) = capacity cfg v"
  using assms by (auto simp: vec_rep_def)

lemma capacity_upd [simp]:
  "capacity cfg (set_cells cs v) = capacity cfg v" "capacity cfg (v\<lparr>vend := n\<rparr>) = capacity cfg v"
  "capacity cfg (v\<lparr>stor := st\<rparr>) = capacity cfg v"
  by (simp_all add: capacity_def split: option.splits)

lemma vec_rep_unique: "vec_rep cfg v xs \<Longrightarrow> vec_rep cfg v ys \<Longrightarrow> xs = ys"
proof -
  assume a: "vec_rep cfg v xs" "vec_rep cfg v ys"
  then have "map Live xs = take (vend v) (vcells v)" "map Live ys = take (vend v) (vcells v)"
    using a [THEN vec_repD(1)] a [THEN vec_repD(3)] by simp_all
  then show ?thesis by (metis cell.inject inj_map_eq_map injI)
qed

lemma at_rep: "vec_rep cfg v xs \<Longrightarrow> i < length xs \<Longrightarrow> at i v = Some (xs ! i)"
  using vec_repD [of cfg v xs] by (simp add: at_def cell_simps nth_append)

lemma vsize_rep: "vec_rep cfg v xs \<Longrightarrow> vsize v = length xs"
  by (simp add: vsize_def vec_repD)

lemma emplace_back_no_failure_rep:
  assumes "vec_rep cfg v xs" "length xs < capacity cfg v"
  shows "\<exists>v'. emplace_back_no_failure x v = Some v' \<and> vec_rep cfg v' (xs @ [x]) \<and>
    capacity cfg v' = capacity cfg v"
proof -
  define n where "n = capacity cfg v - Suc (length xs)"
  have "vcells v = map Live xs @ Raw # replicate n Raw"
    using assms vec_repD(3) [OF assms(1)] by (simp add: n_def Suc_diff_Suc flip: replicate_Suc)
  then have "construct_at (vend v) x (vcells v) = Some (map Live xs @ Live x # replicate n Raw)"
    using vec_repD(1) [OF assms(1)] by (simp add: construct_at_shape)
  then show ?thesis using assms
    by (auto simp: emplace_back_no_failure_def vec_rep_def n_def)
qed

lemma vec_allocate_dynamic:
  assumes "static_capacity cfg = None" "alloc_ok cfg n"
  shows "vec_allocate cfg n v =
    (True, v\<lparr>stor := \<lparr>good = True, cells = replicate n Raw\<rparr>, vcap := n\<rparr>)"
  using assms by (simp add: vec_allocate_def storage_allocate_def)

lemma vec_move_rep:
  assumes "vec_rep cfg v xs" "vcells nv = replicate n Raw" "length xs \<le> n"
  shows "vec_move v nv = Some (set_cells (replicate (length xs) Moved @ replicate (capacity cfg v - length xs) Raw) v,
    (set_cells (map Live xs @ replicate (n - length xs) Raw) nv)\<lparr>vend := length xs\<rparr>)"
proof -
  have "vcells nv = [] @ replicate (length xs) Raw @ replicate (n - length xs) Raw"
    using assms(2,3) by (simp flip: replicate_add)
  then show ?thesis
    using construct_move_shape [of 0 "[]" 0 "[]" xs] vec_repD [OF assms(1)]
    by (simp add: vec_move_def)
qed

lemma vec_purge_rep:
  assumes "vec_rep cfg v xs" "length mid = length xs" "\<forall>c\<in>set mid. c \<noteq> Raw"
  shows "\<exists>v'. vec_purge cfg (set_cells (mid @ replicate (capacity cfg v - length xs) Raw) v) = Some v'"
proof (cases "good (stor v)")
  case True
  have "destruct_range 0 (vend v) ([] @ mid @ replicate (capacity cfg v - length xs) Raw) =
      Some ([] @ replicate (length mid) Raw @ replicate (capacity cfg v - length xs) Raw)"
    using assms vec_repD(1) [OF assms(1)] by (intro destruct_range_shape) auto
  then show ?thesis
    using True assms vec_repD [OF assms(1)]
    by (auto simp: vec_purge_def storage_deallocate_def capacity_def split: option.splits)
qed (simp add: vec_purge_def)

lemma vec_try_reallocate_rep:
  assumes "vec_rep cfg v xs" "length xs \<le> n"
  shows "\<exists>ok v'. vec_try_reallocate cfg n v = Some (ok, v') \<and> vec_rep cfg v' xs \<and>
    (if ok then n \<le> capacity cfg v' else v' = v)"
proof (cases "static_capacity cfg = None \<and> n \<le> reserve_power_of_two cfg n \<and> alloc_ok cfg (reserve_power_of_two cfg n)")
  case False
  then show ?thesis using assms
    by (auto simp: vec_try_reallocate_def Let_def vec_allocate_def storage_allocate_def)
next
  case True
  let ?nc = "reserve_power_of_two cfg n"
  let ?nv = "uninit_vec cfg\<lparr>stor := \<lparr>good = True, cells = replicate ?nc Raw\<rparr>, vcap := ?nc\<rparr> :: 'a vec"
  have mv: "vec_move v ?nv = Some (set_cells (replicate (length xs) Moved @ replicate (capacity cfg v - length xs) Raw) v,
      (set_cells (map Live xs @ replicate (?nc - length xs) Raw) ?nv)\<lparr>vend := length xs\<rparr>)"
    using assms True by (intro vec_move_rep) auto
  obtain v' where "vec_purge cfg (set_cells (replicate (length xs) Moved @ replicate (capacity cfg v - length xs) Raw) v) = Some v'"
    using vec_purge_rep [OF assms(1), of "replicate (length xs) Moved"] by auto
  then show ?thesis using True assms mv
    by (simp add: vec_try_reallocate_def Let_def vec_allocate_dynamic vec_rep_def capacity_def ex_bool_eq)
qed

lemma try_reserve_rep:
  assumes "vec_rep cfg v xs"
  shows "\<exists>ok v'. try_reserve cfg n v = Some (ok, v') \<and> vec_rep cfg v' xs \<and>
    (if ok then n \<le> capacity cfg v' else v' = v \<and> capacity cfg v < n)"
proof (cases "n \<le> capacity cfg v")
  case True
  then show ?thesis using assms by (simp add: try_reserve_def ex_bool_eq)
next
  case False
  then have "length xs \<le> n" using vec_repD(2) [OF assms] by simp
  then obtain ok v' where "vec_try_reallocate cfg n v = Some (ok, v')" "vec_rep cfg v' xs"
    "if ok then n \<le> capacity cfg v' else v' = v"
    using vec_try_reallocate_rep [OF assms] by blast
  then show ?thesis using False by (intro exI [of _ ok] exI [of _ v']) (simp add: try_reserve_def)
qed

lemma try_emplace_back_rep:
  assumes "vec_rep cfg v xs"
  shows "\<exists>ok v'. try_emplace_back cfg x v = Some (ok, v') \<and>
    (if ok then vec_rep cfg v' (xs @ [x]) else v' = v \<and> length xs = capacity cfg v)"
proof (cases "length xs < capacity cfg v")
  case True
  then obtain w where "emplace_back_no_failure x v = Some w" "vec_rep cfg w (xs @ [x])"
    using emplace_back_no_failure_rep [OF assms] by blast
  then show ?thesis
    using True vec_repD(1) [OF assms]
    by (simp add: try_emplace_back_def emplace_back_no_reallocate_def ex_bool_eq)
next
  case False
  then have full: "length xs = capacity cfg v" using vec_repD(2) [OF assms] by simp
  obtain ok v' where r: "try_reserve cfg (length xs + 1) v = Some (ok, v')" "vec_rep cfg v' xs"
    "if ok then length xs + 1 \<le> capacity cfg v' else v' = v \<and> capacity cfg v < length xs + 1"
    using try_reserve_rep [OF assms] by blast
  show ?thesis
  proof (cases ok)
    case True
    then have "length xs < capacity cfg v'" using r(3) by simp
    then obtain w where "emplace_back_no_failure x v' = Some w" "vec_rep cfg w (xs @ [x])"
      using emplace_back_no_failure_rep [OF r(2)] by blast
    then show ?thesis
      using True full r(1) vec_repD(1) [OF assms] vsize_rep [OF assms]
      by (simp add: try_emplace_back_def emplace_back_no_reallocate_def ex_bool_eq)
  next
    case False
    then show ?thesis using full r vec_repD(1) [OF assms] vsize_rep [OF assms]
      by (simp add: try_emplace_back_def emplace_back_no_reallocate_def ex_bool_eq)
  qed
qed

section \<open>Erasing\<close>

lemma erase_cells:
  assumes "i < length xs"
  shows "do { cs \<leftarrow> move_assign i (length xs - 1) (map Live xs @ R); destruct_at (length xs - 1) cs } =
    Some (map Live (butlast (xs[i := last xs])) @ Raw # R)"
proof -
  obtain ys y where xs: "xs = ys @ [y]" using assms by (cases xs rule: rev_cases) auto
  have "\<exists>cs c. move_assign i (length ys) (map Live ys @ Live y # R) = Some (map Live cs @ c # R) \<and>
      cs = butlast (xs[i := last xs]) \<and> length cs = length ys \<and> c \<noteq> Raw"
  proof (cases "i = length ys")
    case True
    then show ?thesis using xs
      by (intro exI [of _ ys] exI [of _ "Moved"]) (simp add: move_assign_self nth_append list_update_append)
  next
    case False
    then have "i < length ys" using assms xs by simp
    then show ?thesis using xs
      by (intro exI [of _ "ys[i := y]"] exI [of _ "Moved"])
        (simp add: move_assign_other nth_append list_update_append map_update butlast_append)
  qed
  then obtain cs c where "move_assign i (length ys) (map Live ys @ Live y # R) = Some (map Live cs @ c # R)"
    and cs: "cs = butlast (xs[i := last xs])" "length cs = length ys" "c \<noteq> Raw" by blast
  moreover have "destruct_at (length ys) (map Live cs @ c # R) = Some (map Live cs @ Raw # R)"
    using cs by (intro destruct_at_shape) auto
  ultimately show ?thesis using xs cs by simp
qed

lemma raw_Cons_replicate:
  "0 < n \<Longrightarrow> n \<le> m \<Longrightarrow> Raw # replicate (m - n) Raw = replicate (m - (n - 1)) Raw"
  by (simp add: Suc_diff_le flip: replicate_Suc)

lemma erase_rep:
  assumes "vec_rep cfg v xs" "i < length xs"
  shows "\<exists>v'. erase i v = Some v' \<and> vec_rep cfg v' (butlast (xs[i := last xs])) \<and>
    capacity cfg v' = capacity cfg v"
proof -
  let ?R = "replicate (capacity cfg v - length xs) Raw"
  note r = vec_repD [OF assms(1)]
  have "do { cs \<leftarrow> move_assign i (length xs - 1) (vcells v); destruct_at (length xs - 1) cs } =
      Some (map Live (butlast (xs[i := last xs])) @ Raw # ?R)"
    using erase_cells [OF assms(2), of ?R] r(3) by simp
  then obtain cs where "move_assign i (length xs - 1) (vcells v) = Some cs"
    "destruct_at (length xs - 1) cs = Some (map Live (butlast (xs[i := last xs])) @ Raw # ?R)"
    by (auto simp: bind_eq_Some)
  moreover have "Raw # ?R = replicate (capacity cfg v - (length xs - 1)) Raw"
    using raw_Cons_replicate [of "length xs" "capacity cfg v"] r(2) assms(2) by (cases xs) auto
  ultimately show ?thesis
    using assms r unfolding erase_def vec_rep_def by (auto simp: Let_def)
qed

lemma erase_outside: "vec_rep cfg v xs \<Longrightarrow> length xs \<le> i \<Longrightarrow> erase i v = Some v"
  by (simp add: erase_def vec_repD)

lemma shift_down_shape:
  assumes "w = length pre" "r = length pre + length mid" "mid \<noteq> []" "\<forall>c\<in>set mid. c \<noteq> Raw"
  shows "\<exists>mid'. shift_down (length ts) w r (map Live pre @ mid @ map Live ts @ R) =
      Some (map Live (pre @ ts) @ mid' @ R) \<and> length mid' = length mid \<and> (\<forall>c\<in>set mid'. c \<noteq> Raw)"
  using assms
proof (induction ts arbitrary: w r pre mid)
  case (Cons t ts)
  obtain m ms where mid: "mid = m # ms" using Cons.prems(3) by (cases mid) auto
  have "move_assign w r (map Live pre @ mid @ map Live (t # ts) @ R) =
      Some (map Live (pre @ [t]) @ (ms @ [Moved]) @ map Live ts @ R)"
    using Cons.prems mid by (subst move_assign_other [of _ _ _ t]) (auto simp: nth_append list_update_append)
  moreover obtain mid' where "shift_down (length ts) (Suc w) (Suc r)
      (map Live (pre @ [t]) @ (ms @ [Moved]) @ map Live ts @ R) = Some (map Live ((pre @ [t]) @ ts) @ mid' @ R)"
    "length mid' = length (ms @ [Moved :: 'a cell])" "\<forall>c\<in>set mid'. c \<noteq> Raw"
    using Cons.IH [of "Suc w" "pre @ [t]" "Suc r" "ms @ [Moved]"] Cons.prems mid by auto
  ultimately show ?case using mid by (intro exI [of _ mid']) simp
qed (auto)

lemma erase_stable_rep:
  assumes "vec_rep cfg v xs" "i < length xs"
  shows "\<exists>v'. erase_stable i v = Some v' \<and> vec_rep cfg v' (take i xs @ drop (Suc i) xs)"
proof -
  let ?R = "replicate (capacity cfg v - length xs) Raw"
  let ?pre = "take i xs" and ?ts = "drop (Suc i) xs"
  have c: "vcells v = map Live ?pre @ [Live (xs ! i)] @ map Live ?ts @ ?R"
    using vec_repD(3) [OF assms(1)] id_take_nth_drop [OF assms(2)] by (metis (no_types) append.assoc append_Cons append_Nil map_append list.simps(9) list.simps(8))
  have n: "vend v = length xs" "length xs \<le> capacity cfg v" using vec_repD [OF assms(1)] by auto
  obtain mid' where m: "shift_down (length ?ts) i (i + 1) (vcells v) = Some (map Live (?pre @ ?ts) @ mid' @ ?R)"
    "length mid' = 1" "\<forall>c\<in>set mid'. c \<noteq> Raw"
    using shift_down_shape [of i ?pre "i + 1" "[Live (xs ! i)]" ?ts ?R] c assms(2) by auto
  then obtain c where mid': "mid' = [c]" "c \<noteq> Raw" by (cases mid') auto
  have "destruct_at (length xs - 1) (map Live (?pre @ ?ts) @ c # ?R) = Some (map Live (?pre @ ?ts) @ Raw # ?R)"
    using mid' assms(2) by (intro destruct_at_shape) auto
  moreover have "Raw # ?R = replicate (capacity cfg v - (length xs - 1)) Raw"
    using n(2) assms(2) by (simp add: Suc_diff_Suc flip: replicate_Suc)
  ultimately show ?thesis
    using assms n m mid' unfolding erase_stable_def vec_rep_def by (auto simp: Let_def)
qed

lemma erase_stable_range_rep:
  assumes "vec_rep cfg v xs" "i < j" "j \<le> length xs"
  shows "\<exists>v'. erase_stable_range i j v = Some v' \<and> vec_rep cfg v' (take i xs @ drop j xs)"
proof -
  let ?R = "replicate (capacity cfg v - length xs) Raw"
  let ?pre = "take i xs" and ?mid = "map Live (take (j - i) (drop i xs))" and ?ts = "drop j xs"
  have "xs = ?pre @ take (j - i) (drop i xs) @ ?ts"
    using assms(2) by (metis append_take_drop_id drop_drop le_add_diff_inverse2 less_imp_le)
  then have c: "vcells v = map Live ?pre @ ?mid @ map Live ?ts @ ?R"
    using vec_repD(3) [OF assms(1)] by (metis append.assoc map_append)
  have n: "vend v = length xs" "length xs \<le> capacity cfg v" using vec_repD [OF assms(1)] by auto
  obtain mid' where m: "shift_down (length ?ts) i j (vcells v) = Some (map Live (?pre @ ?ts) @ mid' @ ?R)"
    "length mid' = j - i" "\<forall>c\<in>set mid'. c \<noteq> Raw"
    using shift_down_shape [of i ?pre j ?mid ?ts ?R] c assms that by auto
  have "destruct_range (length (map Live (?pre @ ?ts) :: 'a cell list)) (length xs) (map Live (?pre @ ?ts) @ mid' @ ?R) =
      Some (map Live (?pre @ ?ts) @ replicate (length mid') Raw @ ?R)"
    using m assms by (intro destruct_range_shape) auto
  moreover have "replicate (length mid') Raw @ ?R = replicate (capacity cfg v - (i + (length xs - j))) Raw"
    using m(2) n(2) assms by (simp flip: replicate_add)
  ultimately show ?thesis
    using assms n m unfolding erase_stable_range_def vec_rep_def by (auto simp: Let_def)
qed

lemma vec_clear_rep:
  assumes "vec_rep cfg v xs"
  shows "\<exists>v'. vec_clear v = Some v' \<and> vec_rep cfg v' []"
proof -
  let ?R = "replicate (capacity cfg v - length xs) Raw"
  have "destruct_range 0 (length xs) ([] @ map Live xs @ ?R) = Some ([] @ replicate (length (map Live xs)) Raw @ ?R)"
    by (intro destruct_range_shape) auto
  moreover have "replicate (length xs) Raw @ ?R = replicate (capacity cfg v) Raw"
    using vec_repD(2) [OF assms] by (simp flip: replicate_add)
  ultimately show ?thesis
    using assms unfolding vec_clear_def vec_rep_def by auto
qed

lemma resize_rep:
  assumes "vec_rep cfg v xs"
  shows "\<exists>ok v'. resize cfg n x v = Some (ok, v') \<and>
    (if ok then vec_rep cfg v' (take n xs @ replicate (n - length xs) x) else v' = v \<and> capacity cfg v < n)"
proof (cases "n < length xs")
  case True
  let ?R = "replicate (capacity cfg v - length xs) Raw"
  have "vcells v = map Live (take n xs) @ map Live (drop n xs) @ ?R"
    using vec_repD(3) [OF assms] by (metis append.assoc append_take_drop_id map_append)
  then have "destruct_range n (length xs) (vcells v) =
      Some (map Live (take n xs) @ replicate (length (map Live (drop n xs) :: 'a cell list)) Raw @ ?R)"
    using True by (simp only:) (intro destruct_range_shape; auto)
  moreover have "replicate (length xs - n) Raw @ ?R = replicate (capacity cfg v - n) Raw"
    using vec_repD(2) [OF assms] True by (simp flip: replicate_add)
  ultimately show ?thesis
    using assms True vsize_rep [OF assms] unfolding resize_def
    by (auto simp: vec_rep_def ex_bool_eq)
next
  case False
  obtain ok w where w: "(if n > capacity cfg v then vec_try_reallocate cfg n v else Some (True, v)) = Some (ok, w)"
    "vec_rep cfg w xs" "if ok then n \<le> capacity cfg w else w = v \<and> capacity cfg v < n"
  proof (cases "n > capacity cfg v")
    case True
    then show thesis using vec_try_reallocate_rep [OF assms, of n] False that
      by (metis linorder_not_less)
  qed (use assms that in auto)
  show ?thesis
  proof (cases ok)
    case True
    let ?Q = "replicate (capacity cfg w - n) Raw"
    have "(replicate (capacity cfg w - length xs) Raw :: 'a cell list) = replicate (n - length xs) Raw @ ?Q"
      using w(3) True False by (simp flip: replicate_add)
    then have "construct_fill (length xs) (n - length xs) x (vcells w) = Some (map Live xs @ replicate (n - length xs) (Live x) @ ?Q)"
      using vec_repD(3) [OF w(2)] construct_fill_shape [of "length xs" "map Live xs"] by simp
    then show ?thesis
      using True False w vsize_rep [OF assms] vsize_rep [OF w(2)] unfolding resize_def
      by (auto simp: vec_rep_def ex_bool_eq)
  next
    case False
    then show ?thesis using w \<open>\<not> n < length xs\<close> vsize_rep [OF assms] unfolding resize_def
      by (simp add: ex_bool_eq)
  qed
qed

subsection \<open>The unstable range erase\<close>

text \<open>What the loop computes on the elements: one unstable erase per position of the range.\<close>

fun erase_steps :: "nat \<Rightarrow> nat \<Rightarrow> 'a list \<Rightarrow> 'a list" where
  "erase_steps 0 it xs = xs"
| "erase_steps (Suc n) it xs = erase_steps n (Suc it) (butlast (xs[it := last xs]))"

lemma length_erase_steps: "length (erase_steps n it xs) = length xs - n"
  by (induction n it xs rule: erase_steps.induct) auto

lemma erase_loop_cells:
  assumes "it + 2 * n \<le> length xs + 1"
  shows "erase_loop n it (length xs) (map Live xs @ R) =
    Some (map Live (erase_steps n it xs) @ replicate n Raw @ R, length xs - n)"
  using assms
proof (induction n arbitrary: it xs R)
  case (Suc n)
  let ?ys = "butlast (xs[it := last xs])"
  have it: "it < length xs" using Suc.prems by simp
  obtain cs where "move_assign it (length xs - 1) (map Live xs @ R) = Some cs"
    "destruct_at (length xs - 1) cs = Some (map Live ?ys @ Raw # R)"
    using erase_cells [OF it, of R] by (auto simp: bind_eq_Some)
  moreover have "erase_loop n (Suc it) (length ?ys) (map Live ?ys @ Raw # R) =
      Some (map Live (erase_steps n (Suc it) ?ys) @ replicate n Raw @ Raw # R, length ?ys - n)"
    using Suc.prems it by (intro Suc.IH) auto
  ultimately show ?case by (simp add: replicate_app_Cons_same)
qed simp

lemma erase_steps_mset:
  assumes "it + 2 * n \<le> length xs + 1"
  shows "mset (erase_steps n it xs) + mset (take n (drop it xs)) = mset xs"
  using assms
proof (induction n arbitrary: it xs)
  case (Suc n)
  let ?ys = "butlast (xs[it := last xs])"
  have it: "it < length xs" using Suc.prems by simp
  have "mset (erase_steps n (Suc it) ?ys) + mset (take n (drop (Suc it) ?ys)) = mset ?ys"
    using Suc.prems it by (intro Suc.IH) auto
  moreover have "take n (drop (Suc it) ?ys) = take n (drop (Suc it) xs)"
    using Suc.prems by (intro nth_equalityI) (auto simp: nth_butlast)
  moreover have "mset ?ys = mset xs - {# xs ! it #}"
    using it by (cases xs rule: rev_cases) (auto simp: mset_update nth_append list_update_append butlast_append split: if_splits)
  ultimately show ?case
    using it by (simp add: Cons_nth_drop_Suc [symmetric] insert_DiffM)
qed simp

lemma erase_range_rep:
  assumes "vec_rep cfg v xs" "i \<le> j" "j \<le> length xs" "j - i \<le> length xs - j + 1"
  shows "\<exists>v'. erase_range i j v = Some v' \<and> vec_rep cfg v' (erase_steps (j - i) i xs)"
proof -
  note r = vec_repD [OF assms(1)]
  let ?R = "replicate (capacity cfg v - length xs) Raw"
  have "erase_loop (j - i) i (length xs) (vcells v) =
      Some (map Live (erase_steps (j - i) i xs) @ replicate (j - i) Raw @ ?R, length xs - (j - i))"
    using assms r(3) erase_loop_cells [of i "j - i" xs ?R] by simp
  moreover have "replicate (j - i) Raw @ ?R = replicate (capacity cfg v - (length xs - (j - i))) Raw"
    using r(2) assms by (simp flip: replicate_add)
  ultimately show ?thesis
    using assms r unfolding erase_range_def vec_rep_def by (auto simp: length_erase_steps)
qed

text \<open>Where the range is longer than what follows it, the loop assigns to a cell it has destructed.\<close>

lemma erase_loop_dead:
  assumes "0 < n" "length xs + 2 \<le> it + 2 * n" "\<forall>c\<in>set R. c = Raw"
  shows "erase_loop n it (length xs) (map Live xs @ R) = None"
  using assms
proof (induction n arbitrary: it xs R)
  case (Suc n)
  show ?case
  proof (cases "it < length xs")
    case True
    let ?ys = "butlast (xs[it := last xs])"
    obtain cs where cs: "move_assign it (length xs - 1) (map Live xs @ R) = Some cs"
      "destruct_at (length xs - 1) cs = Some (map Live ?ys @ Raw # R)"
      using erase_cells [OF True, of R] by (auto simp: bind_eq_Some)
    have "erase_loop n (Suc it) (length ?ys) (map Live ?ys @ Raw # R) = None"
      using Suc.prems True by (intro Suc.IH) auto
    then show ?thesis using cs by simp
  next
    case False
    then have "assign_at it y ((map Live xs @ R)[length xs - 1 := Moved]) = None" if "xs \<noteq> []" for y
      using Suc.prems(3) that by (auto simp: assign_at.simps nth_append nth_list_update)
    moreover have "move_at (length xs - 1) (map Live xs @ R) = None" if "xs = []"
      using Suc.prems(3) that by (auto simp: move_at.simps read_at.simps nth_append split: cell.splits)
        (metis cell.distinct(3) length_greater_0_conv nth_mem)
    ultimately have "move_assign it (length xs - 1) (map Live xs @ R) = None"
      using False
      by (cases "xs = []"; cases "read_at (length xs - 1) (map Live xs @ R)")
        (auto simp: move_assign.simps move_at.simps)
    then show ?thesis by simp
  qed
qed simp

section \<open>Inserting, copying and moving\<close>

lemma insert_dangling:
  assumes "vec_rep cfg v xs" "it < length xs" "length xs = capacity cfg v"
    "static_capacity cfg = None" "alloc_ok cfg (reserve_power_of_two cfg (length xs + 1))"
    "length xs + 1 \<le> reserve_power_of_two cfg (length xs + 1)"
  shows "insert cfg it x v = None"
proof -
  obtain ok v' where r: "vec_try_reallocate cfg (length xs + 1) v = Some (ok, v')"
    "if ok then length xs + 1 \<le> capacity cfg v' else v' = v"
    using vec_try_reallocate_rep [OF assms(1), of "length xs + 1"] by auto
  have ok
    using r(1) assms by (auto simp: vec_try_reallocate_def Let_def vec_allocate_dynamic bind_eq_Some)
  then show ?thesis
    using r assms vec_repD(1) [OF assms(1)] vsize_rep [OF assms(1)]
    by (simp add: insert_def try_reserve_def)
qed

lemma insert_rep:
  assumes "vec_rep cfg v xs" "it < length xs" "length xs < capacity cfg v"
  shows "\<exists>v'. insert cfg it x v = Some (True, v') \<and> vec_rep cfg v' (xs[it := x] @ [xs ! it])"
proof -
  note r = vec_repD [OF assms(1)]
  define n where "n = capacity cfg v - Suc (length xs)"
  have c: "vcells v = map Live xs @ Raw # replicate n Raw"
    using assms(3) r(3) by (simp add: n_def Suc_diff_Suc flip: replicate_Suc)
  have m: "move_at it (vcells v) = Some (xs ! it, (map Live xs)[it := Moved] @ Raw # replicate n Raw)"
    using assms(2) c by (simp add: move_at_live nth_append list_update_append)
  have k: "construct_at (length xs) (xs ! it) ((map Live xs)[it := Moved] @ Raw # replicate n Raw) =
      Some ((map Live xs)[it := Moved] @ Live (xs ! it) # replicate n Raw)"
    by (simp add: construct_at_shape)
  have a: "assign_at it x ((map Live xs)[it := Moved] @ Live (xs ! it) # replicate n Raw) =
      Some (map Live (xs[it := x]) @ Live (xs ! it) # replicate n Raw)"
    using assms(2) by (simp add: assign_at_object nth_append list_update_append map_update)
  show ?thesis
    using assms r(1) m k a by (auto simp: insert_def emplace_back_no_failure_def vec_rep_def n_def)
qed

lemma fresh_rep:
  assumes "case static_capacity cfg of Some C \<Rightarrow> n = C | None \<Rightarrow> alloc_ok cfg n"
  shows "\<exists>v :: 'a vec. vec_allocate cfg n (uninit_vec cfg) = (True, v) \<and> vcells v = replicate n Raw \<and>
    capacity cfg v = n \<and> good (stor v)"
  using assms
  by (auto simp: vec_allocate_def storage_allocate_def uninit_vec_def fresh_storage_def capacity_def
      split: option.splits)

lemma vec_new_rep: "vec_rep cfg (vec_new cfg n) []"
  by (auto simp: vec_new_def vec_rep_def Let_def vec_allocate_def storage_allocate_def uninit_vec_def
      fresh_storage_def capacity_def reserve_power_of_two_def vec_release_def split: option.splits)

lemma vec_copy_rep:
  assumes "vec_rep cfg w xs" "vcells v = replicate n Raw" "capacity cfg v = n" "good (stor v)" "length xs \<le> n"
  shows "\<exists>v'. vec_copy w v = Some v' \<and> vec_rep cfg v' xs"
proof -
  have "vcells v = [] @ replicate (length xs) Raw @ replicate (n - length xs) Raw"
    using assms(2,5) by (simp flip: replicate_add)
  then show ?thesis
    using construct_copy_shape [of 0 "[]" 0 "[]" xs] vec_repD [OF assms(1)] assms
    by (auto simp: vec_copy_def vec_rep_def)
qed

lemma vec_copy_construct_rep:
  assumes "vec_rep cfg w xs" "length xs \<le> reserve_power_of_two cfg (length xs)"
  shows "\<exists>v. vec_copy_construct cfg w = Some v \<and> (vec_rep cfg v xs \<or> vec_rep cfg v [])"
proof (cases "case static_capacity cfg of Some C \<Rightarrow> reserve_power_of_two cfg (length xs) = C
    | None \<Rightarrow> alloc_ok cfg (reserve_power_of_two cfg (length xs))")
  case True
  then obtain v :: "'a vec" where v: "vec_allocate cfg (reserve_power_of_two cfg (length xs)) (uninit_vec cfg) = (True, v)"
    "vcells v = replicate (reserve_power_of_two cfg (length xs)) Raw"
    "capacity cfg v = reserve_power_of_two cfg (length xs)" "good (stor v)"
    using fresh_rep by blast
  then show ?thesis using vec_copy_rep [OF assms(1) v(2-4) assms(2)]
    by (auto simp: vec_copy_construct_def vec_capacity_for_def vsize_rep [OF assms(1)])
next
  case False
  then show ?thesis using assms(1)
    by (auto simp: vec_copy_construct_def vec_capacity_for_def vsize_rep [OF assms(1)] vec_allocate_def
        storage_allocate_def reserve_power_of_two_def vec_release_def uninit_vec_def vec_rep_def capacity_def
        split: option.splits)
qed

lemma vec_move_construct_dynamic_rep:
  assumes "vec_rep cfg w xs" "static_capacity cfg = None"
  shows "\<exists>w' v. vec_move_construct cfg w = Some (w', v) \<and> vec_rep cfg w' [] \<and> vec_rep cfg v xs"
  using assms by (auto simp: vec_move_construct_def vec_release_def vec_rep_def capacity_def)

lemma vec_move_assign_dynamic_rep:
  assumes "vec_rep cfg w xs" "vec_rep cfg v ys" "static_capacity cfg = None"
  shows "\<exists>w' v'. vec_move_assign cfg w v = Some (w', v') \<and> vec_rep cfg w' [] \<and> vec_rep cfg v' xs"
proof -
  have "set_cells (map Live ys @ replicate (capacity cfg v - length ys) Raw) v = v"
    using vec_repD(3) [OF assms(2)] by simp
  then obtain u where "vec_purge cfg v = Some u"
    using vec_purge_rep [OF assms(2), of "map Live ys"] by auto
  then show ?thesis using assms
    by (auto simp: vec_move_assign_def vec_release_def vec_rep_def capacity_def)
qed


section \<open>The interface of a dense array\<close>

text \<open>What the collections use of a vector: a sequence that grows at its end, may refuse to grow without
  changing, and erases by moving its last element into the hole.\<close>

locale dense_array =
  fixes rep :: "'v \<Rightarrow> 'a list \<Rightarrow> bool"
    and get :: "nat \<Rightarrow> 'v \<Rightarrow> 'a option"
    and len :: "'v \<Rightarrow> nat"
    and append :: "'a \<Rightarrow> 'v \<Rightarrow> (bool \<times> 'v) option"
    and remove :: "nat \<Rightarrow> 'v \<Rightarrow> 'v option"
    and wipe :: "'v \<Rightarrow> 'v option"
  assumes rep_fun: "rep v xs \<Longrightarrow> rep v ys \<Longrightarrow> xs = ys"
    and get_law: "rep v xs \<Longrightarrow> i < length xs \<Longrightarrow> get i v = Some (xs ! i)"
    and len_law: "rep v xs \<Longrightarrow> len v = length xs"
    and append_law: "rep v xs \<Longrightarrow> \<exists>ok v'. append x v = Some (ok, v') \<and> (if ok then rep v' (xs @ [x]) else v' = v)"
    and remove_law: "rep v xs \<Longrightarrow> i < length xs \<Longrightarrow> \<exists>v'. remove i v = Some v' \<and> rep v' (butlast (xs[i := last xs]))"
    and wipe_law: "rep v xs \<Longrightarrow> \<exists>v'. wipe v = Some v' \<and> rep v' []"
begin

lemma append_cases:
  assumes "rep v xs"
  obtains v' where "append x v = Some (True, v')" "rep v' (xs @ [x])"
  | "append x v = Some (False, v)"
  using append_law [OF assms, of x] by (metis (full_types))

lemma remove_last:
  assumes "rep v (xs @ [x])"
  shows "\<exists>v'. remove (length xs) v = Some v' \<and> rep v' xs"
  using remove_law [OF assms, of "length xs"] by simp

lemma append_then_remove:
  assumes "rep v xs" "append x v = Some (True, v')"
  shows "\<exists>v''. remove (length xs) v' = Some v'' \<and> rep v'' xs"
  using append_law [OF assms(1), of x] assms(2) remove_last by auto

end

interpretation va: dense_array "vec_rep cfg" at vsize "try_emplace_back cfg" erase vec_clear for cfg
proof
  fix v :: "'a vec" and xs x
  assume r: "vec_rep cfg v xs"
  show "\<exists>ok v'. try_emplace_back cfg x v = Some (ok, v') \<and> (if ok then vec_rep cfg v' (xs @ [x]) else v' = v)"
    using try_emplace_back_rep [OF r, of x] by (metis (full_types))
qed (auto intro: vec_rep_unique at_rep vsize_rep vec_clear_rep dest: erase_rep)

section \<open>Properties\<close>

text \<open>C14: appending to a vector is safe and exact: it never touches an object that is not there, on success
  the vector holds the old elements and the new one, and it fails only when the row is full, leaving the
  vector as it was.\<close>
theorem try_emplace_back_correct:
  assumes "vec_rep cfg v xs"
  shows "\<exists>ok v'. try_emplace_back cfg x v = Some (ok, v') \<and>
    (if ok then vec_rep cfg v' (xs @ [x]) else v' = v \<and> length xs = capacity cfg v)"
  using assms by (rule try_emplace_back_rep)

theorem try_emplace_back_correct_witness:
  "\<exists>ok v'. try_emplace_back \<lparr>static_capacity = Some 2, alloc_ok = (\<lambda>n. True)\<rparr> (7 :: nat)
      (vec_new \<lparr>static_capacity = Some 2, alloc_ok = (\<lambda>n. True)\<rparr> 0) = Some (ok, v') \<and>
    (if ok then vec_rep \<lparr>static_capacity = Some 2, alloc_ok = (\<lambda>n. True)\<rparr> v' ([] @ [7])
     else v' = vec_new \<lparr>static_capacity = Some 2, alloc_ok = (\<lambda>n. True)\<rparr> 0 \<and>
       length ([] :: nat list) = capacity \<lparr>static_capacity = Some 2, alloc_ok = (\<lambda>n. True)\<rparr>
         (vec_new \<lparr>static_capacity = Some 2, alloc_ok = (\<lambda>n. True)\<rparr> 0 :: nat vec))"
  by (rule try_emplace_back_correct) (rule vec_new_rep)

text \<open>C30: the single-element erases are safe and exact: the unstable one moves the last element into the
  hole, the stable ones close the gap and keep the order (for a range that is not empty).\<close>
theorem erase_correct:
  assumes "vec_rep cfg v xs" "i < j" "j \<le> length xs"
  shows "(\<exists>v'. erase i v = Some v' \<and> vec_rep cfg v' (butlast (xs[i := last xs]))) \<and>
    (\<exists>v'. erase_stable i v = Some v' \<and> vec_rep cfg v' (take i xs @ drop (Suc i) xs)) \<and>
    (\<exists>v'. erase_stable_range i j v = Some v' \<and> vec_rep cfg v' (take i xs @ drop j xs))"
  using assms erase_rep [OF assms(1), of i] erase_stable_rep [OF assms(1), of i]
    erase_stable_range_rep [OF assms] by auto

text \<open>A concrete vector for the witnesses.\<close>

definition cfg4 :: config where
  "cfg4 = \<lparr>static_capacity = None, alloc_ok = (\<lambda>n. True)\<rparr>"

definition vec3 :: "nat vec" where
  "vec3 = \<lparr>stor = \<lparr>good = True, cells = [Live 1, Live 2, Live 3, Raw]\<rparr>, vcap = 4, vend = 3\<rparr>"

lemma vec3_rep: "vec_rep cfg4 vec3 [1, 2, 3]"
  by (simp add: vec_rep_def cfg4_def vec3_def capacity_def)

theorem erase_correct_witness:
  "(\<exists>v'. erase 0 vec3 = Some v' \<and> vec_rep cfg4 v' (butlast ([1, 2, 3][0 := last [1, 2, 3]]))) \<and>
    (\<exists>v'. erase_stable 0 vec3 = Some v' \<and> vec_rep cfg4 v' (take 0 [1, 2, 3] @ drop (Suc 0) [1, 2, 3])) \<and>
    (\<exists>v'. erase_stable_range 0 2 vec3 = Some v' \<and> vec_rep cfg4 v' (take 0 [1, 2, 3] @ drop 2 [1, 2, 3]))"
  by (rule erase_correct [OF vec3_rep]) simp_all

lemma erase_range_arith:
  "i \<le> j \<Longrightarrow> j \<le> n \<Longrightarrow> j - i \<le> n - j + 1 \<Longrightarrow> i + 2 * (j - i) \<le> n + (1 :: nat)"
  by arith

text \<open>C39: the unstable range erase is safe exactly when the range is at most one longer than what follows
  it; then it removes exactly the elements of the range.  For every longer range it assigns to an object
  it has already destructed.\<close>
theorem erase_range_safe_iff:
  assumes "vec_rep cfg v xs" "i \<le> j" "j \<le> length xs"
  shows "(j - i \<le> length xs - j + 1 \<longrightarrow>
      (\<exists>v' ys. erase_range i j v = Some v' \<and> vec_rep cfg v' ys \<and>
        mset ys + mset (take (j - i) (drop i xs)) = mset xs)) \<and>
    (length xs - j + 1 < j - i \<longrightarrow> erase_range i j v = None)"
proof (intro conjI impI)
  assume a: "j - i \<le> length xs - j + 1"
  then show "\<exists>v' ys. erase_range i j v = Some v' \<and> vec_rep cfg v' ys \<and>
      mset ys + mset (take (j - i) (drop i xs)) = mset xs"
    using erase_range_rep [OF assms a] erase_steps_mset [of i "j - i" xs] assms
    by (meson diff_le_self le_trans add_le_mono order_refl erase_range_arith)
next
  assume a: "length xs - j + 1 < j - i"
  have "erase_loop (j - i) i (length xs) (vcells v) = None"
    using a assms erase_loop_dead [of "j - i" xs i "replicate (capacity cfg v - length xs) Raw"]
    by (auto simp: vec_repD(3) [OF assms(1)])
  then show "erase_range i j v = None"
    using assms vec_repD(1) [OF assms(1)] by (simp add: erase_range_def)
qed

theorem erase_range_safe_iff_witness:
  "(\<exists>v' ys. erase_range 0 1 vec3 = Some v' \<and> vec_rep cfg4 v' ys \<and>
      mset ys + mset (take 1 (drop 0 [1, 2, 3])) = mset [1, 2, 3]) \<and> erase_range 1 3 vec3 = None"
  using erase_range_safe_iff [OF vec3_rep, of 0 1] erase_range_safe_iff [OF vec3_rep, of 1 3] by simp

text \<open>Inserting before the end of a full vector that can grow is undefined: the inserted position
  and the displaced element are references into the row the growth has freed.\<close>
theorem insert_full_dangling:
  assumes "vec_rep cfg v xs" "it < length xs" "length xs = capacity cfg v"
    "static_capacity cfg = None" "alloc_ok cfg (reserve_power_of_two cfg (length xs + 1))"
    "length xs + 1 \<le> reserve_power_of_two cfg (length xs + 1)"
  shows "insert cfg it x v = None"
  using assms by (rule insert_dangling)

theorem insert_full_dangling_witness:
  "insert cfg4 0 9 \<lparr>stor = \<lparr>good = True, cells = [Live (1 :: nat), Live 2]\<rparr>, vcap = 2, vend = 2\<rparr> = None"
  by (rule insert_full_dangling [of _ _ "[1, 2]"])
    (simp_all add: vec_rep_def cfg4_def capacity_def reserve_power_of_two_def clp2_64_def)

text \<open>An insertion where there is room stores the new element at the position and moves the displaced
  one to the end.\<close>
theorem insert_room_correct:
  assumes "vec_rep cfg v xs" "it < length xs" "length xs < capacity cfg v"
  shows "\<exists>v'. insert cfg it x v = Some (True, v') \<and> vec_rep cfg v' (xs[it := x] @ [xs ! it])"
  using assms by (rule insert_rep)

theorem insert_room_correct_witness:
  "\<exists>v'. insert cfg4 1 9 vec3 = Some (True, v') \<and> vec_rep cfg4 v' ([1, 2, 3][1 := 9] @ [[1, 2, 3] ! 1])"
  using insert_room_correct [OF vec3_rep, of 1 9] by (simp add: vec3_def cfg4_def capacity_def)

end
