(* ===== verification/Fragmentation.thy ===== *)
theory Fragmentation
  imports Storage "HOL-Library.Multiset"
begin

text \<open>
  The slot container of \<^verbatim>\<open>utility/container/fragmentation.hpp\<close>: elements never move while the row is not
  reallocated, and an array of indices hands out free slots.  The first \<^verbatim>\<open>size\<close> indices are meant to be
  the slots in use, the others the free ones.  The theory shows that the free part is kept right by
  every operation, that the used part is not, and what follows from it.
\<close>

record 'a frag =
  fgood :: bool
  fcells :: "'a cell list"
  findices :: "nat list"
  fcap :: nat
  fsize :: nat

section \<open>Operations\<close>

definition fcapacity :: "config \<Rightarrow> 'a frag \<Rightarrow> nat" where
  "fcapacity cfg f = (case static_capacity cfg of Some C \<Rightarrow> C | None \<Rightarrow> fcap f)"

definition uninit_frag :: "config \<Rightarrow> 'a frag" where
  "uninit_frag cfg = \<lparr>fgood = good (fresh_storage cfg :: 'a storage), fcells = cells (fresh_storage cfg),
     findices = [], fcap = 0, fsize = 0\<rparr>"

definition frag_release :: "config \<Rightarrow> 'a frag \<Rightarrow> 'a frag" where
  "frag_release cfg f = (if static_capacity cfg = None then f\<lparr>fcap := 0, fsize := 0\<rparr> else f)"

definition frag_allocate :: "config \<Rightarrow> nat \<Rightarrow> 'a frag \<Rightarrow> bool \<times> 'a frag" where
  "frag_allocate cfg n f =
    (let (ok, st) = storage_allocate cfg n \<lparr>good = fgood f, cells = fcells f\<rparr>;
         f' = f\<lparr>fgood := good st, fcells := cells st\<rparr>
     in if ok then (True, f'\<lparr>fcap := n\<rparr>) else (False, frag_release cfg f'))"

definition frag_new :: "config \<Rightarrow> nat \<Rightarrow> 'a frag" where
  "frag_new cfg min_capacity =
    (let (ok, f) = frag_allocate cfg (reserve_power_of_two cfg min_capacity) (uninit_frag cfg)
     in if ok then f\<lparr>fsize := 0, findices := [0..<fcapacity cfg f]\<rparr> else f)"

text \<open>The loops over the first \<^verbatim>\<open>size\<close> indices.\<close>

fun copy_indexed :: "nat list \<Rightarrow> 'a cell list \<Rightarrow> 'a cell list \<Rightarrow> 'a cell list option" where
  "copy_indexed [] src cs = Some cs"
| "copy_indexed (i # is) src cs = do {
     x \<leftarrow> read_at i src; cs \<leftarrow> construct_at i x cs; copy_indexed is src cs }"

fun move_indexed :: "nat list \<Rightarrow> 'a cell list \<Rightarrow> 'a cell list \<Rightarrow> ('a cell list \<times> 'a cell list) option" where
  "move_indexed [] src cs = Some (src, cs)"
| "move_indexed (i # is) src cs = do {
     (x, src) \<leftarrow> move_at i src; cs \<leftarrow> construct_at i x cs; move_indexed is src cs }"

fun destruct_indexed :: "nat list \<Rightarrow> 'a cell list \<Rightarrow> 'a cell list option" where
  "destruct_indexed [] cs = Some cs"
| "destruct_indexed (i # is) cs = do { cs \<leftarrow> destruct_at i cs; destruct_indexed is cs }"

definition frag_copy :: "config \<Rightarrow> 'a frag \<Rightarrow> 'a frag \<Rightarrow> 'a frag option" where
  "frag_copy cfg other f = do {
     let indices = findices other @ [fcapacity cfg other..<fcapacity cfg f];
     cs \<leftarrow> copy_indexed (take (fsize other) indices) (fcells other) (fcells f);
     Some (f\<lparr>fsize := fsize other, findices := indices, fcells := cs\<rparr>) }"

definition frag_move :: "config \<Rightarrow> 'a frag \<Rightarrow> 'a frag \<Rightarrow> ('a frag \<times> 'a frag) option" where
  "frag_move cfg other f = do {
     let indices = findices other @ [fcapacity cfg other..<fcapacity cfg f];
     (ocs, cs) \<leftarrow> move_indexed (take (fsize other) indices) (fcells other) (fcells f);
     Some (other\<lparr>fcells := ocs\<rparr>, f\<lparr>fsize := fsize other, findices := indices, fcells := cs\<rparr>) }"

definition frag_clear :: "'a frag \<Rightarrow> 'a frag option" where
  "frag_clear f = do {
     cs \<leftarrow> destruct_indexed (take (fsize f) (findices f)) (fcells f);
     Some (f\<lparr>fcells := cs\<rparr>) }"

definition frag_purge :: "config \<Rightarrow> 'a frag \<Rightarrow> 'a frag option" where
  "frag_purge cfg f =
    (if fgood f then do {
       cs \<leftarrow> destruct_indexed (take (fsize f) (findices f)) (fcells f);
       st \<leftarrow> storage_deallocate cfg (fcapacity cfg f) \<lparr>good = fgood f, cells = cs\<rparr>;
       Some (f\<lparr>fgood := good st, fcells := cells st\<rparr>) }
     else Some f)"

definition frag_try_reallocate :: "config \<Rightarrow> nat \<Rightarrow> 'a frag \<Rightarrow> (bool \<times> 'a frag) option" where
  "frag_try_reallocate cfg min_capacity f =
    (if static_capacity cfg \<noteq> None then Some (False, f)
     else let new_capacity = reserve_power_of_two cfg min_capacity in
       if new_capacity < min_capacity then Some (False, f)
       else case frag_allocate cfg new_capacity (uninit_frag cfg) of
         (False, _) \<Rightarrow> Some (False, f)
       | (True, new_data) \<Rightarrow> do {
           (old, new_data) \<leftarrow> frag_move cfg f new_data;
           _ \<leftarrow> frag_purge cfg old;
           Some (True, new_data) })"

definition frag_try_reserve :: "config \<Rightarrow> nat \<Rightarrow> 'a frag \<Rightarrow> (bool \<times> 'a frag) option" where
  "frag_try_reserve cfg min_capacity f =
    (if min_capacity \<le> fcapacity cfg f then Some (True, f) else frag_try_reallocate cfg min_capacity f)"

text \<open>\<^verbatim>\<open>try_emplace\<close> returns a pointer to the new element, here its index, or null.\<close>

definition frag_try_emplace :: "config \<Rightarrow> 'a \<Rightarrow> 'a frag \<Rightarrow> (nat option \<times> 'a frag) option" where
  "frag_try_emplace cfg x f = do {
     (ok, f) \<leftarrow> frag_try_reserve cfg (fsize f + 1) f;
     if \<not> ok then Some (None, f)
     else if \<not> fsize f < length (findices f) then None
     else do {
       let index = findices f ! fsize f;
       cs \<leftarrow> construct_at index x (fcells f);
       Some (Some index, f\<lparr>fcells := cs, fsize := fsize f + 1\<rparr>) } }"

definition frag_try_erase :: "config \<Rightarrow> nat \<Rightarrow> 'a frag \<Rightarrow> (bool \<times> 'a frag) option" where
  "frag_try_erase cfg index f =
    (if index \<in> set (drop (fsize f) (findices f)) then Some (False, f)
     else do {
       let lst = fsize f - 1;
       cs \<leftarrow> destruct_at index (fcells f);
       Some (True, f\<lparr>fcells := cs, findices := (findices f)[lst := index], fsize := lst\<rparr>) })"

definition frag_at :: "nat \<Rightarrow> 'a frag \<Rightarrow> 'a option" where
  "frag_at i f = read_at i (fcells f)"

section \<open>The free list\<close>

text \<open>The invariant every operation keeps: the indices from \<^verbatim>\<open>size\<close> on are exactly the raw slots, each
  once.\<close>

definition free_inv :: "config \<Rightarrow> 'a frag \<Rightarrow> bool" where
  "free_inv cfg f \<longleftrightarrow>
     length (fcells f) = fcapacity cfg f \<and> length (findices f) = fcapacity cfg f \<and>
     fsize f \<le> fcapacity cfg f \<and> (fgood f \<or> fcapacity cfg f = 0) \<and>
     distinct (drop (fsize f) (findices f)) \<and>
     set (drop (fsize f) (findices f)) = {i. i < fcapacity cfg f \<and> fcells f ! i = Raw} \<and>
     (\<forall>i < fcapacity cfg f. fcells f ! i \<noteq> Moved)"

text \<open>The stronger invariant the loops over the first \<^verbatim>\<open>size\<close> indices need: no index occurs twice.\<close>

definition used_inv :: "config \<Rightarrow> 'a frag \<Rightarrow> bool" where
  "used_inv cfg f \<longleftrightarrow> free_inv cfg f \<and> distinct (findices f) \<and> set (findices f) = {..<fcapacity cfg f}"

definition slots :: "'a frag \<Rightarrow> nat \<Rightarrow> 'a option" where
  "slots f i = (if i < length (fcells f) then (case fcells f ! i of Live x \<Rightarrow> Some x | _ \<Rightarrow> None) else None)"

lemma frag_at_slots: "frag_at i f = slots f i"
  by (simp add: frag_at_def slots_def read_at.simps)

lemma fcapacity_upd [simp]:
  "fcapacity cfg (f\<lparr>fcells := cs\<rparr>) = fcapacity cfg f" "fcapacity cfg (f\<lparr>findices := is\<rparr>) = fcapacity cfg f"
  "fcapacity cfg (f\<lparr>fsize := n\<rparr>) = fcapacity cfg f" "fcapacity cfg (f\<lparr>fgood := g\<rparr>) = fcapacity cfg f"
  by (simp_all add: fcapacity_def split: option.splits)

lemma free_invD:
  assumes "free_inv cfg f"
  shows "length (fcells f) = fcapacity cfg f" "length (findices f) = fcapacity cfg f"
    "fsize f \<le> fcapacity cfg f" "distinct (drop (fsize f) (findices f))"
    "set (drop (fsize f) (findices f)) = {i. i < fcapacity cfg f \<and> fcells f ! i = Raw}"
    "\<forall>i < fcapacity cfg f. fcells f ! i \<noteq> Moved"
  using assms by (auto simp: free_inv_def)

lemma free_invI:
  "length (fcells f) = fcapacity cfg f \<Longrightarrow> length (findices f) = fcapacity cfg f \<Longrightarrow>
   fsize f \<le> fcapacity cfg f \<Longrightarrow> fgood f \<or> fcapacity cfg f = 0 \<Longrightarrow>
   distinct (drop (fsize f) (findices f)) \<Longrightarrow>
   set (drop (fsize f) (findices f)) = {i. i < fcapacity cfg f \<and> fcells f ! i = Raw} \<Longrightarrow>
   \<forall>i < fcapacity cfg f. fcells f ! i \<noteq> Moved \<Longrightarrow> free_inv cfg f"
  by (simp add: free_inv_def)

lemma no_moved_update:
  "\<forall>k<length cs. cs ! k \<noteq> Moved \<Longrightarrow> c \<noteq> Moved \<Longrightarrow> \<forall>k<length cs. cs[i := c] ! k \<noteq> Moved"
  by (simp add: nth_update_if)

lemma frag_new_inv:
  assumes "case static_capacity cfg of Some C \<Rightarrow> True | None \<Rightarrow> alloc_ok cfg (reserve_power_of_two cfg n)"
  shows "used_inv cfg (frag_new cfg n)"
  using assms
  by (auto simp: frag_new_def used_inv_def free_inv_def Let_def frag_allocate_def storage_allocate_def
      uninit_frag_def fresh_storage_def fcapacity_def reserve_power_of_two_def atLeast0LessThan split: option.splits)

lemma frag_new_empty: "slots (frag_new cfg n) = Map.empty"
  by (auto simp: fun_eq_iff slots_def frag_new_def Let_def frag_allocate_def storage_allocate_def
      uninit_frag_def fresh_storage_def frag_release_def split: option.splits)

text \<open>Emplacing with room.\<close>

lemma emplace_room:
  assumes "free_inv cfg f" "fsize f < fcapacity cfg f"
  shows "\<exists>i f'. frag_try_emplace cfg x f = Some (Some i, f') \<and> free_inv cfg f' \<and>
    i = findices f ! fsize f \<and> slots f i = None \<and> slots f' = (slots f)(i \<mapsto> x) \<and>
    findices f' = findices f \<and> fsize f' = Suc (fsize f) \<and> fcapacity cfg f' = fcapacity cfg f"
proof -
  let ?i = "findices f ! fsize f"
  note d = free_invD [OF assms(1)]
  have c: "drop (fsize f) (findices f) = ?i # drop (Suc (fsize f)) (findices f)"
    using assms(2) d(2) by (simp add: Cons_nth_drop_Suc)
  then have i: "?i < fcapacity cfg f" "fcells f ! ?i = Raw" using d(5) by auto
  let ?f' = "f\<lparr>fcells := (fcells f)[?i := Live x], fsize := fsize f + 1\<rparr>"
  have "frag_try_emplace cfg x f = Some (Some ?i, ?f')"
    using assms(2) d i by (simp add: frag_try_emplace_def frag_try_reserve_def construct_at_raw Let_def)
  moreover have "set (drop (Suc (fsize f)) (findices f)) = {j. j < fcapacity cfg f \<and> (fcells f)[?i := Live x] ! j = Raw}"
  proof -
    have "?i \<notin> set (drop (Suc (fsize f)) (findices f))" using d(4) unfolding c by simp
    moreover have "insert ?i (set (drop (Suc (fsize f)) (findices f))) = {j. j < fcapacity cfg f \<and> fcells f ! j = Raw}"
      using d(5) unfolding c by simp
    ultimately have "j \<in> set (drop (Suc (fsize f)) (findices f)) \<longleftrightarrow> j \<noteq> ?i \<and> j < fcapacity cfg f \<and> fcells f ! j = Raw" for j
      by blast
    then show ?thesis using d(1) i(1) by (auto simp: nth_list_update)
  qed
  then have "free_inv cfg ?f'"
    using assms d(1-3) distinct_drop [OF d(4), of 1] no_moved_update [of "fcells f" "Live x" ?i] d(6)
    by (intro free_invI) (simp_all add: free_inv_def)
  moreover have "slots f ?i = None" "slots ?f' = (slots f)(?i \<mapsto> x)"
    using i d(1) by (auto simp: slots_def fun_eq_iff nth_list_update)
  ultimately show ?thesis by auto
qed

lemma live_count: "free_inv cfg f \<Longrightarrow> slots f i \<noteq> None \<Longrightarrow> 0 < fsize f"
proof (rule ccontr)
  assume a: "free_inv cfg f" "slots f i \<noteq> None" "\<not> 0 < fsize f"
  note d = free_invD [OF a(1)]
  have "i < fcapacity cfg f" "fcells f ! i \<noteq> Raw"
    using a(2) d(1) by (auto simp: slots_def split: if_splits cell.splits)
  moreover have "card (set (findices f)) = fcapacity cfg f"
    using a(3) d(2,4) by (simp add: distinct_card)
  moreover have "set (findices f) \<subseteq> {..<fcapacity cfg f} - {i}"
    using a(3) d(5) calculation by auto
  then have "card (set (findices f)) \<le> card ({..<fcapacity cfg f} - {i})" by (intro card_mono) auto
  ultimately show False using \<open>i < fcapacity cfg f\<close> by simp
qed

text \<open>Erasing.\<close>

lemma erase_live:
  assumes "free_inv cfg f" "slots f i = Some x"
  shows "\<exists>f'. frag_try_erase cfg i f = Some (True, f') \<and> free_inv cfg f' \<and> slots f' = (slots f)(i := None) \<and>
    findices f' = (findices f)[fsize f - 1 := i] \<and> fsize f' = fsize f - 1 \<and> fcells f' = (fcells f)[i := Raw] \<and>
    fgood f' = fgood f \<and> fcapacity cfg f' = fcapacity cfg f"
proof -
  note d = free_invD [OF assms(1)]
  have n: "0 < fsize f" using live_count [OF assms(1)] assms(2) by auto
  have i: "i < fcapacity cfg f" "fcells f ! i = Live x"
    using assms(2) d(1) by (auto simp: slots_def split: if_splits cell.splits)
  then have nf: "i \<notin> set (drop (fsize f) (findices f))" using d(5) by auto
  let ?f' = "f\<lparr>fcells := (fcells f)[i := Raw], findices := (findices f)[fsize f - 1 := i], fsize := fsize f - 1\<rparr>"
  have "frag_try_erase cfg i f = Some (True, ?f')"
    using nf i d(1) by (simp add: frag_try_erase_def Let_def destruct_at_object)
  moreover have dr: "drop (fsize f - 1) ((findices f)[fsize f - 1 := i]) = i # drop (fsize f) (findices f)"
    using n d(2,3) by (intro nth_equalityI) (auto simp: nth_Cons nth_list_update split: nat.splits)
  have "insert i (set (drop (fsize f) (findices f))) = {j. j < fcapacity cfg f \<and> (fcells f)[i := Raw] ! j = Raw}"
    using d(1,5) i by (auto simp: nth_list_update)
  then have "free_inv cfg ?f'"
    using assms(1) dr nf d(1-4) no_moved_update [of "fcells f" Raw i] d(6)
    by (intro free_invI) (simp_all add: free_inv_def)
  moreover have "slots ?f' = (slots f)(i := None)"
    using i d(1) by (auto simp: slots_def fun_eq_iff nth_list_update)
  ultimately show ?thesis by auto
qed

lemma erase_free:
  assumes "free_inv cfg f" "i < fcapacity cfg f" "slots f i = None"
  shows "frag_try_erase cfg i f = Some (False, f)"
proof -
  note d = free_invD [OF assms(1)]
  have "fcells f ! i = Raw"
    using assms(2,3) d(1,6) by (cases "fcells f ! i") (auto simp: slots_def)
  then have "i \<in> set (drop (fsize f) (findices f))" using d(5) assms(2) by auto
  then show ?thesis by (simp add: frag_try_erase_def)
qed

section \<open>Growing and destroying\<close>

lemma move_indexed_ok:
  assumes "distinct is" "\<forall>i\<in>set is. i < length src \<and> (\<exists>x. src ! i = Live x)"
    "\<forall>i\<in>set is. i < length cs \<and> cs ! i = Raw"
  shows "\<exists>src' cs'. move_indexed is src cs = Some (src', cs') \<and> length src' = length src \<and> length cs' = length cs \<and>
    (\<forall>k<length src. src' ! k = (if k \<in> set is then Moved else src ! k)) \<and>
    (\<forall>k<length cs. cs' ! k = (if k \<in> set is then src ! k else cs ! k))"
  using assms
proof (induction "is" arbitrary: src cs)
  case (Cons i "is")
  obtain x where x: "i < length src" "src ! i = Live x" using Cons.prems(2) by auto
  have c: "i < length cs" "cs ! i = Raw" using Cons.prems(3) by auto
  obtain src' cs' where r: "move_indexed is (src[i := Moved]) (cs[i := Live x]) = Some (src', cs')"
    "length src' = length src" "length cs' = length cs"
    "\<forall>k<length src. src' ! k = (if k \<in> set is then Moved else src[i := Moved] ! k)"
    "\<forall>k<length cs. cs' ! k = (if k \<in> set is then src[i := Moved] ! k else cs[i := Live x] ! k)"
  proof -
    have "\<forall>j\<in>set is. j < length (src[i := Moved]) \<and> (\<exists>y. src[i := Moved] ! j = Live y)"
      "\<forall>j\<in>set is. j < length (cs[i := Live x]) \<and> cs[i := Live x] ! j = Raw"
      using Cons.prems by (auto simp: nth_update_if)
    then show thesis using Cons.IH [of "src[i := Moved]" "cs[i := Live x]"] Cons.prems(1) that by auto
  qed
  show ?case
    using x c r Cons.prems(1)
    by (intro exI [of _ src'] exI [of _ cs']) (auto simp: move_at_live construct_at_raw nth_list_update)
qed simp

lemma destruct_indexed_ok:
  assumes "distinct is" "\<forall>i\<in>set is. i < length cs \<and> cs ! i \<noteq> Raw"
  shows "\<exists>cs'. destruct_indexed is cs = Some cs' \<and> length cs' = length cs \<and>
    (\<forall>k<length cs. cs' ! k = (if k \<in> set is then Raw else cs ! k))"
  using assms
proof (induction "is" arbitrary: cs)
  case (Cons i "is")
  have c: "i < length cs" "cs ! i \<noteq> Raw" using Cons.prems(2) by auto
  obtain cs' where r: "destruct_indexed is (cs[i := Raw]) = Some cs'" "length cs' = length cs"
    "\<forall>k<length cs. cs' ! k = (if k \<in> set is then Raw else cs[i := Raw] ! k)"
  proof -
    have "\<forall>j\<in>set is. j < length (cs[i := Raw]) \<and> cs[i := Raw] ! j \<noteq> Raw"
      using Cons.prems by (auto simp: nth_update_if)
    then show thesis using Cons.IH [of "cs[i := Raw]"] Cons.prems(1) that by auto
  qed
  show ?case
    using c r by (intro exI [of _ cs']) (auto simp: destruct_at_object nth_list_update)
qed simp

lemma destruct_indexed_dead:
  assumes "i \<in> set is" "i < length cs" "cs ! i = Raw"
  shows "destruct_indexed is cs = None"
  using assms
proof (induction "is" arbitrary: cs)
  case (Cons j "is")
  show ?case
  proof (cases "j = i")
    case True
    then show ?thesis using Cons.prems by (simp add: destruct_at.simps)
  next
    case False
    then have "destruct_indexed is (cs[j := Raw]) = None"
      using Cons.prems by (intro Cons.IH) auto
    then show ?thesis by (auto simp: destruct_at.simps)
  qed
qed simp

lemma used_invD:
  assumes "used_inv cfg f"
  shows "free_inv cfg f" "distinct (findices f)" "set (findices f) = {..<fcapacity cfg f}"
    "i \<in> set (take n (findices f)) \<Longrightarrow> i < fcapacity cfg f"
  using assms by (simp_all add: used_inv_def) (metis in_set_takeD lessThan_iff)

text \<open>With no index twice, the used part lists exactly the live slots.\<close>

lemma used_slots:
  assumes "used_inv cfg f" "k < fcapacity cfg f"
  shows "k \<in> set (take (fsize f) (findices f)) \<longleftrightarrow> (\<exists>x. fcells f ! k = Live x)"
proof -
  have f: "free_inv cfg f" and dist: "distinct (take (fsize f) (findices f) @ drop (fsize f) (findices f))"
    and all: "set (take (fsize f) (findices f) @ drop (fsize f) (findices f)) = {..<fcapacity cfg f}"
    using assms(1) unfolding used_inv_def append_take_drop_id by blast+
  have "k \<in> set (take (fsize f) (findices f)) \<longleftrightarrow> k \<notin> set (drop (fsize f) (findices f))"
    using dist all assms(2) unfolding distinct_append set_append by blast
  then show ?thesis using free_invD(5,6) [OF f] assms(2) by (cases "fcells f ! k") auto
qed

lemma frag_purge_ok:
  assumes "used_inv cfg f" "length cs = fcapacity cfg f"
    "\<forall>k<fcapacity cfg f. (cs ! k = Raw) = (fcells f ! k = Raw)"
  shows "\<exists>f'. frag_purge cfg (f\<lparr>fcells := cs\<rparr>) = Some f'"
proof (cases "fgood f")
  case True
  have f: "free_inv cfg f" using assms(1) by (simp add: used_inv_def)
  have d: "distinct (take (fsize f) (findices f))" using assms(1) by (simp add: used_inv_def)
  have u: "i < fcapacity cfg f \<and> fcells f ! i \<noteq> Raw" if "i \<in> set (take (fsize f) (findices f))" for i
    using that used_slots [OF assms(1), of i] used_invD(4) [OF assms(1)] by fastforce
  obtain cs' where c: "destruct_indexed (take (fsize f) (findices f)) cs = Some cs'" "length cs' = length cs"
    "\<forall>k<length cs. cs' ! k = (if k \<in> set (take (fsize f) (findices f)) then Raw else cs ! k)"
    using destruct_indexed_ok [OF d, of cs] u assms by auto
  have "cs' ! k = Raw" if "k < length cs'" for k
    using that c assms used_slots [OF assms(1), of k] free_invD(6) [OF f]
    by (cases "fcells f ! k") auto
  then have "\<forall>x\<in>set cs'. x = Raw" by (metis in_set_conv_nth)
  then show ?thesis
    using True c assms by (auto simp: frag_purge_def storage_deallocate_def fcapacity_def split: option.splits)
qed (simp add: frag_purge_def)

lemma frag_grow:
  assumes "used_inv cfg f" "static_capacity cfg = None" "n \<le> reserve_power_of_two cfg n"
    "alloc_ok cfg (reserve_power_of_two cfg n)" "fcapacity cfg f \<le> n"
  shows "\<exists>f'. frag_try_reallocate cfg n f = Some (True, f') \<and> used_inv cfg f' \<and> slots f' = slots f \<and>
    n \<le> fcapacity cfg f' \<and> fsize f' = fsize f"
proof -
  let ?m = "reserve_power_of_two cfg n"
  let ?is = "take (fsize f) (findices f)"
  define nf :: "'a frag" where "nf = uninit_frag cfg\<lparr>fgood := True, fcells := replicate ?m Raw, fcap := ?m\<rparr>"
  have f: "free_inv cfg f" using assms(1) by (simp add: used_inv_def)
  note d = free_invD [OF f]
  have al: "frag_allocate cfg ?m (uninit_frag cfg) = (True, nf)"
    using assms(2,4) by (simp add: frag_allocate_def storage_allocate_def Let_def nf_def)
  have cap: "fcapacity cfg nf = ?m" "fcapacity cfg f = fcap f" using assms(2) by (auto simp: nf_def fcapacity_def)
  have lt: "i < fcapacity cfg f" if "i \<in> set ?is" for i
    using that used_invD(4) [OF assms(1)] by blast
  obtain ocs cs where mv: "move_indexed ?is (fcells f) (replicate ?m Raw) = Some (ocs, cs)"
    "length ocs = fcapacity cfg f" "length cs = ?m"
    "\<forall>k<fcapacity cfg f. ocs ! k = (if k \<in> set ?is then Moved else fcells f ! k)"
    "\<forall>k<?m. cs ! k = (if k \<in> set ?is then fcells f ! k else Raw)"
    using move_indexed_ok [of ?is "fcells f" "replicate ?m Raw"] assms lt used_slots [OF assms(1)] d(1)
    using used_invD(2) [OF assms(1)] by fastforce
  have "\<exists>f'. frag_purge cfg (f\<lparr>fcells := ocs\<rparr>) = Some f'"
    using mv(2,4) used_slots [OF assms(1)] by (intro frag_purge_ok [OF assms(1)]) auto
  moreover define f' where "f' = nf\<lparr>fsize := fsize f, findices := findices f @ [fcapacity cfg f..<?m], fcells := cs\<rparr>"
  have "frag_move cfg f nf = Some (f\<lparr>fcells := ocs\<rparr>, f')"
    using mv(1) d(2,3) cap by (simp add: frag_move_def Let_def nf_def f'_def)
  ultimately have "frag_try_reallocate cfg n f = Some (True, f')"
    using assms(2,3) al by (auto simp: frag_try_reallocate_def Let_def)
  moreover have cap': "fcapacity cfg f' = ?m" using cap by (simp add: f'_def)
  have cell: "cs ! k = (if k < fcapacity cfg f then fcells f ! k else Raw)" if "k < ?m" for k
    using mv(5) that lt used_slots [OF assms(1), of k] d(6) by (cases "fcells f ! k") auto
  have "used_inv cfg f'"
  proof -
    have l: "length (findices f') = ?m" "length (fcells f') = ?m" "fsize f' = fsize f" "fgood f'"
      using d(2) mv(3) assms by (auto simp: f'_def nf_def)
    have dr: "drop (fsize f') (findices f') = drop (fsize f) (findices f) @ [fcapacity cfg f..<?m]"
      using d(2,3) by (simp add: f'_def)
    have s: "set (findices f') = {..<?m}" "distinct (findices f')"
    proof -
      have "fcapacity cfg f \<le> ?m" using assms by simp
      then have "{..<fcapacity cfg f} \<union> {fcapacity cfg f..<?m} = {..<?m}" by (simp add: ivl_disj_un)
      then show "set (findices f') = {..<?m}" using used_invD(3) [OF assms(1)] by (simp add: f'_def)
      show "distinct (findices f')"
        using used_invD(2,3) [OF assms(1)] by (simp add: f'_def ivl_disj_int)
    qed
    moreover have "set (drop (fsize f') (findices f')) = {i. i < ?m \<and> fcells f' ! i = Raw}"
      using cell d(5) assms unfolding dr by (auto simp: f'_def)
    moreover have "\<forall>i<?m. fcells f' ! i \<noteq> Moved"
      using cell d(6) by (simp add: f'_def)
    moreover have "distinct (drop (fsize f') (findices f'))" using s(2) by (rule distinct_drop)
    ultimately show ?thesis
      using l d(3) assms cap' unfolding used_inv_def by (intro conjI free_invI) auto
  qed
  moreover have "slots f' = slots f"
    using cell d(1) mv(3) assms by (auto simp: slots_def fun_eq_iff f'_def)
  ultimately show ?thesis using cap' assms(3) by (auto simp: f'_def)
qed

lemma emplace_used:
  assumes "used_inv cfg f" "frag_try_emplace cfg x f = Some (Some i, f')" "fsize f < fcapacity cfg f"
  shows "used_inv cfg f'"
  using emplace_room [OF used_invD(1) [OF assms(1)] assms(3), of x] assms(2) used_invD(2,3) [OF assms(1)]
  by (simp add: used_inv_def)

section \<open>The interface of a slot container\<close>

text \<open>What a client with handles relies on: a container with room accepts an element in a slot that was
  free, an erase frees exactly one slot, and no other slot changes.\<close>

locale slot_container =
  fixes inv :: "'f \<Rightarrow> bool"
    and room :: "'f \<Rightarrow> bool"
    and content :: "'f \<Rightarrow> nat \<Rightarrow> 'a option"
    and emplace :: "'a \<Rightarrow> 'f \<Rightarrow> (nat option \<times> 'f) option"
    and free :: "nat \<Rightarrow> 'f \<Rightarrow> (bool \<times> 'f) option"
  assumes emplace_law: "inv f \<Longrightarrow> room f \<Longrightarrow> \<exists>i f'. emplace x f = Some (Some i, f') \<and> inv f' \<and>
      content f i = None \<and> content f' = (content f)(i \<mapsto> x)"
    and free_law: "inv f \<Longrightarrow> content f i = Some x \<Longrightarrow> \<exists>f'. free i f = Some (True, f') \<and> inv f' \<and>
      content f' = (content f)(i := None)"
begin

lemma emplace_keeps:
  assumes "inv f" "room f" "content f j = Some y" "emplace x f = Some (Some i, f')"
  shows "i \<noteq> j \<and> content f' j = Some y"
  using emplace_law [OF assms(1,2), of x] assms(3,4) by auto

lemma emplace_free:
  assumes "inv f" "room f" "emplace x f = Some (Some i, f')"
  shows "\<exists>f''. free i f' = Some (True, f'') \<and> content f'' = content f"
proof -
  have f': "inv f'" "content f' = (content f)(i \<mapsto> x)" "content f i = None"
    using emplace_law [OF assms(1,2), of x] assms(3) by auto
  then obtain f'' where "free i f' = Some (True, f'')" "content f'' = (content f')(i := None)"
    using free_law [of f' i x] by auto
  then show ?thesis using f' by (intro exI [of _ f'']) (simp add: fun_upd_idem)
qed

end

interpretation fr: slot_container "free_inv cfg" "\<lambda>f. fsize f < fcapacity cfg f" slots
    "frag_try_emplace cfg" "frag_try_erase cfg" for cfg
proof
  fix f :: "'a frag" and x i
  assume f: "free_inv cfg f"
  show "fsize f < fcapacity cfg f \<Longrightarrow> \<exists>i f'. frag_try_emplace cfg x f = Some (Some i, f') \<and> free_inv cfg f' \<and>
      slots f i = None \<and> slots f' = (slots f)(i \<mapsto> x)"
    using emplace_room [OF f, of x] by blast
  show "slots f i = Some x \<Longrightarrow> \<exists>f'. frag_try_erase cfg i f = Some (True, f') \<and> free_inv cfg f' \<and>
      slots f' = (slots f)(i := None)"
    using erase_live [OF f, of i x] by blast
qed

section \<open>Properties\<close>

text \<open>Erasing a live slot: everything the client can see of the state after it.\<close>

lemma erase_reuse:
  assumes "free_inv cfg f" "slots f j = Some y"
  shows "\<exists>f'. frag_try_erase cfg j f = Some (True, f') \<and> free_inv cfg f' \<and> slots f' = (slots f)(j := None) \<and>
    Suc (fsize f') = fsize f \<and> fcapacity cfg f' = fcapacity cfg f \<and> frag_try_erase cfg j f' = Some (False, f') \<and>
    (\<exists>f''. frag_try_emplace cfg z f' = Some (Some j, f'') \<and> slots f'' = (slots f)(j \<mapsto> z))"
proof -
  note d = free_invD [OF assms(1)]
  obtain f' where f': "frag_try_erase cfg j f = Some (True, f')" "free_inv cfg f'" "slots f' = (slots f)(j := None)"
    "findices f' = (findices f)[fsize f - 1 := j]" "fsize f' = fsize f - 1" "fcapacity cfg f' = fcapacity cfg f"
    using erase_live [OF assms] by blast
  have n: "0 < fsize f" using live_count [OF assms(1), of j] assms(2) by simp
  have j: "j < fcapacity cfg f" using assms(2) d(1) by (auto simp: slots_def split: if_splits)
  have "fsize f' < fcapacity cfg f'" using n d(3) f'(5,6) by simp
  moreover have "findices f' ! fsize f' = j" using n d(2,3) f'(4,5) by simp
  ultimately obtain f'' where "frag_try_emplace cfg z f' = Some (Some j, f'')" "slots f'' = (slots f')(j \<mapsto> z)"
    using emplace_room [OF f'(2), of z] by metis
  moreover have "frag_try_erase cfg j f' = Some (False, f')" using j f'(3,6) by (intro erase_free [OF f'(2)]) simp_all
  ultimately show ?thesis using f' n by auto
qed

text \<open>C31: while there is room, emplacing and erasing are safe and keep the free list exact.  A new element goes to a
  slot that held none, no other slot changes, and the count goes up by one.  After that any element may be erased: its
  slot and no other becomes free, the count goes down again, the free list is exact again, a second erase of
  the slot reports that nothing is there and changes nothing, and the next element is put in that slot.\<close>
theorem frag_emplace_erase:
  assumes "free_inv cfg f" "fsize f < fcapacity cfg f"
  shows "\<exists>i f'. frag_try_emplace cfg x f = Some (Some i, f') \<and> free_inv cfg f' \<and> slots f i = None \<and>
    slots f' = (slots f)(i \<mapsto> x) \<and> fsize f' = Suc (fsize f) \<and> fcapacity cfg f' = fcapacity cfg f \<and>
    (\<forall>j y. slots f' j = Some y \<longrightarrow>
      (\<exists>f''. frag_try_erase cfg j f' = Some (True, f'') \<and> free_inv cfg f'' \<and> slots f'' = (slots f')(j := None) \<and>
        fsize f'' = fsize f \<and> fcapacity cfg f'' = fcapacity cfg f \<and> frag_try_erase cfg j f'' = Some (False, f'') \<and>
        (\<exists>f3. frag_try_emplace cfg z f'' = Some (Some j, f3) \<and> slots f3 = (slots f')(j \<mapsto> z))))"
proof -
  obtain i f' where e: "frag_try_emplace cfg x f = Some (Some i, f')" "free_inv cfg f'" "slots f i = None"
    "slots f' = (slots f)(i \<mapsto> x)" "fsize f' = Suc (fsize f)" "fcapacity cfg f' = fcapacity cfg f"
    using emplace_room [OF assms, of x] by blast
  show ?thesis
    by (rule exI [of _ i], rule exI [of _ f']) (use e erase_reuse [OF e(2)] in auto)
qed

definition frag_one :: "nat frag" where
  "frag_one = \<lparr>fgood = True, fcells = [Live 10, Raw, Raw], findices = [0, 1, 2], fcap = 3, fsize = 1\<rparr>"

definition three :: config where
  "three = \<lparr>static_capacity = Some 3, alloc_ok = (\<lambda>n. True)\<rparr>"

lemma frag_one_ok: "free_inv three frag_one" "fsize frag_one < fcapacity three frag_one"
proof -
  have "{i. i < 3 \<and> [Live 10, Raw, Raw :: nat cell] ! i = Raw} = {1, 2}" by (auto simp: less_Suc_eq numeral_eq_Suc)
  then show "free_inv three frag_one"
    by (auto simp: free_inv_def frag_one_def three_def fcapacity_def less_Suc_eq numeral_eq_Suc)
qed (simp add: frag_one_def three_def fcapacity_def)

text \<open>The older element is erased and its slot given to the next one.\<close>

theorem frag_emplace_erase_witness:
  "\<exists>i f' f'' f3. frag_try_emplace three 5 frag_one = Some (Some i, f') \<and> slots f' = (slots frag_one)(i \<mapsto> 5) \<and>
    frag_try_erase three 0 f' = Some (True, f'') \<and> slots f'' = (slots f')(0 := None) \<and> fsize f'' = 1 \<and>
    frag_try_erase three 0 f'' = Some (False, f'') \<and> frag_try_emplace three 7 f'' = Some (Some 0, f3)"
proof -
  obtain i f' where f': "frag_try_emplace three 5 frag_one = Some (Some i, f')" "slots frag_one i = None"
    "slots f' = (slots frag_one)(i \<mapsto> 5)"
    "\<And>j y. slots f' j = Some y \<Longrightarrow>
      \<exists>f''. frag_try_erase three j f' = Some (True, f'') \<and> slots f'' = (slots f')(j := None) \<and>
        fsize f'' = fsize frag_one \<and> frag_try_erase three j f'' = Some (False, f'') \<and>
        (\<exists>f3. frag_try_emplace three 7 f'' = Some (Some j, f3))"
    using frag_emplace_erase [OF frag_one_ok, of 5 7] by metis
  have s: "slots frag_one 0 = Some 10" by (simp add: slots_def frag_one_def)
  then have "slots f' 0 = Some 10" using f'(2,3) by (cases "i = 0") simp_all
  from f'(4) [OF this] show ?thesis using f'(1,3) by (auto simp: frag_one_def)
qed

text \<open>Growing is safe and moves every element to the same slot of the larger row, provided no index
  occurs twice in the index array.\<close>
theorem frag_grow_correct:
  assumes "used_inv cfg f" "static_capacity cfg = None" "n \<le> reserve_power_of_two cfg n"
    "alloc_ok cfg (reserve_power_of_two cfg n)" "fcapacity cfg f \<le> n"
  shows "\<exists>f'. frag_try_reallocate cfg n f = Some (True, f') \<and> used_inv cfg f' \<and> slots f' = slots f \<and>
    n \<le> fcapacity cfg f'"
  using frag_grow [OF assms] by blast

definition dyn :: config where
  "dyn = \<lparr>static_capacity = None, alloc_ok = (\<lambda>n. True)\<rparr>"

definition frag2 :: "nat frag" where
  "frag2 = \<lparr>fgood = True, fcells = [Live 10, Live 20], findices = [0, 1], fcap = 2, fsize = 2\<rparr>"

lemma frag2_used: "used_inv dyn frag2"
  by (auto simp: used_inv_def free_inv_def frag2_def dyn_def fcapacity_def less_Suc_eq numeral_2_eq_2 nth_Cons
      split: nat.splits)

theorem frag_grow_correct_witness:
  "\<exists>f'. frag_try_reallocate dyn 3 frag2 = Some (True, f') \<and> used_inv dyn f' \<and> slots f' = slots frag2 \<and>
    3 \<le> fcapacity dyn f'"
  by (rule frag_grow_correct [OF frag2_used])
    (simp_all add: dyn_def frag2_def fcapacity_def reserve_power_of_two_def clp2_64_def)

text \<open>That proviso is not kept.  \<^verbatim>\<open>try_erase\<close> writes the freed index over the last used one, so after
  erasing any element but the one whose index is last, the used part names a dead slot and the container
  cannot be destroyed or grown: its purge destructs an object that is not there.\<close>
theorem frag_erase_breaks_purge:
  assumes "used_inv cfg f" "fgood f" "slots f i = Some x" "i \<noteq> findices f ! (fsize f - 1)"
  shows "\<exists>f'. frag_try_erase cfg i f = Some (True, f') \<and> frag_purge cfg f' = None"
proof -
  note u = used_invD [OF assms(1)]
  obtain f' where f': "frag_try_erase cfg i f = Some (True, f')" "findices f' = (findices f)[fsize f - 1 := i]"
    "fsize f' = fsize f - 1" "fcells f' = (fcells f)[i := Raw]" "fgood f' = fgood f"
    using erase_live [OF u(1) assms(3)] by blast
  have i: "i < fcapacity cfg f" "\<exists>x. fcells f ! i = Live x"
    using assms(3) free_invD(1) [OF u(1)] by (auto simp: slots_def split: if_splits cell.splits)
  then have "i \<in> set (take (fsize f) (findices f))" using used_slots [OF assms(1)] by blast
  then obtain k where k: "k < fsize f" "findices f ! k = i" "k < length (findices f)"
    by (auto simp: in_set_conv_nth)
  then have "k \<noteq> fsize f - 1" using assms(4) by blast
  then have k1: "k < fsize f - 1" using k(1) by linarith
  have "findices f' ! k = i" "k < length (findices f')" using k k1 f'(2) by simp_all
  then have "i \<in> set (take (fsize f') (findices f'))"
    using k1 f'(3) in_set_conv_nth [of i "take (fsize f') (findices f')"] by auto
  then have "destruct_indexed (take (fsize f') (findices f')) (fcells f') = None"
    using i(1) f'(4) free_invD(1) [OF u(1)] by (intro destruct_indexed_dead) auto
  then show ?thesis using f' assms(2) by (simp add: frag_purge_def)
qed

theorem frag_erase_breaks_purge_witness:
  "\<exists>f'. frag_try_erase dyn 0 frag2 = Some (True, f') \<and> frag_purge dyn f' = None"
  by (rule frag_erase_breaks_purge [OF frag2_used]) (simp_all add: frag2_def slots_def)

text \<open>The same defect loses elements silently before any destruction: after erasing slot 0 of two and
  refilling it, growing constructs slot 0 twice, whatever was in slot 1.\<close>
theorem frag_reuse_then_grow_undefined:
  "do { (_, f) \<leftarrow> frag_try_erase dyn 0 frag2; (_, f) \<leftarrow> frag_try_emplace dyn 30 f;
        frag_try_emplace dyn 40 f } = None"
proof -
  have "reserve_power_of_two dyn 3 = 4" by (simp add: dyn_def reserve_power_of_two_def clp2_64_def)
  then have r: "reserve_power_of_two dyn (Suc (Suc (Suc 0))) = 4" "static_capacity dyn = None" "alloc_ok dyn n" for n
    by (simp_all add: dyn_def eval_nat_numeral)
  show ?thesis
    by (simp add: frag2_def frag_try_erase_def frag_try_emplace_def frag_try_reserve_def
      frag_try_reallocate_def frag_allocate_def storage_allocate_def frag_move_def fcapacity_def
      r Let_def cell_defs uninit_frag_def fresh_storage_def numeral_2_eq_2)
qed

end
