(* ===== verification/Exchange_Queue.thy ===== *)
theory Exchange_Queue
  imports Storage
begin

text \<open>
  The exchange queue of \<^verbatim>\<open>core/container/ExchangeQueue.hpp\<close>: three cells, of which one belongs to the
  reader, one to the writer and one is the exchange cell.  The first part gives the two operations as whole
  calls and shows that they implement a mailbox that holds the last value written.  The second part runs one
  reader and one writer against each other, one access to shared memory per step, and separates what the
  protocol guarantees from what the shared \<^verbatim>\<open>std::bitset\<close> spoils: setting or resetting a bit reads the whole
  bitset and writes it back.
\<close>

section \<open>The queue\<close>

record 'a exq =
  lasti :: nat
  xreadi :: nat
  xwritei :: nat
  writebits :: "bool list"
  xbuffer :: "'a cell list"

definition exq_new :: "'a exq" where
  "exq_new = \<lparr>lasti = 0, xreadi = 1, xwritei = 2, writebits = [False, False, False], xbuffer = [Raw, Raw, Raw]\<rparr>"

definition exq_try_pop :: "'a exq \<Rightarrow> ('a option \<times> 'a exq) option" where
  "exq_try_pop q = (
    let q = q\<lparr>xreadi := lasti q, lasti := xreadi q\<rparr> in
    if writebits q ! xreadi q then do {
      (item, b) \<leftarrow> move_at (xreadi q) (xbuffer q);
      let q = q\<lparr>writebits := (writebits q)[xreadi q := False]\<rparr>;
      b \<leftarrow> destruct_at (xreadi q) b;
      Some (Some item, q\<lparr>xbuffer := b\<rparr>) }
    else Some (None, q))"

definition exq_try_push :: "'a \<Rightarrow> 'a exq \<Rightarrow> (bool \<times> 'a exq) option" where
  "exq_try_push x q = do {
    let q = q\<lparr>writebits := (writebits q)[xwritei q := True]\<rparr>;
    b \<leftarrow> construct_at (xwritei q) x (xbuffer q);
    let q = q\<lparr>xbuffer := b\<rparr>;
    let q = q\<lparr>xwritei := lasti q, lasti := xwritei q\<rparr>;
    if writebits q ! xwritei q then do {
      b \<leftarrow> destruct_at (xwritei q) (xbuffer q);
      Some (True, q\<lparr>xbuffer := b\<rparr>) }
    else Some (True, q) }"

text \<open>Shape of a queue: the three indices are the three cells.\<close>

definition exq_shape :: "'a exq \<Rightarrow> bool" where
  "exq_shape q \<longleftrightarrow> length (writebits q) = 3 \<and> length (xbuffer q) = 3 \<and>
     lasti q < 3 \<and> xreadi q < 3 \<and> xwritei q < 3 \<and>
     lasti q \<noteq> xreadi q \<and> lasti q \<noteq> xwritei q \<and> xreadi q \<noteq> xwritei q"

text \<open>\<open>holds q i v\<close>: the bit of cell \<open>i\<close> tells whether it holds an object, and the object is \<open>v\<close>.\<close>

definition holds :: "'a exq \<Rightarrow> nat \<Rightarrow> 'a option \<Rightarrow> bool" where
  "holds q i v \<longleftrightarrow> (case v of None \<Rightarrow> \<not> writebits q ! i \<and> xbuffer q ! i = Raw
     | Some x \<Rightarrow> writebits q ! i \<and> xbuffer q ! i = Live x)"

text \<open>The bit of the writer's cell says nothing: it stays set when the writer discards an unread value.\<close>

definition exq_inv :: "'a exq \<Rightarrow> 'a option \<Rightarrow> bool" where
  "exq_inv q v \<longleftrightarrow> exq_shape q \<and> holds q (lasti q) v \<and> holds q (xreadi q) None \<and> xbuffer q ! xwritei q = Raw"

lemma exq_new_inv: "exq_inv exq_new None"
  by (simp add: exq_new_def exq_inv_def exq_shape_def holds_def)

lemma exq_try_push_inv:
  assumes "exq_inv q v"
  shows "\<exists>q'. exq_try_push x q = Some (True, q') \<and> exq_inv q' (Some x)"
  using assms
  by (auto simp: exq_try_push_def exq_inv_def exq_shape_def holds_def cell_defs nth_update_if Let_def
      split: option.splits)

lemma exq_try_pop_inv:
  assumes "exq_inv q v"
  shows "\<exists>q'. exq_try_pop q = Some (v, q') \<and> exq_inv q' None"
  using assms
  by (auto simp: exq_try_pop_def exq_inv_def exq_shape_def holds_def cell_defs nth_update_if Let_def
      split: option.splits)

subsection \<open>The mailbox contract\<close>

datatype 'a mail_op = Push 'a | Pop

locale mailbox =
  fixes rep :: "'q \<Rightarrow> 'a option \<Rightarrow> bool"
    and push :: "'a \<Rightarrow> 'q \<Rightarrow> (bool \<times> 'q) option"
    and pop :: "'q \<Rightarrow> ('a option \<times> 'q) option"
  assumes push_law: "rep q v \<Longrightarrow> \<exists>q'. push x q = Some (True, q') \<and> rep q' (Some x)"
    and pop_law: "rep q v \<Longrightarrow> \<exists>q'. pop q = Some (v, q') \<and> rep q' None"
begin

lemma push_pushed:
  assumes "rep q v"
  shows "\<exists>q' q''. push x q = Some (True, q') \<and> push y q' = Some (True, q'') \<and> rep q'' (Some y)"
  using assms push_law by blast

lemma pop_pushed:
  assumes "rep q v"
  shows "\<exists>q' q''. push x q = Some (True, q') \<and> pop q' = Some (Some x, q'') \<and> rep q'' None"
  using assms push_law pop_law by blast

end

interpretation xq: mailbox exq_inv exq_try_push exq_try_pop
  by unfold_locales (simp_all add: exq_try_push_inv exq_try_pop_inv)

text \<open>A run of calls, with the results of the pops, and what a mailbox answers.\<close>

fun exq_run :: "'a mail_op list \<Rightarrow> 'a exq \<Rightarrow> ('a option list \<times> 'a exq) option" where
  "exq_run [] q = Some ([], q)"
| "exq_run (Push x # ops) q = do { (_, q) \<leftarrow> exq_try_push x q; exq_run ops q }"
| "exq_run (Pop # ops) q = do { (r, q) \<leftarrow> exq_try_pop q; (rs, q) \<leftarrow> exq_run ops q; Some (r # rs, q) }"

fun mailbox_run :: "'a mail_op list \<Rightarrow> 'a option \<Rightarrow> 'a option list \<times> 'a option" where
  "mailbox_run [] v = ([], v)"
| "mailbox_run (Push x # ops) v = mailbox_run ops (Some x)"
| "mailbox_run (Pop # ops) v = (let (rs, v') = mailbox_run ops None in (v # rs, v'))"

lemma exq_run_inv:
  assumes "exq_inv q v"
  shows "\<exists>q'. exq_run ops q = Some (fst (mailbox_run ops v), q') \<and> exq_inv q' (snd (mailbox_run ops v))"
  using assms
proof (induction ops v arbitrary: q rule: mailbox_run.induct)
  case (2 x ops v)
  then show ?case using xq.push_law [of q v x] by fastforce
next
  case (3 ops v)
  then show ?case using xq.pop_law [of q v] by (fastforce simp: Let_def case_prod_beta)
qed simp

section \<open>One reader against one writer\<close>

text \<open>The positions of the two threads between their accesses to shared memory.  \<open>WLoaded\<close> and \<open>RLoaded\<close> are
  the positions inside \<^verbatim>\<open>writebits.set\<close> and \<^verbatim>\<open>writebits.reset\<close>, which hold a copy of the bitset.\<close>

datatype 'a wpc = WIdle | WLoaded 'a "bool list" | WSet 'a | WConstructed 'a | WExchanged | WTested bool

datatype 'a rpc = RIdle | RExchanged | RTested | RMoved 'a | RLoaded 'a "bool list" | RReset 'a
  | RDone "'a option"

text \<open>\<open>mail\<close> is the value published by the last exchange of the writer and not yet taken, and \<open>taken\<close> what the
  last exchange of the reader took; they are for the statements only.\<close>

record 'a xsys =
  xq :: "'a exq"
  wpc :: "'a wpc"
  rpc :: "'a rpc"
  mail :: "'a option"
  taken :: "'a option"

definition xsys_new :: "'a xsys" where
  "xsys_new = \<lparr>xq = exq_new, wpc = WIdle, rpc = RIdle, mail = None, taken = None\<rparr>"

datatype 's outcome = Blocked | Undefined | Next 's

definition lift_cell :: "('b \<Rightarrow> 's) \<Rightarrow> 'b option \<Rightarrow> 's outcome" where
  "lift_cell f r = (case r of None \<Rightarrow> Undefined | Some b \<Rightarrow> Next (f b))"

text \<open>With \<open>excl\<close> the two read-modify-writes of the bitset exclude each other; the code has no such exclusion.\<close>

definition writer_step :: "bool \<Rightarrow> 'a \<Rightarrow> 'a xsys \<Rightarrow> 'a xsys outcome" where
  "writer_step excl x s = (let q = xq s in case wpc s of
     WIdle \<Rightarrow> (case rpc s of
         RLoaded _ _ \<Rightarrow> if excl then Blocked else Next (s\<lparr>wpc := WLoaded x (writebits q)\<rparr>)
       | _ \<Rightarrow> Next (s\<lparr>wpc := WLoaded x (writebits q)\<rparr>))
   | WLoaded y b \<Rightarrow> Next (s\<lparr>xq := q\<lparr>writebits := b[xwritei q := True]\<rparr>, wpc := WSet y\<rparr>)
   | WSet y \<Rightarrow> lift_cell (\<lambda>b. s\<lparr>xq := q\<lparr>xbuffer := b\<rparr>, wpc := WConstructed y\<rparr>)
       (construct_at (xwritei q) y (xbuffer q))
   | WConstructed y \<Rightarrow> Next (s\<lparr>xq := q\<lparr>xwritei := lasti q, lasti := xwritei q\<rparr>, wpc := WExchanged, mail := Some y\<rparr>)
   | WExchanged \<Rightarrow> Next (s\<lparr>wpc := WTested (writebits q ! xwritei q)\<rparr>)
   | WTested t \<Rightarrow> (if t then lift_cell (\<lambda>b. s\<lparr>xq := q\<lparr>xbuffer := b\<rparr>, wpc := WIdle\<rparr>)
         (destruct_at (xwritei q) (xbuffer q))
       else Next (s\<lparr>wpc := WIdle\<rparr>)))"

definition reader_step :: "bool \<Rightarrow> 'a xsys \<Rightarrow> 'a xsys outcome" where
  "reader_step excl s = (let q = xq s in case rpc s of
     RIdle \<Rightarrow> Next (s\<lparr>xq := q\<lparr>xreadi := lasti q, lasti := xreadi q\<rparr>, rpc := RExchanged, taken := mail s, mail := None\<rparr>)
   | RExchanged \<Rightarrow> Next (s\<lparr>rpc := (if writebits q ! xreadi q then RTested else RDone None)\<rparr>)
   | RTested \<Rightarrow> lift_cell (\<lambda>(y, b). s\<lparr>xq := q\<lparr>xbuffer := b\<rparr>, rpc := RMoved y\<rparr>) (move_at (xreadi q) (xbuffer q))
   | RMoved y \<Rightarrow> (case wpc s of
         WLoaded _ _ \<Rightarrow> if excl then Blocked else Next (s\<lparr>rpc := RLoaded y (writebits q)\<rparr>)
       | _ \<Rightarrow> Next (s\<lparr>rpc := RLoaded y (writebits q)\<rparr>))
   | RLoaded y b \<Rightarrow> Next (s\<lparr>xq := q\<lparr>writebits := b[xreadi q := False]\<rparr>, rpc := RReset y\<rparr>)
   | RReset y \<Rightarrow> lift_cell (\<lambda>b. s\<lparr>xq := q\<lparr>xbuffer := b\<rparr>, rpc := RDone (Some y)\<rparr>)
       (destruct_at (xreadi q) (xbuffer q))
   | RDone r \<Rightarrow> Next (s\<lparr>rpc := RIdle\<rparr>))"

inductive exq_reach :: "bool \<Rightarrow> 'a xsys \<Rightarrow> bool" for excl where
  init: "exq_reach excl xsys_new"
| writer: "exq_reach excl s \<Longrightarrow> writer_step excl x s = Next s' \<Longrightarrow> exq_reach excl s'"
| reader: "exq_reach excl s \<Longrightarrow> reader_step excl s = Next s' \<Longrightarrow> exq_reach excl s'"

subsection \<open>The invariant of the protocol\<close>

definition writer_inv :: "'a xsys \<Rightarrow> bool" where
  "writer_inv s \<longleftrightarrow> (let q = xq s; c = xbuffer q ! xwritei q in case wpc s of
     WIdle \<Rightarrow> c = Raw
   | WLoaded y b \<Rightarrow> c = Raw \<and> b = writebits q
   | WSet y \<Rightarrow> c = Raw \<and> writebits q ! xwritei q
   | WConstructed y \<Rightarrow> c = Live y \<and> writebits q ! xwritei q
   | WExchanged \<Rightarrow> (writebits q ! xwritei q \<longleftrightarrow> c \<noteq> Raw)
   | WTested t \<Rightarrow> (t \<longleftrightarrow> c \<noteq> Raw))"

definition reader_inv :: "'a xsys \<Rightarrow> bool" where
  "reader_inv s \<longleftrightarrow> (let q = xq s; c = xbuffer q ! xreadi q; w = writebits q ! xreadi q in case rpc s of
     RIdle \<Rightarrow> holds q (xreadi q) None
   | RExchanged \<Rightarrow> holds q (xreadi q) (taken s)
   | RTested \<Rightarrow> taken s \<noteq> None \<and> holds q (xreadi q) (taken s)
   | RMoved y \<Rightarrow> taken s = Some y \<and> c = Moved \<and> w
   | RLoaded y b \<Rightarrow> taken s = Some y \<and> c = Moved \<and> w \<and> b = writebits q
   | RReset y \<Rightarrow> taken s = Some y \<and> c = Moved \<and> \<not> w
   | RDone r \<Rightarrow> r = taken s \<and> holds q (xreadi q) None)"

definition not_both_loaded :: "'a xsys \<Rightarrow> bool" where
  "not_both_loaded s \<longleftrightarrow> (case wpc s of WLoaded _ _ \<Rightarrow> (case rpc s of RLoaded _ _ \<Rightarrow> False | _ \<Rightarrow> True) | _ \<Rightarrow> True)"

definition xsys_inv :: "'a xsys \<Rightarrow> bool" where
  "xsys_inv s \<longleftrightarrow> exq_shape (xq s) \<and> holds (xq s) (lasti (xq s)) (mail s) \<and> writer_inv s \<and> reader_inv s \<and>
     not_both_loaded s"

lemmas xsys_defs = xsys_inv_def exq_shape_def holds_def writer_inv_def reader_inv_def not_both_loaded_def
  Let_def lift_cell_def cell_defs

fun safely :: "('s \<Rightarrow> bool) \<Rightarrow> 's outcome \<Rightarrow> bool" where
  "safely P Blocked = True"
| "safely P Undefined = False"
| "safely P (Next s) = P s"

lemma writer_step_inv: "xsys_inv s \<Longrightarrow> safely xsys_inv (writer_step True x s)"
  by (cases "wpc s"; cases "rpc s"; cases "mail s"; cases "taken s")
    (auto simp: writer_step_def xsys_defs nth_update_if)

lemma reader_step_inv: "xsys_inv s \<Longrightarrow> safely xsys_inv (reader_step True s)"
  by (cases "rpc s"; cases "wpc s"; cases "mail s"; cases "taken s")
    (auto simp: reader_step_def xsys_defs nth_update_if)

lemma exq_reach_inv: "exq_reach True s \<Longrightarrow> xsys_inv s"
proof (induction rule: exq_reach.induct)
  case init
  show ?case by (simp add: xsys_new_def exq_new_def xsys_defs)
next
  case (writer s x s')
  then show ?case using writer_step_inv [of s x] by simp
next
  case (reader s s')
  then show ?case using reader_step_inv [of s] by simp
qed

section \<open>Properties\<close>

text \<open>C24: the exchange queue is a mailbox: over any sequence of calls no call is undefined, every pop
  answers the last value pushed since the previous pop, if there is one, and every push succeeds.\<close>
theorem exchange_queue_mailbox:
  "\<exists>q'. exq_run ops exq_new = Some (fst (mailbox_run ops None), q') \<and> exq_inv q' (snd (mailbox_run ops None))"
  by (rule exq_run_inv [OF exq_new_inv])

text \<open>C15: between one reader and one writer the protocol is safe at the granularity of single memory accesses,
  if the updates of the bitset exclude each other: no step touches an object that is not there, and a pop
  returns the value of the last exchange of the writer before its own.\<close>
theorem exchange_queue_protocol_safe:
  assumes "exq_reach True s"
  shows "writer_step True x s \<noteq> Undefined \<and> reader_step True s \<noteq> Undefined \<and>
    (case rpc s of RDone r \<Rightarrow> r = taken s | _ \<Rightarrow> True)"
proof -
  have i: "xsys_inv s" by (rule exq_reach_inv [OF assms])
  have "case rpc s of RDone r \<Rightarrow> r = taken s | _ \<Rightarrow> True"
    using i by (cases "rpc s") (simp_all add: xsys_inv_def reader_inv_def Let_def)
  then show ?thesis using writer_step_inv [OF i, of x] reader_step_inv [OF i] by auto
qed

text \<open>A run of the two threads, as the list of who steps; the writer pushes the given values.\<close>

fun sched :: "bool \<Rightarrow> (unit + 'a) list \<Rightarrow> 'a xsys \<Rightarrow> 'a xsys outcome" where
  "sched excl [] s = Next s"
| "sched excl (Inl _ # es) s = (case reader_step excl s of Next s' \<Rightarrow> sched excl es s' | r \<Rightarrow> r)"
| "sched excl (Inr x # es) s = (case writer_step excl x s of Next s' \<Rightarrow> sched excl es s' | r \<Rightarrow> r)"

lemma sched_reach: "exq_reach excl s \<Longrightarrow> sched excl es s = Next s' \<Longrightarrow> exq_reach excl s'"
proof (induction es arbitrary: s)
  case (Cons e es)
  then show ?case
    by (cases e) (auto split: outcome.splits intro: exq_reach.writer exq_reach.reader)
qed simp

text \<open>A push, and a pop up to its answer.\<close>

theorem exchange_queue_protocol_safe_witness:
  "\<exists>s. sched True (replicate 6 (Inr (7 :: nat)) @ replicate 6 (Inl ())) xsys_new = Next s \<and> rpc s = RDone (Some 7) \<and>
    taken s = Some 7 \<and> writer_step True 8 s \<noteq> Undefined \<and> reader_step True s \<noteq> Undefined"
proof -
  obtain s where s: "sched True (replicate 6 (Inr (7 :: nat)) @ replicate 6 (Inl ())) xsys_new = Next s" "rpc s = RDone (Some 7)"
    by (simp add: eval_nat_numeral xsys_new_def exq_new_def reader_step_def writer_step_def Let_def lift_cell_def cell_defs)
  then show ?thesis using exchange_queue_protocol_safe [OF sched_reach [OF exq_reach.init s(1)], of 8] by auto
qed

text \<open>A push; the reader takes it; the writer reads the bitset for its next push before the reader resets its
  bit and writes it back after.  The reader's bit stays set on an empty cell, and two pops later the reader
  moves from it.\<close>

definition lost_reset :: "(unit + nat) list" where
  "lost_reset = replicate 6 (Inr 1) @ replicate 3 (Inl ()) @ [Inr 2] @ replicate 3 (Inl ()) @ [Inr 2]
     @ replicate 6 (Inl ())"

text \<open>Without that exclusion, which the code does not have, the queue is not safe: a set and a reset that
  overlap lose the reset, and the reader then moves from a cell that holds no object.\<close>
theorem exchange_queue_bitset_race:
  "\<exists>s :: nat xsys. exq_reach False s \<and> reader_step False s = Undefined"
proof -
  have "\<exists>s. sched False lost_reset xsys_new = Next s \<and> reader_step False s = Undefined"
    by (simp add: lost_reset_def eval_nat_numeral xsys_new_def exq_new_def reader_step_def writer_step_def Let_def
        lift_cell_def cell_defs)
  then show ?thesis using sched_reach [OF exq_reach.init] by blast
qed

end
