(* ===== verification/Ring_Queue.thy ===== *)
theory Ring_Queue
  imports Storage
begin

text \<open>
  The bounded queue of \<^verbatim>\<open>core/container/Queue.hpp\<close>: \<^verbatim>\<open>SimpleQueue\<close>, a ring of cells with a reading and a
  writing position and a barrier that the writers advance when an element is complete, and the two functions
  that hand out writing slots, which \<^verbatim>\<open>PageQueue\<close> uses too.  The first part gives the operations as whole calls
  and shows that they are a bounded first-in first-out queue.  The second part interleaves any number of
  producers with one consumer, one access to shared memory per step: with one producer the ring is safe and
  keeps the order, with two it is not.
\<close>

section \<open>The ring\<close>

definition wrap_once :: "nat \<Rightarrow> nat \<Rightarrow> nat" where
  "wrap_once v m = (if v < m then v else v - m)"

definition wrap_reset :: "nat \<Rightarrow> nat \<Rightarrow> nat" where
  "wrap_reset v m = (if v < m then v else 0)"

record 'a ring =
  readi :: nat
  readendi :: nat
  writei :: nat
  rcap :: nat
  rcells :: "'a cell list"

definition ring_new :: "nat \<Rightarrow> 'a ring" where
  "ring_new capacity = \<lparr>readi = 0, readendi = 0, writei = 0, rcap = capacity, rcells = replicate capacity Raw\<rparr>"

text \<open>The slot after \<open>slot\<close>: the addition is the one of \<^verbatim>\<open>std::size_t\<close>.\<close>

definition next_slot :: "nat \<Rightarrow> nat \<Rightarrow> nat" where
  "next_slot slot capacity = wrap_reset ((slot + 1) mod 2 ^ 64) capacity"

text \<open>Undisturbed, the exchange of \<^verbatim>\<open>checkout_write_slot\<close> succeeds at once, and so does the one of
  \<^verbatim>\<open>checkin_write_slot\<close> if the barrier stands at the slot; if it does not, the loop does not end.\<close>

definition checkout_write_slot :: "'a ring \<Rightarrow> (nat \<times> nat \<times> 'a ring) option" where
  "checkout_write_slot q = (
    let slot = writei q; next = next_slot slot (rcap q) in
    if readi q = next then None else Some (slot, next, q\<lparr>writei := next\<rparr>))"

definition checkin_write_slot :: "nat \<Rightarrow> nat \<Rightarrow> 'a ring \<Rightarrow> 'a ring option" where
  "checkin_write_slot slot next q = (if readendi q = slot then Some (q\<lparr>readendi := next\<rparr>) else None)"

definition ring_try_emplace :: "'a \<Rightarrow> 'a ring \<Rightarrow> (bool \<times> 'a ring) option" where
  "ring_try_emplace x q = (case checkout_write_slot q of
     None \<Rightarrow> Some (False, q)
   | Some (slot, next, q) \<Rightarrow> do {
       cs \<leftarrow> construct_at slot x (rcells q);
       q \<leftarrow> checkin_write_slot slot next (q\<lparr>rcells := cs\<rparr>);
       Some (True, q) })"

definition ring_try_pop :: "'a ring \<Rightarrow> ('a option \<times> 'a ring) option" where
  "ring_try_pop q = (
    let slot = readi q; barrier = readendi q in
    if slot = barrier then Some (None, q)
    else do {
      (x, cs) \<leftarrow> move_at slot (rcells q);
      cs \<leftarrow> destruct_at slot cs;
      Some (Some x, q\<lparr>rcells := cs, readi := next_slot slot (rcap q)\<rparr>) })"

text \<open>\<^verbatim>\<open>SimpleQueue(size)\<close>, \<^verbatim>\<open>capacity()\<close> and the destructor.\<close>

definition simple_queue_new :: "config \<Rightarrow> nat \<Rightarrow> 'a ring option" where
  "simple_queue_new cfg n = (
    let capacity = reserve_power_of_two cfg n in
    case storage_allocate cfg capacity (fresh_storage cfg) of
      (True, st) \<Rightarrow> Some \<lparr>readi = 0, readendi = 0, writei = 0, rcap = capacity, rcells = cells st\<rparr>
    | (False, _) \<Rightarrow> None)"

definition simple_queue_capacity :: "'a ring \<Rightarrow> u64" where
  "simple_queue_capacity q = word_of_nat (rcap q) - 1"

definition simple_queue_destroy :: "config \<Rightarrow> 'a ring \<Rightarrow> 'a storage option" where
  "simple_queue_destroy cfg q = (
    let ri = readi q; barrier = readendi q in
    if barrier \<noteq> writei q then None
    else do {
      cs \<leftarrow> (if barrier < ri then do { cs \<leftarrow> destruct_range 0 barrier (rcells q); destruct_range ri (rcap q) cs }
            else destruct_range ri barrier (rcells q));
      storage_deallocate cfg (rcap q) \<lparr>good = True, cells = cs\<rparr> })"

section \<open>Positions of a ring\<close>

lemma mod_window_inj:
  assumes "(a :: nat) \<le> j" "j < a + n" "a \<le> k" "k < a + n" "j mod n = k mod n"
  shows "j = k"
proof -
  have "\<And>j k :: nat. a \<le> j \<Longrightarrow> k < a + n \<Longrightarrow> j \<le> k \<Longrightarrow> j mod n = k mod n \<Longrightarrow> j = k"
  proof -
    fix j k :: nat
    assume h: "a \<le> j" "k < a + n" "j \<le> k" "j mod n = k mod n"
    have "n dvd k - j" using h(3,4) by (metis mod_eq_dvd_iff_nat)
    moreover have "k - j < n" using h(1-3) by linarith
    ultimately have "k - j = 0" using dvd_imp_le [of n "k - j"] by linarith
    then show "j = k" using h(3) by simp
  qed
  then show ?thesis using assms by (metis nat_le_linear)
qed

lemma next_slot_mod:
  assumes "0 < n" "n < 2 ^ 64"
  shows "next_slot (k mod n) n = Suc k mod n"
proof -
  have "k mod n < n" using assms(1) by simp
  then have "(k mod n + 1) mod 2 ^ 64 = k mod n + 1" using assms(2) by simp
  then show ?thesis using \<open>k mod n < n\<close>
    by (auto simp: next_slot_def wrap_reset_def mod_Suc)
qed

lemma window_update:
  assumes "length cs = n" "0 < n" "a \<le> j" "j < a + n" "a \<le> k" "k < a + n"
  shows "(cs[j mod n := c]) ! (k mod n) = (if j = k then c else cs ! (k mod n))"
  using assms mod_window_inj [of a j n k] by (auto simp: nth_update_if)

section \<open>Whole calls\<close>

text \<open>\<open>ring_rep q xs\<close>: from the reading position on the cells hold \<open>xs\<close>, the others are raw, and one cell at
  least is kept free.\<close>

definition ring_rep :: "'a ring \<Rightarrow> 'a list \<Rightarrow> bool" where
  "ring_rep q xs \<longleftrightarrow> 0 < rcap q \<and> rcap q < 2 ^ 64 \<and> length (rcells q) = rcap q \<and> readi q < rcap q \<and>
     readendi q = writei q \<and> writei q = (readi q + length xs) mod rcap q \<and> length xs < rcap q \<and>
     (\<forall>k < rcap q. rcells q ! ((readi q + k) mod rcap q) = (if k < length xs then Live (xs ! k) else Raw))"

lemma ring_repD:
  assumes "ring_rep q xs"
  shows "0 < rcap q" "rcap q < 2 ^ 64" "length (rcells q) = rcap q" "readi q < rcap q" "readendi q = writei q"
    "writei q = (readi q + length xs) mod rcap q" "length xs < rcap q"
    "\<And>k. k < rcap q \<Longrightarrow> rcells q ! ((readi q + k) mod rcap q) = (if k < length xs then Live (xs ! k) else Raw)"
  using assms by (auto simp: ring_rep_def)

lemma ring_new_rep: "0 < n \<Longrightarrow> n < 2 ^ 64 \<Longrightarrow> ring_rep (ring_new n) []"
  by (simp add: ring_rep_def ring_new_def)

lemma ring_full_iff:
  assumes "ring_rep q xs"
  shows "checkout_write_slot q = None \<longleftrightarrow> Suc (length xs) = rcap q"
proof -
  note d = ring_repD [OF assms]
  have n: "next_slot (writei q) (rcap q) = (readi q + Suc (length xs)) mod rcap q"
    using next_slot_mod [OF d(1,2)] d(6) by simp
  have "readi q = (readi q + Suc (length xs)) mod rcap q \<longleftrightarrow> Suc (length xs) = rcap q"
  proof
    assume h: "readi q = (readi q + Suc (length xs)) mod rcap q"
    show "Suc (length xs) = rcap q"
    proof (rule ccontr)
      assume "Suc (length xs) \<noteq> rcap q"
      then have "readi q = readi q + Suc (length xs)"
        using h d(4,7) mod_window_inj [of "readi q" "readi q" "rcap q" "readi q + Suc (length xs)"] by simp
      then show False by simp
    qed
  next
    assume "Suc (length xs) = rcap q"
    then show "readi q = (readi q + Suc (length xs)) mod rcap q" using d(4) by simp
  qed
  then show ?thesis by (simp add: checkout_write_slot_def Let_def n)
qed

lemma ring_emplace_full:
  "ring_rep q xs \<Longrightarrow> Suc (length xs) = rcap q \<Longrightarrow> ring_try_emplace x q = Some (False, q)"
  using ring_full_iff by (fastforce simp: ring_try_emplace_def)

lemma ring_emplace_room:
  assumes "ring_rep q xs" "Suc (length xs) < rcap q"
  shows "\<exists>q'. ring_try_emplace x q = Some (True, q') \<and> ring_rep q' (xs @ [x]) \<and> rcap q' = rcap q"
proof -
  note d = ring_repD [OF assms(1)]
  let ?n = "rcap q"
  let ?next = "(readi q + Suc (length xs)) mod ?n"
  have n: "next_slot (writei q) ?n = ?next" using next_slot_mod [OF d(1,2)] d(6) by simp
  have "checkout_write_slot q \<noteq> None" using ring_full_iff [OF assms(1)] assms(2) by simp
  then have c: "checkout_write_slot q = Some (writei q, ?next, q\<lparr>writei := ?next\<rparr>)"
    by (auto simp: checkout_write_slot_def Let_def n split: if_splits)
  have raw: "rcells q ! writei q = Raw" "writei q < length (rcells q)" using d(8) [OF d(7)] d(1,3,6) by simp_all
  let ?cs = "(rcells q)[writei q := Live x]"
  let ?q = "q\<lparr>writei := ?next, rcells := ?cs, readendi := ?next\<rparr>"
  have e: "ring_try_emplace x q = Some (True, ?q)"
    using c raw d(5) by (simp add: ring_try_emplace_def checkin_write_slot_def cell_simps)
  have "?cs ! ((readi q + k) mod ?n) = (if k < length (xs @ [x]) then Live ((xs @ [x]) ! k) else Raw)"
    if "k < ?n" for k
    using that d(8) [OF that] window_update [OF d(3) d(1), of "readi q" "readi q + length xs" "readi q + k" "Live x"]
      d(6,7) by (auto simp: nth_append)
  then have "ring_rep ?q (xs @ [x])" using d assms(2) by (simp add: ring_rep_def)
  then show ?thesis using e by simp
qed

lemma ring_pop_empty: "ring_rep q [] \<Longrightarrow> ring_try_pop q = Some (None, q)"
  using ring_repD(4-6) [of q "[]"] by (simp add: ring_try_pop_def Let_def)

lemma ring_pop_Cons:
  assumes "ring_rep q (x # xs)"
  shows "\<exists>q'. ring_try_pop q = Some (Some x, q') \<and> ring_rep q' xs \<and> rcap q' = rcap q"
proof -
  note d = ring_repD [OF assms]
  let ?n = "rcap q"
  have ne: "readi q \<noteq> readendi q"
    using mod_window_inj [of "readi q" "readi q" ?n "readi q + length (x # xs)"] d(4-7) by auto
  have c: "rcells q ! readi q = Live x" using d(8) [OF d(1)] d(4) by simp
  let ?next = "Suc (readi q) mod ?n"
  have n: "next_slot (readi q) ?n = ?next" using next_slot_mod [OF d(1,2), of "readi q"] d(4) by simp
  let ?cs = "(rcells q)[readi q := Raw]"
  let ?q = "q\<lparr>rcells := ?cs, readi := ?next\<rparr>"
  have e: "ring_try_pop q = Some (Some x, ?q)"
    using ne c d(3,4) by (simp add: ring_try_pop_def Let_def cell_simps n)
  have m: "(?next + k) mod ?n = (readi q + Suc k) mod ?n" for k by (simp add: mod_simps)
  have "?cs ! ((?next + k) mod ?n) = (if k < length xs then Live (xs ! k) else Raw)" if k: "k < ?n" for k
  proof (cases "Suc k = ?n")
    case True
    then show ?thesis using d(3,4,7) by (simp only: m) simp
  next
    case False
    then have "Suc k < ?n" using k by simp
    then have "?cs ! ((readi q + Suc k) mod ?n) = rcells q ! ((readi q + Suc k) mod ?n)"
      using window_update [OF d(3) d(1), of "readi q" "readi q" "readi q + Suc k" Raw] d(4) by simp
    then show ?thesis using d(8) [OF \<open>Suc k < ?n\<close>] by (simp add: m)
  qed
  then have "ring_rep ?q xs" using d by (simp add: ring_rep_def m)
  then show ?thesis using e by simp
qed

subsection \<open>The queue contract\<close>

text \<open>A queue that may refuse an element: what a refused push leaves is the same sequence.\<close>

datatype 'a queue_op = Enq 'a | Deq

datatype 'a queue_res = Accepted bool | Got "'a option"

text \<open>A run of calls and its results.\<close>

fun queue_run ::
    "('a \<Rightarrow> 'q \<Rightarrow> (bool \<times> 'q) option) \<Rightarrow> ('q \<Rightarrow> ('a option \<times> 'q) option) \<Rightarrow> 'a queue_op list \<Rightarrow> 'q \<Rightarrow>
     ('a queue_res list \<times> 'q) option" where
  "queue_run push pop [] q = Some ([], q)"
| "queue_run push pop (Enq x # ops) q =
    do { (ok, q) \<leftarrow> push x q; (rs, q) \<leftarrow> queue_run push pop ops q; Some (Accepted ok # rs, q) }"
| "queue_run push pop (Deq # ops) q =
    do { (r, q) \<leftarrow> pop q; (rs, q) \<leftarrow> queue_run push pop ops q; Some (Got r # rs, q) }"

text \<open>The elements accepted and the elements delivered, in order.\<close>

fun accepted :: "'a queue_op list \<Rightarrow> 'a queue_res list \<Rightarrow> 'a list" where
  "accepted (Enq x # ops) (Accepted ok # rs) = (if ok then x # accepted ops rs else accepted ops rs)"
| "accepted (_ # ops) (_ # rs) = accepted ops rs"
| "accepted _ _ = []"

fun delivered :: "'a queue_res list \<Rightarrow> 'a list" where
  "delivered [] = []"
| "delivered (Got (Some x) # rs) = x # delivered rs"
| "delivered (_ # rs) = delivered rs"

text \<open>The reference: what a sequence of calls answers on a queue that holds \<open>xs\<close>, and what it leaves.  A pop
  answers the oldest element whenever there is one; whether a push may accept or refuse is up to the policy, which
  sees the contents.\<close>

fun fifo_run :: "('a list \<Rightarrow> bool \<Rightarrow> bool) \<Rightarrow> 'a queue_op list \<Rightarrow> 'a list \<Rightarrow> 'a queue_res list \<Rightarrow> 'a list \<Rightarrow> bool" where
  "fifo_run policy [] xs rs ys \<longleftrightarrow> rs = [] \<and> ys = xs"
| "fifo_run policy (Enq x # ops) xs rs ys \<longleftrightarrow> (case rs of
     Accepted ok # rs' \<Rightarrow> policy xs ok \<and> fifo_run policy ops (if ok then xs @ [x] else xs) rs' ys
   | _ \<Rightarrow> False)"
| "fifo_run policy (Deq # ops) xs rs ys \<longleftrightarrow> (case rs of
     Got r # rs' \<Rightarrow> r = (case xs of [] \<Rightarrow> None | y # _ \<Rightarrow> Some y) \<and> fifo_run policy ops (tl xs) rs' ys
   | _ \<Rightarrow> False)"

lemma fifo_run_unfold:
  "fifo_run policy (Enq x # ops) xs rs ys \<longleftrightarrow>
    (\<exists>ok rs'. rs = Accepted ok # rs' \<and> policy xs ok \<and> fifo_run policy ops (if ok then xs @ [x] else xs) rs' ys)"
  "fifo_run policy (Deq # ops) xs rs ys \<longleftrightarrow>
    (\<exists>rs'. rs = Got (case xs of [] \<Rightarrow> None | y # _ \<Rightarrow> Some y) # rs' \<and> fifo_run policy ops (tl xs) rs' ys)"
  by (auto split: list.splits queue_res.splits)

text \<open>Such a run delivers what it accepts, in order.\<close>

lemma fifo_run_order: "fifo_run policy ops xs rs ys \<Longrightarrow> xs @ accepted ops rs = delivered rs @ ys"
proof (induction policy ops xs rs ys rule: fifo_run.induct)
  case (2 policy x ops xs rs ys)
  then show ?case by (cases rs) (fastforce split: queue_res.splits if_splits)+
next
  case (3 policy ops xs rs ys)
  then show ?case by (cases rs; cases xs) (fastforce split: queue_res.splits)+
qed simp

locale fifo =
  fixes rep :: "'q \<Rightarrow> 'a list \<Rightarrow> bool"
    and policy :: "'a list \<Rightarrow> bool \<Rightarrow> bool"
    and push :: "'a \<Rightarrow> 'q \<Rightarrow> (bool \<times> 'q) option"
    and pop :: "'q \<Rightarrow> ('a option \<times> 'q) option"
  assumes push_law: "rep q xs \<Longrightarrow>
      \<exists>ok q'. push x q = Some (ok, q') \<and> policy xs ok \<and> rep q' (if ok then xs @ [x] else xs)"
    and pop_law: "rep q xs \<Longrightarrow> \<exists>q'. pop q = Some (case xs of [] \<Rightarrow> None | y # _ \<Rightarrow> Some y, q') \<and> rep q' (tl xs)"
begin

lemma run_fifo:
  "rep q xs \<Longrightarrow> \<exists>rs q' ys. queue_run push pop ops q = Some (rs, q') \<and> rep q' ys \<and> fifo_run policy ops xs rs ys"
proof (induction ops arbitrary: q xs)
  case Nil
  then show ?case by auto
next
  case (Cons e ops)
  show ?case
  proof (cases e)
    case (Enq x)
    obtain ok q1 where 1: "push x q = Some (ok, q1)" "policy xs ok" "rep q1 (if ok then xs @ [x] else xs)"
      using push_law [OF Cons.prems] by blast
    obtain rs q' ys where 2: "queue_run push pop ops q1 = Some (rs, q')" "rep q' ys"
      "fifo_run policy ops (if ok then xs @ [x] else xs) rs ys" using Cons.IH [OF 1(3)] by blast
    have "queue_run push pop (e # ops) q = Some (Accepted ok # rs, q')" using Enq 1 2 by simp
    moreover have "fifo_run policy (e # ops) xs (Accepted ok # rs) ys" using Enq 1(2) 2(3) by simp
    ultimately show ?thesis using 2(2) by blast
  next
    case Deq
    obtain q1 where 1: "pop q = Some (case xs of [] \<Rightarrow> None | y # _ \<Rightarrow> Some y, q1)" "rep q1 (tl xs)"
      using pop_law [OF Cons.prems] by blast
    obtain rs q' ys where 2: "queue_run push pop ops q1 = Some (rs, q')" "rep q' ys" "fifo_run policy ops (tl xs) rs ys"
      using Cons.IH [OF 1(2)] by blast
    have "queue_run push pop (e # ops) q = Some (Got (case xs of [] \<Rightarrow> None | y # _ \<Rightarrow> Some y) # rs, q')"
      using Deq 1 2 by simp
    moreover have "fifo_run policy (e # ops) xs (Got (case xs of [] \<Rightarrow> None | y # _ \<Rightarrow> Some y) # rs) ys"
      using Deq 2(3) by simp
    ultimately show ?thesis using 2(2) by blast
  qed
qed

end

lemma ring_push:
  assumes "ring_rep q xs"
  shows "\<exists>q'. ring_try_emplace x q = Some (Suc (length xs) < rcap q, q') \<and> rcap q' = rcap q \<and>
    ring_rep q' (if Suc (length xs) < rcap q then xs @ [x] else xs)"
  using ring_emplace_room [OF assms, of x] ring_emplace_full [OF assms, of x] assms ring_repD(7) [OF assms]
  by (cases "Suc (length xs) = rcap q") auto

lemma ring_pop:
  assumes "ring_rep q xs"
  shows "\<exists>q'. ring_try_pop q = Some (case xs of [] \<Rightarrow> None | y # _ \<Rightarrow> Some y, q') \<and> rcap q' = rcap q \<and>
    ring_rep q' (tl xs)"
  using assms ring_pop_empty [of q] ring_pop_Cons [of q] by (cases xs) fastforce+

text \<open>A ring of \<open>C\<close> cells accepts as long as one cell stays free after it.\<close>

definition ring_of :: "nat \<Rightarrow> 'a ring \<Rightarrow> 'a list \<Rightarrow> bool" where
  "ring_of C q xs \<longleftrightarrow> ring_rep q xs \<and> rcap q = C"

definition bounded :: "nat \<Rightarrow> 'a list \<Rightarrow> bool \<Rightarrow> bool" where
  "bounded C xs ok \<longleftrightarrow> (ok \<longleftrightarrow> Suc (length xs) < C)"

interpretation rq: fifo "ring_of C" "bounded C" ring_try_emplace ring_try_pop for C
proof unfold_locales
  fix q :: "'a ring" and xs x
  assume "ring_of C q xs"
  then show "\<exists>ok q'. ring_try_emplace x q = Some (ok, q') \<and> bounded C xs ok \<and> ring_of C q' (if ok then xs @ [x] else xs)"
    using ring_push [of q xs x] by (auto simp: ring_of_def bounded_def)
next
  fix q :: "'a ring" and xs
  assume "ring_of C q xs"
  then show "\<exists>q'. ring_try_pop q = Some (case xs of [] \<Rightarrow> None | y # _ \<Rightarrow> Some y, q') \<and> ring_of C q' (tl xs)"
    using ring_pop [of q xs] by (auto simp: ring_of_def)
qed

subsection \<open>Destruction\<close>

lemma destruct_count_nth:
  assumes "i + n \<le> length cs" "\<forall>k. i \<le> k \<and> k < i + n \<longrightarrow> cs ! k \<noteq> Raw"
  shows "\<exists>cs'. destruct_count i n cs = Some cs' \<and> length cs' = length cs \<and>
    (\<forall>k < length cs. cs' ! k = (if i \<le> k \<and> k < i + n then Raw else cs ! k))"
  using assms
proof (induction n arbitrary: i cs)
  case (Suc n)
  have "destruct_at i cs = Some (cs[i := Raw])" using Suc.prems by (simp add: cell_simps)
  moreover obtain cs' where "destruct_count (Suc i) n (cs[i := Raw]) = Some cs'" "length cs' = length cs"
    "\<forall>k < length cs. cs' ! k = (if Suc i \<le> k \<and> k < Suc i + n then Raw else cs[i := Raw] ! k)"
    using Suc.IH [of "Suc i" "cs[i := Raw]"] Suc.prems by (auto simp: nth_update_if)
  ultimately show ?case by (auto simp: nth_update_if)
qed simp

lemma destruct_range_nth:
  assumes "i \<le> j" "j \<le> length cs" "\<forall>k. i \<le> k \<and> k < j \<longrightarrow> cs ! k \<noteq> Raw"
  shows "\<exists>cs'. destruct_range i j cs = Some cs' \<and> length cs' = length cs \<and>
    (\<forall>k < length cs. cs' ! k = (if i \<le> k \<and> k < j then Raw else cs ! k))"
  using destruct_count_nth [of i "j - i" cs] assms by (simp add: destruct_range_def)

lemma ring_cell_raw_iff:
  assumes "ring_rep q xs" "j < rcap q"
  shows "rcells q ! j \<noteq> Raw \<longleftrightarrow>
    (if readendi q < readi q then j < readendi q \<or> readi q \<le> j else readi q \<le> j \<and> j < readendi q)"
proof -
  note d = ring_repD [OF assms(1)]
  let ?n = "rcap q"
  have w: "readendi q = (if readi q + length xs < ?n then readi q + length xs else readi q + length xs - ?n)"
    using d(4-7) by (simp add: mod_if)
  have *: "rcells q ! j \<noteq> Raw \<longleftrightarrow> k < length xs" if "k < ?n" "(readi q + k) mod ?n = j" for k
    using d(8) [OF that(1)] that(2) by simp
  show ?thesis
  proof (cases "readi q \<le> j")
    case True
    then show ?thesis using * [of "j - readi q"] w assms(2) d(7) by auto
  next
    case False
    then show ?thesis using * [of "j + ?n - readi q"] w assms(2) d(4,7) by auto
  qed
qed

lemma simple_queue_destroy_ok:
  assumes r: "ring_rep q xs" and c: "static_capacity cfg = None"
  shows "simple_queue_destroy cfg q = Some \<lparr>good = False, cells = []\<rparr>"
proof -
  note d = ring_repD [OF r]
  have e: "readendi q < rcap q" using d(1,5,6) by simp
  note iff = ring_cell_raw_iff [OF r]
  have "\<exists>cs. (if readendi q < readi q then do { cs \<leftarrow> destruct_range 0 (readendi q) (rcells q); destruct_range (readi q) (rcap q) cs }
      else destruct_range (readi q) (readendi q) (rcells q)) = Some cs \<and> length cs = rcap q \<and> (\<forall>k < rcap q. cs ! k = Raw)"
  proof (cases "readendi q < readi q")
    case True
    obtain cs1 where 1: "destruct_range 0 (readendi q) (rcells q) = Some cs1" "length cs1 = rcap q"
      "\<forall>k < rcap q. cs1 ! k = (if k < readendi q then Raw else rcells q ! k)"
      using destruct_range_nth [of 0 "readendi q" "rcells q"] True iff d(3) e by auto
    have "\<forall>k. readi q \<le> k \<and> k < rcap q \<longrightarrow> cs1 ! k \<noteq> Raw" using 1(3) iff True by auto
    then obtain cs2 where 2: "destruct_range (readi q) (rcap q) cs1 = Some cs2" "length cs2 = rcap q"
      "\<forall>k < rcap q. cs2 ! k = (if readi q \<le> k \<and> k < rcap q then Raw else cs1 ! k)"
      using destruct_range_nth [of "readi q" "rcap q" cs1] d(4) 1(2) by auto
    have "\<forall>k < rcap q. cs2 ! k = Raw" using 1(3) 2(3) iff True by auto
    then show ?thesis using 1(1) 2(1,2) True by simp
  next
    case False
    obtain cs where "destruct_range (readi q) (readendi q) (rcells q) = Some cs" "length cs = rcap q"
      "\<forall>k < rcap q. cs ! k = (if readi q \<le> k \<and> k < readendi q then Raw else rcells q ! k)"
      using destruct_range_nth [of "readi q" "readendi q" "rcells q"] False iff d(3) e by auto
    then show ?thesis using False iff by auto
  qed
  then obtain cs where cs: "(if readendi q < readi q then do { cs \<leftarrow> destruct_range 0 (readendi q) (rcells q); destruct_range (readi q) (rcap q) cs }
      else destruct_range (readi q) (readendi q) (rcells q)) = Some cs" "length cs = rcap q" "\<forall>c\<in>set cs. c = Raw"
    by (metis in_set_conv_nth)
  then show ?thesis unfolding simple_queue_destroy_def Let_def cs(1) using d(5) c
    by (simp add: storage_deallocate_def)
qed

section \<open>Interleaved producers and one consumer\<close>

text \<open>The positions of a producer between its accesses to shared memory: it has read the writing position, has
  compared the next one with the reading position, owns a slot, has constructed its element.\<close>

datatype 'a ppc = PIdle | PLoaded 'a nat | PChecked 'a nat nat | POwner 'a nat nat | PBuilt nat nat

datatype 'a cpc = CIdle | CLoaded nat | CReady nat | CMoved nat 'a | CDestructed nat 'a

text \<open>\<open>pushed\<close> lists the elements in the order their slots were handed out and \<open>popped\<close> the elements delivered;
  they are for the statements only.\<close>

record 'a qsys =
  ring :: "'a ring"
  ppcs :: "'a ppc list"
  cpc :: "'a cpc"
  pushed :: "'a list"
  popped :: "'a list"

definition qsys_new :: "nat \<Rightarrow> nat \<Rightarrow> 'a qsys" where
  "qsys_new producers capacity =
    \<lparr>ring = ring_new capacity, ppcs = replicate producers PIdle, cpc = CIdle, pushed = [], popped = []\<rparr>"

datatype 's step_result = Stuck | Wrong | Step 's

definition cell_step :: "('b \<Rightarrow> 's) \<Rightarrow> 'b option \<Rightarrow> 's step_result" where
  "cell_step f r = (case r of None \<Rightarrow> Wrong | Some b \<Rightarrow> Step (f b))"

text \<open>One access of producer \<open>i\<close>, which pushes \<open>x\<close> when it starts.  The exchange on the writing position
  may fail, and then has read the position; the one on the barrier is tried until it succeeds.\<close>

definition producer_step :: "nat \<Rightarrow> 'a \<Rightarrow> 'a qsys \<Rightarrow> 'a qsys step_result" where
  "producer_step i x s = (
    let q = ring s; to = (\<lambda>p s. s\<lparr>ppcs := (ppcs s)[i := p]\<rparr>) in
    case ppcs s ! i of
      PIdle \<Rightarrow> Step (to (PLoaded x (writei q)) s)
    | PLoaded y slot \<Rightarrow> (
        let next = next_slot slot (rcap q) in
        Step (to (if readi q = next then PIdle else PChecked y slot next) s))
    | PChecked y slot next \<Rightarrow>
        (if writei q = slot
         then Step (to (POwner y slot next) (s\<lparr>ring := q\<lparr>writei := next\<rparr>, pushed := pushed s @ [y]\<rparr>))
         else Step (to (PLoaded y (writei q)) s))
    | POwner y slot next \<Rightarrow> cell_step (\<lambda>cs. to (PBuilt slot next) (s\<lparr>ring := q\<lparr>rcells := cs\<rparr>\<rparr>))
        (construct_at slot y (rcells q))
    | PBuilt slot next \<Rightarrow>
        (if readendi q = slot then Step (to PIdle (s\<lparr>ring := q\<lparr>readendi := next\<rparr>\<rparr>)) else Stuck))"

definition consumer_step :: "'a qsys \<Rightarrow> 'a qsys step_result" where
  "consumer_step s = (
    let q = ring s in
    case cpc s of
      CIdle \<Rightarrow> Step (s\<lparr>cpc := CLoaded (readi q)\<rparr>)
    | CLoaded slot \<Rightarrow> Step (s\<lparr>cpc := (if slot = readendi q then CIdle else CReady slot)\<rparr>)
    | CReady slot \<Rightarrow> cell_step (\<lambda>(x, cs). s\<lparr>ring := q\<lparr>rcells := cs\<rparr>, cpc := CMoved slot x\<rparr>) (move_at slot (rcells q))
    | CMoved slot x \<Rightarrow> cell_step (\<lambda>cs. s\<lparr>ring := q\<lparr>rcells := cs\<rparr>, cpc := CDestructed slot x\<rparr>)
        (destruct_at slot (rcells q))
    | CDestructed slot x \<Rightarrow> Step (s\<lparr>ring := q\<lparr>readi := next_slot slot (rcap q)\<rparr>, cpc := CIdle, popped := popped s @ [x]\<rparr>))"

inductive queue_reach :: "nat \<Rightarrow> nat \<Rightarrow> 'a qsys \<Rightarrow> bool" for producers capacity where
  init: "queue_reach producers capacity (qsys_new producers capacity)"
| producer: "queue_reach producers capacity s \<Longrightarrow> i < producers \<Longrightarrow> producer_step i x s = Step s' \<Longrightarrow>
    queue_reach producers capacity s'"
| consumer: "queue_reach producers capacity s \<Longrightarrow> consumer_step s = Step s' \<Longrightarrow> queue_reach producers capacity s'"

fun proceeds :: "('s \<Rightarrow> bool) \<Rightarrow> 's step_result \<Rightarrow> bool" where
  "proceeds P Stuck = False"
| "proceeds P Wrong = False"
| "proceeds P (Step s) = P s"

subsection \<open>One producer\<close>

text \<open>Of the elements handed out, the consumer has taken \<open>length popped\<close> and the barrier has passed
  \<open>completed\<close>; the positions are these counts modulo the capacity.\<close>

definition completed :: "'a qsys \<Rightarrow> nat" where
  "completed s = (case ppcs s ! 0 of POwner _ _ _ \<Rightarrow> length (pushed s) - 1 | PBuilt _ _ \<Rightarrow> length (pushed s) - 1
     | _ \<Rightarrow> length (pushed s))"

definition producer_inv :: "'a qsys \<Rightarrow> bool" where
  "producer_inv s \<longleftrightarrow> (let n = rcap (ring s); W = length (pushed s); R = length (popped s) in case ppcs s ! 0 of
     PIdle \<Rightarrow> True
   | PLoaded y slot \<Rightarrow> slot = W mod n
   | PChecked y slot next \<Rightarrow> slot = W mod n \<and> next = Suc W mod n \<and> Suc W < R + n
   | POwner y slot next \<Rightarrow> 0 < W \<and> slot = (W - 1) mod n \<and> next = W mod n \<and> pushed s ! (W - 1) = y
   | PBuilt slot next \<Rightarrow> 0 < W \<and> slot = (W - 1) mod n \<and> next = W mod n)"

definition consumer_inv :: "'a qsys \<Rightarrow> bool" where
  "consumer_inv s \<longleftrightarrow> (let n = rcap (ring s); R = length (popped s) in case cpc s of
     CIdle \<Rightarrow> True
   | CLoaded slot \<Rightarrow> slot = R mod n
   | CReady slot \<Rightarrow> slot = R mod n \<and> R < completed s
   | CMoved slot x \<Rightarrow> slot = R mod n \<and> R < completed s \<and> x = pushed s ! R
   | CDestructed slot x \<Rightarrow> slot = R mod n \<and> R < completed s \<and> x = pushed s ! R)"

text \<open>What the cell of the \<open>k\<close>-th element holds, for the elements from the first one not yet taken up to one
  round further.\<close>

definition expected_cell :: "'a qsys \<Rightarrow> nat \<Rightarrow> 'a cell" where
  "expected_cell s k = (
     if k = length (popped s) \<and> (\<exists>slot x. cpc s = CMoved slot x) then Moved
     else if k = length (popped s) \<and> (\<exists>slot x. cpc s = CDestructed slot x) then Raw
     else if k < completed s then Live (pushed s ! k)
     else if k < length (pushed s) \<and> (\<exists>slot next. ppcs s ! 0 = PBuilt slot next) then Live (pushed s ! k)
     else Raw)"

definition spsc_inv :: "nat \<Rightarrow> 'a qsys \<Rightarrow> bool" where
  "spsc_inv n s \<longleftrightarrow> rcap (ring s) = n \<and> length (rcells (ring s)) = n \<and> length (ppcs s) = 1 \<and>
     readi (ring s) = length (popped s) mod n \<and> writei (ring s) = length (pushed s) mod n \<and>
     readendi (ring s) = completed s mod n \<and> length (popped s) \<le> completed s \<and>
     length (pushed s) < length (popped s) + n \<and> popped s = take (length (popped s)) (pushed s) \<and>
     producer_inv s \<and> consumer_inv s \<and>
     (\<forall>k. length (popped s) \<le> k \<and> k < length (popped s) + n \<longrightarrow> rcells (ring s) ! (k mod n) = expected_cell s k)"

lemmas pc_invs = producer_inv_def [unfolded Let_def] consumer_inv_def [unfolded Let_def]

lemma spsc_new: "0 < n \<Longrightarrow> spsc_inv n (qsys_new 1 n)"
  by (simp add: spsc_inv_def qsys_new_def ring_new_def completed_def pc_invs pc_invs
      expected_cell_def)

lemma spsc_invD:
  assumes "spsc_inv n s"
  shows "rcap (ring s) = n" "length (rcells (ring s)) = n" "length (ppcs s) = 1"
    "readi (ring s) = length (popped s) mod n" "writei (ring s) = length (pushed s) mod n"
    "readendi (ring s) = completed s mod n" "length (popped s) \<le> completed s"
    "length (pushed s) < length (popped s) + n" "popped s = take (length (popped s)) (pushed s)"
    "producer_inv s" "consumer_inv s"
    "\<And>k. length (popped s) \<le> k \<Longrightarrow> k < length (popped s) + n \<Longrightarrow> rcells (ring s) ! (k mod n) = expected_cell s k"
  using assms unfolding spsc_inv_def by blast+

lemma spsc_invI:
  assumes "rcap (ring s) = n" "length (rcells (ring s)) = n" "length (ppcs s) = 1"
    "readi (ring s) = length (popped s) mod n" "writei (ring s) = length (pushed s) mod n"
    "readendi (ring s) = completed s mod n" "length (popped s) \<le> completed s"
    "length (pushed s) < length (popped s) + n" "popped s = take (length (popped s)) (pushed s)"
    "producer_inv s" "consumer_inv s"
    "\<And>k. length (popped s) \<le> k \<Longrightarrow> k < length (popped s) + n \<Longrightarrow> rcells (ring s) ! (k mod n) = expected_cell s k"
  shows "spsc_inv n s"
  using assms unfolding spsc_inv_def by blast

lemma completed_le: "completed s \<le> length (pushed s)"
  by (simp add: completed_def split: ppc.splits)

lemma producer_idle_inv:
  assumes "spsc_inv n s" "0 < n" "n < 2 ^ 64" "ppcs s ! 0 = PIdle"
  shows "proceeds (spsc_inv n) (producer_step 0 x s)"
proof -
  note d = spsc_invD [OF assms(1)]
  let ?s = "s\<lparr>ppcs := [PLoaded x (writei (ring s))]\<rparr>"
  have p: "ppcs s = [PIdle]" using d(3) assms(4) by (cases "ppcs s") auto
  have c: "completed ?s = completed s" using p by (simp add: completed_def)
  have "spsc_inv n ?s"
  proof (rule spsc_invI)
    show "producer_inv ?s" using d(1,5) by (simp add: pc_invs)
    show "consumer_inv ?s" using d(11) c by (cases "cpc s") (simp_all add: pc_invs)
    fix k assume "length (popped ?s) \<le> k" "k < length (popped ?s) + n"
    then show "rcells (ring ?s) ! (k mod n) = expected_cell ?s k"
      using d(12) [of k] p by (simp add: expected_cell_def c)
  qed (use d c in simp_all)
  then show ?thesis using p by (simp add: producer_step_def Let_def)
qed

lemma producer_loaded_inv:
  assumes "spsc_inv n s" "0 < n" "n < 2 ^ 64" "ppcs s ! 0 = PLoaded y slot"
  shows "proceeds (spsc_inv n) (producer_step 0 x s)"
proof -
  note d = spsc_invD [OF assms(1)]
  have p: "ppcs s = [PLoaded y slot]" using d(3) assms(4) by (cases "ppcs s") auto
  let ?W = "length (pushed s)" and ?R = "length (popped s)"
  have slot: "slot = ?W mod n" using d(10) p by (simp add: pc_invs d(1))
  have nx: "next_slot slot n = Suc ?W mod n" using slot next_slot_mod [OF assms(2,3)] by simp
  let ?p = "if readi (ring s) = Suc ?W mod n then PIdle else PChecked y slot (Suc ?W mod n)"
  let ?s = "s\<lparr>ppcs := [?p]\<rparr>"
  have c: "completed ?s = completed s" using p by (simp add: completed_def)
  have room: "readi (ring s) \<noteq> Suc ?W mod n \<Longrightarrow> Suc ?W < ?R + n" using d(4,8) by (cases "Suc ?W = ?R + n") auto
  have "spsc_inv n ?s"
  proof (rule spsc_invI)
    show "producer_inv ?s" using d(1) slot room by (simp add: pc_invs)
    show "consumer_inv ?s" using d(11) c by (cases "cpc s") (simp_all add: pc_invs)
    fix k assume "length (popped ?s) \<le> k" "k < length (popped ?s) + n"
    then show "rcells (ring ?s) ! (k mod n) = expected_cell ?s k"
      using d(12) [of k] p by (simp add: expected_cell_def c)
  qed (use d c in simp_all)
  then show ?thesis using p nx d(1)
    by (cases "readi (ring s) = Suc ?W mod n") (simp_all add: producer_step_def Let_def)
qed

lemma producer_checked_inv:
  assumes "spsc_inv n s" "0 < n" "n < 2 ^ 64" "ppcs s ! 0 = PChecked y slot next"
  shows "proceeds (spsc_inv n) (producer_step 0 x s)"
proof -
  note d = spsc_invD [OF assms(1)]
  have p: "ppcs s = [PChecked y slot next]" using d(3) assms(4) by (cases "ppcs s") auto
  let ?W = "length (pushed s)" and ?R = "length (popped s)"
  have i: "slot = ?W mod n" "next = Suc ?W mod n" "Suc ?W < ?R + n"
    using d(10) p by (simp_all add: pc_invs d(1))
  let ?s = "s\<lparr>ring := (ring s)\<lparr>writei := next\<rparr>, pushed := pushed s @ [y], ppcs := [POwner y slot next]\<rparr>"
  have c: "completed ?s = completed s" "completed s = ?W" using p by (simp_all add: completed_def)
  have "spsc_inv n ?s"
  proof (rule spsc_invI)
    show "producer_inv ?s" using d(1) i by (simp add: pc_invs)
    show "consumer_inv ?s" using d(11) c by (auto simp: pc_invs Let_def nth_append split: cpc.splits)
    fix k assume "length (popped ?s) \<le> k" "k < length (popped ?s) + n"
    then show "rcells (ring ?s) ! (k mod n) = expected_cell ?s k"
      using d(12) [of k] p c by (simp add: expected_cell_def nth_append)
  qed (use d c i in simp_all)
  then show ?thesis using p d(1,5) i(1) by (simp add: producer_step_def Let_def)
qed

lemma producer_owner_inv:
  assumes "spsc_inv n s" "0 < n" "n < 2 ^ 64" "ppcs s ! 0 = POwner y slot next"
  shows "proceeds (spsc_inv n) (producer_step 0 x s)"
proof -
  note d = spsc_invD [OF assms(1)]
  have p: "ppcs s = [POwner y slot next]" using d(3) assms(4) by (cases "ppcs s") auto
  let ?W = "length (pushed s)" and ?R = "length (popped s)"
  have i: "0 < ?W" "slot = (?W - 1) mod n" "next = ?W mod n" "pushed s ! (?W - 1) = y"
    using d(10) p by (simp_all add: pc_invs d(1))
  have c: "completed s = ?W - 1" using p by (simp add: completed_def)
  have w: "?R \<le> ?W - 1" "?W - 1 < ?R + n" using d(7,8) c by simp_all
  have "rcells (ring s) ! slot = Raw"
    using d(12) [OF w] d(11) i(2) c p by (auto simp: expected_cell_def pc_invs Let_def)
  then have e: "construct_at slot y (rcells (ring s)) = Some ((rcells (ring s))[slot := Live y])"
    using d(2) i(2) assms(2) by (simp add: cell_simps)
  let ?s = "s\<lparr>ring := (ring s)\<lparr>rcells := (rcells (ring s))[slot := Live y]\<rparr>, ppcs := [PBuilt slot next]\<rparr>"
  have c': "completed ?s = completed s" using p by (simp add: completed_def)
  have "spsc_inv n ?s"
  proof (rule spsc_invI)
    show "producer_inv ?s" using d(1) i by (simp add: pc_invs)
    show "consumer_inv ?s" using d(11) c' by (cases "cpc s") (simp_all add: pc_invs)
    fix k assume "length (popped ?s) \<le> k" "k < length (popped ?s) + n"
    then have k: "?R \<le> k" "k < ?R + n" by simp_all
    have "rcells (ring ?s) ! (k mod n) = (if ?W - 1 = k then Live y else rcells (ring s) ! (k mod n))"
      using window_update [OF d(2) assms(2) w k] i(2) by simp
    moreover have "expected_cell ?s k = (if ?W - 1 = k then Live y else expected_cell s k)"
      using d(11) p c c' i(1,4) by (auto simp: expected_cell_def pc_invs Let_def)
    ultimately show "rcells (ring ?s) ! (k mod n) = expected_cell ?s k" using d(12) [OF k] by simp
  qed (use d c' in simp_all)
  then show ?thesis using p e by (simp add: producer_step_def Let_def cell_step_def)
qed

lemma producer_built_inv:
  assumes "spsc_inv n s" "0 < n" "n < 2 ^ 64" "ppcs s ! 0 = PBuilt slot next"
  shows "proceeds (spsc_inv n) (producer_step 0 x s)"
proof -
  note d = spsc_invD [OF assms(1)]
  have p: "ppcs s = [PBuilt slot next]" using d(3) assms(4) by (cases "ppcs s") auto
  let ?W = "length (pushed s)"
  have i: "0 < ?W" "slot = (?W - 1) mod n" "next = ?W mod n" using d(10) p by (simp_all add: pc_invs d(1))
  let ?s = "s\<lparr>ring := (ring s)\<lparr>readendi := next\<rparr>, ppcs := [PIdle]\<rparr>"
  have c: "completed s = ?W - 1" "completed ?s = ?W" using p by (simp_all add: completed_def)
  have "spsc_inv n ?s"
  proof (rule spsc_invI)
    show "producer_inv ?s" by (simp add: pc_invs)
    show "consumer_inv ?s" using d(11) c by (auto simp: pc_invs Let_def split: cpc.splits)
    fix k assume "length (popped ?s) \<le> k" "k < length (popped ?s) + n"
    then show "rcells (ring ?s) ! (k mod n) = expected_cell ?s k"
      using d(12) [of k] p c by (auto simp: expected_cell_def)
  qed (use d c i in simp_all)
  then show ?thesis using p d(6) c(1) i(2) by (simp add: producer_step_def Let_def)
qed

lemma producer_step_inv:
  assumes "spsc_inv n s" "0 < n" "n < 2 ^ 64"
  shows "proceeds (spsc_inv n) (producer_step 0 x s)"
  using producer_idle_inv [OF assms] producer_loaded_inv [OF assms] producer_checked_inv [OF assms]
    producer_owner_inv [OF assms] producer_built_inv [OF assms]
  by (cases "ppcs s ! 0") blast+

lemma completed_cong: "ppcs s = ppcs t \<Longrightarrow> pushed s = pushed t \<Longrightarrow> completed s = completed t"
  by (simp only: completed_def)

lemma completed_upd [simp]:
  "completed (s\<lparr>cpc := c\<rparr>) = completed s" "completed (s\<lparr>ring := r\<rparr>) = completed s"
  "completed (s\<lparr>popped := xs\<rparr>) = completed s"
  by (rule completed_cong; simp)+

lemma consumer_idle_inv:
  assumes "spsc_inv n s" "0 < n" "n < 2 ^ 64" "cpc s = CIdle"
  shows "proceeds (spsc_inv n) (consumer_step s)"
proof -
  note d = spsc_invD [OF assms(1)]
  let ?s = "s\<lparr>cpc := CLoaded (readi (ring s))\<rparr>"
  have c: "completed ?s = completed s" by (rule completed_cong) simp_all
  have "spsc_inv n ?s"
  proof (rule spsc_invI)
    show "producer_inv ?s" using d(10) by (cases "ppcs s ! 0") (simp_all add: pc_invs)
    show "consumer_inv ?s" using d(1,4) by (simp add: pc_invs)
    fix k assume "length (popped ?s) \<le> k" "k < length (popped ?s) + n"
    then show "rcells (ring ?s) ! (k mod n) = expected_cell ?s k"
      using d(12) [of k] assms(4) by (auto simp: expected_cell_def c)
  qed (use d c in simp_all)
  then show ?thesis using assms(4) by (simp add: consumer_step_def Let_def)
qed

lemma consumer_loaded_inv:
  assumes "spsc_inv n s" "0 < n" "n < 2 ^ 64" "cpc s = CLoaded slot"
  shows "proceeds (spsc_inv n) (consumer_step s)"
proof -
  note d = spsc_invD [OF assms(1)]
  let ?c = "if slot = readendi (ring s) then CIdle else CReady slot"
  let ?s = "s\<lparr>cpc := ?c\<rparr>"
  have c: "completed ?s = completed s" by (rule completed_cong) simp_all
  have slot: "slot = length (popped s) mod n" using d(1,11) assms(4) by (simp add: pc_invs)
  have "spsc_inv n ?s"
  proof (rule spsc_invI)
    show "producer_inv ?s" using d(10) by (cases "ppcs s ! 0") (simp_all add: pc_invs)
    have "slot \<noteq> readendi (ring s) \<Longrightarrow> length (popped s) < completed s"
      using d(6,7) slot by (cases "length (popped s) = completed s") auto
    then show "consumer_inv ?s" using d(1) slot c by (cases "slot = readendi (ring s)") (simp_all add: pc_invs)
    fix k assume "length (popped ?s) \<le> k" "k < length (popped ?s) + n"
    then show "rcells (ring ?s) ! (k mod n) = expected_cell ?s k"
      using d(12) [of k] assms(4) by (auto simp: expected_cell_def c)
  qed (use d c in simp_all)
  then show ?thesis using assms(4) by (simp add: consumer_step_def Let_def)
qed

lemma consumer_ready_inv:
  assumes "spsc_inv n s" "0 < n" "n < 2 ^ 64" "cpc s = CReady slot"
  shows "proceeds (spsc_inv n) (consumer_step s)"
proof -
  note d = spsc_invD [OF assms(1)]
  let ?R = "length (popped s)"
  have i: "slot = ?R mod n" "?R < completed s" using d(1,11) assms(4) by (simp_all add: pc_invs)
  have "rcells (ring s) ! slot = Live (pushed s ! ?R)"
    using d(12) [of ?R] assms(2,4) i by (simp add: expected_cell_def)
  then have e: "move_at slot (rcells (ring s)) = Some (pushed s ! ?R, (rcells (ring s))[slot := Moved])"
    using d(2) i(1) assms(2) by (simp add: cell_simps)
  let ?s = "s\<lparr>ring := (ring s)\<lparr>rcells := (rcells (ring s))[slot := Moved]\<rparr>, cpc := CMoved slot (pushed s ! ?R)\<rparr>"
  have c: "completed ?s = completed s" by (rule completed_cong) simp_all
  have "spsc_inv n ?s"
  proof (rule spsc_invI)
    show "producer_inv ?s" using d(10) by (cases "ppcs s ! 0") (simp_all add: pc_invs)
    show "consumer_inv ?s" using d(1) i c by (simp add: pc_invs)
    fix k assume "length (popped ?s) \<le> k" "k < length (popped ?s) + n"
    then have k: "?R \<le> k" "k < ?R + n" by simp_all
    show "rcells (ring ?s) ! (k mod n) = expected_cell ?s k"
      using window_update [OF d(2) assms(2) le_refl _ k, of Moved] d(12) [OF k] assms(2,4) i(1)
      by (auto simp: expected_cell_def c)
  qed (use d c in simp_all)
  then show ?thesis using assms(4) e by (simp add: consumer_step_def Let_def cell_step_def)
qed

lemma consumer_moved_inv:
  assumes "spsc_inv n s" "0 < n" "n < 2 ^ 64" "cpc s = CMoved slot x"
  shows "proceeds (spsc_inv n) (consumer_step s)"
proof -
  note d = spsc_invD [OF assms(1)]
  let ?R = "length (popped s)"
  have i: "slot = ?R mod n" "?R < completed s" "x = pushed s ! ?R" using d(1,11) assms(4) by (simp_all add: pc_invs)
  have "rcells (ring s) ! slot = Moved" using d(12) [of ?R] assms(2,4) i by (simp add: expected_cell_def)
  then have e: "destruct_at slot (rcells (ring s)) = Some ((rcells (ring s))[slot := Raw])"
    using d(2) i(1) assms(2) by (simp add: cell_simps)
  let ?s = "s\<lparr>ring := (ring s)\<lparr>rcells := (rcells (ring s))[slot := Raw]\<rparr>, cpc := CDestructed slot x\<rparr>"
  have c: "completed ?s = completed s" by (rule completed_cong) simp_all
  have "spsc_inv n ?s"
  proof (rule spsc_invI)
    show "producer_inv ?s" using d(10) by (cases "ppcs s ! 0") (simp_all add: pc_invs)
    show "consumer_inv ?s" using d(1) i c by (simp add: pc_invs)
    fix k assume "length (popped ?s) \<le> k" "k < length (popped ?s) + n"
    then have k: "?R \<le> k" "k < ?R + n" by simp_all
    show "rcells (ring ?s) ! (k mod n) = expected_cell ?s k"
      using window_update [OF d(2) assms(2) le_refl _ k, of Raw] d(12) [OF k] assms(2,4) i(1)
      by (auto simp: expected_cell_def c)
  qed (use d c in simp_all)
  then show ?thesis using assms(4) e by (simp add: consumer_step_def Let_def cell_step_def)
qed

lemma consumer_destructed_inv:
  assumes "spsc_inv n s" "0 < n" "n < 2 ^ 64" "cpc s = CDestructed slot x"
  shows "proceeds (spsc_inv n) (consumer_step s)"
proof -
  note d = spsc_invD [OF assms(1)]
  let ?R = "length (popped s)"
  have i: "slot = ?R mod n" "?R < completed s" "x = pushed s ! ?R" using d(1,11) assms(4) by (simp_all add: pc_invs)
  have W: "?R < length (pushed s)" using i(2) completed_le [of s] by simp
  have nx: "next_slot slot n = Suc ?R mod n" using i(1) next_slot_mod [OF assms(2,3)] by simp
  let ?s = "s\<lparr>ring := (ring s)\<lparr>readi := Suc ?R mod n\<rparr>, cpc := CIdle, popped := popped s @ [x]\<rparr>"
  have c: "completed ?s = completed s" by (rule completed_cong) simp_all
  have "spsc_inv n ?s"
  proof (rule spsc_invI)
    show "producer_inv ?s" using d(10) by (cases "ppcs s ! 0") (auto simp: pc_invs)
    show "consumer_inv ?s" by (simp add: pc_invs)
    have "popped s @ [x] = take (Suc ?R) (pushed s)" using d(9) i(3) W by (simp add: take_Suc_conv_app_nth)
    then show "popped ?s = take (length (popped ?s)) (pushed ?s)" using W by simp
    fix k assume "length (popped ?s) \<le> k" "k < length (popped ?s) + n"
    then have k: "?R < k" "k < Suc (?R + n)" by simp_all
    show "rcells (ring ?s) ! (k mod n) = expected_cell ?s k"
    proof (cases "k = ?R + n")
      case True
      then have "rcells (ring s) ! (k mod n) = Raw"
        using d(12) [of ?R] assms(2,4) by (simp add: expected_cell_def)
      moreover have "\<not> k < length (pushed s)" "\<not> k < completed s" using d(8) True completed_le [of s] by simp_all
      ultimately show ?thesis by (auto simp: expected_cell_def c)
    next
      case False
      then show ?thesis using d(12) [of k] k assms(4) by (auto simp: expected_cell_def c)
    qed
  qed (use d c i W in simp_all)
  then show ?thesis using assms(4) nx d(1) by (simp add: consumer_step_def Let_def)
qed

lemma consumer_step_inv:
  assumes "spsc_inv n s" "0 < n" "n < 2 ^ 64"
  shows "proceeds (spsc_inv n) (consumer_step s)"
  using consumer_idle_inv [OF assms] consumer_loaded_inv [OF assms] consumer_ready_inv [OF assms]
    consumer_moved_inv [OF assms] consumer_destructed_inv [OF assms]
  by (cases "cpc s") blast+

lemma spsc_reach:
  assumes "queue_reach 1 n s" "0 < n" "n < 2 ^ 64"
  shows "spsc_inv n s"
  using assms(1)
proof induction
  case init
  show ?case by (rule spsc_new [OF assms(2)])
next
  case (producer s i x s')
  then show ?case using producer_step_inv [OF _ assms(2,3), of s x] by simp
next
  case (consumer s s')
  then show ?case using consumer_step_inv [OF _ assms(2,3), of s] by simp
qed

section \<open>Properties\<close>

text \<open>The storages a queue can be made on: a static one has a cell at least; with a dynamic one the allocator
  grants what the reservation strategy asks for.\<close>

definition simple_queue_cfg :: "config \<Rightarrow> nat \<Rightarrow> bool" where
  "simple_queue_cfg cfg n \<longleftrightarrow> 0 < reserve_power_of_two cfg n \<and> (case static_capacity cfg of
     Some C \<Rightarrow> C < 2 ^ 64
   | None \<Rightarrow> alloc_ok cfg (reserve_power_of_two cfg n))"

lemma simple_queue_new_rep:
  assumes "simple_queue_cfg cfg n"
  shows "\<exists>q. simple_queue_new cfg n = Some q \<and> ring_of (reserve_power_of_two cfg n) q []"
proof (cases "static_capacity cfg")
  case None
  then show ?thesis using assms reserve_power_of_two_grows [OF None, of n]
    by (simp add: simple_queue_cfg_def simple_queue_new_def Let_def storage_allocate_def ring_rep_def ring_of_def)
next
  case (Some C)
  then show ?thesis using assms
    by (simp add: simple_queue_cfg_def simple_queue_new_def Let_def storage_allocate_def ring_rep_def ring_of_def
        fresh_storage_def reserve_power_of_two_def)
qed

text \<open>C16: a simple queue is a bounded first-in first-out queue, on a static and on a dynamic storage.  Over any
  sequence of calls on a new one every call returns and none is undefined; a push is accepted exactly while the
  queue holds fewer than \<open>capacity - 1\<close> elements, where the capacity is what the reservation strategy makes of the
  size asked for; a pop answers the oldest element, and nothing exactly when the queue is empty.  So the elements
  delivered followed by those still in the queue are the elements accepted, in order.\<close>
theorem simple_queue_fifo:
  assumes "simple_queue_cfg cfg n"
  shows "\<exists>q rs q' ys. simple_queue_new cfg n = Some q \<and>
    queue_run ring_try_emplace ring_try_pop ops q = Some (rs, q') \<and>
    ring_rep q' ys \<and> rcap q' = reserve_power_of_two cfg n \<and>
    fifo_run (\<lambda>xs ok. ok \<longleftrightarrow> Suc (length xs) < reserve_power_of_two cfg n) ops [] rs ys \<and>
    accepted ops rs = delivered rs @ ys"
proof -
  let ?C = "reserve_power_of_two cfg n"
  obtain q :: "'a ring" where q: "simple_queue_new cfg n = Some q" "ring_of ?C q []"
    using simple_queue_new_rep [OF assms] by blast
  obtain rs q' ys where r: "queue_run ring_try_emplace ring_try_pop ops q = Some (rs, q')" "ring_of ?C q' ys"
    "fifo_run (bounded ?C) ops [] rs ys" using rq.run_fifo [OF q(2), of ops] by blast
  have "bounded ?C = (\<lambda>xs :: 'a list. \<lambda>ok. ok \<longleftrightarrow> Suc (length xs) < ?C)" by (intro ext) (rule bounded_def)
  then show ?thesis using q(1) r fifo_run_order [OF r(3)] by (auto simp: ring_of_def)
qed

definition heap_cfg :: config where
  "heap_cfg = \<lparr>static_capacity = None, alloc_ok = (\<lambda>n. True)\<rparr>"

lemma heap_cfg_sel [simp]: "static_capacity heap_cfg = None" "alloc_ok heap_cfg n"
  by (simp_all add: heap_cfg_def)

lemma heap_cfg_reserve_3: "reserve_power_of_two heap_cfg 3 = 4"
  by (simp add: reserve_power_of_two_def clp2_64_def)

theorem simple_queue_fifo_witness:
  "\<exists>q q'. simple_queue_new heap_cfg 3 = Some q \<and>
    queue_run ring_try_emplace ring_try_pop [Enq (1 :: nat), Enq 2, Enq 3, Enq 4, Deq, Deq, Deq, Deq, Enq 5] q =
      Some ([Accepted True, Accepted True, Accepted True, Accepted False, Got (Some 1), Got (Some 2), Got (Some 3), Got None,
        Accepted True], q') \<and> ring_rep q' [5]"
proof -
  have "simple_queue_cfg heap_cfg 3" by (simp add: simple_queue_cfg_def heap_cfg_reserve_3)
  from simple_queue_fifo [OF this, of "[Enq (1 :: nat), Enq 2, Enq 3, Enq 4, Deq, Deq, Deq, Deq, Enq 5]"]
  show ?thesis by (clarsimp simp: heap_cfg_reserve_3 fifo_run_unfold simp del: fifo_run.simps(2,3) accepted.simps delivered.simps
      queue_run.simps)
qed

text \<open>A simple queue holds one element less than it has cells: a push is refused exactly when that many are
  in it, a pop answers the oldest, and at any moment the queue can be destroyed, which destructs exactly the
  elements in it and releases the storage.\<close>
theorem simple_queue_calls:
  assumes "ring_rep q xs" "static_capacity cfg = None"
  shows "(\<exists>q'. ring_try_emplace x q = Some (Suc (length xs) < rcap q, q') \<and>
      ring_rep q' (if Suc (length xs) < rcap q then xs @ [x] else xs)) \<and>
    (\<exists>q'. ring_try_pop q = Some (case xs of [] \<Rightarrow> None | y # _ \<Rightarrow> Some y, q') \<and> ring_rep q' (tl xs)) \<and>
    simple_queue_destroy cfg q = Some \<lparr>good = False, cells = []\<rparr>"
proof (intro conjI)
  show "\<exists>q'. ring_try_emplace x q = Some (Suc (length xs) < rcap q, q') \<and>
      ring_rep q' (if Suc (length xs) < rcap q then xs @ [x] else xs)"
    using ring_push [OF assms(1), of x] by blast
  show "\<exists>q'. ring_try_pop q = Some (case xs of [] \<Rightarrow> None | y # _ \<Rightarrow> Some y, q') \<and> ring_rep q' (tl xs)"
    using ring_pop [OF assms(1)] by blast
  show "simple_queue_destroy cfg q = Some \<lparr>good = False, cells = []\<rparr>"
    by (rule simple_queue_destroy_ok [OF assms])
qed

definition ring_ab :: "nat ring" where
  "ring_ab = \<lparr>readi = 2, readendi = 1, writei = 1, rcap = 3, rcells = [Live 20, Raw, Live 10]\<rparr>"

lemma ring_ab_rep: "ring_rep ring_ab [10, 20]"
proof -
  have "rcells ring_ab ! ((2 + k) mod 3) = (if k < 2 then Live ([10, 20] ! k) else Raw)" if k: "k < 3" for k :: nat
  proof -
    consider "k = 0" | "k = 1" | "k = 2" using k by linarith
    then show ?thesis by cases (simp_all add: ring_ab_def)
  qed
  then show ?thesis by (simp add: ring_rep_def ring_ab_def)
qed

theorem simple_queue_calls_witness:
  "(\<exists>q'. ring_try_emplace 30 ring_ab = Some (Suc (length [10, 20 :: nat]) < rcap ring_ab, q') \<and>
      ring_rep q' (if Suc (length [10, 20 :: nat]) < rcap ring_ab then [10, 20] @ [30] else [10, 20])) \<and>
    (\<exists>q'. ring_try_pop ring_ab = Some (case [10, 20] of [] \<Rightarrow> None | y # _ \<Rightarrow> Some y, q') \<and> ring_rep q' (tl [10, 20])) \<and>
    simple_queue_destroy heap_cfg ring_ab = Some \<lparr>good = False, cells = []\<rparr>"
  by (rule simple_queue_calls [OF ring_ab_rep]) simp

text \<open>C8: with one producer and one consumer the queue is safe in every interleaving of their memory accesses:
  no access is undefined, no thread waits for ever, and the elements delivered are a prefix of the elements
  pushed.\<close>
theorem simple_queue_spsc:
  assumes "queue_reach 1 n s" "0 < n" "n < 2 ^ 64"
  shows "(\<exists>s'. producer_step 0 x s = Step s') \<and> (\<exists>s'. consumer_step s = Step s') \<and>
    popped s = take (length (popped s)) (pushed s) \<and> length (pushed s) < length (popped s) + n"
proof -
  have i: "spsc_inv n s" by (rule spsc_reach [OF assms])
  have *: "proceeds P r \<Longrightarrow> \<exists>s'. r = Step s'" for P and r :: "'a qsys step_result" by (cases r) auto
  show ?thesis
    using * [OF producer_step_inv [OF i assms(2,3)]] * [OF consumer_step_inv [OF i assms(2,3)]]
      spsc_invD(8,9) [OF i] by blast
qed

theorem simple_queue_spsc_witness:
  "(\<exists>s'. producer_step 0 (7 :: nat) (qsys_new 1 4) = Step s') \<and> (\<exists>s'. consumer_step (qsys_new 1 4 :: nat qsys) = Step s') \<and>
    popped (qsys_new 1 4 :: nat qsys) = take (length (popped (qsys_new 1 4 :: nat qsys))) (pushed (qsys_new 1 4)) \<and>
    length (pushed (qsys_new 1 4 :: nat qsys)) < length (popped (qsys_new 1 4 :: nat qsys)) + 4"
  by (rule simple_queue_spsc [OF queue_reach.init]) simp_all

text \<open>A schedule: who makes the next access, the consumer or a producer with the element it pushes when idle.\<close>

fun qsched :: "(unit + nat \<times> 'a) list \<Rightarrow> 'a qsys \<Rightarrow> 'a qsys step_result" where
  "qsched [] s = Step s"
| "qsched (Inl _ # es) s = (case consumer_step s of Step s' \<Rightarrow> qsched es s' | r \<Rightarrow> r)"
| "qsched (Inr (i, x) # es) s = (case producer_step i x s of Step s' \<Rightarrow> qsched es s' | r \<Rightarrow> r)"

lemma qsched_reach:
  assumes "queue_reach p n s" "qsched es s = Step s'" "\<forall>e\<in>set es. case e of Inl _ \<Rightarrow> True | Inr (i, _) \<Rightarrow> i < p"
  shows "queue_reach p n s'"
  using assms
proof (induction es arbitrary: s)
  case (Cons e es)
  have es: "\<forall>e\<in>set es. case e of Inl _ \<Rightarrow> True | Inr (i, _) \<Rightarrow> i < p" using Cons.prems(3) by simp
  show ?case
  proof (cases e)
    case (Inl u)
    then obtain t where "consumer_step s = Step t" "qsched es t = Step s'"
      using Cons.prems(2) by (auto split: step_result.splits)
    then show ?thesis using Cons.IH es queue_reach.consumer [OF Cons.prems(1)] by blast
  next
    case (Inr ix)
    obtain i x where ix: "ix = (i, x)" by (cases ix)
    then obtain t where "producer_step i x s = Step t" "qsched es t = Step s'"
      using Inr Cons.prems(2) by (auto split: step_result.splits)
    moreover have "i < p" using Inr ix Cons.prems(3) by simp
    ultimately show ?thesis using Cons.IH es queue_reach.producer [OF Cons.prems(1)] by blast
  qed
qed simp

text \<open>Producer 0 reads both positions of an empty ring of four cells and stops; producer 1 pushes three elements,
  one is popped, producer 1 pushes a fourth and the writing position is back where producer 0 saw it.  Its
  exchange succeeds, and the writing position catches up with the reading position.\<close>

definition whole_push :: "nat \<Rightarrow> 'a \<Rightarrow> (unit + nat \<times> 'a) list" where
  "whole_push i x = [Inr (i, x), Inr (i, x), Inr (i, x), Inr (i, x), Inr (i, x)]"

definition aba_schedule :: "(unit + nat \<times> nat) list" where
  "aba_schedule = [Inr (0, 0), Inr (0, 0)] @ whole_push 1 1 @ whole_push 1 2 @ whole_push 1 3 @
     [Inl (), Inl (), Inl (), Inl (), Inl ()] @ whole_push 1 4 @ [Inr (0, 0), Inr (0, 0), Inr (0, 0)]"

lemma qsys_new_2_4:
  "qsys_new 2 4 = \<lparr>ring = \<lparr>readi = 0, readendi = 0, writei = 0, rcap = 4, rcells = [Raw, Raw, Raw, Raw]\<rparr>,
     ppcs = [PIdle, PIdle], cpc = CIdle, pushed = [], popped = []\<rparr>"
proof -
  have "replicate 4 x = [x, x, x, x]" "replicate 2 y = [y, y]" for x :: "'a cell" and y :: "'a ppc"
    by (simp_all add: eval_nat_numeral)
  then show ?thesis by (simp add: qsys_new_def ring_new_def)
qed

text \<open>C38: with two producers the queue loses elements: their slot numbers come round, an exchange that should
  fail succeeds, and with every thread idle again the queue of four cells reports empty while four elements that
  were pushed successfully have not been delivered.\<close>
theorem simple_queue_two_producers_lose:
  "\<exists>s :: nat qsys. queue_reach 2 4 s \<and> ppcs s = [PIdle, PIdle] \<and> cpc s = CIdle \<and> readi (ring s) = readendi (ring s) \<and>
    pushed s = [1, 2, 3, 4, 0] \<and> popped s = [1]"
proof -
  have "\<exists>s. qsched aba_schedule (qsys_new 2 4) = Step s \<and> ppcs s = [PIdle, PIdle] \<and> cpc s = CIdle \<and>
      readi (ring s) = readendi (ring s) \<and> pushed s = [1, 2, 3, 4, 0] \<and> popped s = [1 :: nat]"
    by (simp add: aba_schedule_def whole_push_def qsys_new_2_4 producer_step_def consumer_step_def
        next_slot_def wrap_reset_def Let_def cell_step_def cell_defs)
  moreover have "\<forall>e\<in>set aba_schedule. case e of Inl _ \<Rightarrow> True | Inr (i, _) \<Rightarrow> i < 2"
    by (simp add: aba_schedule_def whole_push_def)
  ultimately show ?thesis using qsched_reach [OF queue_reach.init] by blast
qed

end
