(* ===== verification/Page_Queue.thy ===== *)
theory Page_Queue
  imports Ring_Queue
begin

text \<open>
  The unbounded queue \<^verbatim>\<open>PageQueue\<close> of \<^verbatim>\<open>core/container/Queue.hpp\<close>: a chain of rings, of which the newest is
  written and the oldest is read.  A full newest page gets a larger one put in front of it; an empty oldest
  page is dropped by the next pop.  Calls are whole here; the rings and the slot functions are those of the
  bounded queue, whose contract the page queue is shown to keep.
\<close>

section \<open>The chain of pages\<close>

text \<open>The static header that ends every chain.  It is always full: with a dynamic capacity because it has no
  cells, with a static one because its writing position is the last value of the type.\<close>

definition empty_header :: "config \<Rightarrow> 'a ring" where
  "empty_header cfg = (case static_capacity cfg of
     Some C \<Rightarrow> \<lparr>readi = 0, readendi = 0, writei = 2 ^ 64 - 1, rcap = C, rcells = []\<rparr>
   | None \<Rightarrow> \<lparr>readi = 0, readendi = 0, writei = 0, rcap = 0, rcells = []\<rparr>)"

text \<open>The pages, newest first, without the empty header.\<close>

definition pq_new :: "'a ring list" where
  "pq_new = []"

definition pq_new_capacity :: "config \<Rightarrow> nat \<Rightarrow> 'a ring list option" where
  "pq_new_capacity cfg n = (let c = reserve_power_of_two cfg n in if alloc_ok cfg c then Some [ring_new c] else None)"

definition pq_write_header :: "config \<Rightarrow> 'a ring list \<Rightarrow> 'a ring" where
  "pq_write_header cfg ps = (case ps of [] \<Rightarrow> empty_header cfg | p # _ \<Rightarrow> p)"

text \<open>The loop of \<^verbatim>\<open>try_emplace\<close> that finds a slot, with a new page for each time it is full.  The slot is
  missing if the allocator refuses.  Nothing bounds the loop, so it is a partial function.\<close>

partial_function (option) pq_checkout ::
    "config \<Rightarrow> 'a ring list \<Rightarrow> ((nat \<times> nat) option \<times> 'a ring list) option" where
  "pq_checkout cfg ps = (
    let header = pq_write_header cfg ps in
    case checkout_write_slot header of
      Some (slot, next, h) \<Rightarrow> (if ps = [] then None else Some (Some (slot, next), h # tl ps))
    | None \<Rightarrow> (
        let new_capacity = reserve_power_of_two cfg (rcap header + 1) in
        if alloc_ok cfg new_capacity then pq_checkout cfg (ring_new new_capacity # ps) else Some (None, ps)))"

definition pq_try_emplace :: "config \<Rightarrow> 'a \<Rightarrow> 'a ring list \<Rightarrow> (bool \<times> 'a ring list) option" where
  "pq_try_emplace cfg x ps = do {
    (r, ps) \<leftarrow> pq_checkout cfg ps;
    case r of
      None \<Rightarrow> Some (False, ps)
    | Some (slot, next) \<Rightarrow> do {
        cs \<leftarrow> construct_at slot x (rcells (hd ps));
        h \<leftarrow> checkin_write_slot slot next ((hd ps)\<lparr>rcells := cs\<rparr>);
        Some (True, h # tl ps) } }"

text \<open>\<^verbatim>\<open>try_pop\<close> follows the chain to the oldest page, and drops it if it is empty and not the only one.\<close>

definition drop_oldest :: "'a ring list \<Rightarrow> 'a ring list" where
  "drop_oldest chain = (case chain of
     read_header # next_header # qs \<Rightarrow>
       if readi read_header = writei read_header then next_header # qs else chain
   | _ \<Rightarrow> chain)"

definition pq_try_pop :: "config \<Rightarrow> 'a ring list \<Rightarrow> ('a option \<times> 'a ring list) option" where
  "pq_try_pop cfg ps = (case drop_oldest (rev ps) of
     [] \<Rightarrow> do { (r, _) \<leftarrow> ring_try_pop (empty_header cfg); Some (r, []) }
   | p # qs \<Rightarrow> do { (r, p) \<leftarrow> ring_try_pop p; Some (r, rev (p # qs)) })"

section \<open>Representation\<close>

text \<open>What the allocator grants fits the type with room to double; pages of a static capacity hold an element
  at least.\<close>

definition page_cfg :: "config \<Rightarrow> bool" where
  "page_cfg cfg \<longleftrightarrow> (case static_capacity cfg of
     Some C \<Rightarrow> 2 \<le> C \<and> C < 2 ^ 64
   | None \<Rightarrow> (\<forall>n. alloc_ok cfg n \<longrightarrow> n < 2 ^ 63))"

definition page_capacity_ok :: "config \<Rightarrow> nat \<Rightarrow> bool" where
  "page_capacity_ok cfg n \<longleftrightarrow> (case static_capacity cfg of Some C \<Rightarrow> n = C | None \<Rightarrow> 0 < n \<and> n < 2 ^ 63)"

text \<open>\<open>chain_rep qs yss\<close>, oldest page first: page by page the contents, none of them empty but the oldest and
  the newest, and only the oldest page may be too small for an element.\<close>

definition chain_rep :: "config \<Rightarrow> 'a ring list \<Rightarrow> 'a list list \<Rightarrow> bool" where
  "chain_rep cfg qs yss \<longleftrightarrow> list_all2 ring_rep qs yss \<and> (\<forall>ys\<in>set (butlast (tl yss)). ys \<noteq> []) \<and>
     (\<forall>q\<in>set (tl qs). 2 \<le> rcap q) \<and> (\<forall>q\<in>set qs. page_capacity_ok cfg (rcap q))"

definition pq_rep :: "config \<Rightarrow> 'a ring list \<Rightarrow> 'a list \<Rightarrow> bool" where
  "pq_rep cfg ps xs \<longleftrightarrow> page_cfg cfg \<and> (\<exists>yss. chain_rep cfg (rev ps) yss \<and> xs = concat yss)"

lemma ring_rep_empty_iff: "ring_rep q ys \<Longrightarrow> readi q = writei q \<longleftrightarrow> ys = []"
  using ring_pop_Cons ring_repD(5) by (cases ys) (fastforce simp: ring_try_pop_def ring_repD)+

lemma empty_header_full: "page_cfg cfg \<Longrightarrow> checkout_write_slot (empty_header cfg) = None"
  by (auto simp: page_cfg_def empty_header_def checkout_write_slot_def next_slot_def wrap_reset_def Let_def
      split: option.splits)

lemma empty_header_pop: "ring_try_pop (empty_header cfg) = Some (None, empty_header cfg)"
  by (simp add: empty_header_def ring_try_pop_def split: option.splits)

text \<open>A granted page after one of capacity \<open>n\<close> is larger, and after a page with cells it holds an element.\<close>

lemma grown_page:
  assumes "page_cfg cfg" "alloc_ok cfg (reserve_power_of_two cfg (n + 1))" "n = 0 \<or> page_capacity_ok cfg n"
    "static_capacity cfg \<noteq> None \<Longrightarrow> n \<noteq> 0"
  shows "page_capacity_ok cfg (reserve_power_of_two cfg (n + 1))"
    "n \<noteq> 0 \<Longrightarrow> 2 \<le> reserve_power_of_two cfg (n + 1)"
    "0 < reserve_power_of_two cfg (n + 1)" "reserve_power_of_two cfg (n + 1) < 2 ^ 64"
proof -
  let ?c = "reserve_power_of_two cfg (n + 1)"
  have dyn: "n + 1 \<le> ?c \<and> ?c < 2 ^ 63" if s: "static_capacity cfg = None"
  proof -
    have n: "n < 2 ^ 63" using assms(3) s by (auto simp: page_capacity_ok_def)
    then have "n + 1 \<le> unat (clp2_64 (word_of_nat (n + 1)))" by (intro clp2_64_ge) simp_all
    then show ?thesis using assms(1,2) s by (simp add: page_cfg_def reserve_power_of_two_def)
  qed
  show "page_capacity_ok cfg ?c"
    using dyn by (cases "static_capacity cfg") (auto simp: page_capacity_ok_def reserve_power_of_two_def)
  show "n \<noteq> 0 \<Longrightarrow> 2 \<le> ?c"
    using dyn assms(1) by (cases "static_capacity cfg") (auto simp: page_cfg_def reserve_power_of_two_def)
  show "0 < ?c" "?c < 2 ^ 64"
    using dyn assms(1) by (cases "static_capacity cfg"; force simp: page_cfg_def reserve_power_of_two_def)+
qed

section \<open>Refinement\<close>

lemma list_all2_snoc [simp]: "list_all2 P (xs @ [x]) (ys @ [y]) \<longleftrightarrow> list_all2 P xs ys \<and> P x y"
  using list_all2_rev [of P "xs @ [x]" "ys @ [y]"] list_all2_rev [of P xs ys] by auto

lemma chain_snoc:
  assumes "chain_rep cfg (qs @ [h]) yss"
  obtains zss y where "yss = zss @ [y]" "list_all2 ring_rep qs zss" "ring_rep h y"
  using assms unfolding chain_rep_def by (auto simp: list_all2_append1 list_all2_Cons1)

text \<open>Replacing the newest page by one that holds one element more.\<close>

lemma chain_push:
  assumes "chain_rep cfg (qs @ [h]) (zss @ [y])" "list_all2 ring_rep qs zss" "ring_rep h' y'" "rcap h' = rcap h"
  shows "chain_rep cfg (qs @ [h']) (zss @ [y'])"
proof -
  have "butlast (tl (zss @ [y])) = tl zss" "butlast (tl (zss @ [y'])) = tl zss" by (cases zss; simp)+
  moreover have "tl (qs @ [h]) = [] \<and> tl (qs @ [h']) = [] \<or> tl (qs @ [h]) = tl qs @ [h] \<and> tl (qs @ [h']) = tl qs @ [h']"
    by (cases qs) simp_all
  ultimately show ?thesis using assms by (auto simp: chain_rep_def list_all2_appendI)
qed

lemma rcap_ring_new [simp]: "rcap (ring_new c) = c"
  by (simp add: ring_new_def)

text \<open>A new page in front of a full one.\<close>

lemma chain_grow:
  assumes "chain_rep cfg (qs @ [h]) (zss @ [y])" "ring_rep h y" "Suc (length y) = rcap h"
    "page_capacity_ok cfg c" "2 \<le> c" "c < 2 ^ 64"
  shows "chain_rep cfg ((qs @ [h]) @ [ring_new c]) ((zss @ [y]) @ [[]])"
proof -
  have b: "butlast (tl ((zss @ [y]) @ [[]])) = (if zss = [] then [] else tl zss @ [y])"
    "butlast (tl (zss @ [y])) = tl zss" by (cases zss; simp add: butlast_append)+
  have b': "tl ((qs @ [h]) @ [ring_new c]) = tl (qs @ [h]) @ [ring_new c]" by (cases qs) simp_all
  have len: "length qs = length zss" using assms(1) by (auto simp: chain_rep_def dest: list_all2_lengthD)
  have "zss \<noteq> [] \<Longrightarrow> y \<noteq> []"
  proof -
    assume "zss \<noteq> []"
    then have "h \<in> set (tl (qs @ [h]))" using len by (cases qs) auto
    then have "2 \<le> rcap h" using assms(1) by (simp add: chain_rep_def)
    then show "y \<noteq> []" using assms(3) by auto
  qed
  moreover have "ring_rep (ring_new c) ([] :: 'a list)" using assms(5,6) by (intro ring_new_rep) auto
  then have "list_all2 ring_rep ((qs @ [h]) @ [ring_new c]) ((zss @ [y]) @ [[]])"
    using assms(1) unfolding chain_rep_def by (simp only: list_all2_snoc)
  ultimately show ?thesis using assms(1,4,5) unfolding chain_rep_def b b'
    by (auto split: if_splits)
qed

text \<open>What a push may answer: it accepts the element, or the allocator has refused a page that the code may ask for
  when the queue holds \<open>xs\<close>: one for at most two elements more than are in the queue.\<close>

definition page_refused :: "config \<Rightarrow> nat \<Rightarrow> bool" where
  "page_refused cfg k \<longleftrightarrow> (\<exists>n \<le> k. \<not> alloc_ok cfg (reserve_power_of_two cfg n))"

definition unbounded :: "config \<Rightarrow> 'a list \<Rightarrow> bool \<Rightarrow> bool" where
  "unbounded cfg xs ok \<longleftrightarrow> (\<not> ok \<longrightarrow> page_refused cfg (length xs + 2))"

definition pushes :: "config \<Rightarrow> 'a \<Rightarrow> 'a list \<Rightarrow> (bool \<times> 'a ring list) option \<Rightarrow> bool" where
  "pushes cfg x xs r \<longleftrightarrow>
     (\<exists>ok ps'. r = Some (ok, ps') \<and> unbounded cfg xs ok \<and> pq_rep cfg ps' (if ok then xs @ [x] else xs))"

lemma pushesI:
  "r = Some (True, ps') \<Longrightarrow> pq_rep cfg ps' (xs @ [x]) \<Longrightarrow> pushes cfg x xs r"
  "r = Some (False, ps') \<Longrightarrow> pq_rep cfg ps' xs \<Longrightarrow> \<not> alloc_ok cfg (reserve_power_of_two cfg n) \<Longrightarrow>
     n \<le> length xs + 2 \<or> static_capacity cfg \<noteq> None \<Longrightarrow> pushes cfg x xs r"
proof -
  show "r = Some (True, ps') \<Longrightarrow> pq_rep cfg ps' (xs @ [x]) \<Longrightarrow> pushes cfg x xs r"
    unfolding pushes_def unbounded_def by (rule exI, rule exI, auto)
next
  assume h: "r = Some (False, ps')" "pq_rep cfg ps' xs" "\<not> alloc_ok cfg (reserve_power_of_two cfg n)"
    "n \<le> length xs + 2 \<or> static_capacity cfg \<noteq> None"
  have "page_refused cfg (length xs + 2)"
  proof (cases "n \<le> length xs + 2")
    case True
    then show ?thesis using h(3) by (auto simp: page_refused_def)
  next
    case False
    then obtain C where "static_capacity cfg = Some C" using h(4) by auto
    then have "\<not> alloc_ok cfg (reserve_power_of_two cfg 0)" using h(3) by (simp add: reserve_power_of_two_def)
    then show ?thesis by (auto simp: page_refused_def)
  qed
  then show "pushes cfg x xs r" unfolding pushes_def unbounded_def using h(1,2) by (intro exI [of _ False] exI [of _ ps']) simp
qed

text \<open>With room in the newest page the loop ends at once.\<close>

lemma pq_emplace_room:
  assumes "page_cfg cfg" "chain_rep cfg (qs @ [h]) (zss @ [y])" "ring_rep h y" "Suc (length y) < rcap h"
  shows "\<exists>ps'. pq_try_emplace cfg x (rev (qs @ [h])) = Some (True, ps') \<and> pq_rep cfg ps' (concat (zss @ [y]) @ [x])"
proof -
  obtain h' where h': "ring_try_emplace x h = Some (True, h')" "ring_rep h' (y @ [x])" "rcap h' = rcap h"
    using ring_emplace_room [OF assms(3,4)] by blast
  obtain slot nxt h1 where c: "checkout_write_slot h = Some (slot, nxt, h1)"
    using ring_full_iff [OF assms(3)] assms(4) by (cases "checkout_write_slot h") auto
  have "pq_checkout cfg (rev (qs @ [h])) = Some (Some (slot, nxt), h1 # rev qs)"
    by (subst pq_checkout.simps) (simp add: pq_write_header_def c)
  moreover from h'(1) c obtain cs where "construct_at slot x (rcells h1) = Some cs"
    "checkin_write_slot slot nxt (h1\<lparr>rcells := cs\<rparr>) = Some h'" by (auto simp: ring_try_emplace_def)
  ultimately have e: "pq_try_emplace cfg x (rev (qs @ [h])) = Some (True, rev (qs @ [h']))"
    by (simp add: pq_try_emplace_def)
  have "list_all2 ring_rep qs zss" using assms(2) by (simp add: chain_rep_def)
  then have "chain_rep cfg (qs @ [h']) (zss @ [y @ [x]])" by (rule chain_push [OF assms(2) _ h'(2,3)])
  then have "pq_rep cfg (rev (qs @ [h'])) (concat (zss @ [y]) @ [x])"
    unfolding pq_rep_def rev_rev_ident using assms(1) by (intro conjI exI [of _ "zss @ [y @ [x]]"]) simp_all
  then show ?thesis using e by blast
qed

text \<open>With a full newest page that has cells the loop ends after one new page, unless it is refused.\<close>

lemma pq_checkout_full:
  assumes "checkout_write_slot (pq_write_header cfg ps) = None"
  shows "pq_checkout cfg ps = (let c = reserve_power_of_two cfg (rcap (pq_write_header cfg ps) + 1) in
    if alloc_ok cfg c then pq_checkout cfg (ring_new c # ps) else Some (None, ps))"
  using assms by (subst pq_checkout.simps) (simp add: Let_def)

lemma pq_emplace_full:
  assumes "page_cfg cfg" "chain_rep cfg (qs @ [h]) (zss @ [y])" "ring_rep h y" "Suc (length y) = rcap h"
  shows "pushes cfg x (concat (zss @ [y])) (pq_try_emplace cfg x (rev (qs @ [h])))"
proof -
  let ?c = "reserve_power_of_two cfg (rcap h + 1)"
  have f: "checkout_write_slot (pq_write_header cfg (rev (qs @ [h]))) = None"
    using ring_full_iff [OF assms(3)] assms(4) by (simp add: pq_write_header_def)
  note step = pq_checkout_full [OF f]
  show ?thesis
  proof (cases "alloc_ok cfg ?c")
    case True
    have h: "page_capacity_ok cfg (rcap h)" "rcap h \<noteq> 0" using assms(2,4) by (auto simp: chain_rep_def)
    note g = grown_page [OF assms(1) True disjI2 [OF h(1)] h(2)]
    have c: "chain_rep cfg ((qs @ [h]) @ [ring_new ?c]) ((zss @ [y]) @ [[]])"
      by (rule chain_grow [OF assms(2-4) g(1) g(2) [OF h(2)] g(4)])
    have "pq_try_emplace cfg x (rev (qs @ [h])) = pq_try_emplace cfg x (rev ((qs @ [h]) @ [ring_new ?c]))"
      unfolding pq_try_emplace_def step using True by (simp add: pq_write_header_def)
    moreover obtain ps' where "pq_try_emplace cfg x (rev ((qs @ [h]) @ [ring_new ?c])) = Some (True, ps')"
      "pq_rep cfg ps' (concat ((zss @ [y]) @ [[]]) @ [x])"
      using pq_emplace_room [OF assms(1) c ring_new_rep [OF g(3,4)]] g(2) [OF h(2)] by auto
    ultimately show ?thesis by (intro pushesI(1)) simp_all
  next
    case False
    then have "pq_try_emplace cfg x (rev (qs @ [h])) = Some (False, rev (qs @ [h]))"
      unfolding pq_try_emplace_def step by (simp add: pq_write_header_def)
    moreover have "pq_rep cfg (rev (qs @ [h])) (concat (zss @ [y]))"
      unfolding pq_rep_def rev_rev_ident using assms(1,2) by blast
    moreover have "rcap h + 1 \<le> length (concat (zss @ [y])) + 2 \<or> static_capacity cfg \<noteq> None"
      unfolding assms(4) [symmetric] by simp
    ultimately show ?thesis using False by (intro pushesI(2))
  qed
qed

lemma pq_emplace_pages:
  assumes "page_cfg cfg" "chain_rep cfg (qs @ [h]) (zss @ [y])" "ring_rep h y"
  shows "pushes cfg x (concat (zss @ [y])) (pq_try_emplace cfg x (rev (qs @ [h])))"
proof (cases "Suc (length y) = rcap h")
  case True
  then show ?thesis by (rule pq_emplace_full [OF assms])
next
  case False
  then have "Suc (length y) < rcap h" using ring_repD(7) [OF assms(3)] by simp
  then obtain ps' where "pq_try_emplace cfg x (rev (qs @ [h])) = Some (True, ps')"
    "pq_rep cfg ps' (concat (zss @ [y]) @ [x])" using pq_emplace_room [OF assms] by blast
  then show ?thesis by (rule pushesI(1))
qed

text \<open>The first push allocates: with a dynamic capacity a page of one cell, which is full at once, and then one
  of two.\<close>

lemma pq_emplace_first:
  assumes "page_cfg cfg"
  shows "pushes cfg x [] (pq_try_emplace cfg x [])"
proof -
  let ?n = "rcap (empty_header cfg :: 'a ring)"
  let ?c = "reserve_power_of_two cfg (?n + 1)"
  have f: "checkout_write_slot (pq_write_header cfg ([] :: 'a ring list)) = None"
    using empty_header_full [OF assms] by (simp add: pq_write_header_def)
  note step = pq_checkout_full [OF f]
  show ?thesis
  proof (cases "alloc_ok cfg ?c")
    case True
    have n: "?n = 0 \<or> page_capacity_ok cfg ?n" "static_capacity cfg \<noteq> None \<Longrightarrow> ?n \<noteq> 0"
      using assms by (auto simp: empty_header_def page_capacity_ok_def page_cfg_def split: option.splits)
    note g = grown_page [OF assms True n]
    have r: "ring_rep (ring_new ?c) ([] :: 'a list)" by (rule ring_new_rep [OF g(3,4)])
    then have "chain_rep cfg ([] @ [ring_new ?c :: 'a ring]) ([] @ [[]])" using g(1) by (simp add: chain_rep_def)
    from pq_emplace_pages [OF assms this r, of x]
    have "pushes cfg x [] (pq_try_emplace cfg x [ring_new ?c])" by simp
    moreover have "pq_try_emplace cfg x [] = pq_try_emplace cfg x [ring_new ?c]"
      unfolding pq_try_emplace_def step using True by (simp add: pq_write_header_def)
    ultimately show ?thesis by simp
  next
    case False
    then have "pq_try_emplace cfg x [] = Some (False, [])"
      unfolding pq_try_emplace_def step by (simp add: pq_write_header_def)
    moreover have "pq_rep cfg [] []" using assms by (auto simp: pq_rep_def chain_rep_def intro: exI [of _ "[]"])
    moreover have "?n + 1 \<le> length ([] :: 'a list) + 2 \<or> static_capacity cfg \<noteq> None"
      by (simp add: empty_header_def split: option.splits)
    ultimately show ?thesis using False by (intro pushesI(2))
  qed
qed

lemma pq_emplace:
  assumes "pq_rep cfg ps xs"
  shows "pushes cfg x xs (pq_try_emplace cfg x ps)"
proof -
  obtain yss where y: "page_cfg cfg" "chain_rep cfg (rev ps) yss" "xs = concat yss"
    using assms by (auto simp: pq_rep_def)
  show ?thesis
  proof (cases ps)
    case Nil
    then show ?thesis using pq_emplace_first [OF y(1), of x] y(2,3) by (simp add: chain_rep_def)
  next
    case (Cons h ps1)
    then have c: "chain_rep cfg (rev ps1 @ [h]) yss" using y(2) by simp
    then obtain zss z where "yss = zss @ [z]" "ring_rep h z" by (rule chain_snoc)
    then show ?thesis using pq_emplace_pages [of cfg "rev ps1" h zss z x] y(1,3) c Cons by simp
  qed
qed

text \<open>After dropping an empty oldest page the oldest page is empty only if the queue is.\<close>

lemma chain_drop:
  assumes "chain_rep cfg qs yss"
  shows "\<exists>zss. chain_rep cfg (drop_oldest qs) zss \<and> concat zss = concat yss \<and> (zss = [] \<or> hd zss \<noteq> [] \<or> concat zss = [])"
proof (cases "\<exists>p q rs. qs = p # q # rs")
  case False
  then have "qs = [] \<or> (\<exists>p. qs = [p])" by (cases qs; cases "tl qs") auto
  then show ?thesis using assms
    by (auto simp: drop_oldest_def chain_rep_def list_all2_Cons1 intro!: exI [of _ yss])
next
  case True
  then obtain p q rs where qs: "qs = p # q # rs" by blast
  then obtain y z zss where yss: "yss = y # z # zss" and r: "ring_rep p y"
    using assms by (auto simp: chain_rep_def list_all2_Cons1)
  show ?thesis
  proof (cases "y = []")
    case True
    have "chain_rep cfg (q # rs) (z # zss)"
      using assms qs yss by (cases zss) (auto simp: chain_rep_def split: if_splits)
    moreover have "z \<noteq> [] \<or> zss = []" using assms yss by (cases zss) (auto simp: chain_rep_def)
    ultimately show ?thesis using True qs yss ring_rep_empty_iff [OF r]
      by (intro exI [of _ "z # zss"]) (auto simp: drop_oldest_def)
  next
    case False
    then show ?thesis using assms qs yss ring_rep_empty_iff [OF r]
      by (intro exI [of _ yss]) (simp add: drop_oldest_def)
  qed
qed

lemma pq_pop:
  assumes "pq_rep cfg ps xs"
  shows "\<exists>ps'. pq_try_pop cfg ps = Some (case xs of [] \<Rightarrow> None | y # _ \<Rightarrow> Some y, ps') \<and> pq_rep cfg ps' (tl xs)"
proof -
  obtain yss where y: "page_cfg cfg" "chain_rep cfg (rev ps) yss" "xs = concat yss"
    using assms by (auto simp: pq_rep_def)
  obtain zss where z: "chain_rep cfg (drop_oldest (rev ps)) zss" "concat zss = xs"
    "zss = [] \<or> hd zss \<noteq> [] \<or> concat zss = []" using chain_drop [OF y(2)] y(3) by metis
  show ?thesis
  proof (cases "drop_oldest (rev ps)")
    case Nil
    then have "xs = []" using z by (simp add: chain_rep_def)
    moreover have "pq_rep cfg [] []" using y(1) by (auto simp: pq_rep_def chain_rep_def intro: exI [of _ "[]"])
    ultimately show ?thesis using Nil by (simp add: pq_try_pop_def empty_header_pop)
  next
    case (Cons p qs)
    then obtain a rest where a: "zss = a # rest" "ring_rep p a" using z(1) by (auto simp: chain_rep_def list_all2_Cons1)
    have pop: "\<exists>p'. ring_try_pop p = Some (case xs of [] \<Rightarrow> None | y # _ \<Rightarrow> Some y, p') \<and> ring_rep p' (tl a) \<and> rcap p' = rcap p"
    proof (cases a)
      case Nil
      then show ?thesis using z(2,3) a ring_pop_empty [of p] by auto
    next
      case (Cons u us)
      then show ?thesis using z(2) a ring_pop_Cons [of p u us] by auto
    qed
    then obtain p' where p': "ring_try_pop p = Some (case xs of [] \<Rightarrow> None | y # _ \<Rightarrow> Some y, p')" "ring_rep p' (tl a)"
      "rcap p' = rcap p" by blast
    have "chain_rep cfg (p' # qs) (tl a # rest)" using z(1) Cons a(1) p'(2,3) by (simp add: chain_rep_def)
    moreover have "concat (tl a # rest) = tl xs" using z(2,3) a(1) by (cases a) auto
    ultimately have "pq_rep cfg (rev (p' # qs)) (tl xs)"
      using y(1) unfolding pq_rep_def rev_rev_ident by metis
    then show ?thesis using Cons p'(1) by (simp add: pq_try_pop_def)
  qed
qed

interpretation pq: fifo "pq_rep cfg" "unbounded cfg" "pq_try_emplace cfg" "pq_try_pop cfg" for cfg
proof unfold_locales
  fix q :: "'a ring list" and xs x
  assume "pq_rep cfg q xs"
  then show "\<exists>ok q'. pq_try_emplace cfg x q = Some (ok, q') \<and> unbounded cfg xs ok \<and> pq_rep cfg q' (if ok then xs @ [x] else xs)"
    using pq_emplace [of cfg q xs x] unfolding pushes_def by blast
next
  fix q :: "'a ring list" and xs
  assume "pq_rep cfg q xs"
  then show "\<exists>q'. pq_try_pop cfg q = Some (case xs of [] \<Rightarrow> None | y # _ \<Rightarrow> Some y, q') \<and> pq_rep cfg q' (tl xs)"
    by (rule pq_pop)
qed

section \<open>Properties\<close>

text \<open>C9: a page queue is an unbounded first-in first-out queue: over any sequence of calls on a new one every call
  returns and none is undefined; a push is accepted unless the allocator refuses a page, one for at most two elements
  more than the queue holds at that moment; a pop answers the oldest element, and nothing exactly when the queue is
  empty.  So the elements delivered followed by those still in the queue are the elements accepted, in order.  Pages come
  and go without being seen.\<close>
theorem page_queue_fifo:
  assumes "page_cfg cfg"
  shows "\<exists>rs q' ys. queue_run (pq_try_emplace cfg) (pq_try_pop cfg) ops pq_new = Some (rs, q') \<and> pq_rep cfg q' ys \<and>
    fifo_run (\<lambda>xs ok. ok \<or> (\<exists>n \<le> length xs + 2. \<not> alloc_ok cfg (reserve_power_of_two cfg n))) ops [] rs ys \<and>
    accepted ops rs = delivered rs @ ys"
proof -
  have "pq_rep cfg pq_new []" using assms by (auto simp: pq_rep_def chain_rep_def pq_new_def intro: exI [of _ "[]"])
  then obtain rs q' ys where r: "queue_run (pq_try_emplace cfg) (pq_try_pop cfg) ops pq_new = Some (rs, q')"
    "pq_rep cfg q' ys" "fifo_run (unbounded cfg) ops [] rs ys" using pq.run_fifo [of cfg pq_new "[]" ops] by blast
  have "unbounded cfg = (\<lambda>xs :: 'a list. \<lambda>ok. ok \<or> (\<exists>n \<le> length xs + 2. \<not> alloc_ok cfg (reserve_power_of_two cfg n)))"
    by (intro ext) (auto simp: unbounded_def page_refused_def)
  then show ?thesis using r fifo_run_order [OF r(3)] by auto
qed

definition page_heap :: config where
  "page_heap = \<lparr>static_capacity = None, alloc_ok = (\<lambda>n. n < 2 ^ 40)\<rparr>"

lemma page_heap_ok: "page_cfg page_heap"
proof -
  have "n < 2 ^ 40 \<Longrightarrow> n < (2 :: nat) ^ 63" for n :: nat by simp
  then show ?thesis by (simp add: page_cfg_def page_heap_def)
qed

lemma page_heap_grants: "n \<le> 8 \<Longrightarrow> alloc_ok page_heap (reserve_power_of_two page_heap n)"
proof -
  assume "n \<le> 8"
  then have "n \<in> {0, 1, 2, 3, 4, 5, 6, 7, 8}" by auto
  then show ?thesis by (auto simp: reserve_power_of_two_def clp2_64_def page_heap_def)
qed

text \<open>Two elements do not fit the first page, which is dropped on the way: the queue answers all the same.\<close>

theorem page_queue_fifo_witness:
  "\<exists>q'. queue_run (pq_try_emplace page_heap) (pq_try_pop page_heap)
      [Enq (1 :: nat), Enq 2, Enq 3, Deq, Deq, Deq, Deq, Enq 4] pq_new =
    Some ([Accepted True, Accepted True, Accepted True, Got (Some 1), Got (Some 2), Got (Some 3), Got None, Accepted True], q') \<and>
    pq_rep page_heap q' [4]"
  using page_queue_fifo [OF page_heap_ok, of "[Enq (1 :: nat), Enq 2, Enq 3, Deq, Deq, Deq, Deq, Enq 4]"]
  by (clarsimp simp: page_heap_grants fifo_run_unfold simp del: fifo_run.simps(2,3) accepted.simps delivered.simps
      queue_run.simps) (fastforce simp: page_heap_grants)

text \<open>A push on a page queue returns, and accepts the element unless the allocator has refused a page; a pop
  answers the oldest element whenever there is one.\<close>
theorem page_queue_calls:
  assumes "pq_rep cfg q xs"
  shows "(\<exists>ok q'. pq_try_emplace cfg x q = Some (ok, q') \<and> pq_rep cfg q' (if ok then xs @ [x] else xs) \<and>
      (ok \<or> (\<exists>n \<le> length xs + 2. \<not> alloc_ok cfg (reserve_power_of_two cfg n)))) \<and>
    (\<exists>q'. pq_try_pop cfg q = Some (case xs of [] \<Rightarrow> None | y # _ \<Rightarrow> Some y, q') \<and> pq_rep cfg q' (tl xs))"
  using pq_emplace [OF assms, of x] pq_pop [OF assms] unfolding pushes_def unbounded_def page_refused_def by blast

theorem page_queue_calls_witness:
  "(\<exists>ok q'. pq_try_emplace page_heap (7 :: nat) [] = Some (ok, q') \<and> pq_rep page_heap q' (if ok then [] @ [7] else []) \<and>
      (ok \<or> (\<exists>n \<le> length ([] :: nat list) + 2. \<not> alloc_ok page_heap (reserve_power_of_two page_heap n)))) \<and>
    (\<exists>q'. pq_try_pop page_heap ([] :: nat ring list) = Some (case [] of [] \<Rightarrow> None | y # _ \<Rightarrow> Some y, q') \<and> pq_rep page_heap q' (tl []))"
  by (rule page_queue_calls) (auto simp: pq_rep_def chain_rep_def page_heap_ok intro: exI [of _ "[]"])

text \<open>That fails for a page queue made with capacity 0.  Its first page has no cells and the next has one,
  so the first push leaves two empty pages behind the one it uses; a pop drops one of them only, looks at the
  other, and reports an empty queue although the element is there.  The next pop finds it.\<close>
theorem page_queue_zero_misses:
  "do { q \<leftarrow> pq_new_capacity page_heap 0; (ok, q) \<leftarrow> pq_try_emplace page_heap (7 :: nat) q;
        (r1, q) \<leftarrow> pq_try_pop page_heap q; (r2, q) \<leftarrow> pq_try_pop page_heap q; Some (ok, r1, r2) } =
   Some (True, None, Some 7)"
proof -
  have r: "reserve_power_of_two page_heap 0 = 0" "reserve_power_of_two page_heap (Suc 0) = Suc 0"
    "reserve_power_of_two page_heap (Suc (Suc 0)) = 2" "alloc_ok page_heap 0" "alloc_ok page_heap (Suc 0)"
    "alloc_ok page_heap 2"
    by (simp_all add: reserve_power_of_two_def clp2_64_def page_heap_def)
  have n: "ring_new 0 = \<lparr>readi = 0, readendi = 0, writei = 0, rcap = 0, rcells = ([] :: nat cell list)\<rparr>"
    "ring_new (Suc 0) = \<lparr>readi = 0, readendi = 0, writei = 0, rcap = Suc 0, rcells = [Raw :: nat cell]\<rparr>"
    "ring_new 2 = \<lparr>readi = 0, readendi = 0, writei = 0, rcap = 2, rcells = [Raw, Raw :: nat cell]\<rparr>"
    by (simp_all add: ring_new_def numeral_2_eq_2)
  note ev = checkout_write_slot_def next_slot_def wrap_reset_def Let_def
  have f: "checkout_write_slot (ring_new 0 :: nat ring) = None" "checkout_write_slot (ring_new (Suc 0) :: nat ring) = None"
    "checkout_write_slot (ring_new 2 :: nat ring) = Some (0, 1, (ring_new 2)\<lparr>writei := 1\<rparr>)"
    by (simp_all add: n ev)
  have "pq_checkout page_heap [ring_new 0 :: nat ring] = pq_checkout page_heap [ring_new (Suc 0), ring_new 0]"
    using pq_checkout_full [of page_heap "[ring_new 0 :: nat ring]"] f(1) r by (simp add: pq_write_header_def)
  also have "\<dots> = pq_checkout page_heap [ring_new 2, ring_new (Suc 0), ring_new 0]"
    using pq_checkout_full [of page_heap "[ring_new (Suc 0), ring_new 0 :: nat ring]"] f(2) r
    by (simp add: pq_write_header_def)
  also have "\<dots> = Some (Some (0, 1), [(ring_new 2)\<lparr>writei := 1\<rparr>, ring_new (Suc 0), ring_new 0])"
    by (subst pq_checkout.simps) (simp add: pq_write_header_def f(3))
  finally have "pq_checkout page_heap [ring_new 0 :: nat ring] =
      Some (Some (0, 1), [(ring_new 2)\<lparr>writei := 1\<rparr>, ring_new (Suc 0), ring_new 0])" .
  then show ?thesis
    by (simp add: pq_new_capacity_def r n pq_try_emplace_def cell_defs checkin_write_slot_def pq_try_pop_def
        drop_oldest_def ring_try_pop_def next_slot_def wrap_reset_def Let_def)
qed

end
