(* ===== verification/Lookup_Table.thy ===== *)
theory Lookup_Table
  imports Storage
begin

text \<open>
  The hash table inside the three collections of \<^verbatim>\<open>core/container/Collection.hpp\<close>, which each of them
  contains in the same words: a row of slots beside a row of keys, probed at five places.  A key of zero
  (\<^verbatim>\<open>Key{}\<close>) marks an empty bucket.  The rows are the array of \<^verbatim>\<open>utility/container/array.hpp\<close> with the
  reservation \<^verbatim>\<open>reserve_nonempty<reserve_power_of_two>\<close> and the relocation \<^verbatim>\<open>relocate_rehash\<close>.

  Slots are plain data whose zero is a parameter; keys are the 64-bit values the hash function sees.
  Conditions of \<^verbatim>\<open>debug_assert\<close> and \<^verbatim>\<open>debug_verify\<close> that guard a return are evaluated.
\<close>

section \<open>Probing\<close>

record 's table =
  tslots :: "'s list"
  tkeys :: "u64 list"

definition hash_of :: "u64 \<Rightarrow> nat \<Rightarrow> nat" where
  "hash_of key nkeys = unat (key * key) mod nkeys"

text \<open>The probing loop: at most five buckets, the squares of the count away from the first.\<close>

function find_bucket_loop :: "u64 \<Rightarrow> u64 list \<Rightarrow> nat \<Rightarrow> nat \<Rightarrow> nat \<Rightarrow> nat option" where
  "find_bucket_loop key ks first_bucket count bucket = (
    if ks ! bucket = key then Some bucket
    else if 4 \<le> count then None
    else find_bucket_loop key ks first_bucket (count + 1)
      ((first_bucket + (count + 1) * (count + 1)) mod 2 ^ 64 mod length ks))"
  by pat_completeness auto
termination
  by (relation "measure (\<lambda>(key, ks, first_bucket, count, bucket). 4 - count)") auto

declare find_bucket_loop.simps [simp del]

text \<open>\<^verbatim>\<open>static_cast<bucket_t>\<close> to 32 bits, of which the last value stands for no bucket.\<close>

definition to_bucket :: "nat option \<Rightarrow> nat option" where
  "to_bucket r = (case r of None \<Rightarrow> None | Some b \<Rightarrow> if b mod 2 ^ 32 = 2 ^ 32 - 1 then None else Some (b mod 2 ^ 32))"

definition find_bucket_at :: "u64 \<Rightarrow> u64 list \<Rightarrow> nat \<Rightarrow> nat option" where
  "find_bucket_at key ks first_bucket = to_bucket (find_bucket_loop key ks first_bucket 0 first_bucket)"

definition find_bucket :: "u64 \<Rightarrow> u64 list \<Rightarrow> nat option" where
  "find_bucket key ks = (if length ks = 0 then None else find_bucket_at key ks (hash_of key (length ks)))"

definition find_empty_bucket :: "u64 \<Rightarrow> u64 list \<Rightarrow> nat option" where
  "find_empty_bucket key ks = (if length ks = 0 then None else find_bucket_at 0 ks (hash_of key (length ks)))"

section \<open>Growing\<close>

definition table_zero :: "'s \<Rightarrow> nat \<Rightarrow> 's table" where
  "table_zero z n = \<lparr>tslots = replicate n z, tkeys = replicate n 0\<rparr>"

definition table_new :: "config \<Rightarrow> 's \<Rightarrow> 's table" where
  "table_new cfg z = (
    let n = reserve_nonempty cfg 0 in
    case static_capacity cfg of
      Some C \<Rightarrow> table_zero z n
    | None \<Rightarrow> table_zero z (if alloc_ok cfg n then n else 0))"

text \<open>The loop of \<^verbatim>\<open>relocate_rehash\<close> over the buckets of the old table.\<close>

fun rehash_from :: "('s \<times> u64) list \<Rightarrow> 's table \<Rightarrow> 's table option" where
  "rehash_from [] new = Some new"
| "rehash_from ((s, k) # old) new = (
    if k = 0 then rehash_from old new
    else case find_empty_bucket k (tkeys new) of
      None \<Rightarrow> None
    | Some b \<Rightarrow> rehash_from old \<lparr>tslots = (tslots new)[b := s], tkeys = (tkeys new)[b := k]\<rparr>)"

definition relocate_rehash :: "'s \<Rightarrow> nat \<Rightarrow> 's table \<Rightarrow> 's table option" where
  "relocate_rehash z new_size old = rehash_from (zip (tslots old) (tkeys old)) (table_zero z new_size)"

definition array_try_reallocate :: "config \<Rightarrow> 's \<Rightarrow> nat \<Rightarrow> 's table \<Rightarrow> bool \<times> 's table" where
  "array_try_reallocate cfg z min_capacity t = (case static_capacity cfg of
     Some _ \<Rightarrow> (False, t)
   | None \<Rightarrow> (
       let new_capacity = reserve_nonempty cfg min_capacity in
       if new_capacity < min_capacity then (False, t)
       else if \<not> alloc_ok cfg new_capacity then (False, t)
       else case relocate_rehash z new_capacity t of
         None \<Rightarrow> (False, t)
       | Some t' \<Rightarrow> (True, t')))"

definition array_try_reserve :: "config \<Rightarrow> 's \<Rightarrow> nat \<Rightarrow> 's table \<Rightarrow> bool \<times> 's table" where
  "array_try_reserve cfg z min_capacity t =
    (if min_capacity \<le> length (tkeys t) then (True, t) else array_try_reallocate cfg z min_capacity t)"

lemma length_rehash_from: "rehash_from old new = Some t \<Longrightarrow> length (tkeys t) = length (tkeys new)"
  by (induction old new rule: rehash_from.induct) (auto split: if_splits option.splits)

lemma reserve_grows:
  assumes "array_try_reserve cfg z (Suc (length (tkeys t))) t = (True, t')"
  shows "length (tkeys t) < length (tkeys t')" "length (tkeys t') < 2 ^ 64"
proof -
  let ?n = "reserve_nonempty cfg (Suc (length (tkeys t)))"
  have c: "static_capacity cfg = None" "Suc (length (tkeys t)) \<le> ?n" "relocate_rehash z ?n t = Some t'"
    using assms by (auto simp: array_try_reserve_def array_try_reallocate_def Let_def split: option.splits if_splits)
  have "length (tkeys t') = ?n" using length_rehash_from c(3) by (fastforce simp: relocate_rehash_def table_zero_def)
  moreover have "?n < 2 ^ 64" using reserve_power_of_two_grows [OF c(1)] by (simp add: reserve_nonempty_def)
  ultimately show "length (tkeys t) < length (tkeys t')" "length (tkeys t') < 2 ^ 64" using c(2) by simp_all
qed

lemma reserve_measure:
  assumes "(True, t') = array_try_reserve cfg z (Suc (length (tkeys t))) t"
  shows "18446744073709551616 - length (tkeys t') < 18446744073709551616 - length (tkeys t)"
  using reserve_grows [OF assms [symmetric]] by (intro diff_less_mono2) simp_all

text \<open>\<^verbatim>\<open>try_place\<close>: the table grows until one of the five buckets is empty, or cannot grow.\<close>

function try_place :: "config \<Rightarrow> 's \<Rightarrow> u64 \<Rightarrow> 's table \<Rightarrow> nat option \<times> 's table" where
  "try_place cfg z key t = (case find_empty_bucket key (tkeys t) of
     Some b \<Rightarrow> (Some b, t)
   | None \<Rightarrow> (case array_try_reserve cfg z (Suc (length (tkeys t))) t of
       (False, t') \<Rightarrow> (None, t')
     | (True, t') \<Rightarrow> try_place cfg z key t'))"
  by pat_completeness auto
termination
  by (relation "measure (\<lambda>(cfg, z, key, t). 2 ^ 64 - length (tkeys t))") (auto intro: reserve_measure)

declare try_place.simps [simp del]

section \<open>What probing finds\<close>

definition probe :: "u64 \<Rightarrow> nat \<Rightarrow> nat \<Rightarrow> nat" where
  "probe k n j = (hash_of k n + j * j) mod n"

definition table_bound :: nat where
  "table_bound = 2 ^ 32 - 1"

lemma probe_less [simp]: "0 < n \<Longrightarrow> probe k n j < n"
  by (simp add: probe_def)

lemma find_bucket_loop_spec:
  assumes "count \<le> 4" "0 < length ks" "length ks \<le> table_bound" "bucket = probe k (length ks) count"
  shows "(case find_bucket_loop key ks (hash_of k (length ks)) count bucket of
      None \<Rightarrow> \<forall>j. count \<le> j \<and> j \<le> 4 \<longrightarrow> ks ! probe k (length ks) j \<noteq> key
    | Some b \<Rightarrow> \<exists>j. count \<le> j \<and> j \<le> 4 \<and> b = probe k (length ks) j \<and> ks ! b = key)"
  using assms
proof (induction "4 - count" arbitrary: count bucket)
  case 0
  then have "count = 4" by simp
  then show ?case using 0 by (subst find_bucket_loop.simps) (auto dest: le_antisym)
next
  case (Suc d)
  let ?n = "length ks" and ?h = "hash_of k (length ks)"
  have c: "Suc count \<le> 4" using Suc.hyps(2) by simp
  show ?case
  proof (cases "ks ! bucket = key")
    case True
    then show ?thesis using Suc.prems c
      by (subst find_bucket_loop.simps) (auto intro!: exI [of _ count])
  next
    case False
    have "?h < ?n" using Suc.prems(2) by (simp add: hash_of_def)
    moreover have "Suc count * Suc count \<le> 16" using mult_le_mono [OF c c] by simp
    ultimately have "?h + Suc count * Suc count < 2 ^ 64" using Suc.prems(3) by (simp add: table_bound_def)
    then have nx: "(?h + (count + 1) * (count + 1)) mod 2 ^ 64 mod ?n = probe k ?n (Suc count)"
      by (simp add: probe_def)
    have "find_bucket_loop key ks ?h count bucket = find_bucket_loop key ks ?h (Suc count) (probe k ?n (Suc count))"
      using False c nx by (subst find_bucket_loop.simps) simp
    moreover have "case find_bucket_loop key ks ?h (Suc count) (probe k ?n (Suc count)) of
        None \<Rightarrow> \<forall>j. Suc count \<le> j \<and> j \<le> 4 \<longrightarrow> ks ! probe k ?n j \<noteq> key
      | Some b \<Rightarrow> \<exists>j. Suc count \<le> j \<and> j \<le> 4 \<and> b = probe k ?n j \<and> ks ! b = key"
      using Suc.hyps c Suc.prems(2,3) by (intro Suc.hyps(1)) simp_all
    moreover have "count \<le> j \<longleftrightarrow> j = count \<or> Suc count \<le> j" for j by auto
    ultimately show ?thesis using False Suc.prems(4) by (auto split: option.splits)
  qed
qed

lemma find_bucket_at_spec:
  assumes "0 < length ks" "length ks \<le> table_bound"
  shows "(case find_bucket_at key ks (hash_of k (length ks)) of
      None \<Rightarrow> \<forall>j\<le>4. ks ! probe k (length ks) j \<noteq> key
    | Some b \<Rightarrow> b < length ks \<and> ks ! b = key \<and> (\<exists>j\<le>4. b = probe k (length ks) j))"
proof -
  let ?n = "length ks" and ?h = "hash_of k (length ks)"
  have "?h = probe k ?n 0" using assms(1) by (simp add: probe_def hash_of_def)
  note * = find_bucket_loop_spec [of 0, OF _ assms this, of key]
  show ?thesis
  proof (cases "find_bucket_loop key ks ?h 0 ?h")
    case None
    then show ?thesis using * by (simp add: find_bucket_at_def to_bucket_def)
  next
    case (Some b)
    then have b: "\<exists>j\<le>4. b = probe k ?n j" "ks ! b = key" using * by auto
    then have "b < ?n" using assms(1) by auto
    then have "b < 2 ^ 32 - 1" using assms(2) by (simp add: table_bound_def)
    then have "find_bucket_at key ks ?h = Some b" using Some by (simp add: find_bucket_at_def to_bucket_def)
    then show ?thesis using b \<open>b < ?n\<close> by simp
  qed
qed

lemma find_bucket_Some:
  assumes "find_bucket k ks = Some b" "length ks \<le> table_bound"
  shows "b < length ks" "ks ! b = k"
  using assms find_bucket_at_spec [where ks = ks and key = k and k = k] by (auto simp: find_bucket_def split: if_splits)

lemma find_bucket_None:
  assumes "find_bucket k ks = None" "length ks \<le> table_bound" "j \<le> 4" "0 < length ks"
  shows "ks ! probe k (length ks) j \<noteq> k"
  using assms find_bucket_at_spec [where ks = ks and key = k and k = k] by (auto simp: find_bucket_def split: if_splits)

lemma find_empty_bucket_Some:
  assumes "find_empty_bucket k ks = Some b" "length ks \<le> table_bound"
  shows "b < length ks" "ks ! b = 0" "\<exists>j\<le>4. b = probe k (length ks) j"
  using assms find_bucket_at_spec [where ks = ks and key = 0 and k = k] by (auto simp: find_empty_bucket_def split: if_splits)

lemma find_empty_bucket_None:
  assumes "find_empty_bucket k ks = None" "length ks \<le> table_bound" "j \<le> 4" "0 < length ks"
  shows "ks ! probe k (length ks) j \<noteq> 0"
  using assms find_bucket_at_spec [where ks = ks and key = 0 and k = k] by (auto simp: find_empty_bucket_def split: if_splits)

section \<open>The table as a map\<close>

text \<open>Every key stands in one of its five buckets, and in one only.\<close>

definition table_ok :: "'s table \<Rightarrow> bool" where
  "table_ok t \<longleftrightarrow> length (tslots t) = length (tkeys t) \<and> length (tkeys t) \<le> table_bound \<and>
     (\<forall>b < length (tkeys t). tkeys t ! b \<noteq> 0 \<longrightarrow> (\<exists>j\<le>4. b = probe (tkeys t ! b) (length (tkeys t)) j)) \<and>
     (\<forall>b < length (tkeys t). \<forall>c < length (tkeys t). tkeys t ! b \<noteq> 0 \<and> tkeys t ! b = tkeys t ! c \<longrightarrow> b = c)"

lemma table_okD:
  assumes "table_ok t"
  shows "length (tslots t) = length (tkeys t)" "length (tkeys t) \<le> table_bound"
    "\<And>b. b < length (tkeys t) \<Longrightarrow> tkeys t ! b \<noteq> 0 \<Longrightarrow> \<exists>j\<le>4. b = probe (tkeys t ! b) (length (tkeys t)) j"
    "\<And>b c. b < length (tkeys t) \<Longrightarrow> c < length (tkeys t) \<Longrightarrow> tkeys t ! b \<noteq> 0 \<Longrightarrow> tkeys t ! b = tkeys t ! c \<Longrightarrow> b = c"
  using assms unfolding table_ok_def by blast+

lemma table_okI:
  assumes "length (tslots t) = length (tkeys t)" "length (tkeys t) \<le> table_bound"
    "\<And>b. b < length (tkeys t) \<Longrightarrow> tkeys t ! b \<noteq> 0 \<Longrightarrow> \<exists>j\<le>4. b = probe (tkeys t ! b) (length (tkeys t)) j"
    "\<And>b c. b < length (tkeys t) \<Longrightarrow> c < length (tkeys t) \<Longrightarrow> tkeys t ! b \<noteq> 0 \<Longrightarrow> tkeys t ! b = tkeys t ! c \<Longrightarrow> b = c"
  shows "table_ok t"
  using assms unfolding table_ok_def by blast

lemma find_bucket_iff:
  assumes "table_ok t" "k \<noteq> 0"
  shows "find_bucket k (tkeys t) = Some b \<longleftrightarrow> b < length (tkeys t) \<and> tkeys t ! b = k"
proof
  assume "find_bucket k (tkeys t) = Some b"
  then show "b < length (tkeys t) \<and> tkeys t ! b = k" using find_bucket_Some table_okD(2) [OF assms(1)] by blast
next
  assume b: "b < length (tkeys t) \<and> tkeys t ! b = k"
  then obtain j where j: "j \<le> 4" "b = probe k (length (tkeys t)) j" using table_okD(3) [OF assms(1)] assms(2) by metis
  have "0 < length (tkeys t)" using b by linarith
  then have "find_bucket k (tkeys t) \<noteq> None"
    using find_bucket_None [OF _ table_okD(2) [OF assms(1)] j(1), of k] j(2) b by blast
  then obtain c where c: "find_bucket k (tkeys t) = Some c" by blast
  then have "c < length (tkeys t)" "tkeys t ! c = k" using find_bucket_Some table_okD(2) [OF assms(1)] by blast+
  then have "b = c" using b table_okD(4) [OF assms(1), of b c] assms(2) by simp
  then show "find_bucket k (tkeys t) = Some b" using c by simp
qed

definition tlookup :: "'s table \<Rightarrow> u64 \<rightharpoonup> 's" where
  "tlookup t k = (if k = 0 then None else map_option (\<lambda>b. tslots t ! b) (find_bucket k (tkeys t)))"

lemma tlookup_Some_iff:
  assumes "table_ok t"
  shows "tlookup t k = Some s \<longleftrightarrow> k \<noteq> 0 \<and> (\<exists>b < length (tkeys t). tkeys t ! b = k \<and> tslots t ! b = s)"
proof (cases "k = 0")
  case False
  have "tlookup t k = Some s \<longleftrightarrow> (\<exists>b. find_bucket k (tkeys t) = Some b \<and> tslots t ! b = s)"
    using False by (simp add: tlookup_def)
  then show ?thesis using find_bucket_iff [OF assms False] False by blast
qed (simp add: tlookup_def)

lemma tlookup_at: "table_ok t \<Longrightarrow> b < length (tkeys t) \<Longrightarrow> tkeys t ! b \<noteq> 0 \<Longrightarrow> tlookup t (tkeys t ! b) = Some (tslots t ! b)"
  by (auto simp: tlookup_Some_iff)

lemma tlookup_None_iff:
  assumes "table_ok t" "k \<noteq> 0"
  shows "tlookup t k = None \<longleftrightarrow> find_bucket k (tkeys t) = None"
  using assms by (simp add: tlookup_def)

lemma tlookup_eqI:
  assumes "table_ok t" "\<And>k s. m k = Some s \<longleftrightarrow> k \<noteq> 0 \<and> (\<exists>b < length (tkeys t). tkeys t ! b = k \<and> tslots t ! b = s)"
  shows "tlookup t = m"
proof
  fix k
  show "tlookup t k = m k" using tlookup_Some_iff [OF assms(1), of k] assms(2) [of k] by (metis option.exhaust)
qed

text \<open>Filling an empty bucket of a new key, emptying a bucket, changing the slot of a key.\<close>

lemma table_put:
  assumes "table_ok t" "k \<noteq> 0" "tlookup t k = None" "b < length (tkeys t)" "tkeys t ! b = 0"
    "\<exists>j\<le>4. b = probe k (length (tkeys t)) j"
  shows "table_ok \<lparr>tslots = (tslots t)[b := s], tkeys = (tkeys t)[b := k]\<rparr>" (is "table_ok ?t")
    "tlookup \<lparr>tslots = (tslots t)[b := s], tkeys = (tkeys t)[b := k]\<rparr> = (tlookup t)(k \<mapsto> s)"
proof -
  note d = table_okD [OF assms(1)]
  have new: "tkeys t ! c \<noteq> k" if "c < length (tkeys t)" for c
    using tlookup_at [OF assms(1) that] assms(2,3) by auto
  show ok: "table_ok ?t"
  proof (rule table_okI)
    fix c assume "c < length (tkeys ?t)" "tkeys ?t ! c \<noteq> 0"
    then show "\<exists>j\<le>4. c = probe (tkeys ?t ! c) (length (tkeys ?t)) j"
      using d(3) [of c] assms(6) by (cases "c = b") (auto simp: nth_update_if)
  next
    fix c e assume "c < length (tkeys ?t)" "e < length (tkeys ?t)" "tkeys ?t ! c \<noteq> 0" "tkeys ?t ! c = tkeys ?t ! e"
    then show "c = e" using d(4) [of c e] new [of c] new [of e] by (cases "c = b"; cases "e = b") simp_all
  qed (use d(1,2) in simp_all)
  show "tlookup ?t = (tlookup t)(k \<mapsto> s)"
  proof (rule tlookup_eqI [OF ok])
    fix k' s'
    show "((tlookup t)(k \<mapsto> s)) k' = Some s' \<longleftrightarrow>
      k' \<noteq> 0 \<and> (\<exists>c < length (tkeys ?t). tkeys ?t ! c = k' \<and> tslots ?t ! c = s')"
    proof (cases "k' = k")
      case True
      then show ?thesis using assms(2,4) d(1) new by (auto simp: nth_update_if)
    next
      case False
      have "(tkeys ?t ! c = k' \<and> tslots ?t ! c = s') = (tkeys t ! c = k' \<and> tslots t ! c = s')"
        if "c < length (tkeys t)" "k' \<noteq> 0" for c
        using that assms(5) d(1) False by (cases "c = b") simp_all
      then show ?thesis using tlookup_Some_iff [OF assms(1), of k' s'] False by simp blast
    qed
  qed
qed

lemma table_drop:
  assumes "table_ok t" "b < length (tkeys t)" "tkeys t ! b = k" "k \<noteq> 0"
  shows "table_ok (t\<lparr>tkeys := (tkeys t)[b := 0]\<rparr>)" (is "table_ok ?t")
    "tlookup (t\<lparr>tkeys := (tkeys t)[b := 0]\<rparr>) = (tlookup t)(k := None)"
proof -
  note d = table_okD [OF assms(1)]
  show ok: "table_ok ?t"
  proof (rule table_okI)
    fix c assume "c < length (tkeys ?t)" "tkeys ?t ! c \<noteq> 0"
    then show "\<exists>j\<le>4. c = probe (tkeys ?t ! c) (length (tkeys ?t)) j"
      using d(3) [of c] by (cases "c = b") (auto simp: nth_update_if)
  next
    fix c e assume "c < length (tkeys ?t)" "e < length (tkeys ?t)" "tkeys ?t ! c \<noteq> 0" "tkeys ?t ! c = tkeys ?t ! e"
    then show "c = e" using d(4) [of c e] by (cases "c = b"; cases "e = b") simp_all
  qed (use d(1,2) in simp_all)
  show "tlookup ?t = (tlookup t)(k := None)"
  proof (rule tlookup_eqI [OF ok])
    fix k' s'
    show "((tlookup t)(k := None)) k' = Some s' \<longleftrightarrow>
      k' \<noteq> 0 \<and> (\<exists>c < length (tkeys ?t). tkeys ?t ! c = k' \<and> tslots ?t ! c = s')"
    proof (cases "k' = k")
      case True
      have "tkeys ?t ! c \<noteq> k" if "c < length (tkeys t)" for c
        using that assms(2-4) d(4) [of b c] by (cases "c = b") auto
      then show ?thesis using True by simp blast
    next
      case False
      have "(tkeys ?t ! c = k' \<and> tslots ?t ! c = s') = (tkeys t ! c = k' \<and> tslots t ! c = s')"
        if "c < length (tkeys t)" "k' \<noteq> 0" for c
        using that assms(3) d(1) False by (cases "c = b") simp_all
      then show ?thesis using tlookup_Some_iff [OF assms(1), of k' s'] False by simp blast
    qed
  qed
qed

lemma table_set_slot:
  assumes "table_ok t" "b < length (tkeys t)" "tkeys t ! b = k" "k \<noteq> 0"
  shows "table_ok (t\<lparr>tslots := (tslots t)[b := s]\<rparr>)" (is "table_ok ?t")
    "tlookup (t\<lparr>tslots := (tslots t)[b := s]\<rparr>) = (tlookup t)(k \<mapsto> s)"
proof -
  note d = table_okD [OF assms(1)]
  show ok: "table_ok ?t"
  proof (rule table_okI)
    show "\<And>c e. c < length (tkeys ?t) \<Longrightarrow> e < length (tkeys ?t) \<Longrightarrow> tkeys ?t ! c \<noteq> 0 \<Longrightarrow> tkeys ?t ! c = tkeys ?t ! e \<Longrightarrow> c = e"
      using d(4) by simp
  qed (use d(1-3) in simp_all)
  show "tlookup ?t = (tlookup t)(k \<mapsto> s)"
  proof (rule tlookup_eqI [OF ok])
    fix k' s'
    show "((tlookup t)(k \<mapsto> s)) k' = Some s' \<longleftrightarrow>
      k' \<noteq> 0 \<and> (\<exists>c < length (tkeys ?t). tkeys ?t ! c = k' \<and> tslots ?t ! c = s')"
    proof (cases "k' = k")
      case True
      have only: "c = b" if "c < length (tkeys t)" "tkeys t ! c = k" for c using that assms(2-4) d(4) [of b c] by simp
      have "(\<exists>c < length (tkeys ?t). tkeys ?t ! c = k \<and> tslots ?t ! c = s') \<longleftrightarrow> s = s'"
      proof
        assume "\<exists>c < length (tkeys ?t). tkeys ?t ! c = k \<and> tslots ?t ! c = s'"
        then obtain c where "c < length (tkeys t)" "tkeys t ! c = k" "(tslots t)[b := s] ! c = s'" by auto
        then show "s = s'" using only [of c] d(1) by simp
      qed (use assms(2,3) d(1) in \<open>auto intro!: exI [of _ b]\<close>)
      then show ?thesis using True assms(4) by simp
    next
      case False
      have "(tkeys ?t ! c = k' \<and> tslots ?t ! c = s') = (tkeys t ! c = k' \<and> tslots t ! c = s')"
        if "c < length (tkeys t)" for c
        using that assms(3) d(1) False by (cases "c = b") simp_all
      then show ?thesis using tlookup_Some_iff [OF assms(1), of k' s'] False by simp blast
    qed
  qed
qed

lemma table_zero_ok:
  assumes "n \<le> table_bound"
  shows "table_ok (table_zero z n)" "tlookup (table_zero z n) = Map.empty"
proof -
  show ok: "table_ok (table_zero z n)" using assms by (simp add: table_ok_def table_zero_def)
  show "tlookup (table_zero z n) = Map.empty" by (rule tlookup_eqI [OF ok]) (auto simp: table_zero_def)
qed

subsection \<open>Rehashing and placing\<close>

text \<open>If the rehash succeeds the new table has the entries of both: it starts empty, so it has those of the
  old one.\<close>

lemma rehash_from_lookup:
  assumes "rehash_from old new = Some t" "table_ok new" "distinct (filter (\<lambda>k. k \<noteq> 0) (map snd old))"
    "\<forall>(s, k)\<in>set old. k \<noteq> 0 \<longrightarrow> tlookup new k = None"
  shows "table_ok t \<and> (\<forall>k. tlookup t k = (if k \<noteq> 0 \<and> k \<in> snd ` set old then map_of (map prod.swap old) k else tlookup new k))"
  using assms
proof (induction old new rule: rehash_from.induct)
  case (1 new)
  then show ?case by simp
next
  case (2 s k old new)
  show ?case
  proof (cases "k = 0")
    case True
    then show ?thesis using 2 by auto
  next
    case False
    then obtain b where b: "find_empty_bucket k (tkeys new) = Some b"
      "rehash_from old \<lparr>tslots = (tslots new)[b := s], tkeys = (tkeys new)[b := k]\<rparr> = Some t"
      using 2(3) by (auto split: option.splits)
    let ?new = "\<lparr>tslots = (tslots new)[b := s], tkeys = (tkeys new)[b := k]\<rparr>"
    have "tlookup new k = None" using 2(6) False by simp
    then have p: "table_ok ?new" "tlookup ?new = (tlookup new)(k \<mapsto> s)"
      using table_put [OF 2(4) False] find_empty_bucket_Some [OF b(1) table_okD(2) [OF 2(4)]] by blast+
    have k: "k \<notin> snd ` set old" "distinct (filter (\<lambda>k. k \<noteq> 0) (map snd old))" using 2(5) False by auto
    then have "\<forall>(s, k)\<in>set old. k \<noteq> 0 \<longrightarrow> tlookup ?new k = None" using 2(6) p(2) by force
    from 2(2) [OF False b(1) b(2) p(1) k(2) this]
    show ?thesis using p(2) k(1) False by auto
  qed
qed

lemma table_distinct:
  assumes "table_ok t"
  shows "distinct (filter (\<lambda>k. k \<noteq> 0) (tkeys t))"
proof -
  have "\<lbrakk>\<And>b c. b < length ks \<Longrightarrow> c < length ks \<Longrightarrow> ks ! b \<noteq> 0 \<Longrightarrow> ks ! b = ks ! c \<Longrightarrow> b = c\<rbrakk> \<Longrightarrow>
    distinct (filter (\<lambda>k. k \<noteq> 0) ks)" for ks :: "u64 list"
  proof (induction ks)
    case (Cons k ks)
    have "distinct (filter (\<lambda>k. k \<noteq> 0) ks)"
    proof (rule Cons.IH)
      fix b c assume "b < length ks" "c < length ks" "ks ! b \<noteq> 0" "ks ! b = ks ! c"
      then show "b = c" using Cons.prems [of "Suc b" "Suc c"] by simp
    qed
    moreover have "k \<noteq> 0 \<Longrightarrow> k \<notin> set ks"
    proof
      assume "k \<noteq> 0" "k \<in> set ks"
      then obtain c where "c < length ks" "ks ! c = k" by (auto simp: in_set_conv_nth)
      then show False using Cons.prems [of 0 "Suc c"] \<open>k \<noteq> 0\<close> by simp
    qed
    ultimately show ?case by simp
  qed simp
  then show ?thesis using table_okD(4) [OF assms] by blast
qed

lemma relocate_rehash_ok:
  assumes "table_ok t" "relocate_rehash z n t = Some t'" "n \<le> table_bound"
  shows "table_ok t'" "tlookup t' = tlookup t" "length (tkeys t') = n"
proof -
  note d = table_okD [OF assms(1)]
  let ?old = "zip (tslots t) (tkeys t)"
  have r: "rehash_from ?old (table_zero z n) = Some t'" using assms(2) by (simp add: relocate_rehash_def)
  have m: "map snd ?old = tkeys t" using d(1) by simp
  have *: "table_ok t' \<and> (\<forall>k. tlookup t' k = (if k \<noteq> 0 \<and> k \<in> snd ` set ?old then map_of (map prod.swap ?old) k
      else tlookup (table_zero z n) k))"
    using table_zero_ok [OF assms(3), of z] table_distinct [OF assms(1)] m
    by (intro rehash_from_lookup [OF r]) auto
  then show ok: "table_ok t'" by blast
  show "length (tkeys t') = n" using length_rehash_from [OF r] by (simp add: table_zero_def)
  have l: "tlookup t' k = (if k \<noteq> 0 \<and> k \<in> set (tkeys t) then map_of (map prod.swap ?old) k else None)" for k
    using * table_zero_ok(2) [OF assms(3), of z] m by (metis image_set)
  show "tlookup t' = tlookup t"
  proof
    fix k
    show "tlookup t' k = tlookup t k"
    proof (cases "k \<noteq> 0 \<and> k \<in> set (tkeys t)")
      case True
      then obtain b where b: "b < length (tkeys t)" "tkeys t ! b = k" by (auto simp: in_set_conv_nth)
      have "map_of (map prod.swap ?old) k = Some (tslots t ! b)"
      proof -
        have "k \<in> snd ` set ?old" using True m by (metis image_set)
        then obtain s where s: "map_of (map prod.swap ?old) k = Some s"
          by (cases "map_of (map prod.swap ?old) k") (auto simp: map_of_eq_None_iff image_image)
        then have "(s, k) \<in> set ?old" by (auto dest!: map_of_SomeD)
        then obtain c where "c < length (tkeys t)" "tslots t ! c = s" "tkeys t ! c = k"
          using d(1) by (auto simp: in_set_conv_nth)
        then have "b = c" using b d(4) [of b c] True by simp
        then show ?thesis using s \<open>tslots t ! c = s\<close> by simp
      qed
      then show ?thesis using l True b tlookup_at [OF assms(1) b(1)] by simp
    next
      case False
      have "tlookup t k \<noteq> Some s" for s
        using False tlookup_Some_iff [OF assms(1), of k s] by (auto simp: in_set_conv_nth)
      then have "tlookup t k = None" by (cases "tlookup t k") auto
      then show ?thesis using l [of k] False by auto
    qed
  qed
qed

text \<open>What the code relies on: no allocator grants a table that 32-bit bucket numbers cannot address.\<close>

definition table_cfg :: "config \<Rightarrow> bool" where
  "table_cfg cfg \<longleftrightarrow> (case static_capacity cfg of Some C \<Rightarrow> C \<le> table_bound | None \<Rightarrow> (\<forall>n. alloc_ok cfg n \<longrightarrow> n \<le> table_bound))"

lemma table_new_ok:
  assumes "table_cfg cfg"
  shows "table_ok (table_new cfg z)" "tlookup (table_new cfg z) = Map.empty"
proof -
  have "\<exists>n \<le> table_bound. table_new cfg z = table_zero z n"
    using assms by (auto simp: table_cfg_def table_new_def Let_def reserve_nonempty_def reserve_power_of_two_def
        split: option.splits)
  then show "table_ok (table_new cfg z)" "tlookup (table_new cfg z) = Map.empty" using table_zero_ok by metis+
qed

lemma array_try_reserve_ok:
  assumes "table_ok t" "table_cfg cfg" "array_try_reserve cfg z n t = (ok, t')"
  shows "table_ok t' \<and> tlookup t' = tlookup t \<and> (ok \<longrightarrow> n \<le> length (tkeys t'))"
proof (cases "n \<le> length (tkeys t)")
  case True
  then show ?thesis using assms by (simp add: array_try_reserve_def)
next
  case False
  let ?n = "reserve_nonempty cfg n"
  show ?thesis
  proof (cases "ok")
    case True
    then have "static_capacity cfg = None" "n \<le> ?n" "alloc_ok cfg ?n" "relocate_rehash z ?n t = Some t'"
      using assms(3) False
      by (auto simp: array_try_reserve_def array_try_reallocate_def Let_def split: option.splits if_splits)
    moreover have "?n \<le> table_bound" using calculation assms(2) by (simp add: table_cfg_def)
    ultimately show ?thesis using relocate_rehash_ok [OF assms(1), of z ?n t'] by simp
  next
    case False
    then have "t' = t" using assms(3)
      by (auto simp: array_try_reserve_def array_try_reallocate_def Let_def split: option.splits if_splits)
    then show ?thesis using assms(1) False by simp
  qed
qed

lemma try_place_ok:
  assumes "table_ok t" "table_cfg cfg" "try_place cfg z key t = (r, t')"
  shows "table_ok t' \<and> tlookup t' = tlookup t \<and>
    (case r of None \<Rightarrow> True
     | Some b \<Rightarrow> b < length (tkeys t') \<and> tkeys t' ! b = 0 \<and> (\<exists>j\<le>4. b = probe key (length (tkeys t')) j))"
  using assms
proof (induction cfg z key t rule: try_place.induct)
  case (1 cfg z key t)
  show ?case
  proof (cases "find_empty_bucket key (tkeys t)")
    case (Some b)
    then have "r = Some b" "t' = t" using 1(4) by (simp_all add: try_place.simps)
    then show ?thesis using 1(2) find_empty_bucket_Some [OF Some table_okD(2) [OF 1(2)]] by simp
  next
    case None
    obtain ok t1 where a: "array_try_reserve cfg z (Suc (length (tkeys t))) t = (ok, t1)" by fastforce
    have t1: "table_ok t1" "tlookup t1 = tlookup t" using array_try_reserve_ok [OF 1(2,3) a] by blast+
    show ?thesis
    proof (cases ok)
      case True
      then have "try_place cfg z key t1 = (r, t')" using 1(4) None a by (simp add: try_place.simps [of cfg z key t])
      then show ?thesis using 1(1) [OF None _ _ t1(1) 1(3)] a True t1(2) by simp
    next
      case False
      then have "r = None" "t' = t1" using 1(4) None a by (simp_all add: try_place.simps)
      then show ?thesis using t1 by simp
    qed
  qed
qed

section \<open>The contract of the table\<close>

text \<open>The statements of the collections that write to a bucket:
  \<^verbatim>\<open>slots()[bucket].set(...); keys()[bucket] = key\<close>, \<^verbatim>\<open>keys()[bucket] = Key{}\<close> and
  \<^verbatim>\<open>slots()[bucket].set_index(...)\<close>.\<close>

definition fill_bucket :: "nat \<Rightarrow> u64 \<Rightarrow> 's \<Rightarrow> 's table \<Rightarrow> 's table" where
  "fill_bucket b k s t = \<lparr>tslots = (tslots t)[b := s], tkeys = (tkeys t)[b := k]\<rparr>"

definition empty_bucket :: "nat \<Rightarrow> 's table \<Rightarrow> 's table" where
  "empty_bucket b t = t\<lparr>tkeys := (tkeys t)[b := 0]\<rparr>"

definition set_slot :: "nat \<Rightarrow> 's \<Rightarrow> 's table \<Rightarrow> 's table" where
  "set_slot b s t = t\<lparr>tslots := (tslots t)[b := s]\<rparr>"

locale slot_table =
  fixes ok :: "'t \<Rightarrow> bool"
    and look :: "'t \<Rightarrow> u64 \<rightharpoonup> 's"
    and bucket :: "u64 \<Rightarrow> 't \<Rightarrow> nat option"
    and place :: "u64 \<Rightarrow> 't \<Rightarrow> nat option \<times> 't"
    and fill :: "nat \<Rightarrow> u64 \<Rightarrow> 's \<Rightarrow> 't \<Rightarrow> 't"
    and vacate :: "nat \<Rightarrow> 't \<Rightarrow> 't"
    and reslot :: "nat \<Rightarrow> 's \<Rightarrow> 't \<Rightarrow> 't"
  assumes bucket_law: "ok t \<Longrightarrow> k \<noteq> 0 \<Longrightarrow> bucket k t = None \<longleftrightarrow> look t k = None"
    and place_law: "ok t \<Longrightarrow> place k t = (r, t') \<Longrightarrow> ok t' \<and> look t' = look t"
    and fill_law: "ok t \<Longrightarrow> k \<noteq> 0 \<Longrightarrow> look t k = None \<Longrightarrow> place k t = (Some b, t') \<Longrightarrow>
      ok (fill b k s t') \<and> look (fill b k s t') = (look t)(k \<mapsto> s) \<and> bucket k (fill b k s t') = Some b"
    and vacate_law: "ok t \<Longrightarrow> k \<noteq> 0 \<Longrightarrow> bucket k t = Some b \<Longrightarrow> ok (vacate b t) \<and> look (vacate b t) = (look t)(k := None)"
    and reslot_law: "ok t \<Longrightarrow> k \<noteq> 0 \<Longrightarrow> bucket k t = Some b \<Longrightarrow> ok (reslot b s t) \<and> look (reslot b s t) = (look t)(k \<mapsto> s)"
begin

lemma bucket_ex: "ok t \<Longrightarrow> k \<noteq> 0 \<Longrightarrow> look t k = Some s \<Longrightarrow> \<exists>b. bucket k t = Some b"
  using bucket_law [of t k] by auto

text \<open>Moving a slot and emptying a bucket, in the order an erase does both.\<close>

lemma reslot_vacate:
  assumes "ok t" "k \<noteq> 0" "bucket k t = Some b" "k' \<noteq> 0" "bucket k' t = Some b'" "bucket k (reslot b' s t) = Some b"
  shows "ok (vacate b (reslot b' s t)) \<and> look (vacate b (reslot b' s t)) = (look t)(k' \<mapsto> s, k := None)"
  using assms reslot_law [of t k' b' s] vacate_law [of "reslot b' s t" k b] by simp

lemma place_fill_vacate:
  assumes "ok t" "k \<noteq> 0" "look t k = None" "place k t = (Some b, t')"
  shows "look (vacate b (fill b k s t')) = look t"
  using fill_law [OF assms, of s] vacate_law [of "fill b k s t'" k b] assms(2,3) by auto

end

definition sound_table :: "config \<Rightarrow> 's table \<Rightarrow> bool" where
  "sound_table cfg t \<longleftrightarrow> table_cfg cfg \<and> table_ok t"

lemma find_bucket_fill:
  assumes "table_ok t" "k \<noteq> 0" "tlookup t k = None" "b < length (tkeys t)" "tkeys t ! b = 0"
    "\<exists>j\<le>4. b = probe k (length (tkeys t)) j"
  shows "find_bucket k (tkeys (fill_bucket b k s t)) = Some b"
proof -
  have "table_ok (fill_bucket b k s t)" using table_put(1) [OF assms] by (simp add: fill_bucket_def)
  then show ?thesis using find_bucket_iff [of "fill_bucket b k s t" k b] assms(2,4) by (simp add: fill_bucket_def)
qed

interpretation lt: slot_table "sound_table cfg" tlookup "\<lambda>k t. find_bucket k (tkeys t)" "try_place cfg z"
  fill_bucket empty_bucket set_slot for cfg :: config and z :: 's
proof unfold_locales
  fix t :: "'s table" and k :: u64
  assume "sound_table cfg t" "k \<noteq> 0"
  then show "find_bucket k (tkeys t) = None \<longleftrightarrow> tlookup t k = None" by (simp add: tlookup_def)
next
  fix t t' :: "'s table" and k :: u64 and r
  assume "sound_table cfg t" "try_place cfg z k t = (r, t')"
  then show "sound_table cfg t' \<and> tlookup t' = tlookup t" using try_place_ok [of t cfg z k r t'] by (auto simp: sound_table_def)
next
  fix t t' :: "'s table" and k :: u64 and b s
  assume h: "sound_table cfg t" "k \<noteq> 0" "tlookup t k = None" "try_place cfg z k t = (Some b, t')"
  then have p: "table_ok t'" "tlookup t' = tlookup t" "b < length (tkeys t')" "tkeys t' ! b = 0"
    "\<exists>j\<le>4. b = probe k (length (tkeys t')) j" using try_place_ok [of t cfg z k "Some b" t'] by (auto simp: sound_table_def)
  have n: "tlookup t' k = None" using p(2) h(3) by simp
  show "sound_table cfg (fill_bucket b k s t') \<and> tlookup (fill_bucket b k s t') = (tlookup t)(k \<mapsto> s) \<and>
      find_bucket k (tkeys (fill_bucket b k s t')) = Some b"
    using table_put [OF p(1) h(2) n p(3-5), of s] find_bucket_fill [OF p(1) h(2) n p(3-5), of s] h(1) p(2)
    by (simp add: fill_bucket_def sound_table_def)
next
  fix t :: "'s table" and k :: u64 and b
  assume h: "sound_table cfg t" "k \<noteq> 0" "find_bucket k (tkeys t) = Some b"
  then have "table_ok t" "b < length (tkeys t)" "tkeys t ! b = k" using find_bucket_iff [of t k b] by (auto simp: sound_table_def)
  then show "sound_table cfg (empty_bucket b t) \<and> tlookup (empty_bucket b t) = (tlookup t)(k := None)"
    using table_drop [of t b k] h by (simp add: empty_bucket_def sound_table_def)
next
  fix t :: "'s table" and k :: u64 and b s
  assume h: "sound_table cfg t" "k \<noteq> 0" "find_bucket k (tkeys t) = Some b"
  then have "table_ok t" "b < length (tkeys t)" "tkeys t ! b = k" using find_bucket_iff [of t k b] by (auto simp: sound_table_def)
  then show "sound_table cfg (set_slot b s t) \<and> tlookup (set_slot b s t) = (tlookup t)(k \<mapsto> s)"
    using table_set_slot [of t b k s] h by (simp add: set_slot_def sound_table_def)
qed

section \<open>Properties\<close>

text \<open>Placing a key and filling its bucket makes exactly that entry: whatever growth the placing does, every
  other key keeps its slot, and the key is found in the bucket it was placed in.  Emptying the bucket takes
  exactly that entry away.\<close>
theorem table_place_fill:
  assumes "sound_table cfg t" "k \<noteq> 0" "tlookup t k = None" "try_place cfg z k t = (Some b, t')"
  shows "sound_table cfg (fill_bucket b k s t') \<and> tlookup (fill_bucket b k s t') = (tlookup t)(k \<mapsto> s) \<and>
    find_bucket k (tkeys (fill_bucket b k s t')) = Some b \<and>
    tlookup (empty_bucket b (fill_bucket b k s t')) = tlookup t"
  using lt.fill_law [OF assms, of s] lt.place_fill_vacate [OF assms, of s] by simp

definition table_heap :: config where
  "table_heap = \<lparr>static_capacity = None, alloc_ok = (\<lambda>n. n \<le> table_bound)\<rparr>"

lemma table_heap_ok: "table_cfg table_heap"
  by (simp add: table_heap_def table_cfg_def)

theorem table_place_fill_witness:
  "sound_table table_heap (fill_bucket 0 5 7 (table_zero (0 :: nat) 1)) \<and>
    tlookup (fill_bucket 0 5 7 (table_zero (0 :: nat) 1)) = (tlookup (table_zero (0 :: nat) 1))(5 \<mapsto> 7) \<and>
    find_bucket 5 (tkeys (fill_bucket 0 5 7 (table_zero (0 :: nat) 1))) = Some 0 \<and>
    tlookup (empty_bucket 0 (fill_bucket 0 5 7 (table_zero (0 :: nat) 1))) = tlookup (table_zero (0 :: nat) 1)"
proof (rule table_place_fill [where z = 0])
  have z: "table_ok (table_zero (0 :: nat) 1)" "tlookup (table_zero (0 :: nat) 1) = Map.empty"
    by (rule table_zero_ok; simp add: table_bound_def)+
  show "sound_table table_heap (table_zero (0 :: nat) 1)" using z(1) table_heap_ok by (simp add: sound_table_def)
  show "tlookup (table_zero (0 :: nat) 1) 5 = None" using z(2) by simp
  show "try_place table_heap 0 5 (table_zero (0 :: nat) 1) = (Some 0, table_zero 0 1)"
    by (simp add: try_place.simps find_empty_bucket_def find_bucket_at_def find_bucket_loop.simps table_zero_def
        hash_of_def to_bucket_def)
qed simp

text \<open>C23: a rehash into a larger table, if it succeeds, loses nothing and invents nothing: the new table is well
  formed, has the size asked for and gives every key the slot it had.\<close>
theorem rehash_keeps_entries:
  assumes "table_ok t" "relocate_rehash z n t = Some t'" "n \<le> table_bound"
  shows "table_ok t' \<and> tlookup t' = tlookup t \<and> length (tkeys t') = n"
  using relocate_rehash_ok [OF assms] by blast

theorem rehash_keeps_entries_witness:
  "\<exists>t'. relocate_rehash 0 8 \<lparr>tslots = [20, 10 :: nat, 0, 0], tkeys = [2, 1, 0, 0]\<rparr> = Some t' \<and> table_ok t' \<and>
    tlookup t' = [1 \<mapsto> 10, 2 \<mapsto> 20] \<and> length (tkeys t') = 8"
proof -
  let ?t = "\<lparr>tslots = [20, 10 :: nat, 0, 0], tkeys = [2, 1, 0, 0]\<rparr>"
  have p: "probe 2 (length (tkeys ?t)) 0 = 0" "probe 1 (length (tkeys ?t)) 0 = 1" by (simp_all add: probe_def hash_of_def)
  have k: "b = 0 \<or> b = 1" if "b < length (tkeys ?t)" "tkeys ?t ! b \<noteq> 0" for b
    using that by (auto simp: less_Suc_eq numeral_eq_Suc)
  have ok: "table_ok ?t"
    unfolding table_ok_def
  proof (intro conjI allI impI)
    fix b assume "b < length (tkeys ?t)" "tkeys ?t ! b \<noteq> 0"
    then have "b = 0 \<or> b = 1" by (rule k)
    then show "\<exists>j\<le>4. b = probe (tkeys ?t ! b) (length (tkeys ?t)) j" using p by (auto intro!: exI [of _ 0])
  next
    fix b c assume h: "b < length (tkeys ?t)" "c < length (tkeys ?t)" "tkeys ?t ! b \<noteq> 0 \<and> tkeys ?t ! b = tkeys ?t ! c"
    then have n: "tkeys ?t ! b \<noteq> 0" "tkeys ?t ! c \<noteq> 0" by metis+
    from k [OF h(1) n(1)] k [OF h(2) n(2)] show "b = c" using h(3) by auto
  qed (simp_all add: table_bound_def)
  have l: "tlookup ?t = [1 \<mapsto> 10, 2 \<mapsto> 20]"
  proof (rule tlookup_eqI [OF ok])
    show "([1 \<mapsto> 10, 2 \<mapsto> 20] k = Some s) = (k \<noteq> 0 \<and> (\<exists>b<length (tkeys ?t). tkeys ?t ! b = k \<and> tslots ?t ! b = s))" for k s
    proof
      assume "[1 \<mapsto> 10, 2 \<mapsto> 20] k = Some s"
      then have "k = 1 \<and> s = 10 \<or> k = 2 \<and> s = 20" by (auto split: if_splits)
      moreover have "(0 :: nat) < 4" "(1 :: nat) < 4" by simp_all
      ultimately show "k \<noteq> 0 \<and> (\<exists>b<length (tkeys ?t). tkeys ?t ! b = k \<and> tslots ?t ! b = s)"
        by (auto intro: exI [of _ 0] exI [of _ 1])
    next
      assume h: "k \<noteq> 0 \<and> (\<exists>b<length (tkeys ?t). tkeys ?t ! b = k \<and> tslots ?t ! b = s)"
      then obtain b where b: "b < length (tkeys ?t)" "tkeys ?t ! b = k" "tslots ?t ! b = s" by blast
      then have "b = 0 \<or> b = 1" using k [of b] h by simp
      then show "[1 \<mapsto> 10, 2 \<mapsto> 20] k = Some s" using b(2,3) by auto
    qed
  qed
  have r: "replicate 8 x = [x, x, x, x, x, x, x, x]" for x :: 'a by (simp add: eval_nat_numeral)
  obtain t' where "relocate_rehash 0 8 ?t = Some t'"
    by (simp add: relocate_rehash_def table_zero_def r find_empty_bucket_def find_bucket_at_def to_bucket_def
        find_bucket_loop.simps hash_of_def)
  moreover from rehash_keeps_entries [OF ok this] have "table_ok t'" "tlookup t' = [1 \<mapsto> 10, 2 \<mapsto> 20]" "length (tkeys t') = 8"
    using l by (simp_all add: table_bound_def)
  ultimately show ?thesis by blast
qed

text \<open>Keys whose square is zero, the multiples of \<open>2^32\<close>, have the same five buckets in every table.\<close>

lemma probe_zero_square: "k * k = 0 \<Longrightarrow> probe k n j = j * j mod n"
  by (simp add: probe_def hash_of_def)

lemma five_fill_the_probes:
  assumes "table_ok t" "distinct ks" "length ks = 5" "\<forall>k\<in>set ks. k \<noteq> 0 \<and> k * k = 0 \<and> tlookup t k \<noteq> None"
    "key * key = 0"
  shows "find_empty_bucket key (tkeys t) = None"
proof (rule ccontr)
  assume "find_empty_bucket key (tkeys t) \<noteq> None"
  then obtain b where b: "find_empty_bucket key (tkeys t) = Some b" by blast
  let ?n = "length (tkeys t)" and ?P = "\<lambda>n :: nat. (\<lambda>j. j * j mod n) ` {..4}"
  note e = find_empty_bucket_Some [OF b table_okD(2) [OF assms(1)]]
  define pos where "pos k = (SOME c. c < ?n \<and> tkeys t ! c = k)" for k
  have pos: "pos k < ?n \<and> tkeys t ! pos k = k" if "k \<in> set ks" for k
  proof -
    obtain s where "tlookup t k = Some s" using assms(4) \<open>k \<in> set ks\<close> by blast
    then have "\<exists>c. c < ?n \<and> tkeys t ! c = k" using tlookup_Some_iff [OF assms(1), of k s] by auto
    then show ?thesis unfolding pos_def by (rule someI_ex)
  qed
  have "inj_on pos (set ks)" using pos by (metis inj_onI)
  moreover have "pos ` set ks \<subseteq> ?P ?n - {b}"
  proof
    fix c assume "c \<in> pos ` set ks"
    then obtain k where k: "k \<in> set ks" "c = pos k" by blast
    have "\<exists>j\<le>4. c = probe k ?n j" using table_okD(3) [OF assms(1), of c] pos [OF k(1)] k assms(4) by simp
    moreover have "c \<noteq> b" using pos [OF k(1)] k(2) e(2) bspec [OF assms(4) k(1)] by metis
    moreover have "k * k = 0" using bspec [OF assms(4) k(1)] by blast
    ultimately show "c \<in> ?P ?n - {b}" using probe_zero_square [of k ?n] by auto
  qed
  moreover have "b \<in> ?P ?n" using e(3) probe_zero_square [OF assms(5)] by auto
  ultimately have "card (set ks) \<le> card (?P ?n) - 1"
    using card_inj_on_le [of pos "set ks" "?P ?n - {b}"] card_Diff_singleton [of b "?P ?n"] by simp
  moreover have "card (?P ?n) \<le> 5" using card_image_le [of "{..4 :: nat}" "\<lambda>j. j * j mod ?n"] by simp
  ultimately show False using assms(2,3) by (simp add: distinct_card)
qed

text \<open>A sixth key that is a multiple of \<open>2^32\<close> cannot be placed beside five others, however large the table may
  become: the placing grows the table as far as the allocator lets it and then gives up.\<close>
theorem six_colliding_keys_refused:
  assumes "table_ok t" "table_cfg cfg" "distinct ks" "length ks = 5"
    "list_all (\<lambda>k. k \<noteq> 0 \<and> k * k = 0 \<and> tlookup t k \<noteq> None) ks" "key * key = 0"
  shows "fst (try_place cfg z key t) = None"
  using assms
proof (induction cfg z key t rule: try_place.induct)
  case (1 cfg z key t)
  have n: "find_empty_bucket key (tkeys t) = None" using 1(2-7) by (intro five_fill_the_probes [of t ks]) (auto simp: list_all_iff)
  obtain ok t1 where a: "array_try_reserve cfg z (Suc (length (tkeys t))) t = (ok, t1)" by fastforce
  have t1: "table_ok t1" "tlookup t1 = tlookup t" using array_try_reserve_ok [OF 1(2,3) a] by blast+
  show ?case
  proof (cases ok)
    case True
    then have "fst (try_place cfg z key t1) = None" using 1(1) [OF n _ _ t1(1) 1(3-5)] 1(6,7) a t1(2) by simp
    then show ?thesis using n a True by (simp add: try_place.simps [of cfg z key t])
  next
    case False
    then show ?thesis using n a by (simp add: try_place.simps [of cfg z key t])
  qed
qed

text \<open>Five such keys in a table of 17 buckets.\<close>

definition five_keys :: "u64 list" where
  "five_keys = [0x100000000, 0x200000000, 0x300000000, 0x400000000, 0x500000000]"

definition five_table :: "nat table" where
  "five_table = fill_bucket 16 0x500000000 5 (fill_bucket 9 0x400000000 4 (fill_bucket 4 0x300000000 3
     (fill_bucket 1 0x200000000 2 (fill_bucket 0 0x100000000 1 (table_zero 0 17)))))"

lemma fill_zero_square:
  assumes "table_ok t" "k \<noteq> 0" "k * k = 0" "tlookup t k = None" "length (tkeys t) = 17" "tkeys t ! b = 0" "j \<le> 4"
    "b = j * j mod 17"
  shows "table_ok (fill_bucket b k s t) \<and> tlookup (fill_bucket b k s t) = (tlookup t)(k \<mapsto> s) \<and>
    length (tkeys (fill_bucket b k s t)) = 17"
proof -
  have "\<exists>j\<le>4. b = probe k (length (tkeys t)) j" using assms(3,5,7,8) probe_zero_square by metis
  moreover have "b < length (tkeys t)" using assms(5,8) by simp
  ultimately show ?thesis using table_put [OF assms(1,2,4) _ assms(6), of s] assms(5) by (simp add: fill_bucket_def)
qed

lemma five_table_ok:
  "table_ok five_table"
  "tlookup five_table = [0x100000000 \<mapsto> 1, 0x200000000 \<mapsto> 2, 0x300000000 \<mapsto> 3, 0x400000000 \<mapsto> 4, 0x500000000 \<mapsto> 5]"
proof -
  let ?t0 = "table_zero (0 :: nat) 17"
  let ?t1 = "fill_bucket 0 0x100000000 1 ?t0" let ?t2 = "fill_bucket 1 0x200000000 2 ?t1"
  let ?t3 = "fill_bucket 4 0x300000000 3 ?t2" let ?t4 = "fill_bucket 9 0x400000000 4 ?t3"
  have 0: "table_ok ?t0" "tlookup ?t0 = Map.empty" "length (tkeys ?t0) = 17"
    using table_zero_ok [of 17 "0 :: nat"] by (simp_all add: table_bound_def table_zero_def)
  have 1: "table_ok ?t1 \<and> tlookup ?t1 = (tlookup ?t0)(0x100000000 \<mapsto> 1) \<and> length (tkeys ?t1) = 17"
    by (rule fill_zero_square [where j = 0]) (use 0 in \<open>simp_all add: table_zero_def\<close>)
  have 2: "table_ok ?t2 \<and> tlookup ?t2 = (tlookup ?t1)(0x200000000 \<mapsto> 2) \<and> length (tkeys ?t2) = 17"
    by (rule fill_zero_square [where j = 1]) (use 0 1 in \<open>simp_all add: table_zero_def fill_bucket_def\<close>)
  have 3: "table_ok ?t3 \<and> tlookup ?t3 = (tlookup ?t2)(0x300000000 \<mapsto> 3) \<and> length (tkeys ?t3) = 17"
    by (rule fill_zero_square [where j = 2]) (use 0 1 2 in \<open>simp_all add: table_zero_def fill_bucket_def\<close>)
  have 4: "table_ok ?t4 \<and> tlookup ?t4 = (tlookup ?t3)(0x400000000 \<mapsto> 4) \<and> length (tkeys ?t4) = 17"
    by (rule fill_zero_square [where j = 3]) (use 0 1 2 3 in \<open>simp_all add: table_zero_def fill_bucket_def\<close>)
  have 5: "table_ok five_table \<and> tlookup five_table = (tlookup ?t4)(0x500000000 \<mapsto> 5) \<and> length (tkeys five_table) = 17"
    unfolding five_table_def
    by (rule fill_zero_square [where j = 4]) (use 0 1 2 3 4 in \<open>simp_all add: table_zero_def fill_bucket_def\<close>)
  show "table_ok five_table" using 5 by blast
  show "tlookup five_table = [0x100000000 \<mapsto> 1, 0x200000000 \<mapsto> 2, 0x300000000 \<mapsto> 3, 0x400000000 \<mapsto> 4, 0x500000000 \<mapsto> 5]"
    using 0 1 2 3 4 5 by simp
qed

theorem six_colliding_keys_refused_witness: "fst (try_place table_heap 0 0x600000000 five_table) = None"
proof (rule six_colliding_keys_refused [OF five_table_ok(1) table_heap_ok, of five_keys])
  show "list_all (\<lambda>k. k \<noteq> 0 \<and> k * k = 0 \<and> tlookup five_table k \<noteq> None) five_keys"
    by (simp add: five_keys_def five_table_ok(2))
qed (simp_all add: five_keys_def)

end
