(* ===== verification/Collection.thy ===== *)
theory Collection
  imports Lookup_Table Vector
begin

text \<open>
  \<^verbatim>\<open>Collection\<close> of \<^verbatim>\<open>core/container/Collection.hpp\<close>: components of several types under a key each.  The components
  of one type and their keys stand in one dense array; a table gives for a key the type of its component and its
  place in that array, packed into 32 bits.  Erasing moves the last component of the array into the hole and has
  to redirect the slot of the component it moved.

  Component types are numbers, the arrays a list of vectors of components with their keys.  An iterator is a
  bucket or the end, a returned pointer the index of the component or null.
\<close>

section \<open>Slots\<close>

definition slot_get_type :: "u32 \<Rightarrow> nat" where
  "slot_get_type value = unat (ucast (drop_bit 24 value) :: u8)"

definition slot_get_index :: "u32 \<Rightarrow> nat" where
  "slot_get_index value = unat (value AND 0x00ffffff)"

definition slot_set :: "nat \<Rightarrow> nat \<Rightarrow> u32" where
  "slot_set type index = push_bit 24 (ucast (word_of_nat type :: u8)) OR word_of_nat index"

definition slot_set_index :: "nat \<Rightarrow> u32 \<Rightarrow> u32" where
  "slot_set_index index value = (value AND 0xff000000) OR word_of_nat index"

section \<open>Operations\<close>

record 'c col =
  lookup :: "u32 table"
  arrays :: "('c \<times> u64) vec list"

record col_cfg =
  lookup_cfg :: config
  comp_cfg :: "nat \<Rightarrow> config"

definition col_new :: "col_cfg \<Rightarrow> nat \<Rightarrow> 'c col" where
  "col_new cfg ntypes = \<lparr>lookup = table_new (lookup_cfg cfg) 0, arrays = map (\<lambda>t. vec_new (comp_cfg cfg t) 0) [0..<ntypes]\<rparr>"

definition col_find :: "u64 \<Rightarrow> 'c col \<Rightarrow> nat option" where
  "col_find key c = find_bucket key (tkeys (lookup c))"

definition col_contains :: "nat \<Rightarrow> nat option \<Rightarrow> 'c col \<Rightarrow> bool option" where
  "col_contains type it c = (case it of
     None \<Rightarrow> Some False
   | Some b \<Rightarrow> if b < length (tslots (lookup c)) then Some (slot_get_type (tslots (lookup c) ! b) = type) else None)"

definition col_get :: "nat \<Rightarrow> nat option \<Rightarrow> 'c col \<Rightarrow> 'c option option" where
  "col_get type it c = (case it of
     None \<Rightarrow> Some None
   | Some b \<Rightarrow>
       if b < length (tslots (lookup c)) then
         (let slot = tslots (lookup c) ! b in
          if slot_get_type slot \<noteq> type then Some None
          else do { (x, _) \<leftarrow> at (slot_get_index slot) (arrays c ! type); Some (Some x) })
       else None)"

text \<open>\<^verbatim>\<open>get<C>()\<close>: all components of a type, and \<^verbatim>\<open>get_key\<close> of a component and of an iterator.\<close>

definition col_get_all :: "nat \<Rightarrow> 'c col \<Rightarrow> 'c list option" where
  "col_get_all type c = (let a = arrays c ! type in
     those (map (\<lambda>i. map_option fst (at i a)) [0..<vsize a]))"

definition col_key_of :: "nat \<Rightarrow> nat \<Rightarrow> 'c col \<Rightarrow> u64 option" where
  "col_key_of type index c = (let a = arrays c ! type in
     if \<not> index < vsize a then Some 0 else map_option snd (at index a))"

definition col_get_key :: "nat option \<Rightarrow> 'c col \<Rightarrow> u64 option" where
  "col_get_key it c = (case it of
     None \<Rightarrow> Some 0
   | Some b \<Rightarrow> if b < length (tkeys (lookup c)) then Some (tkeys (lookup c) ! b) else None)"

text \<open>\<^verbatim>\<open>get_all_keys\<close>: what it writes to a buffer of the given size.\<close>

fun get_all_keys_loop :: "u64 list \<Rightarrow> nat \<Rightarrow> u64 list" where
  "get_all_keys_loop [] space = []"
| "get_all_keys_loop (key # ks) space = (
    if key = 0 then get_all_keys_loop ks space
    else case space of 0 \<Rightarrow> get_all_keys_loop ks 0 | Suc space' \<Rightarrow> key # get_all_keys_loop ks space')"

definition col_get_all_keys :: "nat \<Rightarrow> 'c col \<Rightarrow> u64 list" where
  "col_get_all_keys n c = get_all_keys_loop (tkeys (lookup c)) n"

fun clear_arrays :: "'a vec list \<Rightarrow> 'a vec list option" where
  "clear_arrays [] = Some []"
| "clear_arrays (a # as) = do { a \<leftarrow> vec_clear a; as \<leftarrow> clear_arrays as; Some (a # as) }"

definition col_clear :: "'c col \<Rightarrow> 'c col option" where
  "col_clear c = do {
    as \<leftarrow> clear_arrays (arrays c);
    Some (c\<lparr>arrays := as, lookup := (lookup c)\<lparr>tkeys := replicate (length (tkeys (lookup c))) 0\<rparr>\<rparr>) }"

definition col_emplace :: "col_cfg \<Rightarrow> nat \<Rightarrow> u64 \<Rightarrow> 'c \<Rightarrow> 'c col \<Rightarrow> (nat option \<times> 'c col) option" where
  "col_emplace cfg type key x c = (
    if col_find key c \<noteq> None then Some (None, c)
    else case try_place (lookup_cfg cfg) 0 key (lookup c) of
      (None, t) \<Rightarrow> Some (None, c\<lparr>lookup := t\<rparr>)
    | (Some bucket, t) \<Rightarrow> (
        let array = arrays c ! type; index = vsize array in do {
        (ok, array) \<leftarrow> try_emplace_back (comp_cfg cfg type) (x, key) array;
        let c = c\<lparr>lookup := t, arrays := (arrays c)[type := array]\<rparr>;
        if \<not> ok then Some (None, c)
        else Some (Some index, c\<lparr>lookup := fill_bucket bucket key (slot_set type index) t\<rparr>) }))"

definition col_remove_impl :: "nat \<Rightarrow> nat \<Rightarrow> nat \<Rightarrow> 'c col \<Rightarrow> 'c col option" where
  "col_remove_impl type bucket index c = (
    let array = arrays c ! type; last_index = vsize array - 1 in do {
    (_, last_key) \<leftarrow> at last_index array;
    last_bucket \<leftarrow> col_find last_key c;
    let t = set_slot last_bucket (slot_set_index index (tslots (lookup c) ! last_bucket)) (lookup c);
    let t = empty_bucket bucket t;
    array \<leftarrow> erase index array;
    Some (c\<lparr>lookup := t, arrays := (arrays c)[type := array]\<rparr>) })"

text \<open>The switch over 128 type numbers; a number without a type is unreachable.\<close>

definition col_erase :: "nat option \<Rightarrow> 'c col \<Rightarrow> 'c col option" where
  "col_erase it c = (case it of
     None \<Rightarrow> Some c
   | Some b \<Rightarrow>
       if b < length (tslots (lookup c)) then
         (let slot = tslots (lookup c) ! b; type = slot_get_type slot in
          if type < 128 \<and> type < length (arrays c) then col_remove_impl type b (slot_get_index slot) c else None)
       else None)"

text \<open>\<^verbatim>\<open>call\<close>: the function gets the key and a reference to the component, which it may change.\<close>

definition vec_write :: "nat \<Rightarrow> 'a \<Rightarrow> 'a vec \<Rightarrow> 'a vec option" where
  "vec_write i x v = do { cs \<leftarrow> assign_at i x (vcells v); Some (set_cells cs v) }"

definition col_call :: "(nat \<Rightarrow> u64 \<Rightarrow> 'c \<Rightarrow> 'c \<times> 'r) \<Rightarrow> nat option \<Rightarrow> 'c col \<Rightarrow> ('r \<times> 'c col) option" where
  "col_call func it c = (case it of
     None \<Rightarrow> None
   | Some b \<Rightarrow>
       if b < length (tslots (lookup c)) then
         (let slot = tslots (lookup c) ! b; type = slot_get_type slot; index = slot_get_index slot in
          if type < 128 \<and> type < length (arrays c) then do {
            (x, k) \<leftarrow> at index (arrays c ! type);
            let (x', r) = func type (tkeys (lookup c) ! b) x;
            array \<leftarrow> vec_write index (x', k) (arrays c ! type);
            Some (r, c\<lparr>arrays := (arrays c)[type := array]\<rparr>) }
          else None)
       else None)"

section \<open>Packed slots\<close>

lemma low_bit: "index < 2 ^ 24 \<Longrightarrow> bit index n \<Longrightarrow> n < 24" for index :: nat
proof (rule ccontr)
  assume h: "index < 2 ^ 24" "bit index n" "\<not> n < 24"
  then have "index < 2 ^ n" using power_increasing [of 24 n "2 :: nat"] by simp
  then show False using h(2) by (simp add: bit_iff_odd)
qed

lemma masks: "(0x00ffffff :: u32) = mask 24" "(0xff000000 :: u32) = push_bit 24 (mask 8)"
  by (simp_all add: mask_eq_exp_minus_1 push_bit_eq_mult)

lemma slot_type_set: "type < 256 \<Longrightarrow> index < 2 ^ 24 \<Longrightarrow> slot_get_type (slot_set type index) = type"
proof -
  assume h: "type < 256" "index < 2 ^ 24"
  have "ucast (drop_bit 24 (slot_set type index)) = (word_of_nat type :: u8)"
    by (intro bit_word_eqI) (auto simp: slot_set_def bit_simps dest: low_bit [OF h(2)])
  then show ?thesis using h(1) by (simp add: slot_get_type_def)
qed

lemma slot_index_set: "index < 2 ^ 24 \<Longrightarrow> slot_get_index (slot_set type index) = index"
proof -
  assume h: "index < 2 ^ 24"
  have "slot_set type index AND 0x00ffffff = word_of_nat index"
    unfolding masks by (intro bit_word_eqI) (auto simp: slot_set_def bit_simps dest: low_bit [OF h])
  then show ?thesis using h by (simp add: slot_get_index_def)
qed

lemma slot_set_index_set: "index < 2 ^ 24 \<Longrightarrow> slot_set_index i (slot_set type index) = slot_set type i"
proof -
  assume h: "index < 2 ^ 24"
  show ?thesis unfolding slot_set_index_def masks
    by (intro bit_word_eqI) (auto simp: slot_set_def bit_simps dest: low_bit [OF h])
qed

lemma slot_get_index_less: "slot_get_index s < 2 ^ 24"
proof -
  have "slot_get_index s = unat (take_bit 24 s)" by (simp add: slot_get_index_def masks(1) flip: take_bit_eq_mask)
  then show ?thesis by (metis take_bit_nat_less_exp unsigned_take_bit_eq)
qed

lemmas slot_simps = slot_type_set slot_index_set slot_set_index_set

section \<open>The invariant\<close>

text \<open>\<open>slots_match L as\<close>: slot and array entry point at each other, where \<open>L\<close> gives the slot of a key and \<open>as\<close>
  the contents of the arrays.\<close>

definition slots_match :: "(u64 \<rightharpoonup> u32) \<Rightarrow> ('c \<times> u64) list list \<Rightarrow> bool" where
  "slots_match L as \<longleftrightarrow>
     (\<forall>k s. L k = Some s \<longrightarrow> slot_get_type s < length as \<and> slot_get_index s < length (as ! slot_get_type s) \<and>
        snd (as ! slot_get_type s ! slot_get_index s) = k) \<and>
     (\<forall>t < length as. \<forall>i < length (as ! t). L (snd (as ! t ! i)) = Some (slot_set t i))"

definition col_inv :: "col_cfg \<Rightarrow> 'c col \<Rightarrow> ('c \<times> u64) list list \<Rightarrow> bool" where
  "col_inv cfg c as \<longleftrightarrow> sound_table (lookup_cfg cfg) (lookup c) \<and> length (arrays c) = length as \<and> length as \<le> 128 \<and>
     (\<forall>t < length as. vec_rep (comp_cfg cfg t) (arrays c ! t) (as ! t) \<and> length (as ! t) \<le> 2 ^ 24) \<and>
     slots_match (tlookup (lookup c)) as"

text \<open>The map a collection stands for: a key to the type and the value of its component.\<close>

definition entry :: "(u64 \<rightharpoonup> u32) \<Rightarrow> ('c \<times> u64) list list \<Rightarrow> u64 \<rightharpoonup> nat \<times> 'c" where
  "entry L as k = map_option (\<lambda>s. (slot_get_type s, fst (as ! slot_get_type s ! slot_get_index s))) (L k)"

lemma slots_matchD:
  assumes "slots_match L as"
  shows "\<And>k s. L k = Some s \<Longrightarrow> slot_get_type s < length as"
    "\<And>k s. L k = Some s \<Longrightarrow> slot_get_index s < length (as ! slot_get_type s)"
    "\<And>k s. L k = Some s \<Longrightarrow> snd (as ! slot_get_type s ! slot_get_index s) = k"
    "\<And>t i. t < length as \<Longrightarrow> i < length (as ! t) \<Longrightarrow> L (snd (as ! t ! i)) = Some (slot_set t i)"
  using assms unfolding slots_match_def by blast+

lemma col_invD:
  assumes "col_inv cfg c as"
  shows "sound_table (lookup_cfg cfg) (lookup c)" "length (arrays c) = length as" "length as \<le> 128"
    "\<And>t. t < length as \<Longrightarrow> vec_rep (comp_cfg cfg t) (arrays c ! t) (as ! t)"
    "\<And>t. t < length as \<Longrightarrow> length (as ! t) \<le> 2 ^ 24" "slots_match (tlookup (lookup c)) as"
  using assms unfolding col_inv_def by blast+

lemma slots_match_unique:
  assumes "slots_match L as" "L k = Some s"
  shows "s = slot_set (slot_get_type s) (slot_get_index s)"
  using slots_matchD [OF assms(1)] assms(2) by (metis option.inject)

text \<open>Appending an entry and its slot.\<close>

lemma slots_match_append:
  assumes "slots_match L as" "L k = None" "t < length as" "length as \<le> 128" "length (as ! t) < 2 ^ 24"
  shows "slots_match (L(k \<mapsto> slot_set t (length (as ! t)))) (as[t := as ! t @ [(x, k)]])" (is "slots_match ?L ?as")
    "entry (L(k \<mapsto> slot_set t (length (as ! t)))) (as[t := as ! t @ [(x, k)]]) = (entry L as)(k \<mapsto> (t, x))"
proof -
  note m = slots_matchD [OF assms(1)]
  let ?n = "length (as ! t)"
  have g: "slot_get_type (slot_set t ?n) = t" "slot_get_index (slot_set t ?n) = ?n"
    using assms(3-5) by (intro slot_type_set slot_index_set; simp)+
  have old: "?as ! slot_get_type s ! slot_get_index s = as ! slot_get_type s ! slot_get_index s"
    "slot_get_index s < length (?as ! slot_get_type s)" if "L j = Some s" for j s
    using m(1,2) [OF that] assms(3) by (cases "slot_get_type s = t"; simp add: nth_append)+
  show "slots_match ?L ?as"
    unfolding slots_match_def
  proof (intro conjI allI impI)
    fix j s assume h: "?L j = Some s"
    show "slot_get_type s < length ?as" using h g m(1) assms(3) by (auto split: if_splits)
    show "slot_get_index s < length (?as ! slot_get_type s)"
      using h g old(2) assms(3) by (auto split: if_splits)
    show "snd (?as ! slot_get_type s ! slot_get_index s) = j"
      using h g m(3) old(1) assms(3) by (auto split: if_splits)
  next
    fix u i assume h: "u < length ?as" "i < length (?as ! u)"
    show "?L (snd (?as ! u ! i)) = Some (slot_set u i)"
    proof (cases "u = t \<and> i = ?n")
      case True
      then show ?thesis using assms(3) by simp
    next
      case False
      then have o: "i < length (as ! u)" "?as ! u ! i = as ! u ! i"
        using h assms(3) by (cases "u = t"; auto simp: nth_append)+
      then have "L (snd (as ! u ! i)) = Some (slot_set u i)" using m(4) h(1) by simp
      then show ?thesis using o(2) assms(2) by auto
    qed
  qed
  show "entry ?L ?as = (entry L as)(k \<mapsto> (t, x))"
  proof
    fix j
    show "entry ?L ?as j = ((entry L as)(k \<mapsto> (t, x))) j"
      using g assms(3) old(1) by (cases "L j") (auto simp: entry_def)
  qed
qed

text \<open>Erasing an entry by the last one.\<close>

lemma slots_match_erase:
  assumes "slots_match L as" "L k = Some s" "length as \<le> 128" "\<And>t. t < length as \<Longrightarrow> length (as ! t) \<le> 2 ^ 24"
    "t = slot_get_type s" "i = slot_get_index s" "l = length (as ! t) - 1" "k' = snd (as ! t ! l)"
  shows "slots_match (L(k' \<mapsto> slot_set t i, k := None)) (as[t := butlast ((as ! t)[i := last (as ! t)])])"
      (is "slots_match ?L ?as")
    "entry (L(k' \<mapsto> slot_set t i, k := None)) (as[t := butlast ((as ! t)[i := last (as ! t)])]) = (entry L as)(k := None)"
    "L k' = Some (slot_set t l)"
proof -
  note m = slots_matchD [OF assms(1)]
  let ?a = "as ! t"
  have t: "t < length as" "i < length ?a" "snd (?a ! i) = k" using m(1-3) [OF assms(2)] assms(5,6) by auto
  have l: "l < length ?a" "last ?a = ?a ! l" using t(2) assms(7) by (cases "?a = []"; simp add: last_conv_nth)+
  show k': "L k' = Some (slot_set t l)" using m(4) [OF t(1) l(1)] assms(8) by simp
  have bound: "j < length ?a \<Longrightarrow> j < 2 ^ 24" for j using assms(4) [OF t(1)] by simp
  have inj: "j = j'" if "j < length ?a" "j' < length ?a" "snd (?a ! j) = snd (?a ! j')" for j j'
    using that m(4) [OF t(1), of j] m(4) [OF t(1), of j'] bound slot_index_set [of j t] slot_index_set [of j' t] by simp
  have e: "?as ! t ! j = (if j = i then ?a ! l else ?a ! j)" "length (?as ! t) = l" if "j < l" for j
    using that t l assms(7) by (simp_all add: nth_butlast nth_update_if)
  have len: "length (?as ! t) = l" using t assms(7) by simp
  have other: "slot_get_type r \<noteq> t \<or> slot_get_index r \<noteq> i" if "L j = Some r" "j \<noteq> k" for j r
    using m(3) [OF that(1)] t(3) that(2) by auto
  have at_last: "slot_get_type r = t \<Longrightarrow> slot_get_index r = l \<Longrightarrow> j = k'" if "L j = Some r" for j r
    using m(3) [OF that] assms(8) by simp
  have g: "slot_get_type (slot_set t i) = t" "slot_get_index (slot_set t i) = i"
    using t(1,2) assms(3) bound by (intro slot_type_set slot_index_set; simp)+
  have keep: "slot_get_index r < length (?as ! slot_get_type r) \<and> ?as ! slot_get_type r ! slot_get_index r = as ! slot_get_type r ! slot_get_index r"
    if "L j = Some r" "j \<noteq> k" "j \<noteq> k'" for j r
  proof (cases "slot_get_type r = t")
    case True
    then have "slot_get_index r < length ?a" "slot_get_index r \<noteq> l" "slot_get_index r \<noteq> i"
      using m(2) [OF that(1)] at_last [OF that(1)] other [OF that(1,2)] that(3) by auto
    then have "slot_get_index r < l" using assms(7) by linarith
    then show ?thesis using True e(1) len \<open>slot_get_index r \<noteq> i\<close> by simp
  next
    case False
    then show ?thesis using m(2) [OF that(1)] by simp
  qed
  have moved: "k' \<noteq> k \<Longrightarrow> i < l" using l t assms(7,8) by (cases "i = l") auto
  show "slots_match ?L ?as"
    unfolding slots_match_def
  proof (intro conjI allI impI)
    fix j r assume h: "?L j = Some r"
    then have "j \<noteq> k" by (auto split: if_splits)
    consider "j = k'" "r = slot_set t i" | "j \<noteq> k'" "L j = Some r" using h \<open>j \<noteq> k\<close> by (auto split: if_splits)
    then have "slot_get_type r < length ?as \<and> slot_get_index r < length (?as ! slot_get_type r) \<and>
        snd (?as ! slot_get_type r ! slot_get_index r) = j"
    proof cases
      case 1
      then show ?thesis using g t(1) moved \<open>j \<noteq> k\<close> e(1) [of i] len assms(8) by simp
    next
      case 2
      then show ?thesis using keep [OF 2(2) \<open>j \<noteq> k\<close> 2(1)] m(1,3) [OF 2(2)] by simp
    qed
    then show "slot_get_type r < length ?as" "slot_get_index r < length (?as ! slot_get_type r)"
      "snd (?as ! slot_get_type r ! slot_get_index r) = j" by blast+
  next
    fix u j assume h: "u < length ?as" "j < length (?as ! u)"
    show "?L (snd (?as ! u ! j)) = Some (slot_set u j)"
    proof (cases "u = t")
      case False
      then have o: "L (snd (as ! u ! j)) = Some (slot_set u j)" using h m(4) by simp
      have "snd (as ! u ! j) \<noteq> k \<and> snd (as ! u ! j) \<noteq> k'"
        using o assms(2,3,5) k' False h t(1) l(1) bound slot_type_set [of u j] slot_type_set [of t l] assms(4) [of u] by auto
      then show ?thesis using o False by simp
    next
      case True
      then have j: "j < l" using h len by simp
      then have jl: "j < length ?a" using l by simp
      show ?thesis
      proof (cases "j = i")
        case True
        then have "k' \<noteq> k" using inj [OF t(2) l(1)] t(3) assms(8) j by auto
        then show ?thesis using True \<open>u = t\<close> e(1) [OF j] assms(8) by simp
      next
        case False
        have "snd (?a ! j) \<noteq> k" using inj [OF jl t(2)] t(3) False by auto
        moreover have "snd (?a ! j) \<noteq> k'" using inj [OF jl l(1)] assms(8) j by auto
        ultimately show ?thesis using \<open>u = t\<close> False e(1) [OF j] m(4) [OF t(1) jl] by simp
      qed
    qed
  qed
  show "entry ?L ?as = (entry L as)(k := None)"
  proof
    fix j
    consider "j = k" | "j \<noteq> k" "j = k'" | "j \<noteq> k" "j \<noteq> k'" by blast
    then show "entry ?L ?as j = ((entry L as)(k := None)) j"
    proof cases
      case 2
      have "slot_get_type (slot_set t l) = t" "slot_get_index (slot_set t l) = l"
        using t(1) l(1) assms(3) bound by (intro slot_type_set slot_index_set; simp)+
      then show ?thesis using 2 g k' moved e(1) [of i] by (simp add: entry_def)
    next
      case 3
      then show ?thesis using keep [of j] by (cases "L j") (auto simp: entry_def)
    qed (simp add: entry_def)
  qed
qed

section \<open>Operations keep the invariant\<close>

lemma col_invI:
  assumes "sound_table (lookup_cfg cfg) (lookup c)" "length (arrays c) = length as" "length as \<le> 128"
    "\<And>t. t < length as \<Longrightarrow> vec_rep (comp_cfg cfg t) (arrays c ! t) (as ! t)"
    "\<And>t. t < length as \<Longrightarrow> length (as ! t) \<le> 2 ^ 24" "slots_match (tlookup (lookup c)) as"
  shows "col_inv cfg c as"
  using assms unfolding col_inv_def by blast

lemma col_new_inv:
  assumes "table_cfg (lookup_cfg cfg)" "n \<le> 128"
  shows "col_inv cfg (col_new cfg n) (replicate n [])"
proof (rule col_invI)
  show "sound_table (lookup_cfg cfg) (lookup (col_new cfg n))"
    using table_new_ok(1) [OF assms(1)] assms(1) by (simp add: sound_table_def col_new_def)
  show "slots_match (tlookup (lookup (col_new cfg n))) (replicate n [])"
    using table_new_ok(2) [OF assms(1), of "0 :: u32"] by (simp add: slots_match_def col_new_def)
qed (use assms(2) in \<open>simp_all add: col_new_def vec_new_rep\<close>)

text \<open>One array replaced.\<close>

lemma col_inv_update:
  assumes "col_inv cfg c as" "t < length as" "vec_rep (comp_cfg cfg t) v xs" "length xs \<le> 2 ^ 24"
    "sound_table (lookup_cfg cfg) tab" "slots_match (tlookup tab) (as[t := xs])"
  shows "col_inv cfg (c\<lparr>lookup := tab, arrays := (arrays c)[t := v]\<rparr>) (as[t := xs])"
proof (rule col_invI)
  note d = col_invD [OF assms(1)]
  fix u assume "u < length (as[t := xs])"
  then show "vec_rep (comp_cfg cfg u) (arrays (c\<lparr>lookup := tab, arrays := (arrays c)[t := v]\<rparr>) ! u) (as[t := xs] ! u)"
    "length (as[t := xs] ! u) \<le> 2 ^ 24"
    using d(2) d(4,5) [of u] assms(2-4) by (cases "u = t"; simp)+
qed (use col_invD(2,3) [OF assms(1)] assms(5,6) in simp_all)

lemma col_emplace_ok:
  assumes i: "col_inv cfg c as" and k: "k \<noteq> 0" and t: "t < length as" "length (as ! t) < 2 ^ 24"
  shows "\<exists>r c' as'. col_emplace cfg t k x c = Some (r, c') \<and> col_inv cfg c' as' \<and>
    (if r = None then entry (tlookup (lookup c')) as' = entry (tlookup (lookup c)) as
     else r = Some (length (as ! t)) \<and> entry (tlookup (lookup c)) as k = None \<and>
       entry (tlookup (lookup c')) as' = (entry (tlookup (lookup c)) as)(k \<mapsto> (t, x)))"
proof (cases "col_find k c")
  case (Some b)
  then have "col_emplace cfg t k x c = Some (None, c)" by (simp add: col_emplace_def)
  then show ?thesis using i by (intro exI [of _ None] exI [of _ c] exI [of _ as]) simp
next
  case None
  note d = col_invD [OF i]
  have n: "tlookup (lookup c) k = None" using None lt.bucket_law [OF d(1) k] by (simp add: col_find_def)
  obtain r tab where p: "try_place (lookup_cfg cfg) 0 k (lookup c) = (r, tab)" by fastforce
  note tab = lt.place_law [OF d(1) p]
  show ?thesis
  proof (cases r)
    case None
    then have "col_emplace cfg t k x c = Some (None, c\<lparr>lookup := tab\<rparr>)"
      using \<open>col_find k c = None\<close> p by (simp add: col_emplace_def)
    moreover have "col_inv cfg (c\<lparr>lookup := tab\<rparr>) as" using d tab by (intro col_invI) simp_all
    ultimately show ?thesis using tab by (intro exI [of _ None] exI [of _ "c\<lparr>lookup := tab\<rparr>"] exI [of _ as]) simp
  next
    case (Some b)
    note f = lt.fill_law [OF d(1) k n p [unfolded Some]]
    note e = slots_match_append [OF d(6) n t(1) d(3) t(2), of x]
    have sz: "vsize (arrays c ! t) = length (as ! t)" using va.len_law [OF d(4) [OF t(1)]] .
    show ?thesis
    proof (cases rule: va.append_cases [OF d(4) [OF t(1)], of "(x, k)"])
      case (1 v)
      let ?tab = "fill_bucket b k (slot_set t (length (as ! t))) tab"
      let ?c = "c\<lparr>lookup := ?tab, arrays := (arrays c)[t := v]\<rparr>"
      have "col_emplace cfg t k x c = Some (Some (length (as ! t)), ?c)"
        using None p Some 1(1) sz by (simp add: col_emplace_def Let_def)
      moreover have "col_inv cfg ?c (as[t := as ! t @ [(x, k)]])"
        using f e(1) 1(2) t(2) by (intro col_inv_update [OF i t(1)]) simp_all
      moreover have "entry (tlookup (lookup ?c)) (as[t := as ! t @ [(x, k)]]) =
          (entry (tlookup (lookup c)) as)(k \<mapsto> (t, x))" using f e(2) by simp
      moreover have "entry (tlookup (lookup c)) as k = None" using n by (simp add: entry_def)
      ultimately show ?thesis
        by (intro exI [of _ "Some (length (as ! t))"] exI [of _ ?c] exI [of _ "as[t := as ! t @ [(x, k)]]"]) simp
    next
      case 2
      let ?c = "c\<lparr>lookup := tab, arrays := (arrays c)[t := arrays c ! t]\<rparr>"
      have "col_emplace cfg t k x c = Some (None, ?c)" using None p Some 2 by (simp add: col_emplace_def Let_def)
      moreover have "col_inv cfg ?c (as[t := as ! t])"
        using d(4,5) [OF t(1)] d(6) tab by (intro col_inv_update [OF i t(1)]) simp_all
      ultimately show ?thesis using tab by (intro exI [of _ None] exI [of _ ?c] exI [of _ as]) simp
    qed
  qed
qed

lemma find_bucket_slot:
  assumes "sound_table cfg t" "k \<noteq> 0" "find_bucket k (tkeys t) = Some b"
  shows "tlookup t k = Some (tslots t ! b)" "b < length (tslots t)" "tkeys t ! b = k"
  using assms find_bucket_iff [of t k b] table_okD(1) [of t] by (auto simp: sound_table_def tlookup_def)

lemma col_erase_ok:
  assumes i: "col_inv cfg c as" and k: "k \<noteq> 0" and b: "col_find k c = Some b"
  shows "\<exists>c' as'. col_erase (Some b) c = Some c' \<and> col_inv cfg c' as' \<and>
    entry (tlookup (lookup c')) as' = (entry (tlookup (lookup c)) as)(k := None)"
proof -
  note d = col_invD [OF i]
  let ?L = "tlookup (lookup c)" and ?s = "tslots (lookup c) ! b"
  have fb: "find_bucket k (tkeys (lookup c)) = Some b" using b by (simp add: col_find_def)
  note s = find_bucket_slot [OF d(1) k fb]
  define t where "t = slot_get_type ?s"
  define j where "j = slot_get_index ?s"
  define l where "l = length (as ! t) - 1"
  define k' where "k' = snd (as ! t ! l)"
  note e = slots_match_erase [OF d(6) s(1) d(3) d(5) t_def j_def l_def k'_def]
  have tj: "t < length as" "j < length (as ! t)" using slots_matchD(1,2) [OF d(6) s(1)] by (simp_all add: t_def j_def)
  have k'0: "k' \<noteq> 0" using e(3) by (auto simp: tlookup_def split: if_splits)
  obtain b' where b': "find_bucket k' (tkeys (lookup c)) = Some b'" using lt.bucket_ex [OF d(1) k'0 e(3)] by blast
  note s' = find_bucket_slot [OF d(1) k'0 b']
  let ?t1 = "set_slot b' (slot_set t j) (lookup c)"
  have "find_bucket k (tkeys ?t1) = Some b" using fb by (simp add: set_slot_def)
  note tab = lt.reslot_vacate [OF d(1) k fb k'0 b' this]
  have sz: "vsize (arrays c ! t) = length (as ! t)" using va.len_law [OF d(4) [OF tj(1)]] .
  have "l < length (as ! t)" using tj(2) by (simp add: l_def)
  then have lst: "at l (arrays c ! t) = Some (fst (as ! t ! l), k')" using va.get_law [OF d(4) [OF tj(1)]] by (simp add: k'_def)
  have "l < 2 ^ 24" using tj(2) d(5) [OF tj(1)] by (simp add: l_def)
  then have si: "slot_set_index j (tslots (lookup c) ! b') = slot_set t j"
    using s'(1) e(3) slot_set_index_set [of l j t] by simp
  obtain v where v: "erase j (arrays c ! t) = Some v" "vec_rep (comp_cfg cfg t) v (butlast ((as ! t)[j := last (as ! t)]))"
    using va.remove_law [OF d(4) [OF tj(1)] tj(2)] by blast
  let ?c = "c\<lparr>lookup := empty_bucket b ?t1, arrays := (arrays c)[t := v]\<rparr>"
  have "col_remove_impl t b j c = Some ?c"
    using lst b' si v(1) sz by (simp add: col_remove_impl_def Let_def col_find_def l_def)
  then have "col_erase (Some b) c = Some ?c"
    using s(2) tj(1) d(2,3) by (simp add: col_erase_def Let_def flip: t_def j_def)
  moreover have "col_inv cfg ?c (as[t := butlast ((as ! t)[j := last (as ! t)])])"
    using v(2) tab e(1) d(5) [OF tj(1)] by (intro col_inv_update [OF i tj(1)]) simp_all
  moreover have "entry (tlookup (lookup ?c)) (as[t := butlast ((as ! t)[j := last (as ! t)])]) =
      (entry ?L as)(k := None)" using tab e(2) by simp
  ultimately show ?thesis by blast
qed

lemma col_get_ok:
  assumes i: "col_inv cfg c as" and k: "k \<noteq> 0" and b: "col_find k c = Some b"
    and e: "entry (tlookup (lookup c)) as k = Some (t, x)"
  shows "col_get u (Some b) c = Some (if u = t then Some x else None)" "col_contains u (Some b) c = Some (u = t)"
    "col_get_key (Some b) c = Some k"
proof -
  note d = col_invD [OF i]
  let ?s = "tslots (lookup c) ! b"
  note s = find_bucket_slot [OF d(1) k b [unfolded col_find_def]]
  have t: "t = slot_get_type ?s" "x = fst (as ! t ! slot_get_index ?s)" using e s(1) by (auto simp: entry_def)
  have j: "t < length as" "slot_get_index ?s < length (as ! t)" "as ! t ! slot_get_index ?s = (x, k)"
    using slots_matchD(1-3) [OF d(6) s(1)] t by (auto simp: prod_eq_iff)
  have "at (slot_get_index ?s) (arrays c ! t) = Some (x, k)" using va.get_law [OF d(4) [OF j(1)] j(2)] j(3) by simp
  then show "col_get u (Some b) c = Some (if u = t then Some x else None)"
    using s(2) t(1) by (auto simp: col_get_def Let_def)
  show "col_contains u (Some b) c = Some (u = t)" using s(2) t(1) by (auto simp: col_contains_def)
  have "b < length (tkeys (lookup c))" using s(2) d(1) table_okD(1) [of "lookup c"] by (simp add: sound_table_def)
  then show "col_get_key (Some b) c = Some k" using s(3) by (simp add: col_get_key_def)
qed

lemma clear_arrays_ok:
  assumes "length vs = length as" "\<And>t. t < length as \<Longrightarrow> vec_rep (f t) (vs ! t) (as ! t)"
  shows "\<exists>ws. clear_arrays vs = Some ws \<and> length ws = length as \<and> (\<forall>t < length as. vec_rep (f t) (ws ! t) [])"
  using assms
proof (induction vs arbitrary: as f)
  case (Cons v vs)
  then obtain a as' where as: "as = a # as'" by (cases as) auto
  have "vec_rep (f 0) v a" using Cons.prems(2) [of 0] as by simp
  then obtain w where w: "vec_clear v = Some w" "vec_rep (f 0) w []" using va.wipe_law by blast
  obtain ws where ws: "clear_arrays vs = Some ws" "length ws = length as'" "\<forall>t < length as'. vec_rep (f (Suc t)) (ws ! t) []"
    using Cons.IH [of as' "\<lambda>t. f (Suc t)"] Cons.prems as by fastforce
  have "vec_rep (f t) ((w # ws) ! t) []" if "t < length as" for t using that w ws as by (cases t) auto
  then show ?case using w(1) ws(1,2) as by simp
qed simp

lemma table_wiped_ok:
  assumes "sound_table cfg t"
  shows "sound_table cfg (t\<lparr>tkeys := replicate (length (tkeys t)) 0\<rparr>)"
    "tlookup (t\<lparr>tkeys := replicate (length (tkeys t)) 0\<rparr>) = Map.empty"
proof -
  let ?t = "t\<lparr>tkeys := replicate (length (tkeys t)) 0\<rparr>"
  have ok: "table_ok ?t" using assms by (simp add: sound_table_def table_ok_def)
  then show "sound_table cfg ?t" using assms by (simp add: sound_table_def)
  show "tlookup ?t = Map.empty" by (rule tlookup_eqI [OF ok]) auto
qed

lemma col_clear_ok:
  assumes "col_inv cfg c as"
  shows "\<exists>c'. col_clear c = Some c' \<and> col_inv cfg c' (replicate (length as) []) \<and> tlookup (lookup c') = Map.empty"
proof -
  note d = col_invD [OF assms]
  obtain ws where ws: "clear_arrays (arrays c) = Some ws" "length ws = length as"
    "\<forall>t < length as. vec_rep (comp_cfg cfg t) (ws ! t) []" using clear_arrays_ok [OF d(2) d(4)] by blast
  note t = table_wiped_ok [OF d(1)]
  show ?thesis
    by (rule exI [of _ "c\<lparr>arrays := ws, lookup := (lookup c)\<lparr>tkeys := replicate (length (tkeys (lookup c))) 0\<rparr>\<rparr>"])
      (use ws t d(3) in \<open>auto simp: col_clear_def slots_match_def intro!: col_invI\<close>)
qed

lemma get_all_keys_loop_eq: "get_all_keys_loop ks n = take n (filter (\<lambda>k. k \<noteq> 0) ks)"
  by (induction ks n rule: get_all_keys_loop.induct) (auto split: nat.splits)

lemma table_keys_dom:
  assumes "table_ok t"
  shows "set (filter (\<lambda>k. k \<noteq> 0) (tkeys t)) = dom (tlookup t)"
proof -
  have "k \<in> dom (tlookup t) \<longleftrightarrow> k \<noteq> 0 \<and> k \<in> set (tkeys t)" for k
    unfolding dom_def mem_Collect_eq using tlookup_Some_iff [OF assms, of k] by (auto simp: in_set_conv_nth)
  then show ?thesis by auto
qed

lemma vec_write_rep:
  assumes "vec_rep cfg v xs" "i < length xs"
  shows "\<exists>v'. vec_write i x v = Some v' \<and> vec_rep cfg v' (xs[i := x])"
proof -
  have "assign_at i x (vcells v) = Some (map Live (xs[i := x]) @ replicate (capacity cfg v - length xs) Raw)"
    using assms vec_repD(3) [OF assms(1)]
    by (simp add: assign_at.simps nth_append list_update_append map_update)
  then show ?thesis using assms by (auto simp: vec_write_def vec_rep_def)
qed

lemma slots_match_write:
  assumes "slots_match L as" "L k = Some s" "t = slot_get_type s" "i = slot_get_index s" "as ! t ! i = (x, k)"
  shows "slots_match L (as[t := (as ! t)[i := (x', k)]])" (is "slots_match L ?as")
    "entry L (as[t := (as ! t)[i := (x', k)]]) = (entry L as)(k \<mapsto> (t, x'))"
proof -
  note m = slots_matchD [OF assms(1)]
  have ti: "t < length as" "i < length (as ! t)" using m(1,2) [OF assms(2)] assms(3,4) by auto
  have len: "length (?as ! u) = length (as ! u)" for u using ti(1) by (cases "u = t") auto
  have same: "snd (?as ! u ! j) = snd (as ! u ! j)" if "u < length as" "j < length (as ! u)" for u j
    using that ti assms(5) by (cases "u = t"; cases "j = i") auto
  show "slots_match L ?as"
    unfolding slots_match_def using m len same by simp
  have other: "?as ! slot_get_type r ! slot_get_index r = as ! slot_get_type r ! slot_get_index r" if "L j = Some r" "j \<noteq> k" for j r
    using that m(1-3) [OF that(1)] assms(5) ti
    by (cases "slot_get_type r = t"; cases "slot_get_index r = i") auto
  show "entry L ?as = (entry L as)(k \<mapsto> (t, x'))"
  proof
    fix j
    show "entry L ?as j = ((entry L as)(k \<mapsto> (t, x'))) j"
      using assms(2-4) ti other [of j] by (cases "j = k"; cases "L j") (auto simp: entry_def)
  qed
qed

lemma col_call_ok:
  assumes i: "col_inv cfg c as" and k: "k \<noteq> 0" and b: "col_find k c = Some b"
    and e: "entry (tlookup (lookup c)) as k = Some (t, x)"
  shows "\<exists>c' as'. col_call f (Some b) c = Some (snd (f t k x), c') \<and> col_inv cfg c' as' \<and>
    entry (tlookup (lookup c')) as' = (entry (tlookup (lookup c)) as)(k \<mapsto> (t, fst (f t k x)))"
proof -
  note d = col_invD [OF i]
  let ?s = "tslots (lookup c) ! b" and ?j = "slot_get_index (tslots (lookup c) ! b)"
  note s = find_bucket_slot [OF d(1) k b [unfolded col_find_def]]
  have t: "t = slot_get_type ?s" "x = fst (as ! t ! ?j)" using e s(1) by (auto simp: entry_def)
  have j: "t < length as" "?j < length (as ! t)" "as ! t ! ?j = (x, k)"
    using slots_matchD(1-3) [OF d(6) s(1)] t by (auto simp: prod_eq_iff)
  have a: "at ?j (arrays c ! t) = Some (x, k)" using va.get_law [OF d(4) [OF j(1)] j(2)] j(3) by simp
  obtain v where v: "vec_write ?j (fst (f t k x), k) (arrays c ! t) = Some v"
    "vec_rep (comp_cfg cfg t) v ((as ! t)[?j := (fst (f t k x), k)])" using vec_write_rep [OF d(4) [OF j(1)] j(2)] by blast
  let ?c = "c\<lparr>lookup := lookup c, arrays := (arrays c)[t := v]\<rparr>"
  note w = slots_match_write [OF d(6) s(1) t(1) refl j(3), of "fst (f t k x)"]
  have "col_call f (Some b) c = Some (snd (f t k x), ?c)"
    using s(2,3) t(1) j(1) d(2,3) a v(1) by (simp add: col_call_def Let_def case_prod_beta)
  moreover have "col_inv cfg ?c (as[t := (as ! t)[?j := (fst (f t k x), k)]])"
    using v(2) w(1) d(1) d(5) [OF j(1)] by (intro col_inv_update [OF i j(1)]) simp_all
  ultimately show ?thesis using w(2) by (intro exI [of _ ?c]) auto
qed

section \<open>The contract of a collection\<close>

text \<open>What users of a collection rely on: it is a finite map from keys to a component of some type, that may
  refuse a new key but never loses an old one.\<close>

locale component_map =
  fixes rep :: "'q \<Rightarrow> (u64 \<rightharpoonup> nat \<times> 'c) \<Rightarrow> bool"
    and room :: "nat \<Rightarrow> 'q \<Rightarrow> bool"
    and locate :: "u64 \<Rightarrow> 'q \<Rightarrow> nat option"
    and read :: "nat \<Rightarrow> nat option \<Rightarrow> 'q \<Rightarrow> 'c option option"
    and add :: "nat \<Rightarrow> u64 \<Rightarrow> 'c \<Rightarrow> 'q \<Rightarrow> (nat option \<times> 'q) option"
    and remove :: "nat option \<Rightarrow> 'q \<Rightarrow> 'q option"
  assumes locate_law: "rep q m \<Longrightarrow> k \<noteq> 0 \<Longrightarrow> locate k q = None \<longleftrightarrow> m k = None"
    and read_law: "rep q m \<Longrightarrow> k \<noteq> 0 \<Longrightarrow> m k = Some (t, x) \<Longrightarrow> read u (locate k q) q = Some (if u = t then Some x else None)"
    and add_law: "rep q m \<Longrightarrow> k \<noteq> 0 \<Longrightarrow> room t q \<Longrightarrow> \<exists>r q'. add t k x q = Some (r, q') \<and>
      (if r = None then rep q' m else m k = None \<and> rep q' (m(k \<mapsto> (t, x))))"
    and remove_law: "rep q m \<Longrightarrow> k \<noteq> 0 \<Longrightarrow> m k \<noteq> None \<Longrightarrow> \<exists>q'. remove (locate k q) q = Some q' \<and> rep q' (m(k := None))"
begin

text \<open>After a successful addition the component is there under its key, and every other key is as before.\<close>

lemma add_read:
  assumes "rep q m" "k \<noteq> 0" "room t q" "add t k x q = Some (Some i, q')"
  shows "read t (locate k q') q' = Some (Some x)"
    "\<And>j u y. j \<noteq> 0 \<Longrightarrow> j \<noteq> k \<Longrightarrow> m j = Some (u, y) \<Longrightarrow> read u (locate j q') q' = Some (Some y)"
proof -
  have r: "rep q' (m(k \<mapsto> (t, x)))" using add_law [OF assms(1-3), of x] assms(4) by auto
  show "read t (locate k q') q' = Some (Some x)" using read_law [OF r assms(2), of t x t] by simp
  show "\<And>j u y. j \<noteq> 0 \<Longrightarrow> j \<noteq> k \<Longrightarrow> m j = Some (u, y) \<Longrightarrow> read u (locate j q') q' = Some (Some y)"
    using read_law [OF r] by simp
qed

text \<open>Removing what was added gives the old map back.\<close>

lemma add_remove:
  assumes "rep q m" "k \<noteq> 0" "room t q" "add t k x q = Some (Some i, q')"
  shows "\<exists>q''. remove (locate k q') q' = Some q'' \<and> rep q'' m"
proof -
  have r: "m k = None" "rep q' (m(k \<mapsto> (t, x)))" using add_law [OF assms(1-3), of x] assms(4) by auto
  then show ?thesis using remove_law [OF r(2) assms(2)] by (metis fun_upd_same fun_upd_triv fun_upd_upd option.distinct(1))
qed

end

definition col_rep :: "col_cfg \<Rightarrow> 'c col \<Rightarrow> (u64 \<rightharpoonup> nat \<times> 'c) \<Rightarrow> bool" where
  "col_rep cfg c m \<longleftrightarrow> (\<exists>as. col_inv cfg c as \<and> m = entry (tlookup (lookup c)) as)"

text \<open>A slot has 24 bits for the place in the array.\<close>

definition col_room :: "nat \<Rightarrow> 'c col \<Rightarrow> bool" where
  "col_room t c \<longleftrightarrow> t < length (arrays c) \<and> vsize (arrays c ! t) < 2 ^ 24"

lemma col_room_inv:
  assumes "col_inv cfg c as" "col_room t c"
  shows "t < length as \<and> length (as ! t) < 2 ^ 24"
proof -
  have t: "t < length as" using assms(2) col_invD(2) [OF assms(1)] by (simp add: col_room_def)
  then show ?thesis using va.len_law [OF col_invD(4) [OF assms(1) t]] assms(2) by (simp add: col_room_def)
qed

lemma col_find_entry:
  assumes "col_inv cfg c as" "k \<noteq> 0"
  shows "col_find k c = None \<longleftrightarrow> entry (tlookup (lookup c)) as k = None"
  using lt.bucket_law [OF col_invD(1) [OF assms(1)] assms(2)] by (simp add: col_find_def entry_def)

interpretation cm: component_map "col_rep cfg" col_room col_find col_get "col_emplace cfg" col_erase for cfg
proof unfold_locales
  fix c :: "'a col" and m and k :: u64
  assume "col_rep cfg c m" "k \<noteq> 0"
  then show "col_find k c = None \<longleftrightarrow> m k = None" using col_find_entry [of cfg c _ k] by (auto simp: col_rep_def)
next
  fix c :: "'a col" and m and k :: u64 and t x u
  assume h: "col_rep cfg c m" "k \<noteq> 0" "m k = Some (t, x)"
  then obtain as where as: "col_inv cfg c as" "m = entry (tlookup (lookup c)) as" by (auto simp: col_rep_def)
  obtain b where "col_find k c = Some b" using col_find_entry [OF as(1) h(2)] h(3) as(2) by auto
  then show "col_get u (col_find k c) c = Some (if u = t then Some x else None)"
    using col_get_ok(1) [OF as(1) h(2)] h(3) as(2) by simp
next
  fix c :: "'a col" and m and k :: u64 and t x
  assume h: "col_rep cfg c m" "k \<noteq> 0" "col_room t c"
  then obtain as where as: "col_inv cfg c as" "m = entry (tlookup (lookup c)) as" by (auto simp: col_rep_def)
  show "\<exists>r c'. col_emplace cfg t k x c = Some (r, c') \<and>
      (if r = None then col_rep cfg c' m else m k = None \<and> col_rep cfg c' (m(k \<mapsto> (t, x))))"
    using col_emplace_ok [OF as(1) h(2), of t x] col_room_inv [OF as(1) h(3)] as(2) unfolding col_rep_def by metis
next
  fix c :: "'a col" and m and k :: u64
  assume h: "col_rep cfg c m" "k \<noteq> 0" "m k \<noteq> None"
  then obtain as where as: "col_inv cfg c as" "m = entry (tlookup (lookup c)) as" by (auto simp: col_rep_def)
  obtain b where b: "col_find k c = Some b" using col_find_entry [OF as(1) h(2)] h(3) as(2) by auto
  then show "\<exists>c'. col_erase (col_find k c) c = Some c' \<and> col_rep cfg c' (m(k := None))"
    using col_erase_ok [OF as(1) h(2) b] as(2) unfolding col_rep_def b by metis
qed

section \<open>Properties\<close>

text \<open>C2: a collection is a map from keys to components of a type: emplacing a key it does not hold either adds
  exactly that entry, after which the component is read back under its key and under no other type, or leaves the
  map as it was; erasing the new entry gives the old map back.  No call is undefined.\<close>
theorem collection_emplace:
  assumes "col_rep cfg c m" "k \<noteq> 0" "col_room t c"
  shows "\<exists>r c'. col_emplace cfg t k x c = Some (r, c') \<and>
    (case r of
       None \<Rightarrow> col_rep cfg c' m
     | Some i \<Rightarrow> m k = None \<and> col_rep cfg c' (m(k \<mapsto> (t, x))) \<and> col_get t (col_find k c') c' = Some (Some x) \<and>
         (\<exists>c''. col_erase (col_find k c') c' = Some c'' \<and> col_rep cfg c'' m))"
proof -
  obtain r c' where e: "col_emplace cfg t k x c = Some (r, c')"
    "if r = None then col_rep cfg c' m else m k = None \<and> col_rep cfg c' (m(k \<mapsto> (t, x)))" using cm.add_law [OF assms] by blast
  show ?thesis
  proof (cases r)
    case (Some i)
    then show ?thesis using e cm.add_read(1) [OF assms, of x i c'] cm.add_remove [OF assms, of x i c'] by auto
  qed (use e in simp)
qed

text \<open>C3: erasing a key takes exactly its entry out of the map, although it moves another component and redirects
  that component's slot.\<close>
theorem collection_erase:
  assumes "col_rep cfg c m" "k \<noteq> 0" "m k = Some (t, x)"
  shows "\<exists>c'. col_erase (col_find k c) c = Some c' \<and> col_rep cfg c' (m(k := None)) \<and> col_find k c' = None"
proof -
  obtain c' where "col_erase (col_find k c) c = Some c'" "col_rep cfg c' (m(k := None))"
    using cm.remove_law [OF assms(1,2)] assms(3) by auto
  then show ?thesis using cm.locate_law [of cfg c' "m(k := None)" k] assms(2) by auto
qed

text \<open>C29: a lookup answers exactly what the map holds, a call runs the function on that component and stores its
  result there, clearing empties the map, and the list of all keys has every key of the map once.\<close>
theorem collection_access:
  assumes "col_inv cfg c as" "m = entry (tlookup (lookup c)) as" "k \<noteq> 0" "m k = Some (t, x)"
  shows "col_get u (col_find k c) c = Some (if u = t then Some x else None) \<and>
    col_contains u (col_find k c) c = Some (u = t) \<and> col_get_key (col_find k c) c = Some k \<and>
    (\<exists>c'. col_call f (col_find k c) c = Some (snd (f t k x), c') \<and> col_rep cfg c' (m(k \<mapsto> (t, fst (f t k x))))) \<and>
    (\<exists>c'. col_clear c = Some c' \<and> col_rep cfg c' Map.empty) \<and>
    set (col_get_all_keys (length (tkeys (lookup c))) c) = dom m \<and> distinct (col_get_all_keys (length (tkeys (lookup c))) c)"
proof -
  obtain b where b: "col_find k c = Some b" using col_find_entry [OF assms(1,3)] assms(2,4) by auto
  have e: "entry (tlookup (lookup c)) as k = Some (t, x)" using assms(2,4) by simp
  note g = col_get_ok(1,2) [OF assms(1,3) b e, of u] col_get_ok(3) [OF assms(1,3) b e]
  have call: "\<exists>c'. col_call f (Some b) c = Some (snd (f t k x), c') \<and> col_rep cfg c' (m(k \<mapsto> (t, fst (f t k x))))"
    using col_call_ok [OF assms(1,3) b e, of f] assms(2) unfolding col_rep_def by metis
  obtain c' where c': "col_clear c = Some c'" "col_inv cfg c' (replicate (length as) [])" "tlookup (lookup c') = Map.empty"
    using col_clear_ok [OF assms(1)] by blast
  have "col_rep cfg c' Map.empty"
    using c'(2,3) unfolding col_rep_def by (intro exI [of _ "replicate (length as) []"]) (auto simp: entry_def)
  moreover have ok: "table_ok (lookup c)" using col_invD(1) [OF assms(1)] by (simp add: sound_table_def)
  have ks: "col_get_all_keys (length (tkeys (lookup c))) c = filter (\<lambda>k. k \<noteq> 0) (tkeys (lookup c))"
    using length_filter_le [of "\<lambda>k. k \<noteq> 0" "tkeys (lookup c)"] by (simp add: col_get_all_keys_def get_all_keys_loop_eq)
  have "dom m = dom (tlookup (lookup c))" using assms(2) by (auto simp: entry_def)
  then have "set (col_get_all_keys (length (tkeys (lookup c))) c) = dom m"
    unfolding ks using table_keys_dom [OF ok] by simp
  moreover have "distinct (col_get_all_keys (length (tkeys (lookup c))) c)" unfolding ks by (rule table_distinct [OF ok])
  ultimately show ?thesis using b g call c'(1) by auto
qed

text \<open>A collection of one type that holds the component 7 under the key 5.\<close>

definition demo_cfg :: col_cfg where
  "demo_cfg = \<lparr>lookup_cfg = \<lparr>static_capacity = Some 1, alloc_ok = (\<lambda>n. False)\<rparr>,
     comp_cfg = (\<lambda>t. \<lparr>static_capacity = Some 2, alloc_ok = (\<lambda>n. False)\<rparr>)\<rparr>"

definition demo_col :: "nat col" where
  "demo_col = \<lparr>lookup = \<lparr>tslots = [0], tkeys = [5]\<rparr>,
     arrays = [\<lparr>stor = \<lparr>good = True, cells = [Live (7, 5), Raw]\<rparr>, vcap = 0, vend = 1\<rparr>]\<rparr>"

lemma slot_zero: "slot_get_type 0 = 0" "slot_get_index 0 = 0" "slot_set 0 0 = 0"
  by (simp_all add: slot_get_type_def slot_get_index_def slot_set_def)

lemma demo_inv: "col_inv demo_cfg demo_col [[(7, 5)]]"
  "entry (tlookup (lookup demo_col)) [[(7, 5)]] = [5 \<mapsto> (0, 7)]"
proof -
  have ok: "table_ok (lookup demo_col)" by (auto simp: table_ok_def demo_col_def probe_def table_bound_def)
  have l: "tlookup (lookup demo_col) = [5 \<mapsto> 0]" by (rule tlookup_eqI [OF ok]) (auto simp: demo_col_def)
  have one: "Suc 0 \<le> table_bound" by (simp add: table_bound_def)
  show "col_inv demo_cfg demo_col [[(7, 5)]]"
    using ok l one by (simp add: col_inv_def sound_table_def demo_cfg_def demo_col_def table_cfg_def
        vec_rep_def capacity_def slots_match_def slot_zero numeral_2_eq_2)
  show "entry (tlookup (lookup demo_col)) [[(7, 5)]] = [5 \<mapsto> (0, 7)]" using l by (auto simp: entry_def slot_zero)
qed

lemma demo_rep: "col_rep demo_cfg demo_col [5 \<mapsto> (0, 7)]"
  using demo_inv unfolding col_rep_def by metis

text \<open>The same collection before anything is in it.\<close>

lemma demo_none: "col_rep demo_cfg (col_new demo_cfg 1 :: nat col) Map.empty"
proof -
  have "table_cfg (lookup_cfg demo_cfg)" by (simp add: demo_cfg_def table_cfg_def table_bound_def)
  then have "col_inv demo_cfg (col_new demo_cfg 1 :: nat col) (replicate 1 [])" "tlookup (lookup (col_new demo_cfg 1 :: nat col)) = Map.empty"
    using col_new_inv [of demo_cfg 1] table_new_ok(2) [of "lookup_cfg demo_cfg" "0 :: u32"] by (simp_all add: col_new_def)
  then show ?thesis unfolding col_rep_def by (intro exI [of _ "replicate 1 []"]) (auto simp: entry_def)
qed

lemma demo_vec_new:
  "vec_new (comp_cfg demo_cfg t) 0 = \<lparr>stor = \<lparr>good = True, cells = [Raw, Raw]\<rparr>, vcap = 2, vend = 0\<rparr>"
proof -
  have r: "replicate 2 Raw = [Raw, Raw :: 'a cell]" by (simp add: numeral_2_eq_2)
  show ?thesis
    by (simp add: demo_cfg_def vec_new_def vec_allocate_def uninit_vec_def storage_allocate_def fresh_storage_def
        reserve_power_of_two_def r)
qed

lemma demo_table_new: "table_new (lookup_cfg demo_cfg) z = \<lparr>tslots = [z], tkeys = [0]\<rparr>"
  by (simp add: demo_cfg_def table_new_def table_zero_def reserve_nonempty_def reserve_power_of_two_def)

lemma demo_new: "(col_new demo_cfg 1 :: nat col) = \<lparr>lookup = \<lparr>tslots = [0], tkeys = [0]\<rparr>,
    arrays = [\<lparr>stor = \<lparr>good = True, cells = [Raw, Raw]\<rparr>, vcap = 2, vend = 0\<rparr>]\<rparr>"
  by (simp add: col_new_def demo_table_new demo_vec_new)

theorem collection_emplace_witness:
  "\<exists>c'. col_emplace demo_cfg 0 5 (7 :: nat) (col_new demo_cfg 1) = Some (Some 0, c') \<and> col_rep demo_cfg c' [5 \<mapsto> (0, 7)] \<and>
    col_get 0 (col_find 5 c') c' = Some (Some 7) \<and> (\<exists>c''. col_erase (col_find 5 c') c' = Some c'' \<and> col_rep demo_cfg c'' Map.empty)"
proof -
  have "\<exists>c'. col_emplace demo_cfg 0 5 (7 :: nat) (col_new demo_cfg 1) = Some (Some 0, c')"
    unfolding demo_new
    by (simp add: col_emplace_def col_find_def find_bucket_def find_bucket_at_def to_bucket_def find_bucket_loop.simps hash_of_def
        try_place.simps find_empty_bucket_def demo_cfg_def try_emplace_back_def vsize_def capacity_def
        emplace_back_no_reallocate_def emplace_back_no_failure_def construct_at.simps Let_def)
  moreover have "col_room 0 (col_new demo_cfg 1 :: nat col)"
    unfolding demo_new by (simp add: col_room_def vsize_def)
  ultimately show ?thesis using collection_emplace [OF demo_none, of 5 0 7] by auto
qed

theorem collection_erase_witness:
  "\<exists>c'. col_erase (col_find 5 demo_col) demo_col = Some c' \<and> col_rep demo_cfg c' ([5 \<mapsto> (0, 7)](5 := None)) \<and>
    col_find 5 c' = None"
  by (rule collection_erase [OF demo_rep]) simp_all

theorem collection_access_witness:
  "col_get 0 (col_find 5 demo_col) demo_col = Some (if 0 = (0 :: nat) then Some 7 else None) \<and>
    col_contains 0 (col_find 5 demo_col) demo_col = Some (0 = (0 :: nat)) \<and> col_get_key (col_find 5 demo_col) demo_col = Some 5 \<and>
    (\<exists>c'. col_call (\<lambda>t k x :: nat. (x + 1, x)) (col_find 5 demo_col) demo_col = Some (snd (7 + 1 :: nat, 7 :: nat), c') \<and>
      col_rep demo_cfg c' ([5 \<mapsto> (0, 7)](5 \<mapsto> (0, fst (7 + 1 :: nat, 7 :: nat))))) \<and>
    (\<exists>c'. col_clear demo_col = Some c' \<and> col_rep demo_cfg c' Map.empty) \<and>
    set (col_get_all_keys (length (tkeys (lookup demo_col))) demo_col) = dom [5 :: u64 \<mapsto> (0 :: nat, 7 :: nat)] \<and>
    distinct (col_get_all_keys (length (tkeys (lookup demo_col))) demo_col)"
  using collection_access [OF demo_inv(1) demo_inv(2) [symmetric], of 5 0 7 0 "\<lambda>t k x. (x + 1, x)"] by simp

end
