(* ===== verification/Unordered_Collection.thy ===== *)
theory Unordered_Collection
  imports Collection Fragmentation
begin

text \<open>
  \<^verbatim>\<open>UnorderedCollection\<close> of \<^verbatim>\<open>core/container/Collection.hpp\<close>: the same table as \<^verbatim>\<open>Collection\<close>, with a slot container
  per type in place of the dense array, so that components stay where they are.  It is shown to keep the contract
  of a collection as long as its containers have a static capacity; growing them is not safe after an erase, by
  the defect of the slot container.

  \<^verbatim>\<open>clear\<close> is not modelled: it calls a member of the slot container that is not accessible.
\<close>

section \<open>Operations\<close>

record 'c ucol =
  ulookup :: "u32 table"
  uarrays :: "'c frag list"

definition ucol_new :: "col_cfg \<Rightarrow> nat \<Rightarrow> 'c ucol" where
  "ucol_new cfg ntypes = \<lparr>ulookup = table_new (lookup_cfg cfg) 0, uarrays = map (\<lambda>t. frag_new (comp_cfg cfg t) 0) [0..<ntypes]\<rparr>"

definition ucol_find :: "u64 \<Rightarrow> 'c ucol \<Rightarrow> nat option" where
  "ucol_find key c = find_bucket key (tkeys (ulookup c))"

definition ucol_contains :: "nat \<Rightarrow> nat option \<Rightarrow> 'c ucol \<Rightarrow> bool option" where
  "ucol_contains type it c = (case it of
     None \<Rightarrow> Some False
   | Some b \<Rightarrow> if b < length (tslots (ulookup c)) then Some (slot_get_type (tslots (ulookup c) ! b) = type) else None)"

definition ucol_get :: "nat \<Rightarrow> nat option \<Rightarrow> 'c ucol \<Rightarrow> 'c option option" where
  "ucol_get type it c = (case it of
     None \<Rightarrow> Some None
   | Some b \<Rightarrow>
       if b < length (tslots (ulookup c)) then
         (let slot = tslots (ulookup c) ! b in
          if slot_get_type slot \<noteq> type then Some None
          else do { x \<leftarrow> frag_at (slot_get_index slot) (uarrays c ! type); Some (Some x) })
       else None)"

definition ucol_get_key :: "nat option \<Rightarrow> 'c ucol \<Rightarrow> u64 option" where
  "ucol_get_key it c = (case it of
     None \<Rightarrow> Some 0
   | Some b \<Rightarrow> if b < length (tkeys (ulookup c)) then Some (tkeys (ulookup c) ! b) else None)"

text \<open>\<^verbatim>\<open>get_all_keys\<close>: the number of keys, and what it writes to a buffer of the given size.\<close>

fun count_keys_loop :: "u64 list \<Rightarrow> nat \<Rightarrow> nat \<Rightarrow> u64 list \<Rightarrow> nat \<times> u64 list" where
  "count_keys_loop [] space cnt buffer = (cnt, buffer)"
| "count_keys_loop (key # ks) space cnt buffer = (
    if key = 0 then count_keys_loop ks space cnt buffer
    else count_keys_loop ks space (cnt + 1) (if cnt < space then buffer @ [key] else buffer))"

definition ucol_get_all_keys :: "nat \<Rightarrow> 'c ucol \<Rightarrow> nat \<times> u64 list" where
  "ucol_get_all_keys n c = count_keys_loop (tkeys (ulookup c)) n 0 []"

definition ucol_add_impl :: "col_cfg \<Rightarrow> nat \<Rightarrow> nat \<Rightarrow> u64 \<Rightarrow> 'c \<Rightarrow> 'c ucol \<Rightarrow> (nat option \<times> 'c ucol) option" where
  "ucol_add_impl cfg type bucket key x c = do {
    (component, array) \<leftarrow> frag_try_emplace (comp_cfg cfg type) x (uarrays c ! type);
    let c = c\<lparr>uarrays := (uarrays c)[type := array]\<rparr>;
    case component of
      None \<Rightarrow> Some (None, c)
    | Some i \<Rightarrow> Some (Some i, c\<lparr>ulookup := fill_bucket bucket key (slot_set type i) (ulookup c)\<rparr>) }"

definition ucol_emplace :: "col_cfg \<Rightarrow> nat \<Rightarrow> u64 \<Rightarrow> 'c \<Rightarrow> 'c ucol \<Rightarrow> (nat option \<times> 'c ucol) option" where
  "ucol_emplace cfg type key x c = (
    if ucol_find key c \<noteq> None then Some (None, c)
    else case try_place (lookup_cfg cfg) 0 key (ulookup c) of
      (None, t) \<Rightarrow> Some (None, c\<lparr>ulookup := t\<rparr>)
    | (Some bucket, t) \<Rightarrow> ucol_add_impl cfg type bucket key x (c\<lparr>ulookup := t\<rparr>))"

definition ucol_remove_impl_case :: "col_cfg \<Rightarrow> nat \<Rightarrow> nat \<Rightarrow> nat \<Rightarrow> 'c ucol \<Rightarrow> 'c ucol option" where
  "ucol_remove_impl_case cfg type bucket index c = (
    let array = uarrays c ! type in
    if \<not> index < fcapacity (comp_cfg cfg type) array then Some c
    else do {
      let c = c\<lparr>ulookup := empty_bucket bucket (ulookup c)\<rparr>;
      (_, array) \<leftarrow> frag_try_erase (comp_cfg cfg type) index array;
      Some (c\<lparr>uarrays := (uarrays c)[type := array]\<rparr>) })"

definition ucol_remove_impl :: "col_cfg \<Rightarrow> nat \<Rightarrow> 'c ucol \<Rightarrow> 'c ucol option" where
  "ucol_remove_impl cfg b c = (
    if b < length (tslots (ulookup c)) then
      (let slot = tslots (ulookup c) ! b; type = slot_get_type slot in
       if type < 128 \<and> type < length (uarrays c) then ucol_remove_impl_case cfg type b (slot_get_index slot) c else None)
    else None)"

definition ucol_erase :: "col_cfg \<Rightarrow> nat option \<Rightarrow> 'c ucol \<Rightarrow> 'c ucol option" where
  "ucol_erase cfg it c = (case it of None \<Rightarrow> Some c | Some b \<Rightarrow> ucol_remove_impl cfg b c)"

definition ucol_replace :: "col_cfg \<Rightarrow> nat \<Rightarrow> u64 \<Rightarrow> 'c \<Rightarrow> 'c ucol \<Rightarrow> (nat option \<times> 'c ucol) option" where
  "ucol_replace cfg type key x c = (case ucol_find key c of
     None \<Rightarrow> (case try_place (lookup_cfg cfg) 0 key (ulookup c) of
         (None, t) \<Rightarrow> Some (None, c\<lparr>ulookup := t\<rparr>)
       | (Some bucket, t) \<Rightarrow> ucol_add_impl cfg type bucket key x (c\<lparr>ulookup := t\<rparr>))
   | Some bucket \<Rightarrow> do { c \<leftarrow> ucol_remove_impl cfg bucket c; ucol_add_impl cfg type bucket key x c })"

text \<open>\<^verbatim>\<open>call\<close>: the function gets the key and a reference to the component, which it may change.\<close>

definition frag_write :: "nat \<Rightarrow> 'a \<Rightarrow> 'a frag \<Rightarrow> 'a frag option" where
  "frag_write i x f = do { cs \<leftarrow> assign_at i x (fcells f); Some (f\<lparr>fcells := cs\<rparr>) }"

definition ucol_call :: "(nat \<Rightarrow> u64 \<Rightarrow> 'c \<Rightarrow> 'c \<times> 'r) \<Rightarrow> nat option \<Rightarrow> 'c ucol \<Rightarrow> ('r \<times> 'c ucol) option" where
  "ucol_call func it c = (case it of
     None \<Rightarrow> None
   | Some b \<Rightarrow>
       if b < length (tslots (ulookup c)) then
         (let slot = tslots (ulookup c) ! b; type = slot_get_type slot; index = slot_get_index slot in
          if type < 128 \<and> type < length (uarrays c) then do {
            x \<leftarrow> frag_at index (uarrays c ! type);
            let (x', r) = func type (tkeys (ulookup c) ! b) x;
            array \<leftarrow> frag_write index x' (uarrays c ! type);
            Some (r, c\<lparr>uarrays := (uarrays c)[type := array]\<rparr>) }
          else None)
       else None)"

section \<open>The invariant\<close>

text \<open>Every slot names a live place, every live place is named by the slot of one key.  \<open>fs t i\<close> is what place
  \<open>i\<close> of the container of type \<open>t\<close> holds.\<close>

definition places_match :: "(u64 \<rightharpoonup> u32) \<Rightarrow> nat \<Rightarrow> (nat \<Rightarrow> nat \<Rightarrow> 'c option) \<Rightarrow> bool" where
  "places_match L n fs \<longleftrightarrow>
     (\<forall>k s. L k = Some s \<longrightarrow> slot_get_type s < n \<and> fs (slot_get_type s) (slot_get_index s) \<noteq> None) \<and>
     (\<forall>j k s. L j = Some s \<and> L k = Some s \<longrightarrow> j = k) \<and>
     (\<forall>t i. t < n \<and> fs t i \<noteq> None \<longrightarrow> i < 2 ^ 24 \<and> (\<exists>k. L k = Some (slot_set t i)))"

definition uentry :: "(u64 \<rightharpoonup> u32) \<Rightarrow> (nat \<Rightarrow> nat \<Rightarrow> 'c option) \<Rightarrow> u64 \<rightharpoonup> nat \<times> 'c" where
  "uentry L fs k = (case L k of None \<Rightarrow> None
     | Some s \<Rightarrow> map_option (\<lambda>x. (slot_get_type s, x)) (fs (slot_get_type s) (slot_get_index s)))"

definition ufs :: "'c ucol \<Rightarrow> nat \<Rightarrow> nat \<Rightarrow> 'c option" where
  "ufs c t = slots (uarrays c ! t)"

definition ucol_inv :: "col_cfg \<Rightarrow> 'c ucol \<Rightarrow> bool" where
  "ucol_inv cfg c \<longleftrightarrow> sound_table (lookup_cfg cfg) (ulookup c) \<and> length (uarrays c) \<le> 128 \<and>
     (\<forall>t < length (uarrays c). free_inv (comp_cfg cfg t) (uarrays c ! t) \<and>
        (\<exists>C \<le> 2 ^ 24. static_capacity (comp_cfg cfg t) = Some C)) \<and>
     places_match (tlookup (ulookup c)) (length (uarrays c)) (ufs c)"

lemma slot_set_get: "slot_set (slot_get_type s) (slot_get_index s) = s"
proof -
  have "word_of_nat (unat (ucast (drop_bit 24 s) :: u8)) = (ucast (drop_bit 24 s) :: u8)" by simp
  moreover have "word_of_nat (unat (s AND 0x00ffffff)) = s AND 0x00ffffff" by simp
  ultimately have "slot_set (slot_get_type s) (slot_get_index s) =
      push_bit 24 (ucast (ucast (drop_bit 24 s) :: u8)) OR (s AND mask 24)"
    by (simp add: slot_set_def slot_get_type_def slot_get_index_def masks)
  also have "\<dots> = s" by (intro bit_word_eqI) (auto simp: bit_simps)
  finally show ?thesis .
qed

lemma places_matchD:
  assumes "places_match L n fs"
  shows "\<And>k s. L k = Some s \<Longrightarrow> slot_get_type s < n"
    "\<And>k s. L k = Some s \<Longrightarrow> \<exists>x. fs (slot_get_type s) (slot_get_index s) = Some x"
    "\<And>j k s. L j = Some s \<Longrightarrow> L k = Some s \<Longrightarrow> j = k"
    "\<And>t i x. t < n \<Longrightarrow> fs t i = Some x \<Longrightarrow> i < 2 ^ 24"
    "\<And>t i x. t < n \<Longrightarrow> fs t i = Some x \<Longrightarrow> \<exists>k. L k = Some (slot_set t i)"
  using assms unfolding places_match_def by blast+

lemma places_match_add:
  assumes m: "places_match L n fs" and n: "n \<le> 128" and k: "L k = None" and t: "t < n" "fs t i = None" "i < 2 ^ 24"
  shows "places_match (L(k \<mapsto> slot_set t i)) n (fs(t := (fs t)(i \<mapsto> x)))"
    "uentry (L(k \<mapsto> slot_set t i)) (fs(t := (fs t)(i \<mapsto> x))) = (uentry L fs)(k \<mapsto> (t, x))"
proof -
  note d = places_matchD [OF m]
  have g: "slot_get_type (slot_set t i) = t" "slot_get_index (slot_set t i) = i"
    using t n by (intro slot_type_set slot_index_set; simp)+
  have new: "L j \<noteq> Some (slot_set t i)" for j using d(2) [of j "slot_set t i"] g t(2) by auto
  have other: "\<not> (slot_get_type s = t \<and> slot_get_index s = i)" if "L j = Some s" for j s using d(2) [OF that] t(2) by auto
  show "places_match (L(k \<mapsto> slot_set t i)) n (fs(t := (fs t)(i \<mapsto> x)))"
    unfolding places_match_def
  proof (intro conjI allI impI)
    fix j s assume "(L(k \<mapsto> slot_set t i)) j = Some s"
    then show "slot_get_type s < n" "(fs(t := (fs t)(i \<mapsto> x))) (slot_get_type s) (slot_get_index s) \<noteq> None"
      using g d(1,2) t(1) by (auto split: if_splits)
  next
    fix j l s assume "(L(k \<mapsto> slot_set t i)) j = Some s \<and> (L(k \<mapsto> slot_set t i)) l = Some s"
    then show "j = l" using new d(3) by (auto split: if_splits)
  next
    fix u j assume h: "u < n \<and> (fs(t := (fs t)(i \<mapsto> x))) u j \<noteq> None"
    show "j < 2 ^ 24" using h t(3) d(4) by (auto split: if_splits)
    show "\<exists>l. (L(k \<mapsto> slot_set t i)) l = Some (slot_set u j)"
    proof (cases "u = t \<and> j = i")
      case False
      then obtain y where "fs u j = Some y" using h by (auto split: if_splits)
      then obtain l where "L l = Some (slot_set u j)" using d(5) h by blast
      then show ?thesis using k by (intro exI [of _ l]) auto
    qed auto
  qed
  show "uentry (L(k \<mapsto> slot_set t i)) (fs(t := (fs t)(i \<mapsto> x))) = (uentry L fs)(k \<mapsto> (t, x))"
  proof
    fix j
    show "uentry (L(k \<mapsto> slot_set t i)) (fs(t := (fs t)(i \<mapsto> x))) j = ((uentry L fs)(k \<mapsto> (t, x))) j"
      using g other [of j] by (cases "j = k"; cases "L j") (simp_all add: uentry_def)
  qed
qed

lemma places_match_remove:
  assumes m: "places_match L n fs" and n: "n \<le> 128" and k: "L k = Some s"
    and t: "t = slot_get_type s" "i = slot_get_index s"
  shows "places_match (L(k := None)) n (fs(t := (fs t)(i := None)))"
    "uentry (L(k := None)) (fs(t := (fs t)(i := None))) = (uentry L fs)(k := None)"
proof -
  note d = places_matchD [OF m]
  have other: "\<not> (slot_get_type r = t \<and> slot_get_index r = i)" if "L j = Some r" "j \<noteq> k" for j r
  proof
    assume h: "slot_get_type r = t \<and> slot_get_index r = i"
    have "r = slot_set (slot_get_type r) (slot_get_index r)" by (rule slot_set_get [symmetric])
    also have "\<dots> = slot_set (slot_get_type s) (slot_get_index s)" using h t by (simp only:)
    also have "\<dots> = s" by (rule slot_set_get)
    finally have "r = s" .
    then show False using d(3) [OF _ k, of j] that by blast
  qed
  show "places_match (L(k := None)) n (fs(t := (fs t)(i := None)))"
    unfolding places_match_def
  proof (intro conjI allI impI)
    fix j r assume "(L(k := None)) j = Some r"
    then show "slot_get_type r < n" "(fs(t := (fs t)(i := None))) (slot_get_type r) (slot_get_index r) \<noteq> None"
      using other d(1,2) by (auto split: if_splits)
  next
    fix j l r assume "(L(k := None)) j = Some r \<and> (L(k := None)) l = Some r"
    then show "j = l" using d(3) by (auto split: if_splits)
  next
    fix u j assume h: "u < n \<and> (fs(t := (fs t)(i := None))) u j \<noteq> None"
    then obtain y where y: "fs u j = Some y" "\<not> (u = t \<and> j = i)" by (auto split: if_splits)
    then show "j < 2 ^ 24" using d(4) h by blast
    obtain l where l: "L l = Some (slot_set u j)" using d(5) y(1) h by blast
    have "l \<noteq> k"
    proof
      assume "l = k"
      then have "s = slot_set u j" using l k by simp
      then show False using y(2) t d(4) [OF _ y(1)] h n slot_type_set [of u j] slot_index_set [of j u] by auto
    qed
    then show "\<exists>l. (L(k := None)) l = Some (slot_set u j)" using l by auto
  qed
  show "uentry (L(k := None)) (fs(t := (fs t)(i := None))) = (uentry L fs)(k := None)"
  proof
    fix j
    show "uentry (L(k := None)) (fs(t := (fs t)(i := None))) j = ((uentry L fs)(k := None)) j"
      using other [of j] by (cases "j = k"; cases "L j") (simp_all add: uentry_def)
  qed
qed

section \<open>Operations keep the invariant\<close>

lemma ucol_invD:
  assumes "ucol_inv cfg c"
  shows "sound_table (lookup_cfg cfg) (ulookup c)" "length (uarrays c) \<le> 128"
    "\<And>t. t < length (uarrays c) \<Longrightarrow> free_inv (comp_cfg cfg t) (uarrays c ! t)"
    "\<And>t. t < length (uarrays c) \<Longrightarrow> \<exists>C \<le> 2 ^ 24. static_capacity (comp_cfg cfg t) = Some C"
    "places_match (tlookup (ulookup c)) (length (uarrays c)) (ufs c)"
  using assms unfolding ucol_inv_def by blast+

lemma ufs_update: "t < length (uarrays c) \<Longrightarrow> ufs (c\<lparr>uarrays := (uarrays c)[t := f]\<rparr>) = (ufs c)(t := slots f)"
  by (auto simp: ufs_def fun_eq_iff)

lemma ufs_ulookup [simp]: "ufs (c\<lparr>ulookup := t\<rparr>) = ufs c" "ufs (c\<lparr>uarrays := as, ulookup := t\<rparr>) = ufs (c\<lparr>uarrays := as\<rparr>)"
  by (simp_all add: ufs_def fun_eq_iff)

lemma ucol_inv_update:
  assumes "ucol_inv cfg c" "t < length (uarrays c)" "free_inv (comp_cfg cfg t) f" "sound_table (lookup_cfg cfg) tab"
    "places_match (tlookup tab) (length (uarrays c)) ((ufs c)(t := slots f))"
  shows "ucol_inv cfg (c\<lparr>uarrays := (uarrays c)[t := f], ulookup := tab\<rparr>)"
proof -
  note d = ucol_invD [OF assms(1)]
  have "free_inv (comp_cfg cfg u) ((uarrays c)[t := f] ! u)" if "u < length (uarrays c)" for u
    using that d(3) assms(2,3) by (cases "u = t") auto
  then show ?thesis using d(2,4) assms(2,4,5) ufs_update [OF assms(2), of f] by (simp add: ucol_inv_def)
qed

text \<open>A full container of static capacity refuses and stays as it is.\<close>

lemma frag_full_static:
  assumes "static_capacity cfg = Some C" "\<not> fsize f < fcapacity cfg f"
  shows "frag_try_emplace cfg x f = Some (None, f)"
  using assms by (simp add: frag_try_emplace_def frag_try_reserve_def frag_try_reallocate_def)

lemma slots_bound: "free_inv cfg f \<Longrightarrow> slots f i = Some x \<Longrightarrow> i < fcapacity cfg f"
  using free_invD(1) [of cfg f] by (auto simp: slots_def split: if_splits)

text \<open>What an addition may answer: a place, and the map with the new entry, or null, and the map as it was.\<close>

definition uadds :: "col_cfg \<Rightarrow> (u64 \<rightharpoonup> nat \<times> 'c) \<Rightarrow> u64 \<Rightarrow> nat \<Rightarrow> 'c \<Rightarrow> nat \<Rightarrow> (nat option \<times> 'c ucol) option \<Rightarrow> bool" where
  "uadds cfg m k t x n res \<longleftrightarrow> (\<exists>r c'. res = Some (r, c') \<and> ucol_inv cfg c' \<and> length (uarrays c') = n \<and>
     uentry (tlookup (ulookup c')) (ufs c') = (if r = None then m else m(k \<mapsto> (t, x))))"

lemma uaddsI:
  "res = Some (None, c') \<Longrightarrow> ucol_inv cfg c' \<Longrightarrow> length (uarrays c') = n \<Longrightarrow>
   uentry (tlookup (ulookup c')) (ufs c') = m \<Longrightarrow> uadds cfg m k t x n res"
  "res = Some (Some i, c') \<Longrightarrow> ucol_inv cfg c' \<Longrightarrow> length (uarrays c') = n \<Longrightarrow>
   uentry (tlookup (ulookup c')) (ufs c') = m(k \<mapsto> (t, x)) \<Longrightarrow> uadds cfg m k t x n res"
  unfolding uadds_def by (rule exI [of _ None], rule exI [of _ c'], simp) (rule exI [of _ "Some i"], rule exI [of _ c'], simp)

text \<open>Adding under a key whose bucket is at hand: the table that results from filling the bucket is what the
  caller knows.\<close>

lemma ucol_add_ok:
  assumes i: "ucol_inv cfg c" and t: "t < length (uarrays c)" and k: "k \<noteq> 0" "tlookup (ulookup c) k = None"
    and f: "\<And>s. sound_table (lookup_cfg cfg) (fill_bucket b k s (ulookup c)) \<and>
      tlookup (fill_bucket b k s (ulookup c)) = (tlookup (ulookup c))(k \<mapsto> s)"
  shows "uadds cfg (uentry (tlookup (ulookup c)) (ufs c)) k t x (length (uarrays c)) (ucol_add_impl cfg t b k x c)"
proof -
  note d = ucol_invD [OF i]
  obtain C where C: "C \<le> 2 ^ 24" "static_capacity (comp_cfg cfg t) = Some C" using d(4) [OF t] by blast
  let ?f = "uarrays c ! t"
  show ?thesis
  proof (cases "fsize ?f < fcapacity (comp_cfg cfg t) ?f")
    case True
    obtain j f' where e: "frag_try_emplace (comp_cfg cfg t) x ?f = Some (Some j, f')" "free_inv (comp_cfg cfg t) f'"
      "slots ?f j = None" "slots f' = (slots ?f)(j \<mapsto> x)" using fr.emplace_law [OF d(3) [OF t] True, of x] by blast
    have "j < fcapacity (comp_cfg cfg t) f'" using slots_bound [OF e(2), of j x] e(4) by simp
    then have j: "j < 2 ^ 24" using C by (simp add: fcapacity_def)
    note p = places_match_add [OF d(5) d(2) k(2) t, of j x, unfolded ufs_def, OF e(3) j, folded ufs_def]
    let ?c = "c\<lparr>uarrays := (uarrays c)[t := f'], ulookup := fill_bucket b k (slot_set t j) (ulookup c)\<rparr>"
    have "ucol_add_impl cfg t b k x c = Some (Some j, ?c)" using e(1) by (simp add: ucol_add_impl_def)
    moreover have u: "(ufs c)(t := slots f') = (ufs c)(t := (ufs c t)(j \<mapsto> x))" using e(4) by (simp add: ufs_def)
    moreover have "ucol_inv cfg ?c"
      using f [of "slot_set t j"] p(1) u e(2) by (intro ucol_inv_update [OF i t]) (simp_all only: simp_thms)
    ultimately show ?thesis using f [of "slot_set t j"] p(2) ufs_update [OF t, of f']
      by (intro uaddsI(2) [of _ j ?c]) simp_all
  next
    case False
    have "frag_try_emplace (comp_cfg cfg t) x ?f = Some (None, ?f)" by (rule frag_full_static [OF C(2) False])
    then have "ucol_add_impl cfg t b k x c = Some (None, c)" by (simp add: ucol_add_impl_def)
    then show ?thesis using i by (rule uaddsI(1)) simp_all
  qed
qed

lemma ucol_inv_lookup:
  assumes "ucol_inv cfg c" "sound_table (lookup_cfg cfg) tab" "tlookup tab = tlookup (ulookup c)"
  shows "ucol_inv cfg (c\<lparr>ulookup := tab\<rparr>)"
  using ucol_invD [OF assms(1)] assms(2,3) by (simp add: ucol_inv_def)

lemma ucol_place_add_ok:
  assumes i: "ucol_inv cfg c" and t: "t < length (uarrays c)" and k: "k \<noteq> 0" "tlookup (ulookup c) k = None"
    and p: "try_place (lookup_cfg cfg) 0 k (ulookup c) = (Some b, tab)"
  shows "uadds cfg (uentry (tlookup (ulookup c)) (ufs c)) k t x (length (uarrays c))
    (ucol_add_impl cfg t b k x (c\<lparr>ulookup := tab\<rparr>))"
proof -
  note d = ucol_invD [OF i]
  note tab = lt.place_law [OF d(1) p]
  have "ucol_inv cfg (c\<lparr>ulookup := tab\<rparr>)" using ucol_inv_lookup [OF i] tab by blast
  from ucol_add_ok [OF this, of t k b x] show ?thesis
    using lt.fill_law [OF d(1) k p] tab t k by simp
qed

lemma ucol_place_ok:
  assumes i: "ucol_inv cfg c" and t: "t < length (uarrays c)" and k: "k \<noteq> 0" "tlookup (ulookup c) k = None"
  shows "uadds cfg (uentry (tlookup (ulookup c)) (ufs c)) k t x (length (uarrays c))
    (case try_place (lookup_cfg cfg) 0 k (ulookup c) of
      (None, t') \<Rightarrow> Some (None, c\<lparr>ulookup := t'\<rparr>)
    | (Some bucket, t') \<Rightarrow> ucol_add_impl cfg t bucket k x (c\<lparr>ulookup := t'\<rparr>))"
proof -
  note d = ucol_invD [OF i]
  obtain r tab where p: "try_place (lookup_cfg cfg) 0 k (ulookup c) = (r, tab)" by fastforce
  show ?thesis
  proof (cases r)
    case None
    then show ?thesis using p lt.place_law [OF d(1) p] ucol_inv_lookup [OF i, of tab]
      by (intro uaddsI(1) [of _ "c\<lparr>ulookup := tab\<rparr>"]) simp_all
  next
    case (Some b)
    then show ?thesis using p ucol_place_add_ok [OF i t k p [unfolded Some], of x] by simp
  qed
qed

lemma ucol_find_entry:
  assumes "ucol_inv cfg c" "k \<noteq> 0"
  shows "ucol_find k c = None \<longleftrightarrow> tlookup (ulookup c) k = None"
    "uentry (tlookup (ulookup c)) (ufs c) k = None \<longleftrightarrow> tlookup (ulookup c) k = None"
proof -
  note d = ucol_invD [OF assms(1)]
  show "ucol_find k c = None \<longleftrightarrow> tlookup (ulookup c) k = None"
    using lt.bucket_law [OF d(1) assms(2)] by (simp add: ucol_find_def)
  show "uentry (tlookup (ulookup c)) (ufs c) k = None \<longleftrightarrow> tlookup (ulookup c) k = None"
    using places_matchD(2) [OF d(5), of k] by (cases "tlookup (ulookup c) k") (auto simp: uentry_def)
qed

lemma ucol_emplace_ok:
  assumes i: "ucol_inv cfg c" and t: "t < length (uarrays c)" and k: "k \<noteq> 0"
  shows "if tlookup (ulookup c) k = None
    then uadds cfg (uentry (tlookup (ulookup c)) (ufs c)) k t x (length (uarrays c)) (ucol_emplace cfg t k x c)
    else ucol_emplace cfg t k x c = Some (None, c)"
  using ucol_place_ok [OF i t k, of x] ucol_find_entry(1) [OF i k] by (simp add: ucol_emplace_def)

lemma ucol_remove_ok:
  assumes i: "ucol_inv cfg c" and k: "k \<noteq> 0" and b: "ucol_find k c = Some b"
  shows "\<exists>c'. ucol_remove_impl cfg b c = Some c' \<and> ucol_inv cfg c' \<and> length (uarrays c') = length (uarrays c) \<and>
    ulookup c' = empty_bucket b (ulookup c) \<and>
    uentry (tlookup (ulookup c')) (ufs c') = (uentry (tlookup (ulookup c)) (ufs c))(k := None)"
proof -
  note d = ucol_invD [OF i]
  have fb: "find_bucket k (tkeys (ulookup c)) = Some b" using b by (simp add: ucol_find_def)
  note s = find_bucket_slot [OF d(1) k fb]
  define t where "t = slot_get_type (tslots (ulookup c) ! b)"
  define j where "j = slot_get_index (tslots (ulookup c) ! b)"
  have t: "t < length (uarrays c)" using places_matchD(1) [OF d(5) s(1)] by (simp add: t_def)
  obtain x where x: "slots (uarrays c ! t) j = Some x"
    using places_matchD(2) [OF d(5) s(1)] by (auto simp: t_def j_def ufs_def)
  obtain f' where e: "frag_try_erase (comp_cfg cfg t) j (uarrays c ! t) = Some (True, f')" "free_inv (comp_cfg cfg t) f'"
    "slots f' = (slots (uarrays c ! t))(j := None)" using fr.free_law [OF d(3) [OF t] x] by blast
  have j: "j < fcapacity (comp_cfg cfg t) (uarrays c ! t)" by (rule slots_bound [OF d(3) [OF t] x])
  note v = lt.vacate_law [OF d(1) k fb]
  note p = places_match_remove [OF d(5) d(2) s(1) t_def j_def]
  let ?c = "c\<lparr>uarrays := (uarrays c)[t := f'], ulookup := empty_bucket b (ulookup c)\<rparr>"
  have u: "(ufs c)(t := slots f') = (ufs c)(t := (ufs c t)(j := None))" using e(3) by (simp add: ufs_def)
  have "ucol_remove_impl cfg b c = Some ?c"
    using s(2) t d(2) j e(1) by (simp add: ucol_remove_impl_def ucol_remove_impl_case_def Let_def flip: t_def j_def)
  moreover have "ucol_inv cfg ?c" using v p(1) u e(2) by (intro ucol_inv_update [OF i t]) (simp_all only: simp_thms)
  ultimately show ?thesis using v p(2) u ufs_update [OF t, of f'] by (intro exI [of _ ?c]) simp
qed

lemma ucol_get_ok:
  assumes i: "ucol_inv cfg c" and k: "k \<noteq> 0" and b: "ucol_find k c = Some b"
    and e: "uentry (tlookup (ulookup c)) (ufs c) k = Some (t, x)"
  shows "ucol_get u (Some b) c = Some (if u = t then Some x else None)" "ucol_contains u (Some b) c = Some (u = t)"
proof -
  note d = ucol_invD [OF i]
  note s = find_bucket_slot [OF d(1) k b [unfolded ucol_find_def]]
  let ?s = "tslots (ulookup c) ! b"
  have t: "t = slot_get_type ?s" "slots (uarrays c ! t) (slot_get_index ?s) = Some x"
    using e s(1) by (auto simp: uentry_def ufs_def)
  then show "ucol_get u (Some b) c = Some (if u = t then Some x else None)"
    using s(2) by (auto simp: ucol_get_def Let_def frag_at_slots)
  show "ucol_contains u (Some b) c = Some (u = t)" using s(2) t(1) by (auto simp: ucol_contains_def)
qed

lemma ucol_replace_ok:
  assumes i: "ucol_inv cfg c" and t: "t < length (uarrays c)" and k: "k \<noteq> 0"
  shows "uadds cfg ((uentry (tlookup (ulookup c)) (ufs c))(k := None)) k t x (length (uarrays c)) (ucol_replace cfg t k x c)"
proof (cases "ucol_find k c")
  case None
  then have n: "tlookup (ulookup c) k = None" "uentry (tlookup (ulookup c)) (ufs c) k = None"
    using ucol_find_entry [OF i k] by simp_all
  then have "(uentry (tlookup (ulookup c)) (ufs c))(k := None) = uentry (tlookup (ulookup c)) (ufs c)"
    by (simp add: fun_upd_idem)
  then show ?thesis using ucol_place_ok [OF i t k n(1), of x] None by (simp add: ucol_replace_def)
next
  case (Some b)
  note d = ucol_invD [OF i]
  obtain c' where c': "ucol_remove_impl cfg b c = Some c'" "ucol_inv cfg c'" "length (uarrays c') = length (uarrays c)"
    "ulookup c' = empty_bucket b (ulookup c)"
    "uentry (tlookup (ulookup c')) (ufs c') = (uentry (tlookup (ulookup c)) (ufs c))(k := None)"
    using ucol_remove_ok [OF i k Some] by blast
  have ok: "table_ok (ulookup c)" "b < length (tkeys (ulookup c))" "tkeys (ulookup c) ! b = k"
    using d(1) Some find_bucket_iff [of "ulookup c" k b] k by (auto simp: sound_table_def ucol_find_def)
  have ok': "table_ok (ulookup c')" "tlookup (ulookup c') k = None" "table_cfg (lookup_cfg cfg)"
    using c'(2,4) ucol_invD(1) [OF c'(2)] lt.vacate_law [OF d(1) k, of b] Some by (auto simp: sound_table_def ucol_find_def)
  have b: "b < length (tkeys (ulookup c'))" "tkeys (ulookup c') ! b = 0" "\<exists>j\<le>4. b = probe k (length (tkeys (ulookup c'))) j"
    using table_okD(3) [OF ok(1,2)] ok k c'(4) by (simp_all add: empty_bucket_def)
  have "sound_table (lookup_cfg cfg) (fill_bucket b k s (ulookup c')) \<and>
      tlookup (fill_bucket b k s (ulookup c')) = (tlookup (ulookup c'))(k \<mapsto> s)" for s
    using table_put [OF ok'(1) k ok'(2) b, of s] ok'(3) by (simp add: fill_bucket_def sound_table_def)
  from ucol_add_ok [OF c'(2) _ k ok'(2) this, of t x] show ?thesis
    using c' t Some by (simp add: ucol_replace_def)
qed

text \<open>The contract of a collection, for containers of static capacity.\<close>

definition ucol_rep :: "col_cfg \<Rightarrow> 'c ucol \<Rightarrow> (u64 \<rightharpoonup> nat \<times> 'c) \<Rightarrow> bool" where
  "ucol_rep cfg c m \<longleftrightarrow> ucol_inv cfg c \<and> m = uentry (tlookup (ulookup c)) (ufs c)"

definition ucol_type :: "nat \<Rightarrow> 'c ucol \<Rightarrow> bool" where
  "ucol_type t c \<longleftrightarrow> t < length (uarrays c)"

interpretation um: component_map "ucol_rep cfg" ucol_type ucol_find ucol_get "ucol_emplace cfg" "ucol_erase cfg" for cfg
proof unfold_locales
  fix c :: "'a ucol" and m and k :: u64
  assume "ucol_rep cfg c m" "k \<noteq> 0"
  then show "ucol_find k c = None \<longleftrightarrow> m k = None" using ucol_find_entry [of cfg c k] by (simp add: ucol_rep_def)
next
  fix c :: "'a ucol" and m and k :: u64 and t x u
  assume h: "ucol_rep cfg c m" "k \<noteq> 0" "m k = Some (t, x)"
  then obtain b where "ucol_find k c = Some b" using ucol_find_entry [of cfg c k] by (auto simp: ucol_rep_def)
  then show "ucol_get u (ucol_find k c) c = Some (if u = t then Some x else None)"
    using ucol_get_ok(1) [of cfg c k b t x u] h by (simp add: ucol_rep_def)
next
  fix c :: "'a ucol" and m and k :: u64 and t x
  assume h: "ucol_rep cfg c m" "k \<noteq> 0" "ucol_type t c"
  then have i: "ucol_inv cfg c" "t < length (uarrays c)" by (simp_all add: ucol_rep_def ucol_type_def)
  show "\<exists>r c'. ucol_emplace cfg t k x c = Some (r, c') \<and>
      (if r = None then ucol_rep cfg c' m else m k = None \<and> ucol_rep cfg c' (m(k \<mapsto> (t, x))))"
  proof (cases "tlookup (ulookup c) k = None")
    case True
    then have "m k = None" using h(1) by (simp add: ucol_rep_def uentry_def)
    moreover obtain r c' where "ucol_emplace cfg t k x c = Some (r, c')" "ucol_inv cfg c'"
      "uentry (tlookup (ulookup c')) (ufs c') = (if r = None then m else m(k \<mapsto> (t, x)))"
      using ucol_emplace_ok [OF i h(2), of x] True h(1) by (auto simp: uadds_def ucol_rep_def)
    ultimately show ?thesis by (intro exI [of _ r] exI [of _ c']) (simp add: ucol_rep_def)
  next
    case False
    then show ?thesis using ucol_emplace_ok [OF i h(2), of x] h(1) by auto
  qed
next
  fix c :: "'a ucol" and m and k :: u64
  assume h: "ucol_rep cfg c m" "k \<noteq> 0" "m k \<noteq> None"
  then have i: "ucol_inv cfg c" by (simp add: ucol_rep_def)
  obtain b where b: "ucol_find k c = Some b" using ucol_find_entry [OF i h(2)] h(1,3) by (auto simp: ucol_rep_def)
  then show "\<exists>c'. ucol_erase cfg (ucol_find k c) c = Some c' \<and> ucol_rep cfg c' (m(k := None))"
    using ucol_remove_ok [OF i h(2) b] h(1) by (auto simp: ucol_erase_def ucol_rep_def)
qed

section \<open>Properties\<close>

text \<open>An unordered collection over containers of static capacity keeps the same contract as a collection: it is a
  map from keys to components, an emplace adds exactly its entry or refuses, and an erase takes exactly its entry out
  and undoes the emplace.\<close>
theorem unordered_collection_emplace:
  assumes "ucol_rep cfg c m" "k \<noteq> 0" "ucol_type t c"
  shows "\<exists>r c'. ucol_emplace cfg t k x c = Some (r, c') \<and>
    (case r of
       None \<Rightarrow> ucol_rep cfg c' m
     | Some i \<Rightarrow> m k = None \<and> ucol_rep cfg c' (m(k \<mapsto> (t, x))) \<and> ucol_get t (ucol_find k c') c' = Some (Some x) \<and>
         (\<exists>c''. ucol_erase cfg (ucol_find k c') c' = Some c'' \<and> ucol_rep cfg c'' m))"
proof -
  obtain r c' where e: "ucol_emplace cfg t k x c = Some (r, c')"
    "if r = None then ucol_rep cfg c' m else m k = None \<and> ucol_rep cfg c' (m(k \<mapsto> (t, x)))" using um.add_law [OF assms] by blast
  show ?thesis
  proof (cases r)
    case (Some i)
    then show ?thesis using e um.add_read(1) [OF assms, of x i c'] um.add_remove [OF assms, of x i c'] by auto
  qed (use e in simp)
qed

text \<open>Replacing the component of a key gives the key the new component if there is a place for it, and leaves the key
  without a component if there is none, also when it had one; no other key changes.\<close>
theorem unordered_collection_replace:
  assumes "ucol_rep cfg c m" "k \<noteq> 0" "ucol_type t c"
  shows "\<exists>r c'. ucol_replace cfg t k x c = Some (r, c') \<and>
    ucol_rep cfg c' (case r of None \<Rightarrow> m(k := None) | Some i \<Rightarrow> m(k \<mapsto> (t, x)))"
proof -
  have i: "ucol_inv cfg c" "t < length (uarrays c)" "m = uentry (tlookup (ulookup c)) (ufs c)"
    using assms by (simp_all add: ucol_rep_def ucol_type_def)
  obtain r c' where "ucol_replace cfg t k x c = Some (r, c')" "ucol_inv cfg c'"
    "uentry (tlookup (ulookup c')) (ufs c') = (if r = None then m(k := None) else m(k \<mapsto> (t, x)))"
    using ucol_replace_ok [OF i(1,2) assms(2), of x] i(3) by (auto simp: uadds_def)
  then show ?thesis by (intro exI [of _ r] exI [of _ c']) (auto simp: ucol_rep_def split: option.splits)
qed

lemma ucol_new_rep:
  assumes "table_cfg (lookup_cfg cfg)" "n \<le> 128" "\<forall>t < n. \<exists>C \<le> 2 ^ 24. static_capacity (comp_cfg cfg t) = Some C"
  shows "ucol_rep cfg (ucol_new cfg n :: 'a ucol) Map.empty"
proof -
  have f: "free_inv (comp_cfg cfg t) (frag_new (comp_cfg cfg t) 0 :: 'a frag)" if "t < n" for t
    using assms(3) that by (intro used_invD(1) frag_new_inv) auto
  have "tlookup (table_new (lookup_cfg cfg) (0 :: u32)) = Map.empty" by (rule table_new_ok(2) [OF assms(1)])
  then have "ucol_inv cfg (ucol_new cfg n :: 'a ucol)"
    using f assms table_new_ok(1) [OF assms(1), of "0 :: u32"]
    by (simp add: ucol_inv_def ucol_new_def sound_table_def places_match_def ufs_def frag_new_empty)
  then show ?thesis using table_new_ok(2) [OF assms(1), of "0 :: u32"]
    by (auto simp: ucol_rep_def ucol_new_def uentry_def fun_eq_iff)
qed

lemma demo_ucol: "ucol_rep demo_cfg (ucol_new demo_cfg 1) Map.empty" "ucol_type 0 (ucol_new demo_cfg 1)"
proof -
  show "ucol_rep demo_cfg (ucol_new demo_cfg 1) Map.empty"
    by (rule ucol_new_rep) (simp_all add: demo_cfg_def table_cfg_def table_bound_def)
  show "ucol_type 0 (ucol_new demo_cfg 1)" by (simp add: ucol_type_def ucol_new_def)
qed

theorem unordered_collection_emplace_witness:
  "\<exists>r c'. ucol_emplace demo_cfg 0 6 (8 :: nat) (ucol_new demo_cfg 1) = Some (r, c') \<and>
    (case r of
       None \<Rightarrow> ucol_rep demo_cfg c' Map.empty
     | Some i \<Rightarrow> (Map.empty :: u64 \<rightharpoonup> nat \<times> nat) 6 = None \<and> ucol_rep demo_cfg c' (Map.empty(6 \<mapsto> (0, 8))) \<and>
         ucol_get 0 (ucol_find 6 c') c' = Some (Some 8) \<and>
         (\<exists>c''. ucol_erase demo_cfg (ucol_find 6 c') c' = Some c'' \<and> ucol_rep demo_cfg c'' Map.empty))"
  by (rule unordered_collection_emplace [OF demo_ucol(1) _ demo_ucol(2)]) simp

theorem unordered_collection_replace_witness:
  "\<exists>r c'. ucol_replace demo_cfg 0 6 (8 :: nat) (ucol_new demo_cfg 1) = Some (r, c') \<and>
    ucol_rep demo_cfg c' (case r of None \<Rightarrow> Map.empty(6 := None) | Some i \<Rightarrow> Map.empty(6 \<mapsto> (0, 8)))"
  by (rule unordered_collection_replace [OF demo_ucol(1) _ demo_ucol(2)]) simp

end
