(* ===== verification/Multi_Collection.thy ===== *)
theory Multi_Collection
  imports Collection
begin

text \<open>
  \<^verbatim>\<open>MultiCollection\<close> of \<^verbatim>\<open>core/container/Collection.hpp\<close>: at most one component of each type under a key.  The
  table is the one of the other collections, with a larger slot: a bit for every type, and for every type the
  place of the component in the dense array of that type, in 16 bits.  A key leaves the table with its last
  component.

  Component types are numbers.  For a type \<open>t\<close> the slots give a partial map from keys to places, and the array is
  a list of components with their keys; the invariant says that the two are inverse to each other.
\<close>

section \<open>Slots\<close>

record mslot =
  type_mask :: u64
  indices :: "u16 list"

definition mslot_zero :: "nat \<Rightarrow> mslot" where
  "mslot_zero ntypes = \<lparr>type_mask = 0, indices = replicate ntypes 0\<rparr>"

definition mslot_empty :: "mslot \<Rightarrow> bool" where
  "mslot_empty s \<longleftrightarrow> type_mask s = 0"

definition mslot_empty_at :: "nat \<Rightarrow> mslot \<Rightarrow> bool" where
  "mslot_empty_at type s \<longleftrightarrow> type_mask s AND push_bit type 1 = 0"

definition mslot_get_index :: "nat \<Rightarrow> mslot \<Rightarrow> nat" where
  "mslot_get_index type s = unat (indices s ! type)"

definition mslot_clear :: "nat \<Rightarrow> mslot \<Rightarrow> mslot" where
  "mslot_clear type s = s\<lparr>type_mask := type_mask s AND NOT (push_bit type 1)\<rparr>"

definition mslot_set_index :: "nat \<Rightarrow> nat \<Rightarrow> mslot \<Rightarrow> mslot" where
  "mslot_set_index type index s = s\<lparr>indices := (indices s)[type := word_of_nat index]\<rparr>"

definition mslot_set :: "nat \<Rightarrow> nat \<Rightarrow> mslot \<Rightarrow> mslot" where
  "mslot_set type index s = s\<lparr>type_mask := type_mask s OR push_bit type 1, indices := (indices s)[type := word_of_nat index]\<rparr>"

section \<open>Operations\<close>

record 'c mcol =
  mlookup :: "mslot table"
  marrays :: "('c \<times> u64) vec list"

definition mcol_new :: "col_cfg \<Rightarrow> nat \<Rightarrow> 'c mcol" where
  "mcol_new cfg ntypes =
    \<lparr>mlookup = table_new (lookup_cfg cfg) (mslot_zero ntypes), marrays = map (\<lambda>t. vec_new (comp_cfg cfg t) 0) [0..<ntypes]\<rparr>"

definition mcol_find :: "u64 \<Rightarrow> 'c mcol \<Rightarrow> nat option" where
  "mcol_find key c = find_bucket key (tkeys (mlookup c))"

definition mcol_contains :: "nat \<Rightarrow> nat option \<Rightarrow> 'c mcol \<Rightarrow> bool option" where
  "mcol_contains type it c = (case it of
     None \<Rightarrow> Some False
   | Some b \<Rightarrow> if b < length (tslots (mlookup c)) then Some (\<not> mslot_empty_at type (tslots (mlookup c) ! b)) else None)"

definition mcol_get :: "nat \<Rightarrow> nat option \<Rightarrow> 'c mcol \<Rightarrow> 'c option option" where
  "mcol_get type it c = (case it of
     None \<Rightarrow> Some None
   | Some b \<Rightarrow>
       if b < length (tslots (mlookup c)) then
         (let slot = tslots (mlookup c) ! b in
          if mslot_empty_at type slot then Some None
          else do { (x, _) \<leftarrow> at (mslot_get_index type slot) (marrays c ! type); Some (Some x) })
       else None)"

definition mcol_get_all :: "nat \<Rightarrow> 'c mcol \<Rightarrow> 'c list option" where
  "mcol_get_all type c = (let a = marrays c ! type in
     those (map (\<lambda>i. map_option fst (at i a)) [0..<vsize a]))"

definition mcol_key_of :: "nat \<Rightarrow> nat \<Rightarrow> 'c mcol \<Rightarrow> u64 option" where
  "mcol_key_of type index c = (let a = marrays c ! type in
     if \<not> index < vsize a then Some 0 else map_option snd (at index a))"

definition mcol_get_key :: "nat option \<Rightarrow> 'c mcol \<Rightarrow> u64 option" where
  "mcol_get_key it c = (case it of
     None \<Rightarrow> Some 0
   | Some b \<Rightarrow> if b < length (tkeys (mlookup c)) then Some (tkeys (mlookup c) ! b) else None)"

text \<open>Unlike in the other collections, a key may be placed that is in the table already.\<close>

definition mcol_try_place :: "col_cfg \<Rightarrow> nat \<Rightarrow> u64 \<Rightarrow> mslot table \<Rightarrow> nat option \<times> mslot table" where
  "mcol_try_place cfg ntypes key t = (case find_bucket key (tkeys t) of
     Some b \<Rightarrow> (Some b, t)
   | None \<Rightarrow> try_place (lookup_cfg cfg) (mslot_zero ntypes) key t)"

definition mcol_emplace :: "col_cfg \<Rightarrow> nat \<Rightarrow> u64 \<Rightarrow> 'c \<Rightarrow> 'c mcol \<Rightarrow> (nat option \<times> 'c mcol) option" where
  "mcol_emplace cfg type key x c = (case mcol_try_place cfg (length (marrays c)) key (mlookup c) of
     (None, t) \<Rightarrow> Some (None, c\<lparr>mlookup := t\<rparr>)
   | (Some bucket, t) \<Rightarrow>
       if \<not> mslot_empty_at type (tslots t ! bucket) then Some (None, c\<lparr>mlookup := t\<rparr>)
       else (let array = marrays c ! type; index = vsize array in do {
         (ok, array) \<leftarrow> try_emplace_back (comp_cfg cfg type) (x, key) array;
         let c = c\<lparr>mlookup := t, marrays := (marrays c)[type := array]\<rparr>;
         if \<not> ok then Some (None, c)
         else Some (Some index, c\<lparr>mlookup := fill_bucket bucket key (mslot_set type index (tslots t ! bucket)) t\<rparr>) }))"

definition mcol_remove_at_impl :: "nat \<Rightarrow> nat \<Rightarrow> nat \<Rightarrow> 'c mcol \<Rightarrow> 'c mcol option" where
  "mcol_remove_at_impl type bucket index c = (
    let array = marrays c ! type; last_index = vsize array - 1 in do {
    (_, last_key) \<leftarrow> at last_index array;
    last_bucket \<leftarrow> mcol_find last_key c;
    let t = set_slot last_bucket (mslot_set_index type index (tslots (mlookup c) ! last_bucket)) (mlookup c);
    let t = set_slot bucket (mslot_clear type (tslots t ! bucket)) t;
    let t = (if mslot_empty (tslots t ! bucket) then empty_bucket bucket t else t);
    array \<leftarrow> erase index array;
    Some (c\<lparr>mlookup := t, marrays := (marrays c)[type := array]\<rparr>) })"

definition mcol_erase :: "nat \<Rightarrow> nat option \<Rightarrow> 'c mcol \<Rightarrow> 'c mcol option" where
  "mcol_erase type it c = (case it of
     None \<Rightarrow> Some c
   | Some b \<Rightarrow>
       if b < length (tslots (mlookup c)) then
         (let slot = tslots (mlookup c) ! b in
          if mslot_empty_at type slot then Some c
          else mcol_remove_at_impl type b (mslot_get_index type slot) c)
       else None)"

text \<open>\<^verbatim>\<open>erase(it)\<close> goes through the types in order.\<close>

fun mcol_remove_impl :: "nat \<Rightarrow> nat list \<Rightarrow> 'c mcol \<Rightarrow> 'c mcol option" where
  "mcol_remove_impl b [] c = Some c"
| "mcol_remove_impl b (type # types) c = do {
    c \<leftarrow> (let slot = tslots (mlookup c) ! b in
      if \<not> mslot_empty_at type slot then mcol_remove_at_impl type b (mslot_get_index type slot) c else Some c);
    mcol_remove_impl b types c }"

definition mcol_erase_all :: "nat option \<Rightarrow> 'c mcol \<Rightarrow> 'c mcol option" where
  "mcol_erase_all it c = (case it of
     None \<Rightarrow> Some c
   | Some b \<Rightarrow> if b < length (tslots (mlookup c)) then mcol_remove_impl b [0..<length (marrays c)] c else None)"

text \<open>\<^verbatim>\<open>call\<close>: the function gets the key and a reference to each component; \<open>'s\<close> is what it keeps between the calls.\<close>

fun mcol_call_all_impl :: "(nat \<Rightarrow> u64 \<Rightarrow> 'c \<Rightarrow> 's \<Rightarrow> 'c \<times> 's) \<Rightarrow> nat \<Rightarrow> nat list \<Rightarrow> 'c mcol \<Rightarrow> 's \<Rightarrow> ('c mcol \<times> 's) option" where
  "mcol_call_all_impl func b [] c st = Some (c, st)"
| "mcol_call_all_impl func b (type # types) c st = do {
    (c, st) \<leftarrow> (let slot = tslots (mlookup c) ! b; index = mslot_get_index type slot in
      if \<not> mslot_empty_at type slot then do {
        (x, k) \<leftarrow> at index (marrays c ! type);
        let (x', st) = func type (tkeys (mlookup c) ! b) x st;
        array \<leftarrow> vec_write index (x', k) (marrays c ! type);
        Some (c\<lparr>marrays := (marrays c)[type := array]\<rparr>, st) }
      else Some (c, st));
    mcol_call_all_impl func b types c st }"

definition mcol_call :: "(nat \<Rightarrow> u64 \<Rightarrow> 'c \<Rightarrow> 's \<Rightarrow> 'c \<times> 's) \<Rightarrow> nat option \<Rightarrow> 'c mcol \<Rightarrow> 's \<Rightarrow> ('c mcol \<times> 's) option" where
  "mcol_call func it c st = (case it of
     None \<Rightarrow> Some (c, st)
   | Some b \<Rightarrow> if b < length (tslots (mlookup c)) then mcol_call_all_impl func b [0..<length (marrays c)] c st else None)"

section \<open>Slots as maps from types to places\<close>

definition mslot_at :: "nat \<Rightarrow> mslot \<Rightarrow> nat option" where
  "mslot_at t s = (if bit (type_mask s) t then Some (mslot_get_index t s) else None)"

lemma mslot_empty_at_bit [simp]: "mslot_empty_at t s \<longleftrightarrow> \<not> bit (type_mask s) t"
  by (simp add: mslot_empty_at_def bit_iff_and_push_bit_not_eq_0)

definition mslot_shape :: "nat \<Rightarrow> u64 \<Rightarrow> mslot \<Rightarrow> bool" where
  "mslot_shape n k s \<longleftrightarrow> length (indices s) = n \<and> (type_mask s = 0 \<longleftrightarrow> k = 0) \<and> (\<forall>t. bit (type_mask s) t \<longrightarrow> t < n)"

lemma bit_type_mask_set: "n \<le> 64 \<Longrightarrow> t < n \<Longrightarrow> bit (type_mask (mslot_set t i s)) u \<longleftrightarrow> u = t \<or> bit (type_mask s) u"
  by (auto simp: mslot_set_def bit_simps)

lemma bit_type_mask_clear: "bit (type_mask (mslot_clear t s)) u \<longleftrightarrow> u \<noteq> t \<and> bit (type_mask s) u"
  by (auto simp: mslot_clear_def bit_simps dest: bit_imp_le_length)

lemma mask_zero_iff: "w = 0 \<longleftrightarrow> (\<forall>u. \<not> bit w u)" for w :: u64
proof
  assume "\<forall>u. \<not> bit w u"
  then show "w = 0" by (intro bit_word_eqI) simp
qed simp

lemma mslot_at_set:
  assumes "n \<le> 64" "t < n" "length (indices s) = n" "i < 2 ^ 16"
  shows "mslot_at u (mslot_set t i s) = (if u = t then Some i else mslot_at u s)"
proof -
  have "unat (word_of_nat i :: u16) = i" using assms(4) by simp
  then show ?thesis using bit_type_mask_set [OF assms(1,2), of i s u] assms(2,3)
    by (simp add: mslot_at_def mslot_get_index_def) (simp add: mslot_set_def)
qed

lemma mslot_at_clear: "mslot_at u (mslot_clear t s) = (if u = t then None else mslot_at u s)"
  by (simp add: mslot_at_def bit_type_mask_clear) (simp add: mslot_get_index_def mslot_clear_def)

lemma mslot_at_set_index:
  assumes "t < length (indices s)" "i < 2 ^ 16" "bit (type_mask s) t"
  shows "mslot_at u (mslot_set_index t i s) = (if u = t then Some i else mslot_at u s)"
proof -
  have "unat (word_of_nat i :: u16) = i" using assms(2) by simp
  then show ?thesis using assms(1,3) by (simp add: mslot_at_def mslot_get_index_def mslot_set_index_def)
qed

lemma mslot_shape_zero: "mslot_shape n 0 (mslot_zero n)"
  by (simp add: mslot_shape_def mslot_zero_def)

lemma mslot_shape_set:
  assumes "n \<le> 64" "t < n" "mslot_shape n k0 s" "k \<noteq> 0"
  shows "mslot_shape n k (mslot_set t i s)"
proof -
  note b = bit_type_mask_set [OF assms(1,2), of i s]
  have "type_mask (mslot_set t i s) \<noteq> 0" using b [of t] by (auto simp: mask_zero_iff)
  moreover have "length (indices (mslot_set t i s)) = n" using assms(3) by (simp add: mslot_shape_def mslot_set_def)
  ultimately show ?thesis using assms b by (auto simp: mslot_shape_def)
qed

lemma mslot_shape_set_index: "mslot_shape n k s \<Longrightarrow> mslot_shape n k (mslot_set_index t i s)"
  by (simp add: mslot_shape_def mslot_set_index_def)

lemma mslot_shape_clear:
  assumes "mslot_shape n k s" "k \<noteq> 0"
  shows "mslot_shape n (if mslot_empty (mslot_clear t s) then 0 else k) (mslot_clear t s)"
  using assms bit_type_mask_clear [of t s] by (auto simp: mslot_shape_def mslot_empty_def) (simp_all add: mslot_clear_def)

section \<open>Tables whose buckets all satisfy a predicate\<close>

definition buckets_all :: "(u64 \<Rightarrow> 's \<Rightarrow> bool) \<Rightarrow> 's table \<Rightarrow> bool" where
  "buckets_all R t \<longleftrightarrow> list_all2 R (tkeys t) (tslots t)"

lemma buckets_all_nth: "buckets_all R t \<Longrightarrow> b < length (tkeys t) \<Longrightarrow> R (tkeys t ! b) (tslots t ! b)"
  by (simp add: buckets_all_def list_all2_nthD)

lemma buckets_all_fill: "buckets_all R t \<Longrightarrow> R k s \<Longrightarrow> buckets_all R (fill_bucket b k s t)"
  by (simp add: buckets_all_def fill_bucket_def list_all2_update_cong)

lemma buckets_all_zero: "R 0 z \<Longrightarrow> buckets_all R (table_zero z n)"
  by (simp add: buckets_all_def table_zero_def list_all2_conv_all_nth)

lemma buckets_all_rehash:
  "rehash_from old new = Some t \<Longrightarrow> \<forall>(s, k) \<in> set old. R k s \<Longrightarrow> buckets_all R new \<Longrightarrow> buckets_all R t"
proof (induction old new rule: rehash_from.induct)
  case (2 s k old new)
  show ?case
  proof (cases "k = 0")
    case False
    then obtain b where b: "find_empty_bucket k (tkeys new) = Some b" "rehash_from old (fill_bucket b k s new) = Some t"
      using 2(3) by (auto simp: fill_bucket_def split: option.splits)
    show ?thesis
      using 2(2) [OF False b(1) b(2) [unfolded fill_bucket_def]] buckets_all_fill [OF 2(5), of k s b] 2(4)
      by (simp add: fill_bucket_def)
  qed (use 2 in auto)
qed simp

lemma buckets_all_relocate:
  assumes "relocate_rehash z n t = Some t'" "buckets_all R t" "R 0 z"
  shows "buckets_all R t'"
proof -
  have "\<forall>(s, k) \<in> set (zip (tslots t) (tkeys t)). R k s"
    using assms(2) by (auto simp: buckets_all_def list_all2_conv_all_nth in_set_zip)
  then show ?thesis
    using buckets_all_rehash [OF assms(1) [unfolded relocate_rehash_def]] buckets_all_zero [of R z n] assms(3) by blast
qed

lemma buckets_all_reserve:
  assumes "array_try_reserve cfg z n t = (ok, t')" "buckets_all R t" "R 0 z"
  shows "buckets_all R t'"
proof (cases "t' = t \<or> relocate_rehash z (reserve_nonempty cfg n) t = Some t'")
  case True
  then show ?thesis using buckets_all_relocate [of z _ t t' R] assms(2,3) by auto
next
  case False
  then have False using assms(1)
    unfolding array_try_reserve_def array_try_reallocate_def Let_def
    by (auto split: if_splits option.splits)
  then show ?thesis ..
qed

lemma buckets_all_place: "try_place cfg z k t = (r, t') \<Longrightarrow> buckets_all R t \<Longrightarrow> R 0 z \<Longrightarrow> buckets_all R t'"
proof (induction cfg z k t rule: try_place.induct)
  case (1 cfg z key t)
  obtain ok t1 where a: "array_try_reserve cfg z (Suc (length (tkeys t))) t = (ok, t1)" by fastforce
  note t1 = buckets_all_reserve [OF a 1(3,4)]
  show ?case
  proof (cases "find_empty_bucket key (tkeys t) = None \<and> ok")
    case True
    then show ?thesis using 1(1) [of ok t1] 1(2,4) a t1 by (simp add: try_place.simps [of cfg z key t])
  next
    case False
    then show ?thesis using 1(2,3) a t1 by (auto simp: try_place.simps [of cfg z key t] split: option.splits)
  qed
qed

section \<open>Places and arrays\<close>

text \<open>The places the slots give for one type, and the array of that type, are inverse to each other.\<close>

definition indexed :: "(u64 \<rightharpoonup> nat) \<Rightarrow> ('c \<times> u64) list \<Rightarrow> bool" where
  "indexed P a \<longleftrightarrow> (\<forall>k i. P k = Some i \<longleftrightarrow> i < length a \<and> snd (a ! i) = k)"

definition content :: "(u64 \<rightharpoonup> nat) \<Rightarrow> ('c \<times> u64) list \<Rightarrow> u64 \<rightharpoonup> 'c" where
  "content P a k = map_option (\<lambda>i. fst (a ! i)) (P k)"

definition places :: "(u64 \<rightharpoonup> mslot) \<Rightarrow> nat \<Rightarrow> u64 \<rightharpoonup> nat" where
  "places L t k = Option.bind (L k) (mslot_at t)"

lemma indexedD:
  assumes "indexed P a" "P k = Some i"
  shows "i < length a" "snd (a ! i) = k"
  using assms by (auto simp: indexed_def)

lemma indexed_at: "indexed P a \<Longrightarrow> i < length a \<Longrightarrow> P (snd (a ! i)) = Some i"
  by (auto simp: indexed_def)

lemma indexed_append:
  assumes "indexed P a" "P k = None"
  shows "indexed (P(k \<mapsto> length a)) (a @ [(x, k)])" "content (P(k \<mapsto> length a)) (a @ [(x, k)]) = (content P a)(k \<mapsto> x)"
proof -
  have new: "snd (a ! i) \<noteq> k" if "i < length a" for i using indexed_at [OF assms(1) that] assms(2) by auto
  show "indexed (P(k \<mapsto> length a)) (a @ [(x, k)])"
    using assms(1) new by (auto simp: indexed_def nth_append less_Suc_eq)
  show "content (P(k \<mapsto> length a)) (a @ [(x, k)]) = (content P a)(k \<mapsto> x)"
  proof
    fix j
    show "content (P(k \<mapsto> length a)) (a @ [(x, k)]) j = ((content P a)(k \<mapsto> x)) j"
      using indexedD(1) [OF assms(1), of j] by (cases "P j") (auto simp: content_def nth_append)
  qed
qed

lemma indexed_erase:
  assumes "indexed P a" "P k = Some i" "k' = snd (last a)"
  shows "indexed (P(k' \<mapsto> i, k := None)) (butlast (a[i := last a]))" (is "indexed ?P ?a")
    "content (P(k' \<mapsto> i, k := None)) (butlast (a[i := last a])) = (content P a)(k := None)"
    "P k' = Some (length a - 1)"
proof -
  define l where "l = length a - 1"
  have i: "i < length a" "snd (a ! i) = k" using indexedD [OF assms(1,2)] .
  have l: "l < length a" "last a = a ! l" using i(1) by (cases "a = []"; simp add: last_conv_nth l_def)+
  show Pk': "P k' = Some (length a - 1)" using indexed_at [OF assms(1) l(1)] assms(3) l(2) by (simp add: l_def)
  have n: "?a ! j = (if j = i then a ! l else a ! j)" if "j < l" for j
    using that i(1) l by (simp add: nth_butlast l_def nth_update_if)
  have len: "length ?a = l" by (simp add: l_def)
  have inj: "j = j'" if "j < length a" "j' < length a" "snd (a ! j) = snd (a ! j')" for j j'
    using indexed_at [OF assms(1) that(1)] indexed_at [OF assms(1) that(2)] unfolding that(3) by simp
  have small: "j < l" if "j < length a" "j \<noteq> l" for j using that by (simp add: l_def)
  have eq: "?P j = Some m \<longleftrightarrow> m < l \<and> snd (if m = i then a ! l else a ! m) = j" for j m
  proof (cases "j = k")
    case True
    have "snd (if m = i then a ! l else a ! m) \<noteq> k" if "m < l"
      using that inj [of m i] inj [of l i] i l(1) by auto
    then show ?thesis using True by auto
  next
    case False
    have k': "snd (a ! l) = k'" using l(2) assms(3) by simp
    show ?thesis
    proof (cases "j = k'")
      case True
      have "i < l" using True False i(2) k' small [OF i(1)] by auto
      moreover have "m = l" if "m < l" "snd (a ! m) = k'" using inj [of m l] that l(1) k' by simp
      ultimately show ?thesis using True False k' by auto
    next
      case other: False
      have "P j = Some m \<longleftrightarrow> m < length a \<and> snd (a ! m) = j" using assms(1) by (simp add: indexed_def)
      moreover have "m \<noteq> l" "m \<noteq> i" if "snd (a ! m) = j" using that False other k' i(2) by auto
      ultimately show ?thesis using False other k' small [of m] l(1) by (cases "m = i") auto
    qed
  qed
  show "indexed ?P ?a"
    unfolding indexed_def
  proof (intro allI)
    fix j m
    show "?P j = Some m \<longleftrightarrow> m < length ?a \<and> snd (?a ! m) = j"
      unfolding eq [of j m] len by (cases "m < l") (simp_all only: n simp_thms)
  qed
  show "content ?P ?a = (content P a)(k := None)"
  proof
    fix j
    have "i \<noteq> l" if "j = k'" "j \<noteq> k" using that i(2) l(2) assms(3) by auto
    moreover have "m < l" "m \<noteq> i" if "P j = Some m" "j \<noteq> k" "j \<noteq> k'" for m
      using indexedD [OF assms(1) that(1)] small [of m] that i(2) l(2) assms(3) by auto
    ultimately show "content ?P ?a j = ((content P a)(k := None)) j"
      using Pk' small [OF i(1)] n by (cases "P j") (auto simp: content_def l_def)
  qed
qed

lemma indexed_write:
  assumes "indexed P a" "P k = Some i"
  shows "indexed P (a[i := (x, k)])" "content P (a[i := (x, k)]) = (content P a)(k \<mapsto> x)"
proof -
  note i = indexedD [OF assms]
  have same: "snd (a[i := (x, k)] ! j) = snd (a ! j)" if "j < length a" for j using that i by (cases "j = i") auto
  show "indexed P (a[i := (x, k)])" using assms(1) same by (auto simp: indexed_def)
  show "content P (a[i := (x, k)]) = (content P a)(k \<mapsto> x)"
  proof
    fix j
    show "content P (a[i := (x, k)]) j = ((content P a)(k \<mapsto> x)) j"
    proof (cases "P j")
      case (Some m)
      then show ?thesis using indexedD [OF assms(1) Some] i assms(2) by (cases "m = i") (auto simp: content_def)
    qed (use assms(2) in \<open>auto simp: content_def\<close>)
  qed
qed

lemma places_update: "places (L(k := v)) t = (places L t)(k := Option.bind v (mslot_at t))"
  by (auto simp: places_def fun_eq_iff)

section \<open>The invariant\<close>

definition mcol_inv :: "col_cfg \<Rightarrow> 'c mcol \<Rightarrow> ('c \<times> u64) list list \<Rightarrow> bool" where
  "mcol_inv cfg c as \<longleftrightarrow> sound_table (lookup_cfg cfg) (mlookup c) \<and> length (marrays c) = length as \<and> length as \<le> 64 \<and>
     buckets_all (mslot_shape (length as)) (mlookup c) \<and>
     (\<forall>t < length as. vec_rep (comp_cfg cfg t) (marrays c ! t) (as ! t) \<and> length (as ! t) \<le> 2 ^ 16 \<and>
        indexed (places (tlookup (mlookup c)) t) (as ! t))"

text \<open>The map a collection stands for: for a key, the components under it by their types.\<close>

definition mentry :: "(u64 \<rightharpoonup> mslot) \<Rightarrow> ('c \<times> u64) list list \<Rightarrow> u64 \<Rightarrow> nat \<rightharpoonup> 'c" where
  "mentry L as k t = (if t < length as then content (places L t) (as ! t) k else None)"

lemma mcol_invD:
  assumes "mcol_inv cfg c as"
  shows "sound_table (lookup_cfg cfg) (mlookup c)" "length (marrays c) = length as" "length as \<le> 64"
    "buckets_all (mslot_shape (length as)) (mlookup c)"
    "\<And>t. t < length as \<Longrightarrow> vec_rep (comp_cfg cfg t) (marrays c ! t) (as ! t)"
    "\<And>t. t < length as \<Longrightarrow> length (as ! t) \<le> 2 ^ 16"
    "\<And>t. t < length as \<Longrightarrow> indexed (places (tlookup (mlookup c)) t) (as ! t)"
  using assms unfolding mcol_inv_def by blast+

text \<open>One array replaced, and the places of that type only.\<close>

lemma mcol_inv_update:
  assumes i: "mcol_inv cfg c as" and t: "t < length as"
    and v: "vec_rep (comp_cfg cfg t) v xs" "length xs \<le> 2 ^ 16" "indexed P xs"
    and tab: "sound_table (lookup_cfg cfg) tab" "buckets_all (mslot_shape (length as)) tab"
    and P: "\<And>u. places (tlookup tab) u = (if u = t then P else places (tlookup (mlookup c)) u)"
  shows "mcol_inv cfg (c\<lparr>mlookup := tab, marrays := (marrays c)[t := v]\<rparr>) (as[t := xs])"
    "mentry (tlookup tab) (as[t := xs]) = (\<lambda>k. (mentry (tlookup (mlookup c)) as k)(t := content P xs k))"
proof -
  note d = mcol_invD [OF i]
  show "mcol_inv cfg (c\<lparr>mlookup := tab, marrays := (marrays c)[t := v]\<rparr>) (as[t := xs])"
    unfolding mcol_inv_def
  proof (intro conjI allI impI)
    fix u assume u: "u < length (as[t := xs])"
    show "vec_rep (comp_cfg cfg u) (marrays (c\<lparr>mlookup := tab, marrays := (marrays c)[t := v]\<rparr>) ! u) (as[t := xs] ! u)"
      "length (as[t := xs] ! u) \<le> 2 ^ 16"
      "indexed (places (tlookup (mlookup (c\<lparr>mlookup := tab, marrays := (marrays c)[t := v]\<rparr>))) u) (as[t := xs] ! u)"
      using u d(2) d(5-7) [of u] v P by (cases "u = t"; simp)+
  qed (use d(2,3) tab in simp_all)
  show "mentry (tlookup tab) (as[t := xs]) = (\<lambda>k. (mentry (tlookup (mlookup c)) as k)(t := content P xs k))"
    using t by (intro ext) (simp add: mentry_def P)
qed

lemma mcol_inv_lookup:
  assumes "mcol_inv cfg c as" "sound_table (lookup_cfg cfg) tab" "buckets_all (mslot_shape (length as)) tab"
    "tlookup tab = tlookup (mlookup c)"
  shows "mcol_inv cfg (c\<lparr>mlookup := tab\<rparr>) as"
  using mcol_invD [OF assms(1)] assms(2-4) by (simp add: mcol_inv_def)

lemma mcol_new_inv:
  assumes "table_cfg (lookup_cfg cfg)" "n \<le> 64"
  shows "mcol_inv cfg (mcol_new cfg n) (replicate n [])" "tlookup (mlookup (mcol_new cfg n)) = Map.empty"
proof -
  let ?t = "table_new (lookup_cfg cfg) (mslot_zero n)"
  have t: "table_ok ?t" "tlookup ?t = Map.empty" by (rule table_new_ok [OF assms(1)])+
  have "\<exists>m. ?t = table_zero (mslot_zero n) m"
    by (auto simp: table_new_def Let_def split: option.splits)
  then have "buckets_all (mslot_shape n) ?t" using buckets_all_zero mslot_shape_zero by metis
  then show "mcol_inv cfg (mcol_new cfg n) (replicate n [])"
    using t assms by (simp add: mcol_inv_def mcol_new_def sound_table_def vec_new_rep indexed_def places_def)
  show "tlookup (mlookup (mcol_new cfg n)) = Map.empty" using t(2) by (simp add: mcol_new_def)
qed

text \<open>A key and its bucket.\<close>

lemma mcol_bucket:
  assumes i: "mcol_inv cfg c as" and k: "k \<noteq> 0" and b: "mcol_find k c = Some b"
  shows "b < length (tkeys (mlookup c))" "b < length (tslots (mlookup c))" "tkeys (mlookup c) ! b = k"
    "tlookup (mlookup c) k = Some (tslots (mlookup c) ! b)" "mslot_shape (length as) k (tslots (mlookup c) ! b)"
proof -
  note d = mcol_invD [OF i]
  note s = find_bucket_slot [OF d(1) k b [unfolded mcol_find_def]]
  have len: "length (tkeys (mlookup c)) = length (tslots (mlookup c))"
    using d(4) by (simp add: buckets_all_def list_all2_lengthD)
  show "b < length (tkeys (mlookup c))" "b < length (tslots (mlookup c))" "tkeys (mlookup c) ! b = k"
    "tlookup (mlookup c) k = Some (tslots (mlookup c) ! b)" using s len by simp_all
  show "mslot_shape (length as) k (tslots (mlookup c) ! b)" using buckets_all_nth [OF d(4), of b] s len by simp
qed

lemma mcol_find_none:
  assumes "mcol_inv cfg c as" "k \<noteq> 0"
  shows "mcol_find k c = None \<longleftrightarrow> tlookup (mlookup c) k = None"
  using lt.bucket_law [OF mcol_invD(1) [OF assms(1)] assms(2)] by (simp add: mcol_find_def)

lemma mcol_entry_none:
  assumes i: "mcol_inv cfg c as" and k: "k \<noteq> 0"
  shows "mcol_find k c = None \<longleftrightarrow> mentry (tlookup (mlookup c)) as k = Map.empty"
proof (cases "mcol_find k c")
  case None
  then show ?thesis using mcol_find_none [OF i k] by (auto simp: mentry_def content_def places_def)
next
  case (Some b)
  note s = mcol_bucket [OF i k Some]
  obtain t where t: "bit (type_mask (tslots (mlookup c) ! b)) t" "t < length as"
    using s(5) k by (auto simp: mslot_shape_def mask_zero_iff)
  then have "mentry (tlookup (mlookup c)) as k t \<noteq> None" using s(4) by (simp add: mentry_def content_def places_def mslot_at_def)
  then show ?thesis using Some by auto
qed

text \<open>What the slot of a key says about the component of a type.\<close>

lemma mcol_slot_entry:
  assumes i: "mcol_inv cfg c as" and k: "k \<noteq> 0" and b: "mcol_find k c = Some b"
  shows "bit (type_mask (tslots (mlookup c) ! b)) t \<Longrightarrow> t < length as \<and>
      places (tlookup (mlookup c)) t k = Some (mslot_get_index t (tslots (mlookup c) ! b)) \<and>
      (\<exists>x. mentry (tlookup (mlookup c)) as k t = Some x \<and> at (mslot_get_index t (tslots (mlookup c) ! b)) (marrays c ! t) = Some (x, k))"
    "\<not> bit (type_mask (tslots (mlookup c) ! b)) t \<Longrightarrow> mentry (tlookup (mlookup c)) as k t = None"
proof -
  note s = mcol_bucket [OF i k b]
  let ?j = "mslot_get_index t (tslots (mlookup c) ! b)"
  show "\<not> bit (type_mask (tslots (mlookup c) ! b)) t \<Longrightarrow> mentry (tlookup (mlookup c)) as k t = None"
    using s(4) by (simp add: mentry_def content_def places_def mslot_at_def)
  assume h: "bit (type_mask (tslots (mlookup c) ! b)) t"
  then have t: "t < length as" using s(5) by (simp add: mslot_shape_def)
  have p: "places (tlookup (mlookup c)) t k = Some ?j" using s(4) h by (simp add: places_def mslot_at_def)
  note a = indexedD [OF mcol_invD(7) [OF i t] p]
  have "at ?j (marrays c ! t) = Some (as ! t ! ?j)" by (rule va.get_law [OF mcol_invD(5) [OF i t] a(1)])
  then show "t < length as \<and> places (tlookup (mlookup c)) t k = Some ?j \<and>
      (\<exists>x. mentry (tlookup (mlookup c)) as k t = Some x \<and> at ?j (marrays c ! t) = Some (x, k))"
    using t p a(2) by (simp add: mentry_def content_def prod_eq_iff)
qed

section \<open>Operations keep the invariant\<close>

lemma mcol_try_place_ok:
  assumes i: "mcol_inv cfg c as" and k: "k \<noteq> 0" and n: "n = length as"
    and p: "mcol_try_place cfg n k (mlookup c) = (r, tab)"
  shows "sound_table (lookup_cfg cfg) tab" "buckets_all (mslot_shape (length as)) tab" "tlookup tab = tlookup (mlookup c)"
    "r = Some b \<Longrightarrow> \<exists>k0. mslot_shape (length as) k0 (tslots tab ! b)"
    "r = Some b \<Longrightarrow> mslot_at t (tslots tab ! b) = places (tlookup (mlookup c)) t k"
    "r = Some b \<Longrightarrow> sound_table (lookup_cfg cfg) (fill_bucket b k s tab) \<and>
       tlookup (fill_bucket b k s tab) = (tlookup (mlookup c))(k \<mapsto> s)"
proof -
  note d = mcol_invD [OF i]
  have "sound_table (lookup_cfg cfg) tab \<and> buckets_all (mslot_shape (length as)) tab \<and> tlookup tab = tlookup (mlookup c) \<and>
      (r = Some b \<longrightarrow> (\<exists>k0. mslot_shape (length as) k0 (tslots tab ! b)) \<and>
         mslot_at t (tslots tab ! b) = places (tlookup (mlookup c)) t k \<and>
         sound_table (lookup_cfg cfg) (fill_bucket b k s tab) \<and> tlookup (fill_bucket b k s tab) = (tlookup (mlookup c))(k \<mapsto> s))"
  proof (cases "mcol_find k c")
    case (Some b')
    note s = mcol_bucket [OF i k Some]
    have e: "r = Some b'" "tab = mlookup c" using p Some by (simp_all add: mcol_try_place_def mcol_find_def)
    have "fill_bucket b' k s tab = set_slot b' s tab"
      using s(3) e(2) by (simp add: fill_bucket_def set_slot_def flip: s(3))
    then show ?thesis
      using e d(1,4) s(4,5) lt.reslot_law [OF d(1) k, of b' s] Some by (auto simp: places_def mcol_find_def)
  next
    case None
    have p': "try_place (lookup_cfg cfg) (mslot_zero (length as)) k (mlookup c) = (r, tab)"
      using p None n by (simp add: mcol_try_place_def mcol_find_def)
    have l: "tlookup (mlookup c) k = None" using None mcol_find_none [OF i k] by simp
    note tab = lt.place_law [OF d(1) p']
    have R: "buckets_all (mslot_shape (length as)) tab" by (rule buckets_all_place [OF p' d(4) mslot_shape_zero])
    show ?thesis
    proof (cases "r = Some b")
      case True
      have b: "b < length (tkeys tab)" "tkeys tab ! b = 0"
        using try_place_ok [OF _ _ p'] d(1) True by (auto simp: sound_table_def)
      have sh: "mslot_shape (length as) 0 (tslots tab ! b)" using buckets_all_nth [OF R b(1)] b(2) by simp
      then have "mslot_at t (tslots tab ! b) = None" by (simp add: mslot_shape_def mslot_at_def)
      then show ?thesis using tab R sh l lt.fill_law [OF d(1) k l p' [unfolded True], of s] by (auto simp: places_def)
    qed (use tab R in simp)
  qed
  then show "sound_table (lookup_cfg cfg) tab" "buckets_all (mslot_shape (length as)) tab" "tlookup tab = tlookup (mlookup c)"
    "r = Some b \<Longrightarrow> \<exists>k0. mslot_shape (length as) k0 (tslots tab ! b)"
    "r = Some b \<Longrightarrow> mslot_at t (tslots tab ! b) = places (tlookup (mlookup c)) t k"
    "r = Some b \<Longrightarrow> sound_table (lookup_cfg cfg) (fill_bucket b k s tab) \<and>
       tlookup (fill_bucket b k s tab) = (tlookup (mlookup c))(k \<mapsto> s)" by blast+
qed

lemma mcol_emplace_ok:
  assumes i: "mcol_inv cfg c as" and k: "k \<noteq> 0" and t: "t < length as" "length (as ! t) < 2 ^ 16"
  shows "\<exists>r c' as'. mcol_emplace cfg t k x c = Some (r, c') \<and> mcol_inv cfg c' as' \<and> length as' = length as \<and>
    (if r = None then mentry (tlookup (mlookup c')) as' = mentry (tlookup (mlookup c)) as
     else r = Some (length (as ! t)) \<and> mentry (tlookup (mlookup c)) as k t = None \<and>
       mentry (tlookup (mlookup c')) as' = (\<lambda>j. if j = k then (mentry (tlookup (mlookup c)) as k)(t \<mapsto> x)
         else mentry (tlookup (mlookup c)) as j))"
proof -
  note d = mcol_invD [OF i]
  obtain r tab where p: "mcol_try_place cfg (length (marrays c)) k (mlookup c) = (r, tab)" by fastforce
  note q = mcol_try_place_ok [OF i k d(2) p]
  have same: "mcol_inv cfg (c\<lparr>mlookup := tab\<rparr>) as" by (rule mcol_inv_lookup [OF i q(1-3)])
  have refuse: ?thesis if "mcol_emplace cfg t k x c = Some (None, c')" "mcol_inv cfg c' as" "tlookup (mlookup c') = tlookup (mlookup c)" for c'
    using that by (intro exI [of _ None] exI [of _ c'] exI [of _ as]) simp
  show ?thesis
  proof (cases r)
    case None
    then show ?thesis using p q(3) same by (intro refuse [of "c\<lparr>mlookup := tab\<rparr>"]) (simp_all add: mcol_emplace_def)
  next
    case (Some b)
    let ?s = "tslots tab ! b"
    note at_b = q(5) [OF Some]
    show ?thesis
    proof (cases "bit (type_mask ?s) t")
      case True
      then show ?thesis using p q(3) same Some
        by (intro refuse [of "c\<lparr>mlookup := tab\<rparr>"]) (simp_all add: mcol_emplace_def)
    next
      case False
      have P: "places (tlookup (mlookup c)) t k = None" using False at_b [of t] by (simp add: mslot_at_def)
      have sz: "vsize (marrays c ! t) = length (as ! t)" using va.len_law [OF d(5) [OF t(1)]] .
      obtain k0 where k0: "mslot_shape (length as) k0 ?s" using q(4) [OF Some] by blast
      show ?thesis
      proof (cases rule: va.append_cases [OF d(5) [OF t(1)], of "(x, k)"])
        case (1 v)
        let ?slot = "mslot_set t (length (as ! t)) ?s"
        let ?tab = "fill_bucket b k ?slot tab"
        let ?c = "c\<lparr>mlookup := ?tab, marrays := (marrays c)[t := v]\<rparr>" and ?xs = "as ! t @ [(x, k)]"
        note f = q(6) [OF Some, of ?slot]
        note app = indexed_append [OF d(7) [OF t(1)] P, of x]
        have "mslot_at u ?slot = (if u = t then Some (length (as ! t)) else places (tlookup (mlookup c)) u k)" for u
          using mslot_at_set [OF d(3) t(1) _ t(2), of ?s u] k0 at_b [of u] by (simp add: mslot_shape_def)
        then have pl: "places (tlookup ?tab) u = (if u = t then (places (tlookup (mlookup c)) t)(k \<mapsto> length (as ! t))
            else places (tlookup (mlookup c)) u)" for u
          unfolding conjunct2 [OF f] places_update by (intro ext) simp
        have R: "buckets_all (mslot_shape (length as)) ?tab"
          by (rule buckets_all_fill [OF q(2) mslot_shape_set [OF d(3) t(1) k0 k]])
        have "length ?xs \<le> 2 ^ 16" using t(2) by simp
        note u = mcol_inv_update [OF i t(1) 1(2) this app(1) conjunct1 [OF f] R pl]
        have "mcol_emplace cfg t k x c = Some (Some (length (as ! t)), ?c)"
          using p Some False 1(1) sz by (simp add: mcol_emplace_def Let_def)
        moreover have "mentry (tlookup (mlookup c)) as k t = None" using P by (simp add: mentry_def content_def)
        moreover have "mentry (tlookup (mlookup ?c)) (as[t := ?xs]) = (\<lambda>j. if j = k then (mentry (tlookup (mlookup c)) as k)(t \<mapsto> x)
            else mentry (tlookup (mlookup c)) as j)"
          using u(2) app(2) t(1) by (auto simp: fun_eq_iff mentry_def)
        ultimately show ?thesis using u(1)
          by (intro exI [of _ "Some (length (as ! t))"] exI [of _ ?c] exI [of _ "as[t := ?xs]"]) simp
      next
        case 2
        have "mcol_emplace cfg t k x c = Some (None, c\<lparr>mlookup := tab\<rparr>)"
          using p Some False 2 by (simp add: mcol_emplace_def Let_def)
        then show ?thesis using refuse same q(3) by simp
      qed
    qed
  qed
qed

lemma set_slot_fill: "tkeys t ! b = k \<Longrightarrow> set_slot b s t = fill_bucket b k s t"
  by (auto simp: set_slot_def fill_bucket_def)

text \<open>What \<^verbatim>\<open>remove_at_impl\<close> does to the table: the key \<open>k'\<close> of the last component is given the place \<open>j\<close>, and the
  key \<open>k\<close> loses its place.\<close>

lemma mcol_release_ok:
  assumes T: "sound_table cfg T" "buckets_all (mslot_shape n) T"
    and k: "k \<noteq> 0" "find_bucket k (tkeys T) = Some b"
    and k': "k' \<noteq> 0" "find_bucket k' (tkeys T) = Some b'" "bit (type_mask (tslots T ! b')) t" and j: "j < 2 ^ 16"
    and t1: "t1 = set_slot b' (mslot_set_index t j (tslots T ! b')) T"
    and t2: "t2 = set_slot b (mslot_clear t (tslots t1 ! b)) t1"
    and t3: "t3 = (if mslot_empty (tslots t2 ! b) then empty_bucket b t2 else t2)"
  shows "sound_table cfg t3" "buckets_all (mslot_shape n) t3"
    "places (tlookup t3) u = (if u = t then (places (tlookup T) t)(k' \<mapsto> j, k := None) else places (tlookup T) u)"
    "length (tkeys t3) = length (tkeys T)"
    "find_bucket k (tkeys t3) = Some b \<or> find_bucket k (tkeys t3) = None \<and> tkeys t3 ! b = 0"
proof -
  note b = find_bucket_slot [OF T(1) k] and b' = find_bucket_slot [OF T(1) k'(1,2)]
  have len: "length (tkeys T) = length (tslots T)" using T(2) by (simp add: buckets_all_def list_all2_lengthD)
  define s1 where "s1 = tslots t1 ! b"
  have keys: "tkeys t1 = tkeys T" "tkeys t2 = tkeys T" by (simp_all add: t1 t2 set_slot_def)
  have l1: "sound_table cfg t1" "tlookup t1 = (tlookup T)(k' \<mapsto> mslot_set_index t j (tslots T ! b'))"
    using lt.reslot_law [OF T(1) k'(1,2)] unfolding t1 by blast+
  have k1: "find_bucket k (tkeys t1) = Some b" using k(2) keys by simp
  have l2: "sound_table cfg t2" "tlookup t2 = (tlookup t1)(k \<mapsto> mslot_clear t s1)"
    using lt.reslot_law [OF l1(1) k(1) k1] unfolding t2 s1_def by blast+
  have k2: "find_bucket k (tkeys t2) = Some b" using k(2) keys by simp
  have s2: "tslots t2 ! b = mslot_clear t s1" using b(2) by (simp add: t2 t1 set_slot_def s1_def)
  have l3: "sound_table cfg t3" "tlookup t3 = (if mslot_empty (mslot_clear t s1) then (tlookup t2)(k := None) else tlookup t2)"
    using l2(1) lt.vacate_law [OF l2(1) k(1) k2] unfolding t3 s2 by simp_all
  show "sound_table cfg t3" by (rule l3(1))
  have sh': "mslot_shape n k' (tslots T ! b')" using buckets_all_nth [OF T(2), of b'] b'(2,3) len by simp
  have R1: "buckets_all (mslot_shape n) t1"
    unfolding t1 set_slot_fill [OF b'(3)] by (rule buckets_all_fill [OF T(2) mslot_shape_set_index [OF sh']])
  have "mslot_shape n k s1" using buckets_all_nth [OF R1, of b] b(2,3) len keys(1) by (simp add: s1_def)
  then have sh: "mslot_shape n (if mslot_empty (mslot_clear t s1) then 0 else k) (mslot_clear t s1)"
    by (rule mslot_shape_clear) (rule k(1))
  have "t3 = fill_bucket b (if mslot_empty (mslot_clear t s1) then 0 else k) (mslot_clear t s1) t1"
    unfolding t3 s2 using b(3) keys(1) by (auto simp: t2 s1_def set_slot_def fill_bucket_def empty_bucket_def)
  then show "buckets_all (mslot_shape n) t3" using buckets_all_fill [OF R1 sh] by simp
  have "t < length (indices (tslots T ! b'))" using sh' k'(3) by (simp add: mslot_shape_def)
  note at1 = mslot_at_set_index [OF this j k'(3)]
  have p1: "places (tlookup t1) v = (if v = t then (places (tlookup T) t)(k' \<mapsto> j) else places (tlookup T) v)" for v
    unfolding l1(2) places_update using b'(1) by (auto simp: at1 places_def fun_eq_iff)
  have at2: "mslot_at v (mslot_clear t s1) = (if v = t then None else places (tlookup t1) v k)" for v
    using find_bucket_slot(1) [OF l1(1) k(1) k1] by (simp add: mslot_at_clear places_def s1_def)
  have p2: "places (tlookup t2) v = (if v = t then (places (tlookup t1) t)(k := None) else places (tlookup t1) v)" for v
    unfolding l2(2) places_update by (simp add: at2)
  have "places (tlookup t3) v = places (tlookup t2) v" for v
  proof (cases "mslot_empty (mslot_clear t s1)")
    case True
    then have "mslot_at v (mslot_clear t s1) = None" by (simp add: mslot_at_def mslot_empty_def)
    then have "places (tlookup t2) v k = None" by (simp add: l2(2) places_def)
    then show ?thesis using True by (simp add: l3(2) places_update fun_upd_idem)
  qed (simp add: l3(2))
  then show "places (tlookup t3) u = (if u = t then (places (tlookup T) t)(k' \<mapsto> j, k := None) else places (tlookup T) u)"
    by (simp add: p2 p1)
  show "length (tkeys t3) = length (tkeys T)" by (simp add: t3 keys empty_bucket_def)
  show "find_bucket k (tkeys t3) = Some b \<or> find_bucket k (tkeys t3) = None \<and> tkeys t3 ! b = 0"
  proof (cases "mslot_empty (mslot_clear t s1)")
    case True
    then have "tlookup t3 k = None" by (simp add: l3(2))
    then have "find_bucket k (tkeys t3) = None" using lt.bucket_law [OF l3(1) k(1)] by simp
    moreover have "tkeys t3 ! b = 0" using True s2 b(2) len by (simp add: t3 keys empty_bucket_def)
    ultimately show ?thesis by blast
  next
    case False
    then show ?thesis using k2 s2 by (simp add: t3)
  qed
qed

text \<open>One type of a key removed, whether it has a component of that type or not.\<close>

definition drops :: "col_cfg \<Rightarrow> u64 \<Rightarrow> nat \<Rightarrow> nat \<Rightarrow> 'c mcol \<Rightarrow> ('c \<times> u64) list list \<Rightarrow> 'c mcol option \<Rightarrow> bool" where
  "drops cfg k b t c as res \<longleftrightarrow> (\<exists>c' as'. res = Some c' \<and> mcol_inv cfg c' as' \<and> length as' = length as \<and>
     length (tkeys (mlookup c')) = length (tkeys (mlookup c)) \<and>
     (mcol_find k c' = Some b \<or> mcol_find k c' = None \<and> tkeys (mlookup c') ! b = 0) \<and>
     mentry (tlookup (mlookup c')) as' = (\<lambda>j. (mentry (tlookup (mlookup c)) as j)
       (t := if j = k then None else mentry (tlookup (mlookup c)) as j t)))"

lemma mcol_remove_at_ok:
  assumes i: "mcol_inv cfg c as" and k: "k \<noteq> 0" and b: "mcol_find k c = Some b"
    and m: "bit (type_mask (tslots (mlookup c) ! b)) t"
  shows "drops cfg k b t c as (mcol_remove_at_impl t b (mslot_get_index t (tslots (mlookup c) ! b)) c)"
proof -
  note d = mcol_invD [OF i]
  define j where "j = mslot_get_index t (tslots (mlookup c) ! b)"
  let ?P = "places (tlookup (mlookup c)) t" and ?a = "as ! t"
  have t: "t < length as" and P: "?P k = Some j" using mcol_slot_entry(1) [OF i k b m] by (simp_all add: j_def)
  define k' where "k' = snd (last ?a)"
  note e = indexed_erase [OF d(7) [OF t] P k'_def]
  note ja = indexedD [OF d(7) [OF t] P]
  obtain s' where s': "tlookup (mlookup c) k' = Some s'" "bit (type_mask s') t"
    using e(3) by (auto simp: places_def mslot_at_def split: if_splits)
  then have k': "k' \<noteq> 0" by (auto simp: tlookup_def split: if_splits)
  obtain b' where b': "find_bucket k' (tkeys (mlookup c)) = Some b'" using lt.bucket_ex [OF d(1) k' s'(1)] by blast
  have m': "bit (type_mask (tslots (mlookup c) ! b')) t" using find_bucket_slot(1) [OF d(1) k' b'] s' by simp
  have j16: "j < 2 ^ 16" using ja(1) d(6) [OF t] by simp
  define t1 where "t1 = set_slot b' (mslot_set_index t j (tslots (mlookup c) ! b')) (mlookup c)"
  define t2 where "t2 = set_slot b (mslot_clear t (tslots t1 ! b)) t1"
  define t3 where "t3 = (if mslot_empty (tslots t2 ! b) then empty_bucket b t2 else t2)"
  note r = mcol_release_ok [OF d(1,4) k b [unfolded mcol_find_def] k' b' m' j16 t1_def t2_def t3_def]
  have sz: "vsize (marrays c ! t) = length ?a" using va.len_law [OF d(5) [OF t]] .
  have "?a \<noteq> []" using ja(1) by auto
  then have lst: "at (length ?a - 1) (marrays c ! t) = Some (fst (last ?a), k')"
    using va.get_law [OF d(5) [OF t], of "length ?a - 1"] by (simp add: k'_def last_conv_nth)
  obtain v where v: "erase j (marrays c ! t) = Some v" "vec_rep (comp_cfg cfg t) v (butlast (?a[j := last ?a]))"
    using va.remove_law [OF d(5) [OF t] ja(1)] by blast
  let ?c = "c\<lparr>mlookup := t3, marrays := (marrays c)[t := v]\<rparr>" and ?xs = "butlast (?a[j := last ?a])"
  have "length ?xs \<le> 2 ^ 16" using d(6) [OF t] by simp
  note u = mcol_inv_update [OF i t v(2) this e(1) r(1,2,3)]
  have "mcol_remove_at_impl t b j c = Some ?c"
    using lst b' v(1) sz by (simp add: mcol_remove_at_impl_def Let_def mcol_find_def t3_def t2_def t1_def)
  moreover have "mentry (tlookup (mlookup ?c)) (as[t := ?xs]) = (\<lambda>i. (mentry (tlookup (mlookup c)) as i)
       (t := if i = k then None else mentry (tlookup (mlookup c)) as i t))"
    using t by (simp add: u(2) e(2) fun_eq_iff mentry_def)
  ultimately show ?thesis
    unfolding drops_def j_def [symmetric] using u(1) r(4,5)
    by (intro exI [of _ ?c] exI [of _ "as[t := ?xs]"]) (simp add: mcol_find_def)
qed

lemma mcol_remove_type_ok:
  assumes i: "mcol_inv cfg c as" and k: "k \<noteq> 0" and b: "b < length (tkeys (mlookup c))"
    and f: "mcol_find k c = Some b \<or> mcol_find k c = None \<and> tkeys (mlookup c) ! b = 0"
  shows "drops cfg k b t c as (if bit (type_mask (tslots (mlookup c) ! b)) t
    then mcol_remove_at_impl t b (mslot_get_index t (tslots (mlookup c) ! b)) c else Some c)"
proof (cases "bit (type_mask (tslots (mlookup c) ! b)) t")
  case True
  have "mcol_find k c = Some b"
  proof (rule ccontr)
    assume "mcol_find k c \<noteq> Some b"
    then have "mslot_shape (length as) 0 (tslots (mlookup c) ! b)" using f buckets_all_nth [OF mcol_invD(4) [OF i] b] by simp
    then show False using True by (simp add: mslot_shape_def)
  qed
  then show ?thesis using mcol_remove_at_ok [OF i k _ True] True by simp
next
  case False
  have "mentry (tlookup (mlookup c)) as k t = None"
  proof (cases "mcol_find k c")
    case None
    then show ?thesis using mcol_entry_none [OF i k] by simp
  next
    case (Some b')
    then show ?thesis using f mcol_slot_entry(2) [OF i k] False by auto
  qed
  then have "mentry (tlookup (mlookup c)) as = (\<lambda>j. (mentry (tlookup (mlookup c)) as j)
      (t := if j = k then None else mentry (tlookup (mlookup c)) as j t))"
    by (auto simp: fun_eq_iff)
  then show ?thesis using False i f unfolding drops_def by (intro exI [of _ c] exI [of _ as]) simp
qed

lemma mcol_remove_impl_ok:
  assumes "mcol_inv cfg c as" "k \<noteq> 0" "b < length (tkeys (mlookup c))"
    "mcol_find k c = Some b \<or> mcol_find k c = None \<and> tkeys (mlookup c) ! b = 0"
  shows "\<exists>c' as'. mcol_remove_impl b ts c = Some c' \<and> mcol_inv cfg c' as' \<and> length as' = length as \<and>
    mentry (tlookup (mlookup c')) as' = (\<lambda>j t. if j = k \<and> t \<in> set ts then None else mentry (tlookup (mlookup c)) as j t)"
  using assms
proof (induction ts arbitrary: c as)
  case Nil
  then show ?case by (intro exI [of _ c] exI [of _ as]) simp
next
  case (Cons t ts)
  obtain c1 as1 where 1: "(if bit (type_mask (tslots (mlookup c) ! b)) t
      then mcol_remove_at_impl t b (mslot_get_index t (tslots (mlookup c) ! b)) c else Some c) = Some c1"
    "mcol_inv cfg c1 as1" "length as1 = length as" "length (tkeys (mlookup c1)) = length (tkeys (mlookup c))"
    "mcol_find k c1 = Some b \<or> mcol_find k c1 = None \<and> tkeys (mlookup c1) ! b = 0"
    "mentry (tlookup (mlookup c1)) as1 = (\<lambda>j. (mentry (tlookup (mlookup c)) as j)
       (t := if j = k then None else mentry (tlookup (mlookup c)) as j t))"
    using mcol_remove_type_ok [OF Cons.prems, of t] unfolding drops_def by blast
  obtain c2 as2 where 2: "mcol_remove_impl b ts c1 = Some c2" "mcol_inv cfg c2 as2" "length as2 = length as1"
    "mentry (tlookup (mlookup c2)) as2 = (\<lambda>j t. if j = k \<and> t \<in> set ts then None else mentry (tlookup (mlookup c1)) as1 j t)"
    using Cons.IH [OF 1(2) Cons.prems(2) _ 1(5)] Cons.prems(3) 1(4) by auto
  have "mcol_remove_impl b (t # ts) c = Some c2" using 1(1) 2(1) by (simp add: Let_def split: if_splits)
  moreover have "mentry (tlookup (mlookup c2)) as2 = (\<lambda>j u. if j = k \<and> u \<in> set (t # ts) then None
      else mentry (tlookup (mlookup c)) as j u)"
    by (simp add: 2(4) 1(6) fun_eq_iff)
  ultimately show ?case using 2(2,3) 1(3) by (intro exI [of _ c2] exI [of _ as2]) simp
qed

lemma mcol_get_ok:
  assumes i: "mcol_inv cfg c as" and k: "k \<noteq> 0"
  shows "mcol_get t (mcol_find k c) c = Some (mentry (tlookup (mlookup c)) as k t)"
    "mcol_contains t (mcol_find k c) c = Some (mentry (tlookup (mlookup c)) as k t \<noteq> None)"
proof -
  have "mcol_get t (mcol_find k c) c = Some (mentry (tlookup (mlookup c)) as k t) \<and>
    mcol_contains t (mcol_find k c) c = Some (mentry (tlookup (mlookup c)) as k t \<noteq> None)"
  proof (cases "mcol_find k c")
    case None
    then show ?thesis using mcol_entry_none [OF i k] by (simp add: mcol_get_def mcol_contains_def)
  next
    case (Some b)
    note b = mcol_bucket(2) [OF i k Some]
    show ?thesis
    proof (cases "bit (type_mask (tslots (mlookup c) ! b)) t")
      case True
      then show ?thesis using mcol_slot_entry(1) [OF i k Some True] b Some
        by (auto simp: mcol_get_def mcol_contains_def Let_def)
    next
      case False
      then show ?thesis using mcol_slot_entry(2) [OF i k Some False] b Some by (simp add: mcol_get_def mcol_contains_def)
    qed
  qed
  then show "mcol_get t (mcol_find k c) c = Some (mentry (tlookup (mlookup c)) as k t)"
    "mcol_contains t (mcol_find k c) c = Some (mentry (tlookup (mlookup c)) as k t \<noteq> None)" by blast+
qed

text \<open>What a call is meant to do: visit the components of a key in the order of their types.\<close>

fun visit :: "(nat \<Rightarrow> 'c \<Rightarrow> 's \<Rightarrow> 'c \<times> 's) \<Rightarrow> nat list \<Rightarrow> (nat \<rightharpoonup> 'c) \<Rightarrow> 's \<Rightarrow> (nat \<rightharpoonup> 'c) \<times> 's" where
  "visit f [] e st = (e, st)"
| "visit f (t # ts) e st = (case e t of None \<Rightarrow> visit f ts e st
    | Some x \<Rightarrow> visit f ts (e(t \<mapsto> fst (f t x st))) (snd (f t x st)))"

lemma visit_empty: "visit f ts Map.empty st = (Map.empty, st)"
  by (induction ts) simp_all

lemma mcol_write_ok:
  assumes i: "mcol_inv cfg c as" and t: "t < length as" and P: "places (tlookup (mlookup c)) t k = Some j"
  shows "\<exists>v. vec_write j (y, k) (marrays c ! t) = Some v \<and>
    mcol_inv cfg (c\<lparr>marrays := (marrays c)[t := v]\<rparr>) (as[t := (as ! t)[j := (y, k)]]) \<and>
    mentry (tlookup (mlookup c)) (as[t := (as ! t)[j := (y, k)]]) =
      (mentry (tlookup (mlookup c)) as)(k := (mentry (tlookup (mlookup c)) as k)(t \<mapsto> y))"
proof -
  note d = mcol_invD [OF i]
  note w = indexed_write [OF d(7) [OF t] P, of y]
  obtain v where v: "vec_write j (y, k) (marrays c ! t) = Some v"
    "vec_rep (comp_cfg cfg t) v ((as ! t)[j := (y, k)])"
    using vec_write_rep [OF d(5) [OF t] indexedD(1) [OF d(7) [OF t] P]] by blast
  have len: "length ((as ! t)[j := (y, k)]) \<le> 2 ^ 16" using d(6) [OF t] by simp
  have pl: "places (tlookup (mlookup c)) u = (if u = t then places (tlookup (mlookup c)) t else places (tlookup (mlookup c)) u)" for u
    by simp
  note u = mcol_inv_update [OF i t v(2) len w(1) d(1,4) pl]
  have "mentry (tlookup (mlookup c)) (as[t := (as ! t)[j := (y, k)]]) =
      (mentry (tlookup (mlookup c)) as)(k := (mentry (tlookup (mlookup c)) as k)(t \<mapsto> y))"
    unfolding u(2) w(2) using t by (auto simp: fun_eq_iff mentry_def)
  then show ?thesis using u(1) v(1) by simp
qed

lemma mcol_call_impl_ok:
  assumes "mcol_inv cfg c as" "k \<noteq> 0" "mcol_find k c = Some b"
  shows "\<exists>c' as'. mcol_call_all_impl f b ts c st =
      Some (c', snd (visit (\<lambda>t. f t k) ts (mentry (tlookup (mlookup c)) as k) st)) \<and> mcol_inv cfg c' as' \<and>
    mentry (tlookup (mlookup c')) as' = (mentry (tlookup (mlookup c)) as)
      (k := fst (visit (\<lambda>t. f t k) ts (mentry (tlookup (mlookup c)) as k) st))"
  using assms
proof (induction ts arbitrary: c as st)
  case Nil
  then show ?case by (intro exI [of _ c] exI [of _ as]) simp
next
  case (Cons t ts)
  let ?s = "tslots (mlookup c) ! b" and ?e = "mentry (tlookup (mlookup c)) as"
  show ?case
  proof (cases "bit (type_mask ?s) t")
    case False
    then show ?thesis using Cons.IH [OF Cons.prems] mcol_slot_entry(2) [OF Cons.prems False] by simp
  next
    case True
    let ?j = "mslot_get_index t ?s"
    obtain x where x: "t < length as" "places (tlookup (mlookup c)) t k = Some ?j" "?e k t = Some x"
      "at ?j (marrays c ! t) = Some (x, k)" using mcol_slot_entry(1) [OF Cons.prems True] by blast
    let ?y = "fst (f t k x st)" and ?st = "snd (f t k x st)"
    obtain v where v: "vec_write ?j (?y, k) (marrays c ! t) = Some v"
      "mcol_inv cfg (c\<lparr>marrays := (marrays c)[t := v]\<rparr>) (as[t := (as ! t)[?j := (?y, k)]])"
      "mentry (tlookup (mlookup c)) (as[t := (as ! t)[?j := (?y, k)]]) = ?e(k := (?e k)(t \<mapsto> ?y))"
      using mcol_write_ok [OF Cons.prems(1) x(1,2), of ?y] by blast
    have f: "mcol_find k (c\<lparr>marrays := (marrays c)[t := v]\<rparr>) = Some b" using Cons.prems(3) by (simp add: mcol_find_def)
    have l: "mlookup (c\<lparr>marrays := (marrays c)[t := v]\<rparr>) = mlookup c" by simp
    let ?r = "visit (\<lambda>t. f t k) ts ((?e k)(t \<mapsto> ?y)) ?st"
    obtain c' as' where r: "mcol_call_all_impl f b ts (c\<lparr>marrays := (marrays c)[t := v]\<rparr>) ?st = Some (c', snd ?r)"
      "mcol_inv cfg c' as'" "mentry (tlookup (mlookup c')) as' = ?e(k := fst ?r)"
      using Cons.IH [OF v(2) Cons.prems(2) f, of ?st] unfolding l v(3) fun_upd_same fun_upd_upd by blast
    have "mcol_call_all_impl f b (t # ts) c st = Some (c', snd ?r)"
      using r(1) v(1) x(4) True mcol_bucket(3) [OF Cons.prems] by (simp add: Let_def case_prod_beta)
    moreover have "visit (\<lambda>t. f t k) (t # ts) (?e k) st = ?r" using x(3) by simp
    ultimately show ?thesis using r(2,3) by (intro exI [of _ c'] exI [of _ as']) simp
  qed
qed

section \<open>The contract of a multi collection\<close>

locale multi_map =
  fixes rep :: "'q \<Rightarrow> (u64 \<Rightarrow> nat \<rightharpoonup> 'c) \<Rightarrow> bool"
    and room :: "nat \<Rightarrow> 'q \<Rightarrow> bool"
    and locate :: "u64 \<Rightarrow> 'q \<Rightarrow> nat option"
    and read :: "nat \<Rightarrow> nat option \<Rightarrow> 'q \<Rightarrow> 'c option option"
    and add :: "nat \<Rightarrow> u64 \<Rightarrow> 'c \<Rightarrow> 'q \<Rightarrow> (nat option \<times> 'q) option"
    and remove :: "nat \<Rightarrow> nat option \<Rightarrow> 'q \<Rightarrow> 'q option"
    and wipe :: "nat option \<Rightarrow> 'q \<Rightarrow> 'q option"
  assumes locate_law: "rep q m \<Longrightarrow> k \<noteq> 0 \<Longrightarrow> locate k q = None \<longleftrightarrow> m k = Map.empty"
    and read_law: "rep q m \<Longrightarrow> k \<noteq> 0 \<Longrightarrow> read t (locate k q) q = Some (m k t)"
    and add_law: "rep q m \<Longrightarrow> k \<noteq> 0 \<Longrightarrow> room t q \<Longrightarrow> \<exists>r q'. add t k x q = Some (r, q') \<and>
      (if r = None then rep q' m else m k t = None \<and> rep q' (m(k := (m k)(t \<mapsto> x))))"
    and remove_law: "rep q m \<Longrightarrow> k \<noteq> 0 \<Longrightarrow> \<exists>q'. remove t (locate k q) q = Some q' \<and> rep q' (m(k := (m k)(t := None)))"
    and wipe_law: "rep q m \<Longrightarrow> k \<noteq> 0 \<Longrightarrow> \<exists>q'. wipe (locate k q) q = Some q' \<and> rep q' (m(k := Map.empty))"
begin

text \<open>Removing what was added gives the old map back, and a second component of the type is refused.\<close>

lemma add_remove:
  assumes "rep q m" "k \<noteq> 0" "room t q" "add t k x q = Some (Some i, q')"
  shows "\<exists>q''. remove t (locate k q') q' = Some q'' \<and> rep q'' m"
proof -
  have r: "m k t = None" "rep q' (m(k := (m k)(t \<mapsto> x)))" using add_law [OF assms(1-3), of x] assms(4) by auto
  have "m(k := (m k)(t := None)) = m" using r(1) by (simp add: fun_upd_idem)
  then show ?thesis using remove_law [OF r(2) assms(2), of t] by simp
qed

lemma add_twice:
  assumes "rep q m" "k \<noteq> 0" "m k t \<noteq> None" "room t q"
  shows "\<exists>q'. add t k x q = Some (None, q') \<and> rep q' m"
  using add_law [OF assms(1,2,4), of x] assms(3) by (auto split: if_splits)

text \<open>The last component takes the key with it.\<close>

lemma remove_last_key:
  assumes "rep q m" "k \<noteq> 0" "dom (m k) \<subseteq> {t}"
  shows "\<exists>q'. remove t (locate k q) q = Some q' \<and> rep q' (m(k := Map.empty)) \<and> locate k q' = None"
proof -
  have "(m k)(t := None) = Map.empty" using assms(3) by (auto simp: fun_eq_iff)
  then obtain q' where q': "remove t (locate k q) q = Some q'" "rep q' (m(k := Map.empty))"
    using remove_law [OF assms(1,2), of t] by auto
  then show ?thesis using locate_law [OF q'(2) assms(2)] by simp
qed

end

definition mcol_rep :: "col_cfg \<Rightarrow> 'c mcol \<Rightarrow> (u64 \<Rightarrow> nat \<rightharpoonup> 'c) \<Rightarrow> bool" where
  "mcol_rep cfg c m \<longleftrightarrow> (\<exists>as. mcol_inv cfg c as \<and> m = mentry (tlookup (mlookup c)) as)"

text \<open>A slot has 16 bits for a place in an array.\<close>

definition mcol_room :: "nat \<Rightarrow> 'c mcol \<Rightarrow> bool" where
  "mcol_room t c \<longleftrightarrow> t < length (marrays c) \<and> vsize (marrays c ! t) < 2 ^ 16"

lemma mcol_room_inv:
  assumes "mcol_inv cfg c as" "mcol_room t c"
  shows "t < length as" "length (as ! t) < 2 ^ 16"
proof -
  show t: "t < length as" using assms(2) mcol_invD(2) [OF assms(1)] by (simp add: mcol_room_def)
  show "length (as ! t) < 2 ^ 16"
    using va.len_law [OF mcol_invD(5) [OF assms(1) t]] assms(2) by (simp add: mcol_room_def)
qed

interpretation mm: multi_map "mcol_rep cfg" mcol_room mcol_find mcol_get "mcol_emplace cfg" mcol_erase mcol_erase_all for cfg
proof unfold_locales
  fix c :: "'a mcol" and m and k :: u64
  assume "mcol_rep cfg c m" "k \<noteq> 0"
  then show "mcol_find k c = None \<longleftrightarrow> m k = Map.empty" using mcol_entry_none by (auto simp: mcol_rep_def)
next
  fix c :: "'a mcol" and m and k :: u64 and t
  assume "mcol_rep cfg c m" "k \<noteq> 0"
  then show "mcol_get t (mcol_find k c) c = Some (m k t)" using mcol_get_ok(1) by (auto simp: mcol_rep_def)
next
  fix c :: "'a mcol" and m and k :: u64 and t x
  assume h: "mcol_rep cfg c m" "k \<noteq> 0" "mcol_room t c"
  then obtain as where as: "mcol_inv cfg c as" "m = mentry (tlookup (mlookup c)) as" by (auto simp: mcol_rep_def)
  obtain r c' as' where e: "mcol_emplace cfg t k x c = Some (r, c')" "mcol_inv cfg c' as'"
    "if r = None then mentry (tlookup (mlookup c')) as' = m
     else r = Some (length (as ! t)) \<and> m k t = None \<and>
       mentry (tlookup (mlookup c')) as' = (\<lambda>j. if j = k then (m k)(t \<mapsto> x) else m j)"
    using mcol_emplace_ok [OF as(1) h(2) mcol_room_inv [OF as(1) h(3)], of x] unfolding as(2) by blast
  have "(\<lambda>j. if j = k then (m k)(t \<mapsto> x) else m j) = m(k := (m k)(t \<mapsto> x))" by (simp add: fun_eq_iff)
  then show "\<exists>r q'. mcol_emplace cfg t k x c = Some (r, q') \<and>
      (if r = None then mcol_rep cfg q' m else m k t = None \<and> mcol_rep cfg q' (m(k := (m k)(t \<mapsto> x))))"
    using e unfolding mcol_rep_def by (intro exI [of _ r] exI [of _ c']) (auto split: if_splits)
next
  fix c :: "'a mcol" and m and k :: u64 and t
  assume h: "mcol_rep cfg c m" "k \<noteq> 0"
  then obtain as where as: "mcol_inv cfg c as" "m = mentry (tlookup (mlookup c)) as" by (auto simp: mcol_rep_def)
  show "\<exists>q'. mcol_erase t (mcol_find k c) c = Some q' \<and> mcol_rep cfg q' (m(k := (m k)(t := None)))"
  proof (cases "mcol_find k c")
    case None
    then have "m(k := (m k)(t := None)) = m" using mcol_entry_none [OF as(1) h(2)] as(2) by (simp add: fun_upd_idem)
    then show ?thesis using None h(1) by (simp add: mcol_erase_def)
  next
    case (Some b)
    have upd: "(\<lambda>j. (m j)(t := if j = k then None else m j t)) = m(k := (m k)(t := None))" by (intro ext) simp
    have "drops cfg k b t c as (if bit (type_mask (tslots (mlookup c) ! b)) t
        then mcol_remove_at_impl t b (mslot_get_index t (tslots (mlookup c) ! b)) c else Some c)"
      by (rule mcol_remove_type_ok [OF as(1) h(2) mcol_bucket(1) [OF as(1) h(2) Some]]) (simp add: Some)
    then obtain c' where "(if bit (type_mask (tslots (mlookup c) ! b)) t
        then mcol_remove_at_impl t b (mslot_get_index t (tslots (mlookup c) ! b)) c else Some c) = Some c'"
      "mcol_rep cfg c' (m(k := (m k)(t := None)))"
      unfolding drops_def as(2) [symmetric] upd mcol_rep_def by metis
    then show ?thesis using Some mcol_bucket(2) [OF as(1) h(2) Some]
      by (cases "bit (type_mask (tslots (mlookup c) ! b)) t") (simp_all add: mcol_erase_def Let_def)
  qed
next
  fix c :: "'a mcol" and m and k :: u64
  assume h: "mcol_rep cfg c m" "k \<noteq> 0"
  then obtain as where as: "mcol_inv cfg c as" "m = mentry (tlookup (mlookup c)) as" by (auto simp: mcol_rep_def)
  show "\<exists>q'. mcol_erase_all (mcol_find k c) c = Some q' \<and> mcol_rep cfg q' (m(k := Map.empty))"
  proof (cases "mcol_find k c")
    case None
    then have "m(k := Map.empty) = m" using mcol_entry_none [OF as(1) h(2)] as(2) by (simp add: fun_upd_idem)
    then show ?thesis using None h(1) by (simp add: mcol_erase_all_def)
  next
    case (Some b)
    obtain c' as' where e: "mcol_remove_impl b [0..<length as] c = Some c'" "mcol_inv cfg c' as'"
      "mentry (tlookup (mlookup c')) as' = (\<lambda>j t. if j = k \<and> t \<in> set [0..<length as] then None else m j t)"
      using mcol_remove_impl_ok [OF as(1) h(2) mcol_bucket(1) [OF as(1) h(2) Some]] Some unfolding as(2) by blast
    have "(\<lambda>j t. if j = k \<and> t \<in> set [0..<length as] then None else m j t) = m(k := Map.empty)"
      unfolding as(2) by (auto simp: fun_eq_iff mentry_def)
    then have "mcol_rep cfg c' (m(k := Map.empty))" using e(2,3) unfolding mcol_rep_def by metis
    then show ?thesis using Some e(1) mcol_bucket(2) [OF as(1) h(2) Some] mcol_invD(2) [OF as(1)]
      by (simp add: mcol_erase_all_def)
  qed
qed

section \<open>Properties\<close>

text \<open>C18: adding a component of a type under a key, whether the key is new or has components of other types, is
  safe and exact: it is refused or it adds just that component, leaving all others as they are; it is only
  accepted if the key has no component of that type; the component is then found under its key, and erasing it
  gives back the collection as it was.\<close>
theorem multi_collection_emplace:
  assumes "mcol_rep cfg c m" "k \<noteq> 0" "mcol_room t c"
  shows "\<exists>r c'. mcol_emplace cfg t k x c = Some (r, c') \<and>
    (case r of
       None \<Rightarrow> mcol_rep cfg c' m
     | Some i \<Rightarrow> m k t = None \<and> mcol_rep cfg c' (m(k := (m k)(t \<mapsto> x))) \<and>
         mcol_get t (mcol_find k c') c' = Some (Some x) \<and>
         (\<exists>c''. mcol_erase t (mcol_find k c') c' = Some c'' \<and> mcol_rep cfg c'' m))"
proof -
  obtain r c' where e: "mcol_emplace cfg t k x c = Some (r, c')"
    "if r = None then mcol_rep cfg c' m else m k t = None \<and> mcol_rep cfg c' (m(k := (m k)(t \<mapsto> x)))"
    using mm.add_law [OF assms, of x] by blast
  have "mcol_get t (mcol_find k c') c' = Some (Some x) \<and>
      (\<exists>c''. mcol_erase t (mcol_find k c') c' = Some c'' \<and> mcol_rep cfg c'' m)" if "r = Some i" for i
    using mm.read_law [of cfg c' _ k t] mm.add_remove [OF assms, of x i c'] e that assms(2) by auto
  then show ?thesis using e by (intro exI [of _ r] exI [of _ c']) (auto split: option.splits)
qed

text \<open>C17: erasing the component of one type under a key takes away that component only, although the last component
  of its array is moved into the hole and the slot of another key is rewritten; a key without components left is
  no longer found.  Erasing a key takes away all its components and nothing else.\<close>
theorem multi_collection_erase:
  assumes "mcol_rep cfg c m" "k \<noteq> 0"
  shows "(\<exists>c'. mcol_erase t (mcol_find k c) c = Some c' \<and> mcol_rep cfg c' (m(k := (m k)(t := None))) \<and>
      (mcol_find k c' = None \<longleftrightarrow> dom (m k) \<subseteq> {t})) \<and>
    (\<exists>c'. mcol_erase_all (mcol_find k c) c = Some c' \<and> mcol_rep cfg c' (m(k := Map.empty)) \<and> mcol_find k c' = None)"
proof -
  obtain c1 where 1: "mcol_erase t (mcol_find k c) c = Some c1" "mcol_rep cfg c1 (m(k := (m k)(t := None)))"
    using mm.remove_law [OF assms] by blast
  obtain c2 where 2: "mcol_erase_all (mcol_find k c) c = Some c2" "mcol_rep cfg c2 (m(k := Map.empty))"
    using mm.wipe_law [OF assms] by blast
  have "(m k)(t := None) = Map.empty \<longleftrightarrow> dom (m k) \<subseteq> {t}" by (auto simp: fun_eq_iff)
  then show ?thesis using 1 2 mm.locate_law [OF 1(2) assms(2)] mm.locate_law [OF 2(2) assms(2)] by auto
qed

text \<open>Reading gives for every type what the collection holds under the key, and a call visits the components of
  the key in the order of their types, threading the state of the function through, and stores what it leaves.\<close>
theorem multi_collection_access:
  assumes "mcol_rep cfg c m" "k \<noteq> 0"
  shows "mcol_get t (mcol_find k c) c = Some (m k t) \<and> mcol_contains t (mcol_find k c) c = Some (m k t \<noteq> None) \<and>
    (let r = visit (\<lambda>t. f t k) [0..<length (marrays c)] (m k) st in
     \<exists>c'. mcol_call f (mcol_find k c) c st = Some (c', snd r) \<and> mcol_rep cfg c' (m(k := fst r)))"
proof -
  obtain as where as: "mcol_inv cfg c as" "m = mentry (tlookup (mlookup c)) as" using assms(1) by (auto simp: mcol_rep_def)
  let ?r = "visit (\<lambda>t. f t k) [0..<length (marrays c)] (m k) st"
  have "\<exists>c'. mcol_call f (mcol_find k c) c st = Some (c', snd ?r) \<and> mcol_rep cfg c' (m(k := fst ?r))"
  proof (cases "mcol_find k c")
    case None
    have "m k = Map.empty" using None mcol_entry_none [OF as(1) assms(2)] as(2) by simp
    then show ?thesis using None assms(1) by (simp add: mcol_call_def visit_empty fun_upd_idem)
  next
    case (Some b)
    then show ?thesis
      using mcol_call_impl_ok [OF as(1) assms(2) Some, of f "[0..<length (marrays c)]" st] mcol_bucket(2) [OF as(1) assms(2) Some]
      unfolding as(2) [symmetric] mcol_rep_def by (auto simp: mcol_call_def intro: sym)
  qed
  then show ?thesis using mcol_get_ok [OF as(1) assms(2), of t] as(2) by (simp add: Let_def)
qed

text \<open>A collection of two types that holds the components 7 and 8 under the key 5.\<close>

definition demo_mcol :: "nat mcol" where
  "demo_mcol = \<lparr>mlookup = \<lparr>tslots = [\<lparr>type_mask = mask 2, indices = [0, 0]\<rparr>], tkeys = [5]\<rparr>,
     marrays = map (\<lambda>x. \<lparr>stor = \<lparr>good = True, cells = [Live (x, 5), Raw]\<rparr>, vcap = 0, vend = 1\<rparr>) [7, 8]\<rparr>"

lemma demo_mcol_rep: "mcol_rep demo_cfg demo_mcol (\<lambda>k. if k = 5 then [0 \<mapsto> 7, 1 \<mapsto> 8] else Map.empty)"
proof -
  let ?s = "\<lparr>type_mask = mask 2, indices = [0, 0]\<rparr>"
  have ok: "table_ok (mlookup demo_mcol)" by (auto simp: table_ok_def demo_mcol_def probe_def table_bound_def)
  have l: "tlookup (mlookup demo_mcol) = [5 \<mapsto> ?s]" by (rule tlookup_eqI [OF ok]) (auto simp: demo_mcol_def)
  have p: "places [5 \<mapsto> ?s] t = (if t < 2 then [5 \<mapsto> 0] else Map.empty)" for t
    by (auto simp: places_def mslot_at_def bit_mask_iff fun_eq_iff mslot_get_index_def less_2_cases_iff)
  have one: "Suc 0 \<le> table_bound" by (simp add: table_bound_def)
  have "mslot_shape 2 5 ?s" by (simp add: mslot_shape_def bit_mask_iff mask_eq_0_iff)
  then have sh: "buckets_all (mslot_shape 2) (mlookup demo_mcol)" by (simp add: buckets_all_def demo_mcol_def)
  have v: "vec_rep (comp_cfg demo_cfg t) (marrays demo_mcol ! t) ([[(7, 5)], [(8, 5)]] ! t)" if "t < 2" for t
  proof -
    from that consider "t = 0" | "t = 1" by linarith
    then show ?thesis by cases (simp_all add: demo_cfg_def demo_mcol_def vec_rep_def capacity_def numeral_2_eq_2)
  qed
  have x: "indexed [5 \<mapsto> 0] ([[(7 :: nat, 5)], [(8, 5)]] ! t)" if "t < 2" for t
  proof -
    from that consider "t = 0" | "t = 1" by linarith
    then show ?thesis by cases (auto simp: indexed_def)
  qed
  have "mcol_inv demo_cfg demo_mcol [[(7, 5)], [(8, 5)]]"
    unfolding mcol_inv_def l
  proof (intro conjI allI impI)
    show "sound_table (lookup_cfg demo_cfg) (mlookup demo_mcol)"
      using ok one by (simp add: sound_table_def demo_cfg_def table_cfg_def)
    show "buckets_all (mslot_shape (length [[(7, 5)], [(8, 5)]])) (mlookup demo_mcol)" using sh by (simp add: numeral_2_eq_2)
    fix t assume "t < length [[(7 :: nat, 5 :: u64)], [(8, 5)]]"
    then have t: "t < 2" by simp
    show "vec_rep (comp_cfg demo_cfg t) (marrays demo_mcol ! t) ([[(7, 5)], [(8, 5)]] ! t)" by (rule v [OF t])
    show "indexed (places [5 \<mapsto> ?s] t) ([[(7 :: nat, 5)], [(8, 5)]] ! t)" using x [OF t] t by (simp add: p)
    from t consider "t = 0" | "t = 1" by linarith
    then show "length ([[(7 :: nat, 5 :: u64)], [(8, 5)]] ! t) \<le> 2 ^ 16" by cases simp_all
  qed (simp_all add: demo_mcol_def)
  moreover have "mentry (tlookup (mlookup demo_mcol)) [[(7 :: nat, 5)], [(8, 5)]] = (\<lambda>k. if k = 5 then [0 \<mapsto> 7, 1 \<mapsto> 8] else Map.empty)"
  proof (intro ext)
    fix k :: u64 and t :: nat
    consider "t = 0" | "t = 1" | "2 \<le> t" by linarith
    then show "mentry (tlookup (mlookup demo_mcol)) [[(7, 5)], [(8, 5)]] k t = (if k = 5 then [0 \<mapsto> 7, 1 \<mapsto> 8] else Map.empty) t"
      unfolding l by cases (auto simp: mentry_def p content_def)
  qed
  ultimately show ?thesis unfolding mcol_rep_def by metis
qed

text \<open>The same collection before anything is in it.\<close>

lemma demo_mnone: "mcol_rep demo_cfg (mcol_new demo_cfg 2 :: nat mcol) (\<lambda>k. Map.empty)"
proof -
  have c: "table_cfg (lookup_cfg demo_cfg)" by (simp add: demo_cfg_def table_cfg_def table_bound_def)
  have "mentry (tlookup (mlookup (mcol_new demo_cfg 2 :: nat mcol))) (replicate 2 []) = (\<lambda>k. Map.empty :: nat \<Rightarrow> nat option)"
    unfolding mcol_new_inv(2) [OF c, of 2, simplified] by (simp add: mentry_def places_def content_def fun_eq_iff)
  then show ?thesis
    using mcol_new_inv(1) [OF c, of 2] unfolding mcol_rep_def by (intro exI [of _ "replicate 2 []"]) simp
qed

lemma demo_mnew: "(mcol_new demo_cfg 2 :: nat mcol) = \<lparr>mlookup = \<lparr>tslots = [mslot_zero 2], tkeys = [0]\<rparr>,
    marrays = [\<lparr>stor = \<lparr>good = True, cells = [Raw, Raw]\<rparr>, vcap = 2, vend = 0\<rparr>,
      \<lparr>stor = \<lparr>good = True, cells = [Raw, Raw]\<rparr>, vcap = 2, vend = 0\<rparr>]\<rparr>"
proof -
  have "[0..<2] = [0, 1 :: nat]" by (simp add: upt_rec)
  then show ?thesis by (simp add: mcol_new_def demo_table_new demo_vec_new)
qed

theorem multi_collection_emplace_witness:
  "\<exists>c'. mcol_emplace demo_cfg 1 5 (8 :: nat) (mcol_new demo_cfg 2) = Some (Some 0, c') \<and>
    mcol_rep demo_cfg c' ((\<lambda>k. Map.empty)(5 := [1 \<mapsto> 8])) \<and> mcol_get 1 (mcol_find 5 c') c' = Some (Some 8) \<and>
    (\<exists>c''. mcol_erase 1 (mcol_find 5 c') c' = Some c'' \<and> mcol_rep demo_cfg c'' (\<lambda>k. Map.empty))"
proof -
  have "\<exists>c'. mcol_emplace demo_cfg 1 5 (8 :: nat) (mcol_new demo_cfg 2) = Some (Some 0, c')"
    unfolding demo_mnew
    by (simp add: mcol_emplace_def mcol_try_place_def mcol_find_def find_bucket_def find_bucket_at_def to_bucket_def find_bucket_loop.simps hash_of_def
        try_place.simps find_empty_bucket_def demo_cfg_def try_emplace_back_def vsize_def capacity_def
        emplace_back_no_reallocate_def emplace_back_no_failure_def construct_at.simps Let_def mslot_empty_at_def mslot_zero_def)
  moreover have "mcol_room 1 (mcol_new demo_cfg 2 :: nat mcol)"
    unfolding demo_mnew by (simp add: mcol_room_def vsize_def)
  ultimately show ?thesis using multi_collection_emplace [OF demo_mnone, of 5 1 8] by auto
qed

theorem multi_collection_erase_witness:
  "(\<exists>c'. mcol_erase 1 (mcol_find 5 demo_mcol) demo_mcol = Some c' \<and>
      mcol_rep demo_cfg c' ((\<lambda>k. if k = 5 then [0 \<mapsto> 7, 1 \<mapsto> 8] else Map.empty)
        (5 := (if (5 :: u64) = 5 then [0 \<mapsto> 7, 1 \<mapsto> 8] else Map.empty)(1 := None))) \<and>
      (mcol_find 5 c' = None \<longleftrightarrow> dom (if (5 :: u64) = 5 then [0 :: nat \<mapsto> 7 :: nat, 1 \<mapsto> 8] else Map.empty) \<subseteq> {1})) \<and>
    (\<exists>c'. mcol_erase_all (mcol_find 5 demo_mcol) demo_mcol = Some c' \<and>
      mcol_rep demo_cfg c' ((\<lambda>k. if k = 5 then [0 \<mapsto> 7, 1 \<mapsto> 8] else Map.empty)(5 := Map.empty)) \<and> mcol_find 5 c' = None)"
  by (rule multi_collection_erase [OF demo_mcol_rep]) simp

theorem multi_collection_access_witness:
  "mcol_get 1 (mcol_find 5 demo_mcol) demo_mcol =
      Some ((if (5 :: u64) = 5 then [0 :: nat \<mapsto> 7 :: nat, 1 \<mapsto> 8] else Map.empty) 1) \<and>
    mcol_contains 1 (mcol_find 5 demo_mcol) demo_mcol =
      Some ((if (5 :: u64) = 5 then [0 :: nat \<mapsto> 7 :: nat, 1 \<mapsto> 8] else Map.empty) 1 \<noteq> None) \<and>
    (let r = visit (\<lambda>t x s. (x + t, s + x)) [0..<length (marrays demo_mcol)]
       (if (5 :: u64) = 5 then [0 \<mapsto> 7, 1 \<mapsto> 8] else Map.empty) (0 :: nat) in
     \<exists>c'. mcol_call (\<lambda>t k x s. (x + t, s + x)) (mcol_find 5 demo_mcol) demo_mcol 0 = Some (c', snd r) \<and>
       mcol_rep demo_cfg c' ((\<lambda>k. if k = 5 then [0 \<mapsto> 7, 1 \<mapsto> 8] else Map.empty)(5 := fst r)))"
  by (rule multi_collection_access [OF demo_mcol_rep]) simp

end
