(* ===== verification/Crc.thy ===== *)
theory Crc
  imports Prelude "HOL-Library.Char_ord"
begin

unbundle bit_operations_syntax

text \<open>
  The checksum of \<^verbatim>\<open>utility/crypto/crc.hpp\<close>, from which \<^verbatim>\<open>engine/Hash.hpp\<close> and \<^verbatim>\<open>engine/Asset.hpp\<close> make the names
  of files, file types and directories.  The code works on a byte at a time with a table of 256 values; it is
  shown to compute what the definition of the checksum, which works on a bit at a time, computes, and to tell
  texts of the same length apart that differ in one byte.
\<close>

section \<open>The code\<close>

fun crc32_table_gen :: "u32 \<Rightarrow> nat \<Rightarrow> u32" where
  "crc32_table_gen rem 0 = rem"
| "crc32_table_gen rem (Suc n) =
    crc32_table_gen ((if rem AND 1 \<noteq> 0 then 0xedb88320 else 0) XOR drop_bit 1 rem) n"

definition crc32_table_values :: "u32 list" where
  "crc32_table_values = map (\<lambda>i. crc32_table_gen (word_of_nat i) 8) [0..<256]"

text \<open>The conversion of a \<^verbatim>\<open>char\<close> to 32 bits extends its sign.\<close>

definition crc32_accumulate :: "u32 \<Rightarrow> char \<Rightarrow> u32" where
  "crc32_accumulate crc c =
    crc32_table_values ! unat ((scast (word_of_nat (of_char c) :: u8) XOR crc) AND 0xff) XOR drop_bit 8 crc"

fun crc32_append :: "u32 \<Rightarrow> string \<Rightarrow> u32" where
  "crc32_append crc [] = crc"
| "crc32_append crc (c # str) = crc32_append (crc32_accumulate crc c) str"

text \<open>The other overload reads up to a zero byte, which has to be there.\<close>

fun crc32_append_cstr :: "u32 \<Rightarrow> string \<Rightarrow> u32 option" where
  "crc32_append_cstr crc [] = None"
| "crc32_append_cstr crc (c # str) = (if c = CHR 0x00 then Some crc else crc32_append_cstr (crc32_accumulate crc c) str)"

definition crc32 :: "string \<Rightarrow> u32" where
  "crc32 str = NOT (crc32_append (NOT 0) str)"

definition crc32_cstr :: "string \<Rightarrow> u32 option" where
  "crc32_cstr str = map_option (\<lambda>r. NOT r) (crc32_append_cstr (NOT 0) str)"

text \<open>The name of a file, a file type or a directory.\<close>

type_synonym asset = u32

definition asset_of :: "string \<Rightarrow> asset" where
  "asset_of str = crc32 str"

section \<open>The definition of the checksum\<close>

text \<open>Division by the polynomial, least significant bit first: one bit \<open>b\<close> of the message enters, one bit of the
  remainder leaves.\<close>

definition crc_step :: "u32 \<Rightarrow> u32" where
  "crc_step r = (if bit r 0 then 0xedb88320 else 0) XOR drop_bit 1 r"

definition crc_bit :: "bool \<Rightarrow> u32 \<Rightarrow> u32" where
  "crc_bit b r = crc_step (r XOR of_bool b)"

definition byte_bits :: "char \<Rightarrow> bool list" where
  "byte_bits c = map (\<lambda>i. bit (of_char c :: nat) i) [0..<8]"

definition crc_reference :: "string \<Rightarrow> u32" where
  "crc_reference str = NOT (fold crc_bit (concat (map byte_bits str)) (NOT 0))"

section \<open>Facts\<close>

lemma xor_cancel: "a XOR b = a XOR c \<longleftrightarrow> b = c" "b XOR a = c XOR a \<longleftrightarrow> b = c" for a b c :: u32
proof -
  have "a XOR (a XOR x) = x" for x by (simp flip: xor.assoc)
  then show 1: "a XOR b = a XOR c \<longleftrightarrow> b = c" by metis
  then show "b XOR a = c XOR a \<longleftrightarrow> b = c" by (simp add: xor.commute)
qed

lemma and_one_iff: "r AND 1 \<noteq> 0 \<longleftrightarrow> bit r 0" for r :: u32
  by (simp add: and_one_eq bit_0 mod2_eq_if)

lemma table_gen_steps: "crc32_table_gen r n = (crc_step ^^ n) r"
  by (induction n arbitrary: r) (simp_all add: crc_step_def and_one_iff funpow_swap1)

lemma crc_step_xor: "crc_step (r XOR s) = crc_step r XOR crc_step s"
  by (cases "bit r 0"; cases "bit s 0") (simp_all add: crc_step_def bit_simps ac_simps)

lemma crc_steps_xor: "(crc_step ^^ n) (r XOR s) = (crc_step ^^ n) r XOR (crc_step ^^ n) s"
  by (induction n) (simp_all add: crc_step_xor)

lemma crc_steps_high: "take_bit n r = 0 \<Longrightarrow> (crc_step ^^ n) r = drop_bit n r"
proof (induction n arbitrary: r)
  case (Suc n)
  have "\<not> bit (take_bit (Suc n) r) i" for i using Suc.prems by simp
  then have b: "\<not> bit r i" if "i < Suc n" for i using that by (auto simp: bit_take_bit_iff)
  have "crc_step r = drop_bit 1 r" using b [of 0] by (simp add: crc_step_def)
  moreover have "take_bit n (drop_bit 1 r) = 0"
    using b by (intro bit_word_eqI) (auto simp: bit_take_bit_iff bit_drop_bit_eq)
  ultimately show ?case using Suc.IH [of "drop_bit 1 r"] by (simp add: funpow_swap1)
qed simp

lemma crc_step_inj: "crc_step r = crc_step s \<Longrightarrow> r = s"
proof -
  assume h: "crc_step r = crc_step s"
  have top: "bit (crc_step q) 31 \<longleftrightarrow> bit q 0" for q
    using bit_imp_le_length [of q 32] by (auto simp: crc_step_def bit_simps)
  have low: "bit r 0 = bit s 0" using top h by metis
  then have "drop_bit 1 r = drop_bit 1 s" using h by (cases "bit s 0") (simp_all add: crc_step_def xor_cancel)
  then have "bit r (Suc i) = bit s (Suc i)" for i by (metis bit_drop_bit_eq comp_apply plus_1_eq_Suc)
  then show ?thesis using low by (intro bit_word_eqI) (metis old.nat.exhaust)
qed

lemma crc_steps_inj: "(crc_step ^^ n) r = (crc_step ^^ n) s \<Longrightarrow> r = s"
  by (induction n) (auto dest: crc_step_inj)

text \<open>One byte.\<close>

definition byte_word :: "char \<Rightarrow> u32" where
  "byte_word c = word_of_nat (of_char c)"

lemma of_char_less: "of_char c < (256 :: nat)"
  by simp

lemma bit_byte_word: "bit (byte_word c) i \<longleftrightarrow> i < 8 \<and> bit (of_char c :: nat) i"
proof -
  have "of_char c < (256 :: nat)" by simp
  then have "(of_char c :: nat) = take_bit 8 (of_char c)" by (simp add: take_bit_nat_eq_self)
  then have "bit (of_char c :: nat) i \<longleftrightarrow> i < 8 \<and> bit (of_char c :: nat) i" by (metis bit_take_bit_iff)
  then show ?thesis by (auto simp: byte_word_def bit_simps)
qed

lemma byte_word_scast: "scast (word_of_nat (of_char c) :: u8) AND 0xff = byte_word c"
proof -
  have "(0xff :: u32) = mask 8" by (simp add: mask_eq_exp_minus_1)
  then show ?thesis
    unfolding \<open>0xff = mask 8\<close> by (intro bit_word_eqI) (auto simp: bit_byte_word bit_simps)
qed

lemma accumulate_steps: "crc32_accumulate crc c = (crc_step ^^ 8) (crc XOR byte_word c)"
proof -
  let ?x = "crc XOR byte_word c"
  have m: "(0xff :: u32) = mask 8" by (simp add: mask_eq_exp_minus_1)
  have i: "(scast (word_of_nat (of_char c) :: u8) XOR crc) AND 0xff = take_bit 8 ?x"
    unfolding bit.conj_xor_distrib2 byte_word_scast
    unfolding m by (intro bit_word_eqI) (auto simp: bit_simps bit_byte_word)
  have "unat (take_bit 8 ?x) = take_bit 8 (unat ?x)" by (rule unsigned_take_bit_eq)
  then have "unat (take_bit 8 ?x) < 256" using take_bit_nat_less_exp [of 8 "unat ?x"] by simp
  then have t: "crc32_table_values ! unat (take_bit 8 ?x) = (crc_step ^^ 8) (take_bit 8 ?x)"
    by (simp add: crc32_table_values_def table_gen_steps)
  have "(crc_step ^^ 8) (push_bit 8 (drop_bit 8 ?x)) = drop_bit 8 (push_bit 8 (drop_bit 8 ?x))"
    by (rule crc_steps_high) (simp add: take_bit_push_bit)
  also have "\<dots> = drop_bit 8 crc"
    by (intro bit_word_eqI) (auto simp: bit_simps bit_byte_word dest: bit_imp_le_length)
  finally have h: "(crc_step ^^ 8) (push_bit 8 (drop_bit 8 ?x)) = drop_bit 8 crc" .
  have "?x = take_bit 8 ?x XOR push_bit 8 (drop_bit 8 ?x)"
  proof (rule bit_word_eqI)
    fix n assume "n < LENGTH(32)"
    then show "bit ?x n \<longleftrightarrow> bit (take_bit 8 ?x XOR push_bit 8 (drop_bit 8 ?x)) n"
      by (cases "n < 8") (simp_all add: bit_simps)
  qed
  then have "(crc_step ^^ 8) ?x = (crc_step ^^ 8) (take_bit 8 ?x) XOR drop_bit 8 crc"
    using crc_steps_xor h by metis
  then show ?thesis unfolding crc32_accumulate_def i t by simp
qed

text \<open>The checksum of a given text is computed by these rules.\<close>

lemma accumulate_eval:
  "crc32_accumulate crc c = crc_step (crc_step (crc_step (crc_step (crc_step (crc_step (crc_step (crc_step
    (crc XOR byte_word c))))))))"
  by (simp add: accumulate_steps numeral_eq_Suc)

lemmas crc_eval = crc32_def accumulate_eval crc_step_def byte_word_def

text \<open>A byte fed bit by bit.\<close>

lemma crc_bits_steps:
  "fold crc_bit (map (bit w) [0..<n]) r = (crc_step ^^ n) (r XOR take_bit n w)" for w :: u32
proof (induction n)
  case (Suc n)
  have "fold crc_bit (map (bit w) [0..<Suc n]) r = crc_step ((crc_step ^^ n) (r XOR take_bit n w) XOR of_bool (bit w n))"
    by (simp add: Suc) (simp add: crc_bit_def)
  also have "of_bool (bit w n) = (crc_step ^^ n) (push_bit n (of_bool (bit w n)))"
  proof (cases "n < 32")
    case True
    have "(crc_step ^^ n) (push_bit n (of_bool (bit w n))) = drop_bit n (push_bit n (of_bool (bit w n)))"
      by (rule crc_steps_high) (simp add: take_bit_push_bit)
    also have "\<dots> = of_bool (bit w n)" using True by (intro bit_word_eqI) (auto simp: bit_simps)
    finally show ?thesis by simp
  next
    case False
    then have "\<not> bit w n" using bit_imp_le_length [of w n] by auto
    then show ?thesis using crc_steps_high [of n 0] by simp
  qed
  also have "crc_step ((crc_step ^^ n) (r XOR take_bit n w) XOR (crc_step ^^ n) (push_bit n (of_bool (bit w n)))) =
      (crc_step ^^ Suc n) (r XOR (take_bit n w XOR push_bit n (of_bool (bit w n))))"
    by (simp add: xor.assoc flip: crc_steps_xor)
  also have "take_bit n w XOR push_bit n (of_bool (bit w n)) = take_bit (Suc n) w"
    by (intro bit_word_eqI) (auto simp: bit_simps less_Suc_eq)
  finally show ?case .
qed simp

lemma byte_step: "fold crc_bit (byte_bits c) r = crc32_accumulate r c"
proof -
  have "byte_bits c = map (bit (byte_word c)) [0..<8]" by (simp add: byte_bits_def bit_byte_word)
  moreover have "take_bit 8 (byte_word c) = byte_word c" by (intro bit_word_eqI) (auto simp: bit_simps bit_byte_word)
  ultimately show ?thesis by (simp only: crc_bits_steps accumulate_steps)
qed

lemma append_bits: "crc32_append r str = fold crc_bit (concat (map byte_bits str)) r"
  by (induction str arbitrary: r) (simp_all add: byte_step)

lemma append_append: "crc32_append r (s @ t) = crc32_append (crc32_append r s) t"
  by (induction s arbitrary: r) simp_all

lemma append_inj: "crc32_append r str = crc32_append q str \<Longrightarrow> r = q"
proof (induction str arbitrary: r q)
  case (Cons c str)
  then have "crc32_accumulate r c = crc32_accumulate q c" by simp
  then have "r XOR byte_word c = q XOR byte_word c" unfolding accumulate_steps by (rule crc_steps_inj)
  then show ?case by (simp only: xor_cancel)
qed simp

lemma cstr_append: "CHR 0x00 \<notin> set str \<Longrightarrow> crc32_append_cstr r (str @ CHR 0x00 # rest) = Some (crc32_append r str)"
  by (induction str arbitrary: r) auto

section \<open>Properties\<close>

text \<open>C28: the checksum with its table is the one that the polynomial defines, whatever the sign of the bytes, and the
  overload for strings that end with a zero byte computes the same for the bytes before it.\<close>
theorem crc32_correct:
  "crc32 str = crc_reference str \<and>
   (CHR 0x00 \<notin> set str \<longrightarrow> crc32_cstr (str @ CHR 0x00 # rest) = Some (crc32 str))"
  by (simp add: crc32_def crc_reference_def append_bits crc32_cstr_def cstr_append)

text \<open>Names that differ in one byte are told apart.\<close>
theorem crc32_one_byte:
  assumes "c \<noteq> d"
  shows "crc32 (s @ c # t) \<noteq> crc32 (s @ d # t)"
proof
  let ?r = "crc32_append (NOT 0) s"
  assume "crc32 (s @ c # t) = crc32 (s @ d # t)"
  then have "crc32_append (NOT 0) (s @ c # t) = crc32_append (NOT 0) (s @ d # t)"
    unfolding crc32_def by (metis bit.double_compl)
  then have "crc32_accumulate ?r c = crc32_accumulate ?r d"
    unfolding append_append crc32_append.simps by (rule append_inj)
  then have "?r XOR byte_word c = ?r XOR byte_word d" unfolding accumulate_steps by (rule crc_steps_inj)
  then have "byte_word c = byte_word d" by (simp only: xor_cancel)
  then have "unat (byte_word c) = unat (byte_word d)" by simp
  then have "(of_char c :: nat) = of_char d" using of_char_less [of c] of_char_less [of d] by (simp add: byte_word_def)
  then show False using assms by simp
qed

theorem crc32_one_byte_witness: "crc32 (''a.'' @ CHR ''b'' # ''.c'') \<noteq> crc32 (''a.'' @ CHR ''d'' # ''.c'')"
  by (rule crc32_one_byte) simp

theorem crc32_correct_witness:
  "crc_reference ''123456789'' = 0xcbf43926 \<and> crc32_cstr (''123456789'' @ CHR 0x00 # []) = Some 0xcbf43926"
proof -
  have "crc32 ''123456789'' = 0xcbf43926" by (simp add: crc_eval)
  moreover have "CHR 0x00 \<notin> set ''123456789''" by simp
  ultimately show ?thesis using crc32_correct [of "''123456789''" "[]"] by metis
qed

end
