(* ===== verification/File_Index.thy ===== *)
theory File_Index
  imports Crc
begin

text \<open>
  The index of files of \<^verbatim>\<open>engine/file/loader.cpp\<close>: which names can be loaded, and what they stand for.  A scan of a
  directory reports the files that are there and those that are gone.  A file is known by its path and, without
  its extension, by its radical; a name that several files claim is ambiguous.

  The collection of the index is a map, which the contract of the collections allows as long as memory is granted:
  emplacing under a name that is taken answers null, here \<open>None\<close>.  A view is a list of bytes and an iterator a
  position in it; the two searches belong to the library \<^verbatim>\<open>ful\<close> and are parameters.  Code that is marked as
  unreachable is \<open>None\<close>.
\<close>

section \<open>Entries\<close>

datatype file_entry =
    AmbiguousFile "(asset \<times> string) list" "(asset \<times> asset) list"
  | DirectoryFile
  | RadicalFile asset asset
  | UniqueFile asset string "(asset \<times> asset) list"

type_synonym file_index = "asset \<rightharpoonup> file_entry"

definition index_emplace :: "asset \<Rightarrow> file_entry \<Rightarrow> file_index \<Rightarrow> file_index" where
  "index_emplace a e idx = (if idx a = None then idx(a \<mapsto> e) else idx)"

definition find_underlying_file :: "asset \<Rightarrow> file_index \<Rightarrow> asset \<times> file_entry option" where
  "find_underlying_file file idx = (case idx file of
     Some (RadicalFile directory f) \<Rightarrow> (f, idx f)
   | e \<Rightarrow> (file, e))"

text \<open>Erasing what a search finds.\<close>

definition erase_found :: "'a \<Rightarrow> 'a list \<Rightarrow> 'a list" where
  "erase_found x xs = (case position (\<lambda>y. y = x) xs of None \<Rightarrow> xs | Some i \<Rightarrow> erase_at i xs)"

section \<open>Files that are gone\<close>

definition forget_path :: "asset \<Rightarrow> string \<Rightarrow> file_index \<Rightarrow> file_index option" where
  "forget_path directory filepath idx = (let file_asset = asset_of filepath in
     case idx file_asset of
       None \<Rightarrow> Some idx
     | Some (AmbiguousFile metas radicals) \<Rightarrow> (
         case position (\<lambda>m. m = (directory, filepath)) metas of
           None \<Rightarrow> Some idx
         | Some i \<Rightarrow>
             (let metas = erase_at i metas in
              if length metas = 1 then
                (let (d, p) = hd metas in
                 Some (index_emplace file_asset (UniqueFile d p radicals) (idx(file_asset := None))))
              else Some (idx(file_asset \<mapsto> AmbiguousFile metas radicals))))
     | Some DirectoryFile \<Rightarrow> None
     | Some (RadicalFile d f) \<Rightarrow> None
     | Some (UniqueFile d p radicals) \<Rightarrow>
         (if length radicals = 0 then Some (idx(file_asset := None))
          else if length radicals = 1 then
            (let (d', f') = hd radicals in
             Some (index_emplace file_asset (RadicalFile d' f') (idx(file_asset := None))))
          else Some (index_emplace file_asset (AmbiguousFile [] radicals) (idx(file_asset := None)))))"

definition forget_radical :: "asset \<Rightarrow> asset \<Rightarrow> asset \<Rightarrow> file_index \<Rightarrow> file_index option" where
  "forget_radical directory file_asset radical_asset idx = (case idx radical_asset of
     None \<Rightarrow> Some idx
   | Some (AmbiguousFile metas radicals) \<Rightarrow>
       (let radicals = erase_found (directory, file_asset) radicals in
        if length radicals = 1 \<and> metas = [] then
          (let (d, f) = hd radicals in
           Some (index_emplace file_asset (RadicalFile d f) (idx(radical_asset := None))))
        else Some (idx(radical_asset \<mapsto> AmbiguousFile metas radicals)))
   | Some DirectoryFile \<Rightarrow> None
   | Some (RadicalFile d f) \<Rightarrow> Some (idx(radical_asset := None))
   | Some (UniqueFile d p radicals) \<Rightarrow>
       Some (idx(radical_asset \<mapsto> UniqueFile d p (erase_found (directory, file_asset) radicals))))"

record names =
  n_find :: "string \<Rightarrow> char \<Rightarrow> nat"
  n_rfind :: "string \<Rightarrow> char \<Rightarrow> nat"

definition forget_file :: "names \<Rightarrow> asset \<Rightarrow> string \<Rightarrow> file_index \<Rightarrow> file_index option" where
  "forget_file N directory filepath idx = do {
     idx \<leftarrow> forget_path directory filepath idx;
     let extension = n_rfind N filepath (CHR ''.'');
     if extension \<noteq> length filepath
     then forget_radical directory (asset_of filepath) (asset_of (take extension filepath)) idx
     else Some idx }"

section \<open>Files that are there\<close>

definition note_radical :: "asset \<Rightarrow> asset \<Rightarrow> asset \<Rightarrow> file_index \<Rightarrow> file_index option" where
  "note_radical directory file_asset radical_asset idx = (case idx radical_asset of
     None \<Rightarrow> Some (index_emplace radical_asset (RadicalFile directory file_asset) idx)
   | Some (AmbiguousFile metas radicals) \<Rightarrow>
       Some (idx(radical_asset \<mapsto> AmbiguousFile metas (radicals @ [(directory, file_asset)])))
   | Some DirectoryFile \<Rightarrow> None
   | Some (RadicalFile d f) \<Rightarrow>
       Some (index_emplace radical_asset (AmbiguousFile [] [(d, f), (directory, file_asset)]) (idx(radical_asset := None)))
   | Some (UniqueFile d p radicals) \<Rightarrow>
       Some (idx(radical_asset \<mapsto> UniqueFile d p (radicals @ [(directory, file_asset)]))))"

definition note_file :: "names \<Rightarrow> asset \<Rightarrow> string \<Rightarrow> file_index \<Rightarrow> file_index option" where
  "note_file N directory filepath idx = (let file_asset = asset_of filepath in
     case idx file_asset of
       Some (AmbiguousFile metas radicals) \<Rightarrow> (
         case position (\<lambda>m. m = (directory, filepath)) metas of
           Some i \<Rightarrow> Some idx
         | None \<Rightarrow>
             if metas = [] then Some (index_emplace file_asset (UniqueFile directory filepath radicals) (idx(file_asset := None)))
             else Some (idx(file_asset \<mapsto> AmbiguousFile (metas @ [(directory, filepath)]) radicals)))
     | Some DirectoryFile \<Rightarrow> None
     | Some (RadicalFile d f) \<Rightarrow>
         Some (index_emplace file_asset (UniqueFile directory filepath [(d, f)]) (idx(file_asset := None)))
     | Some (UniqueFile d p radicals) \<Rightarrow>
         (if d = directory \<and> p = filepath then Some idx
          else Some (index_emplace file_asset (AmbiguousFile [(d, p), (directory, filepath)] radicals) (idx(file_asset := None))))
     | None \<Rightarrow>
         (let idx = index_emplace file_asset (UniqueFile directory filepath []) idx;
              extension = n_rfind N filepath (CHR ''.'') in
          if extension \<noteq> length filepath
          then note_radical directory file_asset (asset_of (take extension filepath)) idx
          else Some idx))"

section \<open>A scan\<close>

text \<open>The two loops over paths that are separated by semicolons.  The flag is false after the early return at a path
  without a name.\<close>

function scan_paths :: "names \<Rightarrow> (string \<Rightarrow> file_index \<Rightarrow> file_index option) \<Rightarrow> string \<Rightarrow> file_index \<Rightarrow> (bool \<times> file_index) option" where
  "scan_paths N f v idx = (let split = n_find N v (CHR '';'') in
     if length v < split then None
     else if split = 0 then Some (False, idx)
     else do {
       idx \<leftarrow> f (take split v) idx;
       if split = length v then Some (True, idx)
       else scan_paths N f (drop (split + 1) v) idx })"
  by pat_completeness auto
termination
  by (relation "measure (\<lambda>(N, f, v, idx). length v)") auto

declare scan_paths.simps [simp del]

definition file_scan :: "names \<Rightarrow> asset \<Rightarrow> string \<Rightarrow> string \<Rightarrow> file_index \<Rightarrow> file_index option" where
  "file_scan N directory existing_files removed_files idx = do {
     (ok, idx) \<leftarrow> (if removed_files = [] then Some (True, idx) else scan_paths N (forget_file N directory) removed_files idx);
     if \<not> ok then Some idx
     else if existing_files = [] then Some idx
     else map_option snd (scan_paths N (note_file N directory) existing_files idx) }"

text \<open>\<^verbatim>\<open>MessageRegisterLibrary\<close> and \<^verbatim>\<open>MessageUnregisterLibrary\<close>.\<close>

definition register_directory :: "asset \<Rightarrow> file_index \<Rightarrow> file_index" where
  "register_directory directory idx = (if idx directory \<noteq> None then idx else index_emplace directory DirectoryFile idx)"

definition unregister_directory :: "asset \<Rightarrow> file_index \<Rightarrow> file_index" where
  "unregister_directory directory idx = (if idx directory = Some DirectoryFile then idx(directory := None) else idx)"

section \<open>What the index is meant to be\<close>

text \<open>The radical of a path, and the files that claim a name as their radical, in the order they were found.\<close>

definition stem :: "names \<Rightarrow> string \<Rightarrow> string option" where
  "stem N p = (let e = n_rfind N p (CHR ''.'') in if e \<noteq> length p then Some (take e p) else None)"

definition has_stem :: "names \<Rightarrow> asset \<Rightarrow> string \<Rightarrow> bool" where
  "has_stem N a p = (case stem N p of None \<Rightarrow> False | Some r \<Rightarrow> asset_of r = a)"

definition claims :: "names \<Rightarrow> (asset \<times> string) list \<Rightarrow> asset \<Rightarrow> (asset \<times> asset) list" where
  "claims N fs a = map (\<lambda>(d, p). (d, asset_of p)) (filter (\<lambda>(d, p). has_stem N a p) fs)"

definition claimed :: "(asset \<times> asset) list \<Rightarrow> file_entry option" where
  "claimed cs = (case cs of [] \<Rightarrow> None | [(d, f)] \<Rightarrow> Some (RadicalFile d f) | _ \<Rightarrow> Some (AmbiguousFile [] cs))"

text \<open>The index for a set of directories and a list of files with their directories.\<close>

definition index_of :: "names \<Rightarrow> asset set \<Rightarrow> (asset \<times> string) list \<Rightarrow> file_index" where
  "index_of N D fs a = (
     if a \<in> D then Some DirectoryFile
     else case find (\<lambda>(d, p). asset_of p = a) fs of
       Some (d, p) \<Rightarrow> Some (UniqueFile d p (claims N fs a))
     | None \<Rightarrow> claimed (claims N fs a))"

text \<open>A file that can join: its name is not taken by a directory or a file, its radical is not a directory, and a path
  with a radical is not itself a radical.\<close>

definition may_join :: "names \<Rightarrow> asset set \<Rightarrow> (asset \<times> string) list \<Rightarrow> string \<Rightarrow> bool" where
  "may_join N D fs p \<longleftrightarrow> asset_of p \<notin> D \<and> asset_of p \<notin> (asset_of \<circ> snd) ` set fs \<and>
     (case stem N p of None \<Rightarrow> True
      | Some r \<Rightarrow> asset_of r \<notin> D \<and> asset_of r \<noteq> asset_of p \<and> claims N fs (asset_of p) = [])"

primrec may_join_all :: "names \<Rightarrow> asset set \<Rightarrow> (asset \<times> string) list \<Rightarrow> (asset \<times> string) list \<Rightarrow> bool" where
  "may_join_all N D fs [] = True"
| "may_join_all N D fs (f # new) = (may_join N D fs (snd f) \<and> may_join_all N D (fs @ [f]) new)"

lemma claimed_simps [simp]:
  "claimed [] = None" "claimed [x] = Some (RadicalFile (fst x) (snd x))" "claimed (x # y # cs) = Some (AmbiguousFile [] (x # y # cs))"
  by (simp_all add: claimed_def case_prod_beta)

lemma claims_snoc: "claims N (fs @ [(d, p)]) a = claims N fs a @ (if has_stem N a p then [(d, asset_of p)] else [])"
  by (simp add: claims_def)

lemma find_snoc: "find P (xs @ [x]) = (case find P xs of None \<Rightarrow> if P x then Some x else None | Some y \<Rightarrow> Some y)"
  by (induction xs) auto

lemma claims_member: "(d, a) \<in> set (claims N fs b) \<Longrightarrow> a \<in> (asset_of \<circ> snd) ` set fs"
  by (force simp: claims_def)

lemma find_absent: "a \<notin> (asset_of \<circ> snd) ` set fs \<Longrightarrow> find (\<lambda>(d, p). asset_of p = a) fs = None"
  by (auto simp: find_None_iff image_iff)

text \<open>Joining the file without its radical, and the whole.\<close>

lemma index_of_snoc:
  assumes "may_join N D fs p"
  shows "index_of N D (fs @ [(d, p)]) a = (
     if a = asset_of p then Some (UniqueFile d p (claims N fs a))
     else if has_stem N a p then
       (case find (\<lambda>(d, p). asset_of p = a) fs of
          Some (d', p') \<Rightarrow> Some (UniqueFile d' p' (claims N fs a @ [(d, asset_of p)]))
        | None \<Rightarrow> claimed (claims N fs a @ [(d, asset_of p)]))
     else index_of N D fs a)"
proof -
  have "\<not> has_stem N (asset_of p) p" and "has_stem N a p \<Longrightarrow> a \<notin> D"
    using assms by (auto simp: may_join_def has_stem_def split: option.splits)
  then show ?thesis
    using assms find_absent [of "asset_of p" fs]
    by (auto simp: index_of_def claims_snoc find_snoc may_join_def split: option.splits)
qed

lemma note_radical_index:
  assumes j: "may_join N D fs p" and r: "stem N p = Some r"
    and i: "idx = (index_of N D fs)(asset_of p \<mapsto> UniqueFile d p [])"
  shows "note_radical d (asset_of p) (asset_of r) idx = Some (index_of N D (fs @ [(d, p)]))"
proof -
  let ?a = "asset_of r"
  have c: "?a \<notin> D" "?a \<noteq> asset_of p" "claims N fs (asset_of p) = []" using j r by (auto simp: may_join_def)
  have hs: "has_stem N a p \<longleftrightarrow> a = ?a" for a using r by (auto simp: has_stem_def)
  have s: "index_of N D (fs @ [(d, p)]) = idx(?a := index_of N D (fs @ [(d, p)]) ?a)"
    using index_of_snoc [OF j, of d] c by (auto simp: fun_eq_iff i hs)
  show ?thesis
  proof (cases "find (\<lambda>(d, p). asset_of p = ?a) fs")
    case (Some f)
    then have "idx ?a = Some (UniqueFile (fst f) (snd f) (claims N fs ?a))"
      using c by (simp add: i index_of_def case_prod_beta)
    then show ?thesis
      by (subst s) (use Some c in \<open>simp add: note_radical_def index_of_snoc [OF j] hs case_prod_beta\<close>)
  next
    case None
    then have e: "idx ?a = claimed (claims N fs ?a)" using c by (simp add: i index_of_def)
    consider "claims N fs ?a = []" | x where "claims N fs ?a = [x]" | x y cs where "claims N fs ?a = x # y # cs"
      by (metis remdups_adj.cases)
    then show ?thesis
      by cases (subst s, use None c e in \<open>simp add: note_radical_def index_of_snoc [OF j] hs index_emplace_def case_prod_beta\<close>)+
  qed
qed

lemma note_file_index:
  assumes j: "may_join N D fs p"
  shows "note_file N d p (index_of N D fs) = Some (index_of N D (fs @ [(d, p)]))"
proof -
  let ?a = "asset_of p"
  have e: "index_of N D fs ?a = claimed (claims N fs ?a)"
    using j find_absent [of ?a fs] by (simp add: index_of_def may_join_def)
  show ?thesis
  proof (cases "stem N p")
    case (Some r)
    then have "claims N fs ?a = []" using j by (simp add: may_join_def)
    moreover have "n_rfind N p (CHR ''.'') \<noteq> length p" "r = take (n_rfind N p (CHR ''.'')) p"
      using Some by (auto simp: stem_def Let_def split: if_splits)
    ultimately show ?thesis using note_radical_index [OF j Some refl, of d] e
      by (simp add: note_file_def Let_def index_emplace_def)
  next
    case None
    have s: "index_of N D (fs @ [(d, p)]) = (index_of N D fs)(?a \<mapsto> UniqueFile d p (claims N fs ?a))"
      using index_of_snoc [OF j, of d] None by (auto simp: fun_eq_iff has_stem_def)
    have l: "n_rfind N p (CHR ''.'') = length p" using None by (auto simp: stem_def Let_def split: if_splits)
    consider "claims N fs ?a = []" | x where "claims N fs ?a = [x]" | x y cs where "claims N fs ?a = x # y # cs"
      by (metis remdups_adj.cases)
    then show ?thesis
      by cases (use e s l in \<open>simp_all add: note_file_def Let_def index_emplace_def\<close>)
  qed
qed

section \<open>Forgetting what joined last\<close>

lemma erase_found_last: "x \<notin> set xs \<Longrightarrow> erase_found x (xs @ [x]) = xs"
  by (simp add: erase_found_def position_absent erase_at_def)

lemma not_claimed_yet: "may_join N D fs p \<Longrightarrow> (d, asset_of p) \<notin> set (claims N fs a)"
  using claims_member by (fastforce simp: may_join_def)

lemma forget_path_index:
  assumes j: "may_join N D fs p"
  shows "forget_path d p (index_of N D (fs @ [(d, p)])) = Some ((index_of N D (fs @ [(d, p)]))(asset_of p := index_of N D fs (asset_of p)))"
proof -
  let ?a = "asset_of p"
  have n: "index_of N D (fs @ [(d, p)]) ?a = Some (UniqueFile d p (claims N fs ?a))" using index_of_snoc [OF j, of d ?a] by simp
  have o: "index_of N D fs ?a = claimed (claims N fs ?a)"
    using j find_absent [of ?a fs] by (simp add: index_of_def may_join_def)
  consider "claims N fs ?a = []" | x where "claims N fs ?a = [x]" | x y cs where "claims N fs ?a = x # y # cs"
    by (metis remdups_adj.cases)
  then show ?thesis
    by cases (use n o in \<open>simp_all add: forget_path_def Let_def index_emplace_def case_prod_beta\<close>)
qed

text \<open>The radical of the file is forgotten too, but only if not exactly one other file claims it and nothing else.\<close>

definition lone_claim :: "names \<Rightarrow> (asset \<times> string) list \<Rightarrow> asset \<Rightarrow> bool" where
  "lone_claim N fs a \<longleftrightarrow> find (\<lambda>(d, p). asset_of p = a) fs = None \<and> length (claims N fs a) = 1"

lemma forget_file_index:
  assumes j: "may_join N D fs p" and l: "case stem N p of None \<Rightarrow> True | Some r \<Rightarrow> \<not> lone_claim N fs (asset_of r)"
  shows "forget_file N d p (index_of N D (fs @ [(d, p)])) = Some (index_of N D fs)"
proof (cases "stem N p")
  case None
  then have "n_rfind N p (CHR ''.'') = length p" by (auto simp: stem_def Let_def split: if_splits)
  moreover have "(index_of N D (fs @ [(d, p)]))(asset_of p := index_of N D fs (asset_of p)) = index_of N D fs"
    using index_of_snoc [OF j, of d] None by (auto simp: fun_eq_iff has_stem_def)
  ultimately show ?thesis using forget_path_index [OF j, of d] by (simp add: forget_file_def)
next
  case (Some r)
  let ?a = "asset_of r"
  define idx where "idx = (index_of N D (fs @ [(d, p)]))(asset_of p := index_of N D fs (asset_of p))"
  have c: "?a \<notin> D" "?a \<noteq> asset_of p" using j Some by (auto simp: may_join_def)
  have hs: "has_stem N a p \<longleftrightarrow> a = ?a" for a using Some by (auto simp: has_stem_def)
  have rf: "n_rfind N p (CHR ''.'') \<noteq> length p" "r = take (n_rfind N p (CHR ''.'')) p"
    using Some by (auto simp: stem_def Let_def split: if_splits)
  have s: "index_of N D fs = idx(?a := index_of N D fs ?a)"
    using index_of_snoc [OF j, of d] c by (auto simp: fun_eq_iff hs idx_def)
  have i: "idx ?a = index_of N D (fs @ [(d, p)]) ?a" using c(2) by (simp add: idx_def)
  note e = index_of_snoc [OF j, of d ?a] and u = erase_found_last [OF not_claimed_yet [OF j, of d ?a]]
  have "forget_radical d (asset_of p) ?a idx = Some (index_of N D fs)"
  proof (cases "find (\<lambda>(d, p). asset_of p = ?a) fs")
    case (Some f)
    then have "index_of N D fs ?a = Some (UniqueFile (fst f) (snd f) (claims N fs ?a))"
      using c by (simp add: index_of_def case_prod_beta)
    then show ?thesis
      by (subst s) (use Some c e u i in \<open>simp add: forget_radical_def hs case_prod_beta\<close>)
  next
    case None
    then have o: "index_of N D fs ?a = claimed (claims N fs ?a)" using c by (simp add: index_of_def)
    have "length (claims N fs ?a) \<noteq> 1" using l Some None by (simp add: lone_claim_def)
    then consider "claims N fs ?a = []" | x y cs where "claims N fs ?a = x # y # cs"
      by (cases "claims N fs ?a" rule: remdups_adj.cases) auto
    then show ?thesis
      by cases (subst s, use None c e u o i in \<open>simp add: forget_radical_def hs case_prod_beta\<close>)+
  qed
  then show ?thesis using forget_path_index [OF j, of d] rf by (simp add: forget_file_def flip: idx_def)
qed

text \<open>In that one case the entry of the radical is lost and the name of the file that is gone is given to the other
  file.\<close>

lemma forget_file_lone:
  assumes j: "may_join N D fs p" and r: "stem N p = Some r" and l: "lone_claim N fs (asset_of r)"
  shows "\<exists>d' f'. claims N fs (asset_of r) = [(d', f')] \<and>
    forget_file N d p (index_of N D (fs @ [(d, p)])) =
      Some ((index_of N D fs)(asset_of r := None, asset_of p \<mapsto> RadicalFile d' f'))"
proof -
  let ?a = "asset_of r"
  define idx where "idx = (index_of N D (fs @ [(d, p)]))(asset_of p := index_of N D fs (asset_of p))"
  have c: "?a \<notin> D" "?a \<noteq> asset_of p" "asset_of p \<notin> D" "claims N fs (asset_of p) = []" using j r by (auto simp: may_join_def)
  have hs: "has_stem N a p \<longleftrightarrow> a = ?a" for a using r by (auto simp: has_stem_def)
  have rf: "n_rfind N p (CHR ''.'') \<noteq> length p" "r = take (n_rfind N p (CHR ''.'')) p"
    using r by (auto simp: stem_def Let_def split: if_splits)
  have s: "index_of N D fs = idx(?a := index_of N D fs ?a)"
    using index_of_snoc [OF j, of d] c by (auto simp: fun_eq_iff hs idx_def)
  have i: "idx ?a = index_of N D (fs @ [(d, p)]) ?a" using c(2) by (simp add: idx_def)
  obtain d' f' where x: "claims N fs ?a = [(d', f')]" "find (\<lambda>(d, p). asset_of p = ?a) fs = None"
    using l by (auto simp: lone_claim_def length_Suc_conv)
  have o: "index_of N D fs (asset_of p) = None"
    using j find_absent [of "asset_of p" fs] c by (simp add: index_of_def may_join_def)
  note e = index_of_snoc [OF j, of d ?a] and u = erase_found_last [OF not_claimed_yet [OF j, of d ?a]]
  have "forget_radical d (asset_of p) ?a idx = Some ((index_of N D fs)(?a := None, asset_of p \<mapsto> RadicalFile d' f'))"
    by (subst s) (use x c e u o i in \<open>simp add: forget_radical_def hs index_emplace_def idx_def\<close>)
  then show ?thesis using forget_path_index [OF j, of d] rf x(1) by (simp add: forget_file_def flip: idx_def)
qed

section \<open>Whole scans\<close>

text \<open>What the code relies on: the search finds the first occurrence or the end.\<close>

definition names_ok :: "names \<Rightarrow> bool" where
  "names_ok N \<longleftrightarrow> (\<forall>v c. n_find N v c = length (takeWhile (\<lambda>d. d \<noteq> c) v))"

primrec joined :: "string list \<Rightarrow> string" where
  "joined [] = []"
| "joined (p # ps) = (if ps = [] then p else p @ CHR '';'' # joined ps)"

definition plain_path :: "string \<Rightarrow> bool" where
  "plain_path p \<longleftrightarrow> p \<noteq> [] \<and> CHR '';'' \<notin> set p"

primrec all_paths :: "(string \<Rightarrow> file_index \<Rightarrow> file_index option) \<Rightarrow> string list \<Rightarrow> file_index \<Rightarrow> file_index option" where
  "all_paths f [] idx = Some idx"
| "all_paths f (p # ps) idx = do { idx \<leftarrow> f p idx; all_paths f ps idx }"

lemma takeWhile_plain: "c \<notin> set p \<Longrightarrow> takeWhile (\<lambda>d. d \<noteq> c) p = p" "c \<notin> set p \<Longrightarrow> takeWhile (\<lambda>d. d \<noteq> c) (p @ c # q) = p"
  by (induction p) auto

lemma scan_paths_joined:
  assumes "names_ok N" "ps \<noteq> []" "list_all plain_path ps"
  shows "scan_paths N f (joined ps) idx = map_option (Pair True) (all_paths f ps idx)"
  using assms(2,3)
proof (induction ps arbitrary: idx)
  case (Cons p ps)
  have p: "p \<noteq> []" "CHR '';'' \<notin> set p" using Cons.prems(2) by (simp_all add: plain_path_def)
  have find: "n_find N v c = length (takeWhile (\<lambda>d. d \<noteq> c) v)" for v c using assms(1) by (simp add: names_ok_def)
  show ?case
  proof (cases "ps = []")
    case True
    then show ?thesis using p by (subst scan_paths.simps) (cases "f p idx"; simp add: find takeWhile_plain)
  next
    case False
    have "scan_paths N f (joined (p # ps)) idx = do { idx \<leftarrow> f p idx; scan_paths N f (joined ps) idx }"
      using p False by (subst scan_paths.simps) (simp add: find takeWhile_plain)
    also have "\<dots> = do { idx \<leftarrow> f p idx; map_option (Pair True) (all_paths f ps idx) }"
      using Cons.IH [OF False] Cons.prems(2) by simp
    finally show ?thesis by (cases "f p idx") simp_all
  qed
qed simp

lemma joined_empty: "list_all plain_path ps \<Longrightarrow> joined ps = [] \<longleftrightarrow> ps = []"
  by (cases ps) (auto simp: plain_path_def)

lemma file_scan_joined:
  assumes "names_ok N" "list_all plain_path ps" "list_all plain_path qs"
  shows "file_scan N d (joined ps) (joined qs) idx = do {
    idx \<leftarrow> all_paths (forget_file N d) qs idx;
    all_paths (note_file N d) ps idx }"
proof -
  have r: "(if joined qs = [] then Some (True, i) else scan_paths N (forget_file N d) (joined qs) i) =
      map_option (Pair True) (all_paths (forget_file N d) qs i)" for i
    using scan_paths_joined [OF assms(1) _ assms(3)] joined_empty [OF assms(3)] by (cases "qs = []") simp_all
  have e: "(if joined ps = [] then Some i else map_option snd (scan_paths N (note_file N d) (joined ps) i)) =
      all_paths (note_file N d) ps i" for i
    using scan_paths_joined [OF assms(1) _ assms(2)] joined_empty [OF assms(2)]
    by (cases "ps = []") (simp_all add: option.map_comp o_def option.map_ident)
  show ?thesis unfolding file_scan_def r using e by (cases "all_paths (forget_file N d) qs idx") simp_all
qed

lemma note_all_index:
  "may_join_all N D fs (map (Pair d) ps) \<Longrightarrow>
   all_paths (note_file N d) ps (index_of N D fs) = Some (index_of N D (fs @ map (Pair d) ps))"
  by (induction ps arbitrary: fs) (simp_all add: note_file_index)

lemma may_join_all_snoc: "may_join_all N D fs (new @ [f]) \<longleftrightarrow> may_join_all N D fs new \<and> may_join N D (fs @ new) (snd f)"
  by (induction new arbitrary: fs) auto

lemma may_join_all_distinct:
  "may_join_all N D fs new \<Longrightarrow> list_all (\<lambda>f. asset_of (snd f) \<notin> D \<and> asset_of (snd f) \<notin> (asset_of \<circ> snd) ` set fs) new \<and>
   distinct (map (asset_of \<circ> snd) new)"
proof (induction new arbitrary: fs)
  case (Cons f new)
  then have "list_all (\<lambda>g. asset_of (snd g) \<notin> D \<and> asset_of (snd g) \<notin> (asset_of \<circ> snd) ` set (fs @ [f])) new \<and>
    distinct (map (asset_of \<circ> snd) new)" "may_join N D fs (snd f)" using Cons.IH [of "fs @ [f]"] by (auto simp: o_def)
  then show ?case by (auto simp: may_join_def list_all_iff o_def)
qed simp

lemma find_distinct:
  "distinct (map (asset_of \<circ> snd) fs) \<Longrightarrow> (d, p) \<in> set fs \<Longrightarrow> find (\<lambda>(d', p'). asset_of p' = asset_of p) fs = Some (d, p)"
  by (induction fs) (auto simp: image_iff)

text \<open>Several directories are registered and then scanned, one after the other.  What the scans report, in order.\<close>

primrec scans :: "names \<Rightarrow> (asset \<times> string list) list \<Rightarrow> file_index \<Rightarrow> file_index option" where
  "scans N [] idx = Some idx"
| "scans N (s # ss) idx = do { idx \<leftarrow> file_scan N (fst s) (joined (snd s)) [] idx; scans N ss idx }"

definition reported :: "(asset \<times> string list) list \<Rightarrow> (asset \<times> string) list" where
  "reported ss = concat (map (\<lambda>(d, ps). map (Pair d) ps) ss)"

lemma may_join_all_append:
  "may_join_all N D fs (new @ new2) \<longleftrightarrow> may_join_all N D fs new \<and> may_join_all N D (fs @ new) new2"
  by (induction new arbitrary: fs) auto

lemma registered_index: "fold register_directory ds (index_of N D []) = index_of N (D \<union> set ds) []"
proof (induction ds arbitrary: D)
  case (Cons d ds)
  have "register_directory d (index_of N D []) = index_of N (insert d D) []"
    by (auto simp: register_directory_def index_emplace_def index_of_def claims_def fun_eq_iff)
  then show ?case using Cons.IH [of "insert d D"] by simp
qed simp

lemma empty_index: "index_of N {} [] = (\<lambda>_. None)"
  by (simp add: index_of_def claims_def fun_eq_iff)

lemma scans_index:
  assumes "names_ok N" "list_all (list_all plain_path \<circ> snd) ss" "may_join_all N D fs (reported ss)"
  shows "scans N ss (index_of N D fs) = Some (index_of N D (fs @ reported ss))"
  using assms(2,3)
proof (induction ss arbitrary: fs)
  case (Cons s ss)
  obtain d ps where s: "s = (d, ps)" by (cases s)
  then have j: "may_join_all N D fs (map (Pair d) ps)" "may_join_all N D (fs @ map (Pair d) ps) (reported ss)"
    using Cons.prems(2) by (auto simp: reported_def may_join_all_append)
  have "file_scan N d (joined ps) [] (index_of N D fs) = Some (index_of N D (fs @ map (Pair d) ps))"
    using file_scan_joined [OF assms(1), of ps "[]" d "index_of N D fs"] note_all_index [OF j(1)] Cons.prems(1) s by simp
  moreover have "scans N ss (index_of N D (fs @ map (Pair d) ps)) = Some (index_of N D ((fs @ map (Pair d) ps) @ reported ss))"
    using Cons.IH [OF _ j(2)] Cons.prems(1) by simp
  ultimately show ?case using s by (simp add: reported_def)
qed (simp add: reported_def)

text \<open>What a name leads to in an index, by what is known of the name.\<close>

lemma find_path:
  assumes "may_join_all N D [] fs" "(d, p) \<in> set fs"
  shows "index_of N D fs (asset_of p) = Some (UniqueFile d p (claims N fs (asset_of p)))"
proof -
  have "asset_of p \<notin> D" "distinct (map (asset_of \<circ> snd) fs)"
    using may_join_all_distinct [OF assms(1)] assms(2) by (auto simp: list_all_iff)
  then show ?thesis using find_distinct [OF _ assms(2)] by (simp add: index_of_def)
qed

lemma find_path_file:
  assumes "may_join_all N D [] fs" "(d, p) \<in> set fs"
  shows "find_underlying_file (asset_of p) (index_of N D fs) = (asset_of p, Some (UniqueFile d p (claims N fs (asset_of p))))"
  using find_path [OF assms] by (simp add: find_underlying_file_def)

lemma find_other_name:
  assumes "may_join_all N D [] fs" "a \<notin> D" "a \<notin> (asset_of \<circ> snd) ` set fs"
  shows "find_underlying_file a (index_of N D fs) = (case filter (\<lambda>(d, p). has_stem N a p) fs of
    [] \<Rightarrow> (a, None)
  | [(d, p)] \<Rightarrow> (asset_of p, Some (UniqueFile d p (claims N fs (asset_of p))))
  | _ \<Rightarrow> (a, Some (AmbiguousFile [] (claims N fs a))))"
proof -
  have i: "index_of N D fs a = claimed (claims N fs a)"
    using assms(2) find_absent [OF assms(3)] by (simp add: index_of_def)
  let ?l = "filter (\<lambda>(d, p). has_stem N a p) fs"
  have c: "claims N fs a = map (\<lambda>(d, p). (d, asset_of p)) ?l" by (simp add: claims_def)
  consider "?l = []" | d p where "?l = [(d, p)]" | f g l where "?l = f # g # l"
    by (metis remdups_adj.cases surj_pair)
  then show ?thesis
  proof cases
    case (2 d p)
    then have "(d, p) \<in> set ?l" by simp
    then have "(d, p) \<in> set fs" by simp
    then show ?thesis using i c 2 find_path [OF assms(1), of d p] by (simp add: find_underlying_file_def)
  qed (use i c in \<open>simp_all add: find_underlying_file_def\<close>)
qed

text \<open>A file that has the name of a radical is entered without its own radical.\<close>

lemma note_file_claimed:
  assumes "asset_of p \<notin> D" "asset_of p \<notin> (asset_of \<circ> snd) ` set fs" "claims N fs (asset_of p) \<noteq> []"
  shows "note_file N d p (index_of N D fs) = Some ((index_of N D fs)(asset_of p \<mapsto> UniqueFile d p (claims N fs (asset_of p))))"
proof -
  have e: "index_of N D fs (asset_of p) = claimed (claims N fs (asset_of p))"
    using assms(1) find_absent [OF assms(2)] by (simp add: index_of_def)
  from assms(3) consider x where "claims N fs (asset_of p) = [x]" | x y cs where "claims N fs (asset_of p) = x # y # cs"
    by (metis remdups_adj.cases)
  then show ?thesis by cases (use e in \<open>simp_all add: note_file_def Let_def index_emplace_def\<close>)
qed

section \<open>Properties\<close>

text \<open>C19: scanning a directory adds to the index exactly the files it reports, under their paths and their radicals: the
  index that was right for the directories and files so far is right for those and the new ones, provided that
  no two files have the same name, no directory has the name of a file or a radical, and no file that has a
  radical has the name of one.\<close>
theorem file_scan_adds:
  assumes "names_ok N" "list_all plain_path ps" "may_join_all N D fs (map (Pair d) ps)"
  shows "file_scan N d (joined ps) [] (index_of N D fs) = Some (index_of N D (fs @ map (Pair d) ps))"
  using file_scan_joined [OF assms(1,2), of "[]" d "index_of N D fs"] note_all_index [OF assms(3)] by simp

text \<open>C33: once the directories are registered and each scan has reported its files, the path of any reported file leads to
  that file.  Any other name, unless it is a directory's, leads to a file exactly if it is the radical of one file
  only; if it is the radical of several it leads to an ambiguous entry that lists them, in the order they were
  found, and if it is the radical of none it leads nowhere.  The proviso on the files is that of C19.\<close>
theorem file_names_resolve:
  assumes "names_ok N" "list_all (list_all plain_path \<circ> snd) ss" "may_join_all N (set ds) [] (reported ss)"
  shows "\<exists>idx. scans N ss (fold register_directory ds (\<lambda>_. None)) = Some idx \<and>
    (\<forall>(d, p) \<in> set (reported ss). find_underlying_file (asset_of p) idx =
      (asset_of p, Some (UniqueFile d p (claims N (reported ss) (asset_of p))))) \<and>
    (\<forall>a. a \<notin> set ds \<and> a \<notin> (asset_of \<circ> snd) ` set (reported ss) \<longrightarrow>
      find_underlying_file a idx = (case filter (\<lambda>(d, p). has_stem N a p) (reported ss) of
        [] \<Rightarrow> (a, None)
      | [(d, p)] \<Rightarrow> (asset_of p, Some (UniqueFile d p (claims N (reported ss) (asset_of p))))
      | _ \<Rightarrow> (a, Some (AmbiguousFile [] (claims N (reported ss) a)))))"
proof -
  have "fold register_directory ds (\<lambda>_. None) = index_of N (set ds) []"
    using registered_index [of ds N "{}"] by (simp add: empty_index)
  then have "scans N ss (fold register_directory ds (\<lambda>_. None)) = Some (index_of N (set ds) (reported ss))"
    using scans_index [OF assms] by simp
  then show ?thesis using find_path_file [OF assms(3)] find_other_name [OF assms(3)] by auto
qed

text \<open>A scan that reports a file as gone undoes the scan that reported it as there, unless exactly one other file
  has the same radical.\<close>
theorem file_scan_undone:
  assumes "names_ok N" "plain_path p" "may_join N D fs p"
    "case stem N p of None \<Rightarrow> True | Some r \<Rightarrow> \<not> lone_claim N fs (asset_of r)"
  shows "do { idx \<leftarrow> file_scan N d p [] (index_of N D fs); file_scan N d [] p idx } = Some (index_of N D fs)"
  using file_scan_joined [OF assms(1), of "[p]" "[]" d] file_scan_joined [OF assms(1), of "[]" "[p]" d] assms(2)
    note_file_index [OF assms(3), of d] forget_file_index [OF assms(3,4), of d] by simp

text \<open>C37: if exactly one other file has the same radical, it does not: the radical is lost although the other file is
  still there, and the name of the file that is gone now stands for the other file.  The code puts the entry of
  the radical back under the wrong name.\<close>
theorem file_scan_loses_radical:
  assumes "names_ok N" "plain_path p" "may_join N D fs p" "stem N p = Some r" "lone_claim N fs (asset_of r)"
  shows "\<exists>d' f'. index_of N D fs (asset_of r) = Some (RadicalFile d' f') \<and> index_of N D fs (asset_of p) = None \<and>
    do { idx \<leftarrow> file_scan N d p [] (index_of N D fs); file_scan N d [] p idx } =
      Some ((index_of N D fs)(asset_of r := None, asset_of p \<mapsto> RadicalFile d' f'))"
proof -
  obtain d' f' where f: "claims N fs (asset_of r) = [(d', f')]"
    "forget_file N d p (index_of N D (fs @ [(d, p)])) =
      Some ((index_of N D fs)(asset_of r := None, asset_of p \<mapsto> RadicalFile d' f'))"
    using forget_file_lone [OF assms(3-5)] by blast
  have "index_of N D fs (asset_of r) = Some (RadicalFile d' f')"
    using f(1) assms(3-5) by (simp add: index_of_def lone_claim_def may_join_def)
  moreover have "index_of N D fs (asset_of p) = None"
    using assms(3,4) find_absent [of "asset_of p" fs] by (simp add: index_of_def may_join_def)
  ultimately show ?thesis
    using f(2) file_scan_joined [OF assms(1), of "[p]" "[]" d] file_scan_joined [OF assms(1), of "[]" "[p]" d] assms(2)
      note_file_index [OF assms(3), of d] by simp
qed

text \<open>The order of the files in a scan matters: if a file is the radical of another and has a radical itself, its
  radical is known when it is reported first, and is not when it is reported last.\<close>
theorem file_scan_order:
  assumes "names_ok N" "plain_path p" "plain_path q" "stem N q = Some p" "stem N p = Some r"
    "distinct [asset_of p, asset_of q, asset_of r]" "D \<inter> {asset_of p, asset_of q, asset_of r} = {}"
  shows "\<exists>i j. file_scan N d (joined [p, q]) [] (index_of N D []) = Some i \<and> i (asset_of r) = Some (RadicalFile d (asset_of p)) \<and>
    file_scan N d (joined [q, p]) [] (index_of N D []) = Some j \<and> j (asset_of r) = None"
proof -
  have hs: "has_stem N a p \<longleftrightarrow> a = asset_of r" "has_stem N a q \<longleftrightarrow> a = asset_of p" for a
    using assms(4,5) by (auto simp: has_stem_def)
  have "may_join_all N D [] (map (Pair d) [p, q])" using assms(4-7) hs by (auto simp: may_join_def claims_def)
  then have i: "file_scan N d (joined [p, q]) [] (index_of N D []) = Some (index_of N D [(d, p), (d, q)])"
    using file_scan_joined [OF assms(1), of "[p, q]" "[]" d "index_of N D []"] note_all_index [of N D "[]" d "[p, q]"] assms(2,3) by simp
  have ri: "index_of N D [(d, p), (d, q)] (asset_of r) = Some (RadicalFile d (asset_of p))"
    using assms(6,7) hs by (auto simp: index_of_def claims_def)
  have "may_join N D [] q" using assms(4,6,7) by (auto simp: may_join_def claims_def)
  then have q: "note_file N d q (index_of N D []) = Some (index_of N D [(d, q)])"
    using note_file_index [of N D "[]" q d] by simp
  have "claims N [(d, q)] (asset_of p) = [(d, asset_of q)]" using hs by (simp add: claims_def)
  then have "note_file N d p (index_of N D [(d, q)]) =
      Some ((index_of N D [(d, q)])(asset_of p \<mapsto> UniqueFile d p [(d, asset_of q)]))"
    using note_file_claimed [of p D "[(d, q)]" N d] assms(6,7) by auto
  then have j: "file_scan N d (joined [q, p]) [] (index_of N D []) =
      Some ((index_of N D [(d, q)])(asset_of p \<mapsto> UniqueFile d p [(d, asset_of q)]))"
    using file_scan_joined [OF assms(1), of "[q, p]" "[]" d "index_of N D []"] assms(2,3) q by simp
  have rj: "((index_of N D [(d, q)])(asset_of p \<mapsto> UniqueFile d p [(d, asset_of q)])) (asset_of r) = None"
    using assms(6,7) hs by (auto simp: index_of_def claims_def)
  show ?thesis using i ri j rj by blast
qed

subsection \<open>Witnesses\<close>

text \<open>The searches of the library, and the names of some paths.\<close>

definition plain_names :: names where
  "plain_names = \<lparr>n_find = (\<lambda>v c. length (takeWhile (\<lambda>d. d \<noteq> c) v)),
     n_rfind = (\<lambda>v c. if c \<in> set v then length v - 1 - length (takeWhile (\<lambda>d. d \<noteq> c) (rev v)) else length v)\<rparr>"

lemma plain_names_ok: "names_ok plain_names"
  by (simp add: names_ok_def plain_names_def)

lemma plain_stems:
  "stem plain_names ''a.b'' = Some ''a''" "stem plain_names ''a.c'' = Some ''a''" "stem plain_names ''a'' = None"
  "stem plain_names ''a.b.c'' = Some ''a.b''"
  by (simp_all add: stem_def plain_names_def)

lemma asset_names:
  "asset_of ''a'' = 0xe8b7be43" "asset_of ''d'' = 0x98dd4acc" "asset_of ''a.b'' = 0x1eef715d" "asset_of ''a.c'' = 0x69e841cb"
  "asset_of ''a.b.c'' = 0xb672576d"
  by (simp_all add: asset_of_def crc_eval)

theorem file_scan_adds_witness:
  "file_scan plain_names (asset_of ''d'') (joined [''a.b'', ''a.c'']) [] (index_of plain_names {asset_of ''d''} []) =
    Some (index_of plain_names {asset_of ''d''} ([] @ map (Pair (asset_of ''d'')) [''a.b'', ''a.c'']))"
  by (rule file_scan_adds [OF plain_names_ok])
    (simp_all add: plain_path_def may_join_def plain_stems asset_names claims_def has_stem_def)

text \<open>Two directories with three files: a path, a radical of one file, and one of two.\<close>

theorem file_names_resolve_witness:
  "\<exists>idx. scans plain_names [(asset_of ''d'', [''a.b'']), (5, [''a.b.c'', ''a.c''])] (fold register_directory [asset_of ''d'', 5] (\<lambda>_. None)) = Some idx \<and>
    find_underlying_file (asset_of ''a.c'') idx = (asset_of ''a.c'', Some (UniqueFile 5 ''a.c'' [])) \<and>
    find_underlying_file (asset_of ''a'') idx =
      (asset_of ''a'', Some (AmbiguousFile [] [(asset_of ''d'', asset_of ''a.b''), (5, asset_of ''a.c'')])) \<and>
    find_underlying_file 7 idx = (7, None)"
proof -
  let ?ss = "[(asset_of ''d'', [''a.b'']), (5, [''a.b.c'', ''a.c''])]"
  have r: "reported ?ss = [(asset_of ''d'', ''a.b''), (5, ''a.b.c''), (5, ''a.c'')]" by (simp add: reported_def)
  have hs: "has_stem plain_names a ''a.b'' = (a = asset_of ''a'')" "has_stem plain_names a ''a.c'' = (a = asset_of ''a'')"
    "has_stem plain_names a ''a.b.c'' = (a = asset_of ''a.b'')" for a by (auto simp: has_stem_def plain_stems)
  have j: "may_join_all plain_names (set [asset_of ''d'', 5]) [] (reported ?ss)"
    unfolding r by (simp add: may_join_def plain_stems asset_names claims_def hs)
  have p: "list_all (list_all plain_path \<circ> snd) ?ss" by (simp add: plain_path_def)
  from file_names_resolve [OF plain_names_ok p j] obtain idx
    where i: "scans plain_names ?ss (fold register_directory [asset_of ''d'', 5] (\<lambda>_. None)) = Some idx"
      "\<forall>(d, p) \<in> set (reported ?ss). find_underlying_file (asset_of p) idx =
        (asset_of p, Some (UniqueFile d p (claims plain_names (reported ?ss) (asset_of p))))"
      "\<And>a. a \<notin> set [asset_of ''d'', 5] \<Longrightarrow> a \<notin> (asset_of \<circ> snd) ` set (reported ?ss) \<Longrightarrow>
        find_underlying_file a idx = (case filter (\<lambda>(d, p). has_stem plain_names a p) (reported ?ss) of
          [] \<Rightarrow> (a, None)
        | [(d, p)] \<Rightarrow> (asset_of p, Some (UniqueFile d p (claims plain_names (reported ?ss) (asset_of p))))
        | _ \<Rightarrow> (a, Some (AmbiguousFile [] (claims plain_names (reported ?ss) a))))"
    by auto
  have "find_underlying_file (asset_of ''a.c'') idx = (asset_of ''a.c'', Some (UniqueFile 5 ''a.c'' []))"
    using i(2) unfolding r by (simp add: claims_def hs asset_names)
  moreover have "find_underlying_file (asset_of ''a'') idx =
      (asset_of ''a'', Some (AmbiguousFile [] [(asset_of ''d'', asset_of ''a.b''), (5, asset_of ''a.c'')]))"
    using i(3) [of "asset_of ''a''"] unfolding r by (simp add: claims_def hs asset_names)
  moreover have "find_underlying_file 7 idx = (7, None)"
    using i(3) [of 7] unfolding r by (simp add: claims_def hs asset_names)
  ultimately show ?thesis using i(1) by blast
qed

theorem file_scan_undone_witness:
  "do { idx \<leftarrow> file_scan plain_names 5 ''a.b'' [] (index_of plain_names {} []); file_scan plain_names 5 [] ''a.b'' idx } =
    Some (index_of plain_names {} [])"
  by (rule file_scan_undone [OF plain_names_ok])
    (simp_all add: plain_path_def may_join_def plain_stems asset_names claims_def lone_claim_def)

theorem file_scan_loses_radical_witness:
  "\<exists>d' f'. index_of plain_names {} [(5, ''a.c'')] (asset_of ''a'') = Some (RadicalFile d' f') \<and>
    index_of plain_names {} [(5, ''a.c'')] (asset_of ''a.b'') = None \<and>
    do { idx \<leftarrow> file_scan plain_names 6 ''a.b'' [] (index_of plain_names {} [(5, ''a.c'')]);
         file_scan plain_names 6 [] ''a.b'' idx } =
      Some ((index_of plain_names {} [(5, ''a.c'')])(asset_of ''a'' := None, asset_of ''a.b'' \<mapsto> RadicalFile d' f'))"
  by (rule file_scan_loses_radical [OF plain_names_ok])
    (simp_all add: plain_path_def may_join_def plain_stems asset_names claims_def has_stem_def lone_claim_def)

theorem file_scan_order_witness:
  "\<exists>i j. file_scan plain_names 5 (joined [''a.b'', ''a.b.c'']) [] (index_of plain_names {} []) = Some i \<and>
    i (asset_of ''a'') = Some (RadicalFile 5 (asset_of ''a.b'')) \<and>
    file_scan plain_names 5 (joined [''a.b.c'', ''a.b'']) [] (index_of plain_names {} []) = Some j \<and> j (asset_of ''a'') = None"
  by (rule file_scan_order [OF plain_names_ok]) (simp_all add: plain_path_def plain_stems asset_names)

end
