(* ===== verification/File_Loader.thy ===== *)
theory File_Loader
  imports File_Index Storage "HOL-Library.Finite_Map"
begin

text \<open>
  The loader of \<^verbatim>\<open>engine/file/loader.cpp\<close>: files are loaded on behalf of independent users and of other files that
  depend on them, and are unloaded with their last owner.  Every message is processed on one strand; the calls of
  the users are posted as work and run later, on the data that all the work for a file shares.

  The collections are maps.  They and the vectors are given the memory they ask for; a vector that is full cannot be
  inserted into, because the iterator dangles (\<open>Vector.insert_full_dangling\<close>), and such a state is \<open>None\<close>, as is code
  that is marked as unreachable.  A reference to an entry of a map stands for its key.  The functions the users
  register are numbers; their calls are recorded in a log.  Watches are added and removed as in a checked build.
\<close>

section \<open>Data\<close>

definition global :: asset where
  "global = 0"

text \<open>The users' functions and data of a request are \<open>'d\<close>.\<close>

record 'd relation_callback =
  rc_name :: asset
  rc_calls :: 'd

record 'd call_data =
  cd_calls :: "(token \<times> 'd relation_callback) list"
  cd_filetype :: nat
  cd_ready :: bool

record load_info =
  l_filetype :: asset
  l_directory :: asset
  l_radical :: asset
  l_filepath :: string
  l_call :: nat
  owners :: "asset list"
  attachments :: "asset list"
  att_cap :: nat

text \<open>\<^verbatim>\<open>LoadingLoad\<close> with its previous count and its remaining count, 32-bit integers; the most significant bit of the
  latter says that the file itself has not been read.\<close>

datatype load =
    RadicalLoad asset
  | LoadingLoad load_info u32 u32
  | LoadedLoad load_info

datatype 'd message =
    MessageFileScan asset string string
  | MessageLoadIndependent token asset asset 'd
  | MessageLoadDependency asset asset asset 'd
  | MessageLoadDone asset
  | MessageLoadInit asset
  | MessageRegisterFiletype asset nat
  | MessageRegisterLibrary asset
  | MessageUnloadIndependent token
  | MessageUnregisterFiletype asset
  | MessageUnregisterLibrary asset

text \<open>What is posted: an update of the loader, the functions that \<^verbatim>\<open>make_loaded\<close>, \<^verbatim>\<open>load_old\<close> and the removals post, and
  the answer to a read.\<close>

datatype 'd work =
    W_update "'d message"
  | W_ready_all nat asset
  | W_ready_one nat asset token "'d relation_callback"
  | W_unready nat asset token
  | W_unload nat asset
  | W_file_load nat asset

datatype 'd user_call =
    LoadCall nat asset
  | UnloadCall nat asset
  | ReadyCall "'d relation_callback" asset
  | UnreadyCall "'d relation_callback" asset

datatype request =
    Read token asset string asset nat
  | RemoveWatch token

record 'd loader =
  files :: file_index
  filetypes :: "asset \<rightharpoonup> nat"
  tags :: "token \<rightharpoonup> asset"
  loads :: "(asset, load) fmap"
  calls :: "nat \<rightharpoonup> 'd call_data"
  next_call :: nat
  posted :: "'d work list"
  requests :: "request list"
  scanning_directory :: asset
  delayed_messages :: "'d message list"

definition post :: "'d work \<Rightarrow> 'd loader \<Rightarrow> 'd loader" where
  "post w s = s\<lparr>posted := posted s @ [w]\<rparr>"

definition put_load :: "asset \<Rightarrow> load \<Rightarrow> 'd loader \<Rightarrow> 'd loader" where
  "put_load a l s = s\<lparr>loads := fmupd a l (loads s)\<rparr>"

definition erase_load :: "asset \<Rightarrow> 'd loader \<Rightarrow> 'd loader" where
  "erase_load a s = s\<lparr>loads := fmdrop a (loads s)\<rparr>"

definition emplace_load :: "asset \<Rightarrow> load \<Rightarrow> 'd loader \<Rightarrow> 'd loader option" where
  "emplace_load a l s = (if fmlookup (loads s) a = None then Some (put_load a l s) else None)"

definition make_token :: "asset \<Rightarrow> asset \<Rightarrow> token" where
  "make_token directory filepath = ucast (directory XOR filepath)"

definition remove_watch :: "load_info \<Rightarrow> 'd loader \<Rightarrow> 'd loader" where
  "remove_watch i s =
    s\<lparr>requests := requests s @ [RemoveWatch (make_token (l_directory i) (asset_of (l_filepath i)))]\<rparr>"

definition find_underlying_load :: "asset \<Rightarrow> 'd loader \<Rightarrow> asset \<times> load option" where
  "find_underlying_load file s = (case fmlookup (loads s) file of
     Some (RadicalLoad f) \<Rightarrow> (f, fmlookup (loads s) f)
   | e \<Rightarrow> (file, e))"

section \<open>Vectors of names\<close>

definition push_attachment :: "config \<Rightarrow> asset \<Rightarrow> load_info \<Rightarrow> load_info" where
  "push_attachment cfg a i = i\<lparr>attachments := attachments i @ [a],
     att_cap := if length (attachments i) < att_cap i then att_cap i
       else reserve_power_of_two cfg (length (attachments i) + 1)\<rparr>"

text \<open>\<^verbatim>\<open>attachments.insert(attachments.end() - count, a)\<close>.\<close>

definition insert_attachment :: "config \<Rightarrow> nat \<Rightarrow> asset \<Rightarrow> load_info \<Rightarrow> load_info option" where
  "insert_attachment cfg count a i = (let xs = attachments i; n = length xs in
     if n < count then None
     else if count = 0 then Some (push_attachment cfg a i)
     else if n < att_cap i then Some (i\<lparr>attachments := xs[n - count := a] @ [xs ! (n - count)]\<rparr>)
     else None)"

text \<open>The erase of the first \<open>n\<close> elements, which moves from the end into the hole; names are trivial, so that moving one
  twice does no harm.\<close>

fun erase_front :: "nat \<Rightarrow> nat \<Rightarrow> 'a list \<Rightarrow> 'a list" where
  "erase_front 0 it xs = xs"
| "erase_front (Suc n) it xs = erase_front n (Suc it) (butlast (xs[it := last xs]))"

definition count_of :: "u32 \<Rightarrow> nat" where
  "count_of remaining = unat (remaining AND 0x7fffffff)"

section \<open>Loading and unloading\<close>

definition make_loaded :: "asset \<Rightarrow> load_info \<Rightarrow> 'd loader \<Rightarrow> 'd loader option" where
  "make_loaded file tmp s = do {
     s \<leftarrow> emplace_load file (LoadedLoad tmp) (erase_load file s);
     Some (post (W_ready_all (l_call tmp) file) s) }"

definition make_loading :: "asset \<Rightarrow> load_info \<Rightarrow> 'd loader \<Rightarrow> 'd loader option" where
  "make_loading file tmp s =
     emplace_load file (LoadingLoad tmp (word_of_nat (length (attachments tmp))) 0x80000000) (erase_load file s)"

definition load_info_of :: "load \<Rightarrow> load_info option" where
  "load_info_of l = (case l of RadicalLoad f \<Rightarrow> None | LoadingLoad i p r \<Rightarrow> Some i | LoadedLoad i \<Rightarrow> Some i)"

definition with_info :: "load_info \<Rightarrow> load \<Rightarrow> load" where
  "with_info i l = (case l of RadicalLoad f \<Rightarrow> RadicalLoad f | LoadingLoad j p r \<Rightarrow> LoadingLoad i p r | LoadedLoad j \<Rightarrow> LoadedLoad i)"

text \<open>One relation taken from the list: the owner is removed from the owners of the file and, if it was the last one,
  the file is unloaded and its own relations are added.  \<open>unload\<close> says whether the unload function is posted.\<close>

definition drop_file :: "bool \<Rightarrow> asset \<Rightarrow> load_info \<Rightarrow> 'd loader \<Rightarrow> 'd loader" where
  "drop_file unload file i s =
     (let s = remove_watch i s;
          s = (if unload then post (W_unload (l_call i) file) s else s);
          s = (if l_radical i \<noteq> file then erase_load (l_radical i) s else s)
      in erase_load file s)"

definition remove_attachment :: "asset \<Rightarrow> asset \<Rightarrow> load \<Rightarrow> 'd loader \<Rightarrow> ('d loader \<times> (asset \<times> asset) list) option" where
  "remove_attachment owner file l s = do {
     x \<leftarrow> load_info_of l;
     case position (\<lambda>a. a = owner) (owners x) of
       None \<Rightarrow> Some (s, [])
     | Some n \<Rightarrow>
         (let s = post (W_unready (l_call x) file (ucast owner)) s;
              x = x\<lparr>owners := erase_at n (owners x)\<rparr> in
          if owners x = [] then Some (drop_file True file x s, map (Pair file) (attachments x))
          else Some (put_load file (with_info x l) s, [])) }"

text \<open>The sum of a value over a map, for the termination of the loops.\<close>

definition weight :: "('v \<Rightarrow> nat) \<Rightarrow> ('k, 'v) fmap \<Rightarrow> nat" where
  "weight f m = (\<Sum>k \<in> fmdom' m. f (the (fmlookup m k)))"

lemma weight_drop: "fmlookup m k = Some v \<Longrightarrow> weight f m = weight f (fmdrop k m) + f v"
proof -
  assume h: "fmlookup m k = Some v"
  then have "weight f m = f v + (\<Sum>j \<in> fmdom' m - {k}. f (the (fmlookup m j)))"
    unfolding weight_def by (subst sum.remove [of _ k]) (auto intro: fmdom'I)
  then show ?thesis by (simp add: weight_def)
qed

lemma weight_drop_le: "weight f (fmdrop k m) \<le> weight f m"
  using weight_drop [of m k _ f] by (cases "fmlookup m k") (auto simp: fmdrop_idle' fmdom'_notI)

lemma weight_upd: "weight f (fmupd k v m) = weight f (fmdrop k m) + f v"
  using weight_drop [of "fmupd k v m" k v f] by (simp add: fmdrop_fmupd_same)

definition attachment_count :: "load \<Rightarrow> nat" where
  "attachment_count l = (case load_info_of l of None \<Rightarrow> 0 | Some i \<Rightarrow> length (attachments i))"

definition waiting_owners :: "load \<Rightarrow> nat" where
  "waiting_owners l = (case l of LoadingLoad i p r \<Rightarrow> length (owners i) | _ \<Rightarrow> 0)"

lemma loads_post [simp]: "loads (post w s) = loads s"
  by (simp add: post_def)

lemma loads_drop_file:
  "loads (drop_file u file i s) = fmdrop file (if l_radical i \<noteq> file then fmdrop (l_radical i) (loads s) else loads s)"
  by (simp add: drop_file_def remove_watch_def erase_load_def Let_def)

lemma load_info_of_Some: "load_info_of l = Some i \<longleftrightarrow> (\<exists>p r. l = LoadingLoad i p r) \<or> l = LoadedLoad i"
  by (cases l) (auto simp: load_info_of_def)

lemma weight_drop_file:
  "fmlookup (loads s) file = Some l \<Longrightarrow> weight f (loads (drop_file u file i s)) + f l \<le> weight f (loads s)"
proof -
  assume h: "fmlookup (loads s) file = Some l"
  let ?m = "fmdrop file (loads s)"
  have "loads (drop_file u file i s) = ?m \<or> loads (drop_file u file i s) = fmdrop (l_radical i) ?m"
    by (simp add: loads_drop_file fmdrop_comm)
  then have "weight f (loads (drop_file u file i s)) \<le> weight f ?m" using weight_drop_le by auto
  then show ?thesis using weight_drop [OF h, of f] by simp
qed

lemma remove_attachment_weight:
  assumes "remove_attachment owner file l s = Some (s', new)" "fmlookup (loads s) file = Some l"
  shows "weight attachment_count (loads s') + length new \<le> weight attachment_count (loads s) \<and>
    weight waiting_owners (loads s') \<le> weight waiting_owners (loads s)"
proof -
  obtain x where x: "load_info_of l = Some x" using assms(1) by (auto simp: remove_attachment_def)
  note w = weight_drop [OF assms(2), of attachment_count] weight_drop [OF assms(2), of waiting_owners]
  consider "s' = s" "new = []"
    | n where "position (\<lambda>a. a = owner) (owners x) = Some n" "new = []"
        "loads s' = fmupd file (with_info (x\<lparr>owners := erase_at n (owners x)\<rparr>) l) (loads s)"
    | s1 i where "new = map (Pair file) (attachments x)" "s' = drop_file True file i s1" "loads s1 = loads s"
    using assms(1) x
    by (auto simp: remove_attachment_def Let_def put_load_def split: option.splits if_splits)
  then show ?thesis
  proof cases
    case (2 n)
    then show ?thesis
      using x w by (cases l) (auto simp: weight_upd with_info_def attachment_count_def waiting_owners_def load_info_of_def)
  next
    case (3 s1 i)
    then have "fmlookup (loads s1) file = Some l" using assms(2) by simp
    from weight_drop_file [OF this, of attachment_count True i] weight_drop_file [OF this, of waiting_owners True i] show ?thesis
      using 3 x by (auto simp: attachment_count_def)
  qed simp
qed

text \<open>The loop takes relations from the back of the list; it stops at a file that is not there.\<close>

function remove_attachments :: "(asset \<times> asset) list \<Rightarrow> 'd loader \<Rightarrow> 'd loader option" where
  "remove_attachments relations s = (
     if relations = [] then Some s
     else (let (owner, file) = last relations; relations = butlast relations in
       case fmlookup (loads s) file of
         None \<Rightarrow> Some s
       | Some l \<Rightarrow> (case remove_attachment owner file l s of
             None \<Rightarrow> None
           | Some (s', new) \<Rightarrow> remove_attachments (relations @ new) s')))"
  by pat_completeness auto
termination
proof (relation "measure (\<lambda>(relations, s). length relations + weight attachment_count (loads s))")
  fix relations :: "(asset \<times> asset) list" and s :: "'d loader" and x rels xa y l x2 s' new
  assume h: "relations \<noteq> []" "x = last relations" "(xa, y) = x" "rels = butlast relations" "fmlookup (loads s) y = Some l"
    "remove_attachment xa y l s = Some x2" "(s', new) = x2"
  then have "weight attachment_count (loads s') + length new \<le> weight attachment_count (loads s)"
    using remove_attachment_weight [of xa y l s s' new] by simp
  moreover have "length relations = Suc (length rels)" using h(1,4) by (cases relations rule: rev_cases) auto
  ultimately show "((rels @ new, s'), (relations, s)) \<in> measure (\<lambda>(relations, s). length relations + weight attachment_count (loads s))"
    by simp
qed simp

declare remove_attachments.simps [simp del]

definition remove_file :: "token \<Rightarrow> asset \<Rightarrow> load \<Rightarrow> 'd loader \<Rightarrow> 'd loader option" where
  "remove_file tag file l s = do {
     y \<leftarrow> load_info_of l;
     case position (\<lambda>a. a = global) (owners y) of
       None \<Rightarrow> Some s
     | Some n \<Rightarrow>
         (let s = post (W_unready (l_call y) file tag) s;
              y = y\<lparr>owners := erase_at n (owners y)\<rparr> in
          if owners y = [] then
            (let unload = (case l of LoadingLoad j previous r \<Rightarrow> 0 \<le> sint previous | _ \<Rightarrow> True) in
             remove_attachments (map (Pair file) (attachments y)) (drop_file unload file y s))
          else Some (put_load file (with_info y l) s)) }"

definition load_new :: "token \<Rightarrow> asset \<Rightarrow> asset \<Rightarrow> file_entry \<Rightarrow> asset \<Rightarrow> asset \<Rightarrow> 'd \<Rightarrow> 'd loader \<Rightarrow> bool \<times> 'd loader" where
  "load_new tag owner file e name filetype data s = (
     case (if name \<noteq> file then emplace_load name (RadicalLoad file) s else Some s) of
       None \<Rightarrow> (False, s)
     | Some s \<Rightarrow>
     (case e of
       UniqueFile directory filepath radicals \<Rightarrow>
       (case filetypes s filetype of
         None \<Rightarrow> (False, s)
       | Some ft \<Rightarrow>
           (let c = next_call s;
                s = s\<lparr>next_call := c + 1,
                  calls := (calls s)(c \<mapsto> \<lparr>cd_calls = [(tag, \<lparr>rc_name = name, rc_calls = data\<rparr>)], cd_filetype = ft, cd_ready = False\<rparr>)\<rparr>;
                i = \<lparr>l_filetype = filetype, l_directory = directory, l_radical = name, l_filepath = filepath, l_call = c,
                  owners = [owner], attachments = [], att_cap = 0\<rparr> in
            case emplace_load file (LoadingLoad i (- 1) 0x80000000) s of
              None \<Rightarrow> (False, s)
            | Some s \<Rightarrow> (True, s\<lparr>requests := requests s @
                [Read (make_token directory (asset_of filepath)) directory filepath file c]\<rparr>)))
     | _ \<Rightarrow> (False, s)))"

definition load_old :: "token \<Rightarrow> asset \<Rightarrow> asset \<Rightarrow> load \<Rightarrow> asset \<Rightarrow> asset \<Rightarrow> 'd \<Rightarrow> 'd loader \<Rightarrow> (bool \<times> 'd loader) option" where
  "load_old tag owner file l name filetype data s = do {
     y \<leftarrow> load_info_of l;
     if l_filetype y \<noteq> filetype then Some (False, s)
     else Some (True, post (W_ready_one (l_call y) file tag \<lparr>rc_name = name, rc_calls = data\<rparr>)
       (put_load file (with_info (y\<lparr>owners := owners y @ [owner]\<rparr>) l) s)) }"

section \<open>Finishing\<close>

text \<open>Relations of the attachments a file had before it was read again are removed; the first component of a relation is
  the owner.\<close>

definition drop_previous :: "asset \<Rightarrow> asset \<Rightarrow> load_info \<Rightarrow> u32 \<Rightarrow> u32 \<Rightarrow> 'd loader \<Rightarrow> (load_info \<times> 'd loader) option" where
  "drop_previous owner file i previous remaining s = (
     if 0 < sint previous then
       (let n = unat previous in
        if length (attachments i) < n then None
        else do {
          let i' = i\<lparr>attachments := erase_front n 0 (attachments i)\<rparr>;
          s \<leftarrow> remove_attachments (map (Pair owner) (take n (attachments i))) (put_load file (LoadingLoad i' previous remaining) s);
          l \<leftarrow> fmlookup (loads s) file;
          i \<leftarrow> load_info_of l;
          Some (i, s) })
     else Some (i, s))"

text \<open>An owner is told that its attachment is loaded.\<close>

definition finish_owner :: "asset \<Rightarrow> asset \<Rightarrow> load_info \<Rightarrow> u32 \<Rightarrow> u32 \<Rightarrow> 'd loader \<Rightarrow> ('d loader \<times> (asset \<times> asset) list) option" where
  "finish_owner owner file i previous remaining s = (let count = count_of remaining; xs = attachments i; n = length xs - count in
     if length xs < count then None
     else case position (\<lambda>a. a = file) (drop n xs) of
       None \<Rightarrow> Some (s, [])
     | Some j \<Rightarrow>
         (let i = i\<lparr>attachments := xs[n + j := xs ! n, n := xs ! (n + j)]\<rparr>;
              remaining = remaining - 1;
              s = put_load owner (LoadingLoad i previous remaining) s in
          if remaining = 0 then do {
            (i', s) \<leftarrow> drop_previous file owner i previous remaining s;
            s \<leftarrow> make_loaded owner i' s;
            Some (s, map (\<lambda>a. (a, owner)) (owners i)) }
          else Some (s, [])))"

text \<open>Entries are only removed and owners only taken away: the loops over relations end.\<close>

definition shrinks :: "(asset, load) fmap \<Rightarrow> (asset, load) fmap \<Rightarrow> bool" where
  "shrinks m' m \<longleftrightarrow> (\<forall>k l'. fmlookup m' k = Some l' \<longrightarrow> (\<exists>l. fmlookup m k = Some l \<and> waiting_owners l' \<le> waiting_owners l))"

lemma shrinks_refl [simp]: "shrinks m m"
  by (simp add: shrinks_def)

lemma shrinks_trans: "shrinks m'' m' \<Longrightarrow> shrinks m' m \<Longrightarrow> shrinks m'' m"
  unfolding shrinks_def by (meson le_trans)

lemma shrinks_drop: "shrinks (fmdrop k m) m"
  by (simp add: shrinks_def)

lemma shrinks_weight: "shrinks m' m \<Longrightarrow> weight waiting_owners (fmdrop k m') \<le> weight waiting_owners (fmdrop k m)"
proof -
  assume h: "shrinks m' m"
  have "fmdom' m' - {k} \<subseteq> fmdom' m - {k}" using h by (fastforce simp: shrinks_def fmlookup_dom'_iff)
  moreover have "waiting_owners (the (fmlookup m' j)) \<le> waiting_owners (the (fmlookup m j))" if "j \<in> fmdom' m'" for j
    using h that by (fastforce simp: shrinks_def fmlookup_dom'_iff)
  ultimately have "(\<Sum>j \<in> fmdom' m' - {k}. waiting_owners (the (fmlookup m' j))) \<le> (\<Sum>j \<in> fmdom' m - {k}. waiting_owners (the (fmlookup m j)))"
    by (meson DiffD1 finite_Diff finite_fmdom' le_trans sum_mono sum_mono2 zero_le)
  then show ?thesis by (simp add: weight_def)
qed

lemma shrinks_drop_file: "shrinks (loads (drop_file u file i s)) (loads s)"
  unfolding loads_drop_file by (auto intro: shrinks_trans shrinks_drop)

lemma remove_attachment_shrinks:
  assumes "remove_attachment owner file l s = Some (s', new)" "fmlookup (loads s) file = Some l"
  shows "shrinks (loads s') (loads s)"
proof -
  obtain x where x: "load_info_of l = Some x" using assms(1) by (auto simp: remove_attachment_def)
  consider "s' = s"
    | n where "loads s' = fmupd file (with_info (x\<lparr>owners := erase_at n (owners x)\<rparr>) l) (loads s)"
    | s1 i where "s' = drop_file True file i s1" "loads s1 = loads s"
    using assms(1) x
    by (auto simp: remove_attachment_def Let_def put_load_def split: option.splits if_splits)
  then show ?thesis
  proof cases
    case (2 n)
    then show ?thesis using assms(2) x
      by (cases l) (auto simp: shrinks_def with_info_def waiting_owners_def load_info_of_def)
  next
    case (3 s1 i)
    then show ?thesis using shrinks_drop_file [of True "file" i s1] by simp
  qed simp
qed

lemma remove_attachments_shrinks: "remove_attachments rels s = Some s' \<Longrightarrow> shrinks (loads s') (loads s)"
proof (induction rels s rule: remove_attachments.induct)
  case (1 relations s)
  show ?case
  proof (cases "relations = []")
    case True
    then show ?thesis using 1(2) by (simp add: remove_attachments.simps)
  next
    case False
    obtain owner fl where r: "last relations = (owner, fl)" by fastforce
    show ?thesis
    proof (cases "fmlookup (loads s) fl")
      case None
      then show ?thesis using 1(2) False r by (simp add: remove_attachments.simps [of relations])
    next
      case (Some l)
      then obtain s1 new where a: "remove_attachment owner fl l s = Some (s1, new)"
        "remove_attachments (butlast relations @ new) s1 = Some s'"
        using 1(2) False r by (auto simp: remove_attachments.simps [of relations] split: option.splits)
      have "shrinks (loads s') (loads s1)" using 1(1) [OF False r [symmetric] refl refl Some a(1) refl] a(2) by simp
      then show ?thesis using remove_attachment_shrinks [OF a(1) Some] by (rule shrinks_trans)
    qed
  qed
qed


lemma load_update_shrinks: "waiting_owners l' \<le> waiting_owners l \<Longrightarrow> shrinks (fmupd k l' m) (fmupd k l m)"
  by (auto simp: shrinks_def)

lemma drop_previous_shrinks:
  "drop_previous owner file i p r s = Some (i', s') \<Longrightarrow> shrinks (fmdrop file (loads s')) (fmdrop file (loads s))"
proof (cases "0 < sint p")
  case True
  assume "drop_previous owner file i p r s = Some (i', s')"
  then obtain rels j where "remove_attachments rels (put_load file (LoadingLoad j p r) s) = Some s'"
    using True by (auto simp: drop_previous_def Let_def split: if_splits option.splits bind_splits)
  from remove_attachments_shrinks [OF this] show ?thesis
    by (auto simp: shrinks_def put_load_def split: if_splits)
qed (auto simp: drop_previous_def)

lemma make_loaded_loads: "make_loaded file i s = Some s' \<Longrightarrow> loads s' = fmupd file (LoadedLoad i) (fmdrop file (loads s))"
  by (auto simp: make_loaded_def emplace_load_def erase_load_def put_load_def split: bind_splits if_splits)

lemma weight_shrinks_drop:
  "shrinks (fmdrop k m') (fmdrop k m) \<Longrightarrow> weight waiting_owners (fmdrop k m') \<le> weight waiting_owners (fmdrop k m)"
  using shrinks_weight [of "fmdrop k m'" "fmdrop k m" k] by simp

lemma finish_owner_weight:
  assumes "finish_owner owner file i p r s = Some (s', new)" "fmlookup (loads s) owner = Some (LoadingLoad i p r)"
  shows "weight waiting_owners (loads s') + length new \<le> weight waiting_owners (loads s)"
proof -
  note w = weight_drop [OF assms(2), of waiting_owners]
  consider "s' = s" "new = []"
    | j where "s' = put_load owner (LoadingLoad j p (r - 1)) s" "owners j = owners i" "new = []"
    | j i' s2 where "drop_previous file owner j p 0 (put_load owner (LoadingLoad j p 0) s) = Some (i', s2)"
        "make_loaded owner i' s2 = Some s'" "new = map (\<lambda>a. (a, owner)) (owners i)"
    using assms(1)
    by (auto simp: finish_owner_def Let_def split: if_splits option.splits bind_splits)
  then show ?thesis
  proof cases
    case (2 j)
    then show ?thesis using w by (simp add: put_load_def weight_upd waiting_owners_def)
  next
    case (3 j i' s2)
    have "weight waiting_owners (fmdrop owner (loads s2)) \<le> weight waiting_owners (fmdrop owner (loads s))"
      using weight_shrinks_drop [OF drop_previous_shrinks [OF 3(1)]] by (simp add: put_load_def fmdrop_fmupd_same)
    then show ?thesis
      using 3(3) w by (simp add: make_loaded_loads [OF 3(2)] weight_upd waiting_owners_def)
  qed simp
qed

text \<open>The loop that tells the owners; an owner that is not there cannot be asked for.\<close>

function finish_relations :: "(asset \<times> asset) list \<Rightarrow> 'd loader \<Rightarrow> 'd loader option" where
  "finish_relations relations s = (
     if relations = [] then Some s
     else (let (owner, file) = last relations; relations = butlast relations in
       if owner = global then finish_relations relations s
       else case fmlookup (loads s) owner of
         None \<Rightarrow> None
       | Some (LoadingLoad i p r) \<Rightarrow> (case finish_owner owner file i p r s of
             None \<Rightarrow> None
           | Some (s', new) \<Rightarrow> finish_relations (relations @ new) s')
       | Some l \<Rightarrow> finish_relations relations s))"
  by pat_completeness auto
termination
proof (relation "measure (\<lambda>(relations, s). length relations + weight waiting_owners (loads s))", goal_cases)
  case (4 relations s x owner fl rels l i p r y s' new)
  have l: "length relations = Suc (length rels)" using 4 by (cases relations rule: rev_cases) auto
  have "finish_owner owner fl i p r s = Some (s', new)" "fmlookup (loads s) owner = Some (LoadingLoad i p r)" using 4 by simp_all
  from finish_owner_weight [OF this] l show ?case by simp
qed auto

declare finish_relations.simps [simp del]

definition finish_loading :: "asset \<Rightarrow> load_info \<Rightarrow> u32 \<Rightarrow> 'd loader \<Rightarrow> 'd loader option" where
  "finish_loading file i previous s = do {
     let relations = map (\<lambda>a. (a, file)) (owners i);
     (i, s) \<leftarrow> drop_previous file file i previous 0 s;
     s \<leftarrow> make_loaded file i s;
     finish_relations relations s }"

section \<open>Messages\<close>

text \<open>The first component says whether the attachment was added.\<close>

definition add_dependency_loaded :: "config \<Rightarrow> asset \<Rightarrow> asset \<Rightarrow> 'd loader \<Rightarrow> (bool \<times> 'd loader) option" where
  "add_dependency_loaded cfg owner attachment s = (case fmlookup (loads s) owner of
     Some (LoadingLoad y p r) \<Rightarrow> do {
       y \<leftarrow> insert_attachment cfg (count_of r) attachment y;
       Some (True, put_load owner (LoadingLoad y p r) s) }
   | Some (LoadedLoad y) \<Rightarrow> Some (False, s)
   | _ \<Rightarrow> None)"

definition add_dependency_unloaded :: "config \<Rightarrow> asset \<Rightarrow> asset \<Rightarrow> 'd loader \<Rightarrow> (bool \<times> 'd loader) option" where
  "add_dependency_unloaded cfg owner attachment s = (case fmlookup (loads s) owner of
     Some (LoadingLoad y p r) \<Rightarrow>
       Some (True, put_load owner (LoadingLoad (push_attachment cfg attachment y) p (r + 1)) s)
   | Some (LoadedLoad y) \<Rightarrow> Some (False, s)
   | _ \<Rightarrow> None)"

text \<open>\<^verbatim>\<open>tags.emplace\<close>, which answers null when the tag is in use.\<close>

definition emplace_tag :: "token \<Rightarrow> asset \<Rightarrow> 'd loader \<Rightarrow> 'd loader option" where
  "emplace_tag tag file s = (if tags s tag = None then Some (s\<lparr>tags := (tags s)(tag \<mapsto> file)\<rparr>) else None)"

definition load_independent :: "token \<Rightarrow> asset \<Rightarrow> asset \<Rightarrow> 'd \<Rightarrow> 'd loader \<Rightarrow> 'd loader option" where
  "load_independent tag name filetype data s = (case find_underlying_load name s of
     (f, Some l) \<Rightarrow> (case emplace_tag tag f s of
         None \<Rightarrow> Some s
       | Some s \<Rightarrow> map_option snd (load_old tag global f l name filetype data s))
   | (_, None) \<Rightarrow> (case find_underlying_file name (files s) of
       (f, Some (UniqueFile d p rs)) \<Rightarrow> (case find_underlying_load f s of
           (g, Some l) \<Rightarrow> (case emplace_tag tag g s of
               None \<Rightarrow> Some s
             | Some s \<Rightarrow> map_option snd (load_old tag global g l name filetype data s))
         | (_, None) \<Rightarrow> (case emplace_tag tag f s of
               None \<Rightarrow> Some s
             | Some s \<Rightarrow> Some (snd (load_new tag global f (UniqueFile d p rs) name filetype data s))))
     | (f, Some (RadicalFile d p)) \<Rightarrow> None
     | _ \<Rightarrow> Some s))"

definition load_dependency :: "config \<Rightarrow> asset \<Rightarrow> asset \<Rightarrow> asset \<Rightarrow> 'd \<Rightarrow> 'd loader \<Rightarrow> 'd loader option" where
  "load_dependency cfg owner name filetype data s = (case find_underlying_load owner s of
     (_, None) \<Rightarrow> Some s
   | (w, Some _) \<Rightarrow> (case find_underlying_load name s of
       (f, Some l) \<Rightarrow> do {
         (ok, s) \<leftarrow> (case l of LoadedLoad y \<Rightarrow> add_dependency_loaded cfg w f s | _ \<Rightarrow> add_dependency_unloaded cfg w f s);
         if ok then do {
           l \<leftarrow> fmlookup (loads s) f;
           map_option snd (load_old (ucast w) w f l name filetype data s) }
         else Some s }
     | (_, None) \<Rightarrow> (case find_underlying_file name (files s) of
         (f, Some (UniqueFile d p rs)) \<Rightarrow> do {
           (ok, s) \<leftarrow> add_dependency_unloaded cfg w f s;
           if ok then (case find_underlying_load f s of
               (g, Some l) \<Rightarrow> map_option snd (load_old (ucast w) w g l name filetype data s)
             | (_, None) \<Rightarrow> Some (snd (load_new (ucast w) w f (UniqueFile d p rs) name filetype data s)))
           else Some s }
       | (f, Some (RadicalFile d p)) \<Rightarrow> None
       | _ \<Rightarrow> Some s)))"

definition load_init :: "asset \<Rightarrow> 'd loader \<Rightarrow> 'd loader option" where
  "load_init file s = (case fmlookup (loads s) file of
     Some (LoadedLoad i) \<Rightarrow> make_loading file i s
   | _ \<Rightarrow> Some s)"

definition load_done :: "asset \<Rightarrow> 'd loader \<Rightarrow> 'd loader option" where
  "load_done file s = (case fmlookup (loads s) file of
     Some (LoadingLoad i p r) \<Rightarrow>
       (let r = r AND 0x7fffffff; s = put_load file (LoadingLoad i p r) s in
        if r = 0 then finish_loading file i p s else Some s)
   | _ \<Rightarrow> Some s)"

definition unload_independent :: "token \<Rightarrow> 'd loader \<Rightarrow> 'd loader option" where
  "unload_independent tag s = (case tags s tag of
     None \<Rightarrow> Some s
   | Some f \<Rightarrow> (case fmlookup (loads s) f of
       None \<Rightarrow> Some s
     | Some l \<Rightarrow> remove_file tag f l s))"

fun process_message :: "config \<Rightarrow> names \<Rightarrow> 'd message \<Rightarrow> 'd loader \<Rightarrow> 'd loader option" where
  "process_message cfg N (MessageFileScan directory existing removed) s =
     map_option (\<lambda>idx. s\<lparr>scanning_directory := 0, files := idx\<rparr>) (file_scan N directory existing removed (files s))"
| "process_message cfg N (MessageLoadIndependent tag name filetype data) s = load_independent tag name filetype data s"
| "process_message cfg N (MessageLoadDependency owner name filetype data) s = load_dependency cfg owner name filetype data s"
| "process_message cfg N (MessageLoadInit a) s = load_init a s"
| "process_message cfg N (MessageLoadDone a) s = load_done a s"
| "process_message cfg N (MessageRegisterFiletype filetype f) s =
     Some (if filetypes s filetype = None then s\<lparr>filetypes := (filetypes s)(filetype \<mapsto> f)\<rparr> else s)"
| "process_message cfg N (MessageRegisterLibrary directory) s =
     Some (s\<lparr>scanning_directory := directory, files := register_directory directory (files s)\<rparr>)"
| "process_message cfg N (MessageUnloadIndependent tag) s = unload_independent tag s"
| "process_message cfg N (MessageUnregisterFiletype filetype) s = Some (s\<lparr>filetypes := (filetypes s)(filetype := None)\<rparr>)"
| "process_message cfg N (MessageUnregisterLibrary directory) s =
     Some (s\<lparr>files := unregister_directory directory (files s)\<rparr>)"


section \<open>The strand of the loader\<close>

text \<open>While a directory is being scanned everything else is delayed.  \<^verbatim>\<open>end\<close> is read before the loop and not again when a
  message is erased from the vector: the loop then reads past the last element, which is \<open>None\<close>.\<close>

definition is_scan_of :: "asset \<Rightarrow> 'd message \<Rightarrow> bool" where
  "is_scan_of directory m = (case m of MessageFileScan d e r \<Rightarrow> d = directory | _ \<Rightarrow> False)"

definition is_register_library :: "'d message \<Rightarrow> bool" where
  "is_register_library m = (case m of MessageRegisterLibrary d \<Rightarrow> True | _ \<Rightarrow> False)"

function run_delayed :: "config \<Rightarrow> names \<Rightarrow> nat \<Rightarrow> nat \<Rightarrow> 'd loader \<Rightarrow> (nat \<times> 'd loader) option" where
  "run_delayed cfg N at stop s = (
     if stop \<le> at then Some (at, s)
     else if length (delayed_messages s) \<le> at then None
     else (let m = delayed_messages s ! at in
       case process_message cfg N m s of
         None \<Rightarrow> None
       | Some s \<Rightarrow>
           if is_register_library m then (
             case position (is_scan_of (scanning_directory s)) (drop (Suc at) (delayed_messages s)) of
               None \<Rightarrow> if length (delayed_messages s) < stop then None else Some (Suc at, s)
             | Some j \<Rightarrow> (
                 let it = Suc at + j; D = delayed_messages s in
                 case process_message cfg N (D ! it) s of
                   None \<Rightarrow> None
                 | Some s \<Rightarrow> run_delayed cfg N (Suc at) stop (s\<lparr>delayed_messages := take it D @ drop (Suc it) D\<rparr>)))
           else run_delayed cfg N (Suc at) stop s))"
  by pat_completeness auto
termination
  by (relation "measure (\<lambda>(cfg, N, b, e, s). e - b)") auto

declare run_delayed.simps [simp del]

definition loader_update :: "config \<Rightarrow> names \<Rightarrow> 'd message \<Rightarrow> 'd loader \<Rightarrow> 'd loader option" where
  "loader_update cfg N m s = (
     if scanning_directory s \<noteq> 0 then
       (if is_scan_of (scanning_directory s) m then do {
          s \<leftarrow> process_message cfg N m s;
          (n, s) \<leftarrow> run_delayed cfg N 0 (length (delayed_messages s)) s;
          Some (s\<lparr>delayed_messages := drop n (delayed_messages s)\<rparr>) }
        else Some (s\<lparr>delayed_messages := delayed_messages s @ [m]\<rparr>))
     else process_message cfg N m s)"

section \<open>Posted work\<close>

text \<open>What a user's function does to the loader is to send messages; which ones is a parameter.  The first component is
  the calls made, in order.\<close>

type_synonym 'd react = "'d user_call \<Rightarrow> 'd message list"

definition user_calls :: "'d react \<Rightarrow> 'd user_call list \<Rightarrow> 'd loader \<Rightarrow> 'd loader" where
  "user_calls react us s = s\<lparr>posted := posted s @ map W_update (concat (map react us))\<rparr>"

definition put_call :: "nat \<Rightarrow> 'd call_data \<Rightarrow> 'd loader \<Rightarrow> 'd loader" where
  "put_call c x s = s\<lparr>calls := (calls s)(c \<mapsto> x)\<rparr>"

text \<open>The shared pointer is held by the entries of the loads and by the work that is posted.\<close>

definition work_holds :: "nat \<Rightarrow> 'd work \<Rightarrow> bool" where
  "work_holds c w = (case w of W_update m \<Rightarrow> False | W_ready_all d a \<Rightarrow> d = c | W_ready_one d a t x \<Rightarrow> d = c
     | W_unready d a t \<Rightarrow> d = c | W_unload d a \<Rightarrow> d = c | W_file_load d a \<Rightarrow> False)"

definition call_lock :: "nat \<Rightarrow> 'd loader \<Rightarrow> 'd call_data option" where
  "call_lock c s = (if (\<exists>w \<in> set (posted s). work_holds c w) \<or>
       \<not> fmpred (\<lambda>a l. map_option l_call (load_info_of l) \<noteq> Some c) (loads s)
     then calls s c else None)"

definition ready_all :: "'d react \<Rightarrow> nat \<Rightarrow> asset \<Rightarrow> 'd loader \<Rightarrow> ('d user_call list \<times> 'd loader) option" where
  "ready_all react c strand s = do {
     x \<leftarrow> calls s c;
     if cd_ready x then Some ([], s)
     else (let us = map (\<lambda>(t, cb). ReadyCall cb strand) (cd_calls x) in
       Some (us, put_call c (x\<lparr>cd_ready := True\<rparr>) (user_calls react us s))) }"

definition ready_one :: "'d react \<Rightarrow> nat \<Rightarrow> asset \<Rightarrow> token \<Rightarrow> 'd relation_callback \<Rightarrow> 'd loader \<Rightarrow> ('d user_call list \<times> 'd loader) option" where
  "ready_one react c strand tag cb s = do {
     x \<leftarrow> calls s c;
     let us = (if cd_ready x then [ReadyCall cb strand] else []);
     Some (us, user_calls react us (put_call c (x\<lparr>cd_calls := cd_calls x @ [(tag, cb)]\<rparr>) s)) }"

definition unready_one :: "'d react \<Rightarrow> nat \<Rightarrow> asset \<Rightarrow> token \<Rightarrow> 'd loader \<Rightarrow> ('d user_call list \<times> 'd loader) option" where
  "unready_one react c strand tag s = do {
     x \<leftarrow> calls s c;
     case position (\<lambda>y. fst y = tag) (cd_calls x) of
       None \<Rightarrow> Some ([], s)
     | Some n \<Rightarrow>
         (let us = (if cd_ready x then [UnreadyCall (snd (cd_calls x ! n)) strand] else []) in
          Some (us, put_call c (x\<lparr>cd_calls := erase_at n (cd_calls x)\<rparr>) (user_calls react us s))) }"

definition unload_call :: "'d react \<Rightarrow> nat \<Rightarrow> asset \<Rightarrow> 'd loader \<Rightarrow> ('d user_call list \<times> 'd loader) option" where
  "unload_call react c strand s = do {
     x \<leftarrow> calls s c;
     let us = (if cd_ready x then map (\<lambda>(t, cb). UnreadyCall cb strand) (cd_calls x) else []) @ [UnloadCall (cd_filetype x) strand];
     Some (us, user_calls react us s) }"

definition file_load :: "'d react \<Rightarrow> nat \<Rightarrow> asset \<Rightarrow> 'd loader \<Rightarrow> ('d user_call list \<times> 'd loader) option" where
  "file_load react c f s = (case call_lock c s of
     None \<Rightarrow> Some ([], s)
   | Some x \<Rightarrow>
       (let us = (if cd_ready x then map (\<lambda>(t, cb). UnreadyCall cb f) (cd_calls x) else []);
            s = (if cd_ready x then put_call c (x\<lparr>cd_ready := False\<rparr>) (user_calls react us (post (W_update (MessageLoadInit f)) s)) else s);
            s = user_calls react [LoadCall (cd_filetype x) f] s
        in Some (us @ [LoadCall (cd_filetype x) f], post (W_update (MessageLoadDone f)) s)))"

fun run_work :: "config \<Rightarrow> names \<Rightarrow> 'd react \<Rightarrow> 'd work \<Rightarrow> 'd loader \<Rightarrow> ('d user_call list \<times> 'd loader) option" where
  "run_work cfg N react (W_update m) s = map_option (Pair []) (loader_update cfg N m s)"
| "run_work cfg N react (W_ready_all c a) s = ready_all react c a s"
| "run_work cfg N react (W_ready_one c a tag cb) s = ready_one react c a tag cb s"
| "run_work cfg N react (W_unready c a tag) s = unready_one react c a tag s"
| "run_work cfg N react (W_unload c a) s = unload_call react c a s"
| "run_work cfg N react (W_file_load c a) s = file_load react c a s"

text \<open>Work posted to one strand runs in order; the schedule says which strand is next.  Reads are answered by the file
  system, once and, when the file is watched, again whenever it changes.\<close>

definition strand_of :: "'d work \<Rightarrow> asset option" where
  "strand_of w = (case w of W_update m \<Rightarrow> None | W_ready_all c a \<Rightarrow> Some a | W_ready_one c a t x \<Rightarrow> Some a
     | W_unready c a t \<Rightarrow> Some a | W_unload c a \<Rightarrow> Some a | W_file_load c a \<Rightarrow> Some a)"

definition run_strand :: "config \<Rightarrow> names \<Rightarrow> 'd react \<Rightarrow> asset option \<Rightarrow> 'd loader \<Rightarrow> ('d user_call list \<times> 'd loader) option" where
  "run_strand cfg N react strand s = (case position (\<lambda>w. strand_of w = strand) (posted s) of
     None \<Rightarrow> Some ([], s)
   | Some i \<Rightarrow> run_work cfg N react (posted s ! i) (s\<lparr>posted := take i (posted s) @ drop (Suc i) (posted s)\<rparr>))"

definition loader_new :: "'d loader" where
  "loader_new = \<lparr>files = Map.empty, filetypes = Map.empty, tags = Map.empty, loads = fmempty, calls = Map.empty, next_call = 0,
     posted = [], requests = [], scanning_directory = 0, delayed_messages = []\<rparr>"

end
