(* ===== verification/Erased_Lists.thy ===== *)
theory Erased_Lists
  imports Prelude "HOL-Library.Multiset"
begin

text \<open>What the elements of a vector are after an erase that moves the last one into the hole.\<close>

lemma mset_butlast: "xs \<noteq> [] \<Longrightarrow> mset (butlast xs) = mset xs - {#last xs#}"
  by (induction xs rule: rev_induct) auto

lemma mset_erase_at: "n < length xs \<Longrightarrow> mset (erase_at n xs) = mset xs - {#xs ! n#}"
proof -
  assume n: "n < length xs"
  have "xs \<noteq> []" using n by auto
  then have "last (xs[n := last xs]) = last xs" by (simp add: last_list_update)
  then show ?thesis using n \<open>xs \<noteq> []\<close> by (simp add: erase_at_def mset_butlast mset_update)
qed

lemma erase_at_remove1: "n < length xs \<Longrightarrow> mset (erase_at n xs) = mset (remove1 (xs ! n) xs)"
  by (simp add: mset_erase_at)

lemma set_erase_at: "distinct xs \<Longrightarrow> n < length xs \<Longrightarrow> set (erase_at n xs) = set xs - {xs ! n}"
  using mset_eq_setD [OF erase_at_remove1 [of n xs]] by simp

lemma distinct_erase_at: "distinct xs \<Longrightarrow> n < length xs \<Longrightarrow> distinct (erase_at n xs)"
  using mset_eq_imp_distinct_iff [OF erase_at_remove1 [of n xs]] by simp

lemma nth_erase_at: "n < length xs \<Longrightarrow> i < length xs - 1 \<Longrightarrow> erase_at n xs ! i = (if i = n then last xs else xs ! i)"
  by (simp add: erase_at_def nth_butlast)

end
