(* ===== verification/File_Graph.thy ===== *)
theory File_Graph
  imports File_Loader Erased_Lists
begin

text \<open>
  The graph of files and their dependencies that the loader of \<^verbatim>\<open>engine/file/loader.cpp\<close> keeps: the owners of a file
  are its users and the files it is attached to, a file is loaded when it has been read and its attachments are
  loaded, and it is unloaded with its last owner.  The invariant of the graph, its preservation by the messages, and
  what follows: dependencies are loaded before their dependents, nothing waits forever, nothing is leaked, as long as
  no file depends on itself in a cycle and no message spoils the graph (\<open>File_Lifetime\<close>).
\<close>

section \<open>The invariant\<close>

type_synonym loads_map = "(asset, load) fmap"

definition info :: "loads_map \<Rightarrow> asset \<Rightarrow> load_info option" where
  "info L a = Option.bind (fmlookup L a) load_info_of"

definition owners_of :: "loads_map \<Rightarrow> asset \<Rightarrow> asset multiset" where
  "owners_of L a = (case info L a of None \<Rightarrow> {#} | Some i \<Rightarrow> mset (owners i))"

definition attachments_of :: "loads_map \<Rightarrow> asset \<Rightarrow> asset multiset" where
  "attachments_of L a = (case info L a of None \<Rightarrow> {#} | Some i \<Rightarrow> mset (attachments i))"

definition loaded :: "loads_map \<Rightarrow> asset \<Rightarrow> bool" where
  "loaded L a = (case fmlookup L a of Some (LoadedLoad i) \<Rightarrow> True | _ \<Rightarrow> False)"

definition loading :: "loads_map \<Rightarrow> asset \<Rightarrow> bool" where
  "loading L a = (case fmlookup L a of Some (LoadingLoad i p r) \<Rightarrow> True | _ \<Rightarrow> False)"

definition unread :: "u32 \<Rightarrow> bool" where
  "unread r \<longleftrightarrow> 2 ^ 31 \<le> unat r"

text \<open>Owners and attachments are two views of the same relation, but for relations \<open>R\<close> that are still to be removed.\<close>

definition edges :: "loads_map \<Rightarrow> (asset \<times> asset) list \<Rightarrow> bool" where
  "edges L R \<longleftrightarrow> (\<forall>x w. w \<noteq> 0 \<longrightarrow>
     count (owners_of L x) w = count (attachments_of L w) x + count (mset R) (w, x))"

definition named :: "loads_map \<Rightarrow> bool" where
  "named L \<longleftrightarrow> fmlookup L 0 = None \<and>
     (\<forall>n f. fmlookup L n = Some (RadicalLoad f) \<longrightarrow> n \<noteq> f \<and> (\<exists>i. info L f = Some i \<and> l_radical i = n)) \<and>
     (\<forall>f i. info L f = Some i \<longrightarrow> l_radical i \<noteq> f \<longrightarrow> fmlookup L (l_radical i) = Some (RadicalLoad f))"

definition owned :: "loads_map \<Rightarrow> bool" where
  "owned L \<longleftrightarrow> (\<forall>f i. info L f = Some i \<longrightarrow> owners i \<noteq> [])"

text \<open>The attachments that are waited for stand at the end.  The ones of them that are loaded are those whose owner is
  still to be told, \<open>Q\<close>.\<close>

definition done_part :: "load_info \<Rightarrow> u32 \<Rightarrow> asset list" where
  "done_part i r = take (length (attachments i) - count_of r) (attachments i)"

definition waiting_part :: "load_info \<Rightarrow> u32 \<Rightarrow> asset list" where
  "waiting_part i r = drop (length (attachments i) - count_of r) (attachments i)"

definition settled_at :: "loads_map \<Rightarrow> (asset \<times> asset) list \<Rightarrow> asset \<Rightarrow> load \<Rightarrow> bool" where
  "settled_at L Q w l = (case l of
     RadicalLoad f \<Rightarrow> True
   | LoadedLoad i \<Rightarrow> (\<forall>a \<in> set (attachments i). loaded L a)
   | LoadingLoad i p r \<Rightarrow> p = - 1 \<and> count_of r \<le> length (attachments i) \<and> (unread r \<or> 0 < count_of r) \<and>
       (\<forall>a \<in> set (done_part i r). loaded L a) \<and>
       (\<forall>x. loaded L x \<longrightarrow> count (mset (waiting_part i r)) x = count (mset Q) (w, x)))"

definition pending :: "loads_map \<Rightarrow> (asset \<times> asset) list \<Rightarrow> bool" where
  "pending L Q \<longleftrightarrow> (\<forall>(w, x) \<in> set Q. w \<noteq> 0 \<longrightarrow> loaded L x \<and> loading L w)"

definition settled :: "loads_map \<Rightarrow> (asset \<times> asset) list \<Rightarrow> bool" where
  "settled L Q \<longleftrightarrow> (\<forall>w l. fmlookup L w = Some l \<longrightarrow> settled_at L Q w l) \<and> pending L Q"

definition graph_ok :: "loads_map \<Rightarrow> bool" where
  "graph_ok L \<longleftrightarrow> edges L [] \<and> named L \<and> owned L \<and> settled L []"

lemma edgesD: "edges L R \<Longrightarrow> w \<noteq> 0 \<Longrightarrow> count (owners_of L x) w = count (attachments_of L w) x + count (mset R) (w, x)"
  by (simp add: edges_def)

lemma namedD:
  "named L \<Longrightarrow> fmlookup L 0 = None"
  "named L \<Longrightarrow> fmlookup L n = Some (RadicalLoad f) \<Longrightarrow> n \<noteq> f \<and> (\<exists>i. info L f = Some i \<and> l_radical i = n)"
  "named L \<Longrightarrow> info L f = Some i \<Longrightarrow> l_radical i \<noteq> f \<Longrightarrow> fmlookup L (l_radical i) = Some (RadicalLoad f)"
  unfolding named_def by blast+

lemma settledD: "settled L Q \<Longrightarrow> fmlookup L w = Some l \<Longrightarrow> settled_at L Q w l"
  by (simp add: settled_def)

lemma info_simps [simp]:
  "fmlookup L a = Some (LoadingLoad i p r) \<Longrightarrow> info L a = Some i"
  "fmlookup L a = Some (LoadedLoad i) \<Longrightarrow> info L a = Some i"
  "fmlookup L a = Some (RadicalLoad f) \<Longrightarrow> info L a = None"
  "fmlookup L a = None \<Longrightarrow> info L a = None"
  by (simp_all add: info_def load_info_of_def)

lemma infoE:
  assumes "info L a = Some i"
  obtains p r where "fmlookup L a = Some (LoadingLoad i p r)" | "fmlookup L a = Some (LoadedLoad i)"
  using assms by (auto simp: info_def load_info_of_Some bind_eq_Some_conv)

lemma info_upd: "info (fmupd k l L) a = (if a = k then load_info_of l else info L a)"
  by (simp add: info_def)

lemma info_drop: "info (fmdrop k L) a = (if a = k then None else info L a)"
  by (simp add: info_def)

lemma loaded_upd: "loaded (fmupd k l L) a = (if a = k then (case l of LoadedLoad i \<Rightarrow> True | _ \<Rightarrow> False) else loaded L a)"
  by (simp add: loaded_def)

lemma loading_upd: "loading (fmupd k l L) a = (if a = k then (case l of LoadingLoad i p r \<Rightarrow> True | _ \<Rightarrow> False) else loading L a)"
  by (simp add: loading_def)

lemma loaded_drop: "loaded (fmdrop k L) a = (a \<noteq> k \<and> loaded L a)"
  by (simp add: loaded_def)

lemma loaded_info: "loaded L a \<Longrightarrow> \<exists>i. info L a = Some i \<and> fmlookup L a = Some (LoadedLoad i)"
  by (auto simp: loaded_def split: option.splits load.splits)

lemma loading_info: "loading L a \<Longrightarrow> \<exists>i p r. info L a = Some i \<and> fmlookup L a = Some (LoadingLoad i p r)"
  by (auto simp: loading_def split: option.splits load.splits)

lemma info_cases: "info L a = Some i \<Longrightarrow> loaded L a \<or> loading L a"
  by (erule infoE) (auto simp: loaded_def loading_def)

lemma attached_info: "0 < count (attachments_of L w) x \<Longrightarrow> \<exists>i. info L w = Some i \<and> x \<in> set (attachments i)"
  by (auto simp: attachments_of_def count_greater_zero_iff split: option.splits)

lemma owner_info: "0 < count (owners_of L x) w \<Longrightarrow> \<exists>i. info L x = Some i \<and> w \<in> set (owners i)"
  by (auto simp: owners_of_def count_greater_zero_iff split: option.splits)

section \<open>Counts\<close>

lemma unat_u32: "unat (r :: u32) < 4294967296"
  using unsigned_less [of r] by simp

lemma count_of_if: "count_of r = (if unat r < 2147483648 then unat r else unat r - 2147483648)"
proof -
  have "r AND 0x7fffffff = take_bit 31 r"
    by (simp add: take_bit_eq_mask mask_eq_exp_minus_1)
  then have "count_of r = take_bit 31 (unat r)" by (simp only: count_of_def unsigned_take_bit_eq)
  then have "count_of r = unat r mod 2147483648" by (simp add: take_bit_eq_mod)
  then show ?thesis using unat_u32 [of r] by (simp add: mod_if)
qed

lemma count_of_pred:
  assumes "0 < count_of r"
  shows "count_of (r - 1) = count_of r - 1" "unread (r - 1) = unread r"
proof -
  have "r \<noteq> 0" using assms by (auto simp: count_of_def)
  then have "unat (r - 1) = unat r - 1" by (rule unat_minus_one)
  then show "count_of (r - 1) = count_of r - 1" "unread (r - 1) = unread r"
    using assms by (auto simp: count_of_if unread_def split: if_splits)
qed

lemma count_of_succ:
  assumes "count_of r < 2147483647"
  shows "count_of (r + 1) = count_of r + 1" "unread (r + 1) = unread r"
proof -
  have "unat r < 4294967295" using assms by (auto simp: count_of_if split: if_splits)
  then have "unat (r + 1) = unat r + 1" by (simp add: unat_word_ariths)
  then show "count_of (r + 1) = count_of r + 1" "unread (r + 1) = unread r"
    using assms by (auto simp: count_of_if unread_def split: if_splits)
qed

lemma count_of_zero: "r = 0 \<longleftrightarrow> count_of r = 0 \<and> \<not> unread r"
proof -
  have "r = 0 \<longleftrightarrow> unat r = 0" by (simp add: unat_eq_0)
  then show ?thesis by (auto simp: count_of_if unread_def)
qed

lemma count_of_read: "count_of (r AND 0x7fffffff) = count_of r" "\<not> unread (r AND 0x7fffffff)"
proof -
  have "unat (r AND 0x7fffffff) = count_of r" by (simp add: count_of_def)
  then show "count_of (r AND 0x7fffffff) = count_of r" "\<not> unread (r AND 0x7fffffff)"
    using unat_u32 [of r] by (auto simp: count_of_if unread_def)
qed

section \<open>A file becomes loaded\<close>

text \<open>Changing an entry but not whom it knows keeps the relation.\<close>

definition same_info :: "load_info \<Rightarrow> load_info \<Rightarrow> bool" where
  "same_info i j \<longleftrightarrow> mset (owners i) = mset (owners j) \<and> mset (attachments i) = mset (attachments j) \<and> l_radical i = l_radical j"

lemma same_info_refl [simp]: "same_info i i"
  by (simp add: same_info_def)

lemma named_upd:
  assumes i: "info L w = Some i" "load_info_of l = Some j" "l_radical j = l_radical i" and n: "named L"
  shows "named (fmupd w l L)"
proof -
  have nr: "l \<noteq> RadicalLoad f" "fmlookup L w \<noteq> Some (RadicalLoad f)" "fmlookup L w \<noteq> None" for f
    using i(1,2) by (auto simp: load_info_of_def info_def)
  show ?thesis
    unfolding named_def
  proof (intro conjI allI impI)
    show "fmlookup (fmupd w l L) 0 = None" using n nr(3) by (auto simp: named_def)
  next
    fix n f assume "fmlookup (fmupd w l L) n = Some (RadicalLoad f)"
    then have "fmlookup L n = Some (RadicalLoad f)" using nr by (auto split: if_splits)
    then have "n \<noteq> f" "\<exists>k. info L f = Some k \<and> l_radical k = n" using n by (auto simp: named_def)
    then show "n \<noteq> f" "\<exists>k. info (fmupd w l L) f = Some k \<and> l_radical k = n"
      using i by (auto simp: info_upd)
  next
    fix f k assume "info (fmupd w l L) f = Some k" "l_radical k \<noteq> f"
    moreover from this obtain k' where "info L f = Some k'" "l_radical k' = l_radical k"
      using i by (auto simp: info_upd split: if_splits)
    ultimately have "fmlookup L (l_radical k) = Some (RadicalLoad f)" using n by (metis named_def)
    then show "fmlookup (fmupd w l L) (l_radical k) = Some (RadicalLoad f)" using nr(2) by (auto split: if_splits)
  qed
qed

lemma same_upd:
  assumes "info L w = Some i" "load_info_of l = Some j" "same_info j i"
  shows "owners_of (fmupd w l L) = owners_of L" "attachments_of (fmupd w l L) = attachments_of L"
    "named L \<Longrightarrow> named (fmupd w l L)" "owned L \<Longrightarrow> owned (fmupd w l L)"
  using assms named_upd [OF assms(1,2)]
  by (auto simp: fun_eq_iff owners_of_def attachments_of_def owned_def info_upd same_info_def split: if_splits)

lemma same_upd_edges:
  "info L w = Some i \<Longrightarrow> load_info_of l = Some j \<Longrightarrow> same_info j i \<Longrightarrow> edges L R \<Longrightarrow> edges (fmupd w l L) R"
  by (simp add: edges_def same_upd)

lemma count_pairs: "count (image_mset (\<lambda>v. (v, w)) M) (v, x) = (if x = w then count M v else 0)"
  by (induction M) auto

lemma count_parts:
  "settled_at L Q w (LoadingLoad i p r) \<Longrightarrow> \<not> loaded L x \<Longrightarrow> count (mset (waiting_part i r)) x = count (mset (attachments i)) x"
proof -
  assume s: "settled_at L Q w (LoadingLoad i p r)" "\<not> loaded L x"
  then have "x \<notin> set (done_part i r)" by (auto simp: settled_at_def)
  moreover have "mset (attachments i) = mset (done_part i r) + mset (waiting_part i r)"
    unfolding done_part_def waiting_part_def by (metis append_take_drop_id mset_append)
  ultimately show ?thesis by (simp add: not_in_iff)
qed

text \<open>All attachments of \<open>w\<close> are loaded: it is, and its owners are to be told.\<close>

lemma settled_make:
  assumes e: "edges L []" and n: "named L"
    and s: "\<And>v l. v \<noteq> w \<Longrightarrow> fmlookup L v = Some l \<Longrightarrow> settled_at L Q v l"
    and q: "\<And>v x. (v, x) \<in> set Q \<Longrightarrow> v \<noteq> 0 \<Longrightarrow> v \<noteq> w \<and> loaded L x \<and> loading L v"
    and w: "fmlookup L w = Some (LoadingLoad i p r)" "same_info j i"
    and a: "\<And>x. x \<in> set (attachments i) \<Longrightarrow> loaded L x"
  shows "settled (fmupd w (LoadedLoad j) L) (Q @ map (\<lambda>v. (v, w)) (owners i))"
proof -
  let ?L = "fmupd w (LoadedLoad j) L" and ?Q = "Q @ map (\<lambda>v. (v, w)) (owners i)"
  have wl: "\<not> loaded L w" "info L w = Some i" using w by (simp_all add: loaded_def)
  have zero: "v \<noteq> 0" if "fmlookup L v = Some l" for v l using n that by (auto simp: named_def)
  have told: "count (mset (owners i)) v = count (attachments_of L v) w" if "v \<noteq> 0" for v
    using edgesD [OF e that, of w] wl(2) by (simp add: owners_of_def)
  have "settled_at ?L ?Q v l" if l: "fmlookup ?L v = Some l" for v l
  proof (cases "v = w")
    case True
    then have "l = LoadedLoad j" using l by simp
    moreover have "set (attachments j) = set (attachments i)" using w(2) by (auto simp: same_info_def dest: mset_eq_setD)
    ultimately show ?thesis using a by (auto simp: settled_at_def loaded_upd)
  next
    case False
    then have lv: "fmlookup L v = Some l" using l by simp
    have at: "settled_at L Q v l" by (rule s [OF False lv])
    have "count (mset (waiting_part k t)) x = count (mset ?Q) (v, x)"
      if k: "l = LoadingLoad k p' t" and x: "loaded ?L x" for k p' t x
    proof (cases "x = w")
      case True
      have "(v, w) \<notin> set Q" using q [of v w] zero [OF lv] wl(1) by auto
      then have "count (mset ?Q) (v, x) = count (mset (attachments k)) w"
        using True told [OF zero [OF lv]] lv k by (simp add: count_pairs attachments_of_def count_eq_zero_iff)
      then show ?thesis using count_parts [OF at [unfolded k] wl(1)] True by simp
    next
      case nw: False
      then have "loaded L x" using x by (simp add: loaded_upd)
      then show ?thesis using at k nw by (simp add: settled_at_def count_pairs)
    qed
    then show ?thesis using at by (auto simp: settled_at_def loaded_upd split: load.splits)
  qed
  moreover have "pending ?L ?Q"
    unfolding pending_def
  proof (intro ballI, clarify)
    fix v x assume m: "(v, x) \<in> set ?Q" "v \<noteq> 0"
    show "loaded ?L x \<and> loading ?L v"
    proof (cases "(v, x) \<in> set Q")
      case True
      then show ?thesis using q m(2) by (auto simp: loaded_upd loading_upd)
    next
      case False
      then have x: "x = w" "0 < count (mset (owners i)) v" using m by (auto simp: count_greater_zero_iff)
      then obtain k where k: "info L v = Some k" "w \<in> set (attachments k)" using told [OF m(2)] attached_info by metis
      have "v \<noteq> w" using k a wl by auto
      moreover have "\<not> loaded L v"
      proof
        assume "loaded L v"
        then have "fmlookup L v = Some (LoadedLoad k)" using k(1) loaded_info by fastforce
        then show False using s [OF \<open>v \<noteq> w\<close>] k(2) wl(1) by (auto simp: settled_at_def)
      qed
      ultimately show ?thesis using x(1) info_cases [OF k(1)] by (simp add: loaded_upd loading_upd)
    qed
  qed
  ultimately show ?thesis by (simp add: settled_def)
qed


section \<open>A file has been read\<close>

lemma fmupd_again [simp]: "fmupd k v (fmupd k u m) = fmupd k v m" "fmupd k v (fmdrop k m) = fmupd k v m"
  by (rule fmap_ext, simp)+

lemma loads_put [simp]: "loads (put_load k l s) = fmupd k l (loads s)"
  by (simp add: put_load_def)

lemma make_loaded_ok: "\<exists>s'. make_loaded file i s = Some s' \<and> loads s' = fmupd file (LoadedLoad i) (loads s)"
  by (simp add: make_loaded_def emplace_load_def erase_load_def)

lemma drop_previous_first [simp]: "drop_previous owner file i (- 1) r s = Some (i, s)"
  by (simp add: drop_previous_def)

text \<open>What the swap does.\<close>

lemma swap_parts:
  assumes n: "n + j < length xs" and x: "xs ! (n + j) = x"
  defines "ys \<equiv> xs[n + j := xs ! n, n := xs ! (n + j)]"
  shows "take (Suc n) ys = take n xs @ [x]" "mset (drop (Suc n) ys) = mset (drop n xs) - {#x#}"
    "mset ys = mset xs" "length ys = length xs"
proof -
  show m: "mset ys = mset xs" using n mset_swap [of n xs "n + j"] by (simp add: ys_def)
  show l: "length ys = length xs" by (simp add: ys_def)
  have "take n ys = take n xs" by (simp add: ys_def)
  moreover have "ys ! n = x" using n x by (simp add: ys_def)
  ultimately show t: "take (Suc n) ys = take n xs @ [x]" using n l by (simp add: take_Suc_conv_app_nth)
  have "mset (take (Suc n) ys) + mset (drop (Suc n) ys) = mset (take n xs) + mset (drop n xs)"
    using m by (metis append_take_drop_id mset_append)
  then have "mset (drop n xs) = add_mset x (mset (drop (Suc n) ys))" using t by simp
  then show "mset (drop (Suc n) ys) = mset (drop n xs) - {#x#}" by simp
qed

lemma loading_again:
  assumes "fmlookup L w = Some (LoadingLoad i p r)"
  shows "loaded (fmupd w (LoadingLoad j q t) L) y = loaded L y" "loading (fmupd w (LoadingLoad j q t) L) y = loading L y"
  using assms by (auto simp: loaded_upd loading_upd loaded_def loading_def)

lemma settled_at_cong:
  "settled_at L Q w l \<Longrightarrow> loaded M = loaded L \<Longrightarrow> (\<And>y. count (mset P) (w, y) = count (mset Q) (w, y)) \<Longrightarrow> settled_at M P w l"
  by (simp add: settled_at_def cong: load.case_cong)

lemma finish_owner_ok:
  fixes s :: "'d loader"
  assumes e: "edges (loads s) []" and n: "named (loads s)" and t: "settled (loads s) (Q @ [(w, x)])" and w: "w \<noteq> 0"
    and l: "fmlookup (loads s) w = Some (LoadingLoad i p r)"
  shows "\<exists>s' new k l'. finish_owner w x i p r s = Some (s', new) \<and> settled (loads s') (Q @ new) \<and>
    loads s' = fmupd w l' (loads s) \<and> load_info_of l' = Some k \<and> same_info k i"
proof -
  let ?L = "loads s" and ?xs = "attachments i" and ?n = "length (attachments i) - count_of r"
  have at: "settled_at ?L (Q @ [(w, x)]) w (LoadingLoad i p r)" by (rule settledD [OF t l])
  then have p: "p = - 1" "count_of r \<le> length ?xs" by (simp_all add: settled_at_def)
  have x: "loaded ?L x" using t w by (auto simp: settled_def pending_def)
  have c: "count (mset (waiting_part i r)) y = count (mset Q) (w, y) + (if y = x then 1 else 0)" if "loaded ?L y" for y
    using at that by (simp add: settled_at_def)
  have "x \<in> set (waiting_part i r)" using c [OF x] by (simp flip: count_greater_zero_iff set_mset_mset)
  then obtain j where j: "position (\<lambda>a. a = x) (waiting_part i r) = Some j" "j < length (waiting_part i r)" "waiting_part i r ! j = x"
    using position_member by metis
  then have nj: "?n + j < length ?xs" "?xs ! (?n + j) = x" by (auto simp: waiting_part_def)
  define k where "k = i\<lparr>attachments := ?xs[?n + j := ?xs ! ?n, ?n := ?xs ! (?n + j)]\<rparr>"
  note sw = swap_parts [OF nj]
  have k: "same_info k i" "owners k = owners i" using sw(3) by (simp_all add: k_def same_info_def)
  have cr: "0 < count_of r" using j(2) by (auto simp: waiting_part_def)
  note pred = count_of_pred [OF cr]
  have Suc_n: "length (attachments k) - count_of (r - 1) = Suc ?n" using p(2) cr sw(4) pred(1) by (simp add: k_def)
  have parts: "done_part k (r - 1) = done_part i r @ [x]" "mset (waiting_part k (r - 1)) = mset (waiting_part i r) - {#x#}"
    unfolding done_part_def waiting_part_def Suc_n using sw(1,2) by (simp_all add: k_def)
  have others: "settled_at ?L Q v m" if "v \<noteq> w" "fmlookup ?L v = Some m" for v m
    using settledD [OF t that(2)] that(1) by (auto simp: settled_at_def split: load.splits)
  have pend: "loaded ?L y \<and> loading ?L v" if "(v, y) \<in> set Q" "v \<noteq> 0" for v y
    using t that by (auto simp: settled_def pending_def)
  have fo: "finish_owner w x i p r s = (if r - 1 = 0 then
      map_option (\<lambda>s. (s, map (\<lambda>a. (a, w)) (owners i))) (make_loaded w k (put_load w (LoadingLoad k p (r - 1)) s))
    else Some (put_load w (LoadingLoad k p (r - 1)) s, []))"
    using j(1) p by (auto simp: finish_owner_def Let_def waiting_part_def k_def map_option_case split: option.splits)
  show ?thesis
  proof (cases "r - 1 = 0")
    case True
    then have "count_of r = 1" using pred cr count_of_zero [of "r - 1"] by simp
    then have "length (waiting_part i r) = 1" using p(2) by (simp add: waiting_part_def)
    then have one: "waiting_part i r = [x]" using j(2,3) by (auto simp: length_Suc_conv)
    obtain s' where s': "make_loaded w k (put_load w (LoadingLoad k p (r - 1)) s) = Some s'" "loads s' = fmupd w (LoadedLoad k) ?L"
      using make_loaded_ok [of w k "put_load w (LoadingLoad k p (r - 1)) s"] by auto
    have "v \<noteq> w" if "(v, y) \<in> set Q" "v \<noteq> 0" for v y
    proof
      assume "v = w"
      then have "0 < count (mset Q) (w, y)" using that(1) by (simp add: count_greater_zero_iff)
      then show False using c [of y] pend [OF that] one by (auto split: if_splits)
    qed
    moreover have "loaded ?L y" if "y \<in> set ?xs" for y
    proof -
      have "?xs = done_part i r @ waiting_part i r" by (simp add: done_part_def waiting_part_def)
      then show ?thesis using that one x at by (auto simp: settled_at_def)
    qed
    ultimately have "settled (loads s') (Q @ map (\<lambda>v. (v, w)) (owners i))"
      unfolding s'(2) using pend by (intro settled_make [OF e n _ _ l k(1)] others) auto
    then show ?thesis using True s' k fo
      by (intro exI [of _ s'] exI [of _ "map (\<lambda>v. (v, w)) (owners i)"] exI [of _ k] exI [of _ "LoadedLoad k"])
        (simp add: load_info_of_def)
  next
    case False
    let ?s = "put_load w (LoadingLoad k p (r - 1)) s" and ?M = "fmupd w (LoadingLoad k p (r - 1)) ?L"
    note ld = loading_again [OF l]
    have "settled_at ?M Q v m" if "fmlookup ?M v = Some m" for v m
    proof (cases "v = w")
      case True
      have "unread (r - 1) \<or> 0 < count_of (r - 1)" using False count_of_zero [of "r - 1"] by auto
      moreover have "count_of (r - 1) \<le> length (attachments k)" using pred p(2) sw(4) by (simp add: k_def)
      moreover have "m = LoadingLoad k p (r - 1)" using that True by simp
      ultimately show ?thesis using True at x p(1) parts c by (auto simp: settled_at_def ld)
    next
      case ne: False
      then have "settled_at ?L Q v m" using that by (intro others) simp_all
      then show ?thesis by (rule settled_at_cong) (simp_all add: fun_eq_iff ld)
    qed
    then have "settled ?M Q" using pend by (auto simp: settled_def pending_def ld)
    then show ?thesis using False k fo
      by (intro exI [of _ ?s] exI [of _ "[]"] exI [of _ k] exI [of _ "LoadingLoad k p (r - 1)"]) (simp add: load_info_of_def)
  qed
qed

lemma graph_step:
  assumes "info L w = Some i" "load_info_of l = Some k" "same_info k i" "edges L []" "named L" "owned L"
  shows "edges (fmupd w l L) []" "named (fmupd w l L)" "owned (fmupd w l L)"
  using same_upd_edges [OF assms(1-4)] same_upd(3,4) [OF assms(1-3)] assms(5,6) by simp_all

lemma finish_relations_ok:
  fixes s :: "'d loader"
  assumes "edges (loads s) []" "named (loads s)" "owned (loads s)" "settled (loads s) Q"
  shows "\<exists>s'. finish_relations Q s = Some s' \<and> graph_ok (loads s')"
  using assms
proof (induction Q s rule: finish_relations.induct)
  case (1 Q s)
  show ?case
  proof (cases "Q = []")
    case True
    then show ?thesis using 1(5-) by (simp add: finish_relations.simps graph_ok_def)
  next
    case False
    obtain w x where wx: "last Q = (w, x)" by fastforce
    then have Q: "Q = butlast Q @ [(w, x)]" using False by (metis append_butlast_last_id)
    show ?thesis
    proof (cases "w = global")
      case True
      have m: "mset Q = add_mset (w, x) (mset (butlast Q))" using arg_cong [OF Q, of mset] by simp
      have "settled_at (loads s) (butlast Q) r l" if "fmlookup (loads s) r = Some l" for r l
      proof (rule settled_at_cong [OF settledD [OF 1(8) that] refl])
        have "r \<noteq> w" using that 1(6) True by (auto simp: named_def global_def)
        then show "count (mset (butlast Q)) (r, y) = count (mset Q) (r, y)" for y by (simp add: m)
      qed
      moreover have "pending (loads s) (butlast Q)" using 1(8) by (auto simp: settled_def pending_def dest: in_set_butlastD)
      ultimately have "settled (loads s) (butlast Q)" by (simp add: settled_def)
      then show ?thesis using 1(1) [OF False refl wx [symmetric] refl True] 1(5-7) False wx True
        by (simp add: finish_relations.simps [of Q])
    next
      case w: False
      have st: "settled (loads s) (butlast Q @ [(w, x)])" using 1(8) by (simp only: Q [symmetric])
      then have "loading (loads s) w" using w by (auto simp: settled_def pending_def global_def)
      then obtain i p r where l: "fmlookup (loads s) w = Some (LoadingLoad i p r)" "info (loads s) w = Some i"
        using loading_info by blast
      obtain s' new k l' where f: "finish_owner w x i p r s = Some (s', new)" "settled (loads s') (butlast Q @ new)"
          "loads s' = fmupd w l' (loads s)" "load_info_of l' = Some k" "same_info k i"
        using finish_owner_ok [OF 1(5,6) st _ l(1)] w by (auto simp: global_def)
      have "\<exists>s''. finish_relations (butlast Q @ new) s' = Some s'' \<and> graph_ok (loads s'')"
        using 1(3) [OF False refl wx [symmetric] refl w l(1) refl f(1) refl] graph_step [OF l(2) f(4,5) 1(5-7)] f(2,3) by simp
      then show ?thesis using False wx w l(1) f(1) by (simp add: finish_relations.simps [of Q])
    qed
  qed
qed


lemma load_done_ok:
  fixes s :: "'d loader"
  assumes g: "graph_ok (loads s)"
  shows "\<exists>s'. load_done file s = Some s' \<and> graph_ok (loads s')"
proof -
  let ?L = "loads s"
  have g': "edges ?L []" "named ?L" "owned ?L" "settled ?L []" using g by (simp_all add: graph_ok_def)
  consider "load_done file s = Some s" | i p r where "fmlookup ?L file = Some (LoadingLoad i p r)"
  proof (cases "fmlookup ?L file")
    case (Some l)
    then show ?thesis using that by (cases l) (simp_all add: load_done_def)
  qed (simp add: load_done_def that)
  then show ?thesis
  proof cases
    case (2 i p r)
    let ?r = "r AND 0x7fffffff" and ?M = "fmupd file (LoadingLoad i p (r AND 0x7fffffff)) ?L"
    note c = count_of_read [of r] and at = settledD [OF g'(4) 2]
    have M: "edges ?M []" "named ?M" "owned ?M"
      using graph_step [of ?L "file" i "LoadingLoad i p ?r" i] 2 g' by (simp_all add: load_info_of_def)
    have parts: "done_part i ?r = done_part i r" "waiting_part i ?r = waiting_part i r"
      using c by (simp_all add: done_part_def waiting_part_def)
    have ld: "loaded ?M = loaded ?L" using loading_again [OF 2] by (simp add: fun_eq_iff)
    have others: "settled_at ?M [] v l" if "v \<noteq> file" "fmlookup ?M v = Some l" for v l
      using settled_at_cong [OF settledD [OF g'(4)] ld] that by simp
    show ?thesis
    proof (cases "?r = 0")
      case False
      then have "0 < count_of ?r" using count_of_zero [of ?r] c by auto
      then have "settled_at ?M [] file (LoadingLoad i p ?r)" using at parts c ld by (auto simp: settled_at_def)
      then have "settled ?M []" using others by (auto simp: settled_def pending_def)
      then show ?thesis using 2 False M by (simp add: load_done_def Let_def graph_ok_def)
    next
      case True
      then have "count_of r = 0" using c by (metis count_of_zero)
      then have a: "loaded ?M x" if "x \<in> set (attachments i)" for x
      proof -
        have "loaded ?L x" using that at \<open>count_of r = 0\<close> by (simp add: settled_at_def done_part_def)
        then show ?thesis by (simp only: ld)
      qed
      obtain s1 where s1: "make_loaded file i (put_load file (LoadingLoad i p ?r) s) = Some s1" "loads s1 = fmupd file (LoadedLoad i) ?M"
        using make_loaded_ok [of "file" i "put_load file (LoadingLoad i p ?r) s"] by auto
      have "settled (loads s1) ([] @ map (\<lambda>v. (v, file)) (owners i))"
        unfolding s1(2) by (rule settled_make [OF M(1,2) others _ _ _ a]) simp_all
      moreover have "edges (loads s1) []" "named (loads s1)" "owned (loads s1)"
        unfolding s1(2) using graph_step [of ?M "file" i "LoadedLoad i" i] M by (simp_all add: load_info_of_def info_upd)
      ultimately obtain s2 where "finish_relations (map (\<lambda>v. (v, file)) (owners i)) s1 = Some s2" "graph_ok (loads s2)"
        using finish_relations_ok by fastforce
      moreover have "p = - 1" using at by (simp add: settled_at_def)
      ultimately show ?thesis using 2 True s1(1) by (simp add: load_done_def finish_loading_def)
    qed
  qed (use g in auto)
qed

section \<open>A file is unloaded\<close>

text \<open>The entry of a file and of its radical are dropped.\<close>

definition drop_entry :: "asset \<Rightarrow> load_info \<Rightarrow> loads_map \<Rightarrow> loads_map" where
  "drop_entry f i L = fmdrop f (if l_radical i \<noteq> f then fmdrop (l_radical i) L else L)"

lemma loads_drop_entry [simp]: "loads (drop_file u f i s) = drop_entry f i (loads s)"
  by (simp add: loads_drop_file drop_entry_def)

lemma drop_entry_lookup: "fmlookup (drop_entry f i L) a = (if a = f \<or> a = l_radical i then None else fmlookup L a)"
  by (simp add: drop_entry_def)

lemma radical_info: "named L \<Longrightarrow> info L f = Some i \<Longrightarrow> l_radical i \<noteq> f \<Longrightarrow> info L (l_radical i) = None"
  by (drule (2) namedD(3)) simp

lemma drop_entry_info: "named L \<Longrightarrow> info L f = Some i \<Longrightarrow> info (drop_entry f i L) a = (if a = f then None else info L a)"
  using radical_info [of L f i] by (auto simp: info_def drop_entry_lookup)

lemma drop_entry_named:
  assumes n: "named L" and i: "info L f = Some i"
  shows "named (drop_entry f i L)"
  unfolding named_def
proof (intro conjI allI impI)
  show "fmlookup (drop_entry f i L) 0 = None" using namedD(1) [OF n] by (simp add: drop_entry_lookup)
next
  fix n g assume "fmlookup (drop_entry f i L) n = Some (RadicalLoad g)"
  then have r: "n \<noteq> f" "n \<noteq> l_radical i" "fmlookup L n = Some (RadicalLoad g)" by (auto simp: drop_entry_lookup split: if_splits)
  then obtain k where "n \<noteq> g" "info L g = Some k" "l_radical k = n" using namedD(2) [OF n] by blast
  then show "n \<noteq> g" "\<exists>i'. info (drop_entry f i L) g = Some i' \<and> l_radical i' = n"
    using r i by (auto simp: drop_entry_info [OF n i])
next
  fix g k assume k: "info (drop_entry f i L) g = Some k" "l_radical k \<noteq> g"
  then have g: "g \<noteq> f" "info L g = Some k" by (auto simp: drop_entry_info [OF n i] split: if_splits)
  then have r: "fmlookup L (l_radical k) = Some (RadicalLoad g)" using namedD(3) [OF n] k(2) by simp
  then have "l_radical k \<noteq> f" using i by auto
  moreover have "l_radical k \<noteq> l_radical i"
  proof
    assume e: "l_radical k = l_radical i"
    then have "l_radical i \<noteq> f" using \<open>l_radical k \<noteq> f\<close> by simp
    then have "fmlookup L (l_radical i) = Some (RadicalLoad f)" by (rule namedD(3) [OF n i])
    then show False using r e g(1) by simp
  qed
  ultimately show "fmlookup (drop_entry f i L) (l_radical k) = Some (RadicalLoad g)" using r by (simp add: drop_entry_lookup)
qed

lemma drop_entry_loaded: "named L \<Longrightarrow> info L f = Some i \<Longrightarrow> loaded (drop_entry f i L) a = (a \<noteq> f \<and> loaded L a)"
  using namedD(3) [of L f i] by (cases "a = l_radical i") (auto simp: loaded_def drop_entry_lookup)

text \<open>A file that nobody refers to.\<close>

lemma drop_entry_ok:
  assumes n: "named L" and i: "info L f = Some i" and s: "settled L []" and o: "\<And>g k. g \<noteq> f \<Longrightarrow> info L g = Some k \<Longrightarrow> owners k \<noteq> []"
    and u: "\<And>w. w \<noteq> 0 \<Longrightarrow> count (attachments_of L w) f = 0 \<and> count (mset R) (w, f) = 0"
    and e: "\<And>x w. x \<noteq> f \<Longrightarrow> w \<noteq> 0 \<Longrightarrow> count (owners_of L x) w = count (attachments_of L w) x + count (mset R) (w, x)"
  shows "edges (drop_entry f i L) (R @ map (Pair f) (attachments i)) \<and> named (drop_entry f i L) \<and>
    owned (drop_entry f i L) \<and> settled (drop_entry f i L) []"
proof (intro conjI)
  let ?M = "drop_entry f i L"
  note inf = drop_entry_info [OF n i]
  have om: "owners_of ?M x = (if x = f then {#} else owners_of L x)" "attachments_of ?M x = (if x = f then {#} else attachments_of L x)" for x
    by (simp_all add: owners_of_def attachments_of_def inf)
  have new: "count (image_mset (Pair f) M) (w, x) = (if w = f then count M x else 0)" for M w x
    by (induction M) auto
  have z: "f \<noteq> 0" using namedD(1) [OF n] i by (auto simp: info_def)
  have ai: "attachments_of L f = mset (attachments i)" by (simp add: attachments_of_def i)
  show "edges ?M (R @ map (Pair f) (attachments i))"
    unfolding edges_def
  proof (intro allI impI)
    fix x w :: asset assume w: "w \<noteq> 0"
    show "count (owners_of ?M x) w = count (attachments_of ?M w) x + count (mset (R @ map (Pair f) (attachments i))) (w, x)"
      using u [OF w] u [OF z] e [of x w] w by (auto simp: om new ai)
  qed
  show "named ?M" by (rule drop_entry_named [OF n i])
  show "owned ?M" using o by (auto simp: owned_def inf split: if_splits)
  have "settled_at ?M [] w l" if "fmlookup ?M w = Some l" for w l
  proof -
    have l: "w \<noteq> f" "fmlookup L w = Some l" using that by (auto simp: drop_entry_lookup split: if_splits)
    then have "w \<noteq> 0" using namedD(1) [OF n] by auto
    have "a \<noteq> f" if "load_info_of l = Some k" "a \<in> set (attachments k)" for a k
      using u [OF \<open>w \<noteq> 0\<close>] that l(2) by (auto simp: attachments_of_def info_def count_eq_zero_iff)
    then show ?thesis using settledD [OF s l(2)]
      by (cases l) (auto simp: settled_at_def drop_entry_loaded [OF n i] load_info_of_def done_part_def dest: in_set_takeD)
  qed
  then show "settled ?M []" by (simp add: settled_def pending_def)
qed


definition removal_ok :: "loads_map \<Rightarrow> (asset \<times> asset) list \<Rightarrow> bool" where
  "removal_ok L R \<longleftrightarrow> edges L R \<and> named L \<and> owned L \<and> settled L [] \<and> (\<forall>(w, x) \<in> set R. w \<noteq> 0)"

lemma removal_okD:
  "removal_ok L R \<Longrightarrow> edges L R" "removal_ok L R \<Longrightarrow> named L" "removal_ok L R \<Longrightarrow> owned L" "removal_ok L R \<Longrightarrow> settled L []"
  "removal_ok L R \<Longrightarrow> (w, x) \<in> set R \<Longrightarrow> w \<noteq> 0"
  by (auto simp: removal_ok_def)

lemma load_info_with_info [simp]: "load_info_of l = Some i \<Longrightarrow> load_info_of (with_info j l) = Some j"
  by (cases l) (simp_all add: load_info_of_def with_info_def)

text \<open>Changing the owners alone.\<close>

lemma with_owners:
  fixes vs :: "asset list"
  assumes l: "fmlookup L x = Some l" "load_info_of l = Some i"
  defines "M \<equiv> fmupd x (with_info (i\<lparr>owners := vs\<rparr>) l) L"
  shows "attachments_of M = attachments_of L" "owners_of M = (owners_of L)(x := mset vs)"
    "named L \<Longrightarrow> named M" "owned L \<Longrightarrow> vs \<noteq> [] \<Longrightarrow> owned M" "settled L [] \<Longrightarrow> settled M []"
proof -
  have i: "info L x = Some i" using l by (simp add: info_def)
  show "attachments_of M = attachments_of L" "owners_of M = (owners_of L)(x := mset vs)"
    using l i by (auto simp: M_def fun_eq_iff attachments_of_def owners_of_def info_upd)
  show "named M" if "named L" unfolding M_def by (rule named_upd [OF i load_info_with_info [OF l(2)] _ that]) simp
  show "owned M" if "owned L" "vs \<noteq> []" using that l by (auto simp: M_def owned_def info_upd)
  have ld: "loaded M = loaded L" using l by (cases l) (auto simp: M_def fun_eq_iff loaded_upd loaded_def with_info_def)
  show "settled M []" if s: "settled L []"
  proof -
    have "settled_at M [] v k" if "fmlookup M v = Some k" for v k
    proof (cases "v = x")
      case True
      then have k: "k = with_info (i\<lparr>owners := vs\<rparr>) l" using that by (simp add: M_def)
      have "settled_at L [] x l" by (rule settledD [OF s l(1)])
      then show ?thesis using l(2) True
        by (cases l) (auto simp: k settled_at_def ld with_info_def load_info_of_def done_part_def waiting_part_def)
    next
      case False
      then show ?thesis using settled_at_cong [OF settledD [OF s] ld] that by (simp add: M_def)
    qed
    then show ?thesis by (simp add: settled_def pending_def)
  qed
qed

text \<open>An owner leaves a file, which has it as an owner, and the file is unloaded if it was the last.\<close>

lemma owner_leaves:
  assumes e: "\<forall>y v. v \<noteq> 0 \<longrightarrow>
      count (owners_of L y) v = count (attachments_of L v) y + count (mset R) (v, y) + (if v = w \<and> y = x then 1 else 0)"
    and g: "named L" "owned L" "settled L []" and l: "fmlookup L x = Some l" "load_info_of l = Some i"
    and vs: "mset vs = mset (owners i) - {#w#}" "w \<in> set (owners i)"
  shows "vs \<noteq> [] \<Longrightarrow> edges (fmupd x (with_info (i\<lparr>owners := vs\<rparr>) l) L) R"
    "vs = [] \<Longrightarrow> edges (drop_entry x i L) (R @ map (Pair x) (attachments i)) \<and> named (drop_entry x i L) \<and>
      owned (drop_entry x i L) \<and> settled (drop_entry x i L) []"
proof -
  have i: "info L x = Some i" using l by (simp add: info_def)
  have o: "owners_of L x = add_mset w (mset vs)" using vs by (simp add: owners_of_def i)
  show "edges (fmupd x (with_info (i\<lparr>owners := vs\<rparr>) l) L) R"
    unfolding edges_def with_owners(1,2) [OF l, of vs]
  proof (intro allI impI)
    fix y v :: asset assume "v \<noteq> 0"
    from e [rule_format, OF this, of y] o show "count (((owners_of L)(x := mset vs)) y) v = count (attachments_of L v) y + count (mset R) (v, y)"
      by (auto split: if_splits)
  qed
  assume "vs = []"
  then have "count (attachments_of L v) x = 0 \<and> count (mset R) (v, x) = 0" if "v \<noteq> 0" for v
    using e [rule_format, OF that, of x] o by (auto split: if_splits)
  moreover have "count (owners_of L y) v = count (attachments_of L v) y + count (mset R) (v, y)" if "y \<noteq> x" "v \<noteq> 0" for y v
    using e [rule_format, OF that(2), of y] that(1) by simp
  ultimately show "edges (drop_entry x i L) (R @ map (Pair x) (attachments i)) \<and> named (drop_entry x i L) \<and>
      owned (drop_entry x i L) \<and> settled (drop_entry x i L) []"
    using g(2) by (intro drop_entry_ok [OF g(1) i g(3)]) (auto simp: owned_def)
qed

lemma drop_entry_radical: "l_radical i = l_radical j \<Longrightarrow> drop_entry x i L = drop_entry x j L"
  by (simp add: drop_entry_def)

lemma mset_eq_Nil: "mset (erase_at n xs) = M \<Longrightarrow> erase_at n xs = [] \<longleftrightarrow> M = {#}"
  by auto

lemma remove_attachment_ok:
  fixes s :: "'d loader"
  assumes r: "removal_ok (loads s) (R @ [(w, x)])"
  shows "\<exists>l s' new. fmlookup (loads s) x = Some l \<and> remove_attachment w x l s = Some (s', new) \<and> removal_ok (loads s') (R @ new)"
proof -
  let ?L = "loads s"
  note r' = removal_okD [OF r]
  have w: "w \<noteq> 0" using r'(5) [of w x] by simp
  have "0 < count (owners_of ?L x) w" using edgesD [OF r'(1) w, of x] by simp
  then obtain i where i: "info ?L x = Some i" "w \<in> set (owners i)" using owner_info by metis
  then obtain l where l: "fmlookup ?L x = Some l" "load_info_of l = Some i" by (auto simp: info_def bind_eq_Some_conv)
  obtain n where n: "position (\<lambda>a. a = w) (owners i) = Some n" "n < length (owners i)" "owners i ! n = w"
    using position_member [OF i(2)] by auto
  let ?vs = "erase_at n (owners i)"
  have vs: "mset ?vs = mset (owners i) - {#w#}" using mset_erase_at [OF n(2)] n(3) by simp
  have e: "\<forall>y v. v \<noteq> 0 \<longrightarrow>
      count (owners_of ?L y) v = count (attachments_of ?L v) y + count (mset R) (v, y) + (if v = w \<and> y = x then 1 else 0)"
    using edgesD [OF r'(1)] by simp
  have z: "x \<noteq> 0" using namedD(1) [OF r'(2)] l by auto
  note leaves = owner_leaves [OF e r'(2-4) l vs i(2)]
  show ?thesis
  proof (cases "?vs = []")
    case True
    let ?s = "drop_file True x (i\<lparr>owners := ?vs\<rparr>) (post (W_unready (l_call i) x (ucast w)) s)"
    have "remove_attachment w x l s = Some (?s, map (Pair x) (attachments i))"
      using l(2) n(1) True by (simp add: remove_attachment_def Let_def)
    moreover have "loads ?s = drop_entry x i ?L" by (simp add: drop_entry_def)
    ultimately show ?thesis using l(1) leaves(2) [OF True] z r'(5) by (auto simp: removal_ok_def)
  next
    case False
    let ?s = "put_load x (with_info (i\<lparr>owners := ?vs\<rparr>) l) (post (W_unready (l_call i) x (ucast w)) s)"
    have "remove_attachment w x l s = Some (?s, [])"
      using l(2) n(1) False by (simp add: remove_attachment_def Let_def)
    then show ?thesis using l(1) leaves(1) [OF False] with_owners(3-5) [OF l, of ?vs] r' False
      by (auto simp: removal_ok_def)
  qed
qed

lemma remove_attachments_ok:
  fixes s :: "'d loader"
  shows "removal_ok (loads s) R \<Longrightarrow> \<exists>s'. remove_attachments R s = Some s' \<and> graph_ok (loads s')"
proof (induction R s rule: remove_attachments.induct)
  case (1 R s)
  show ?case
  proof (cases "R = []")
    case True
    then show ?thesis using 1(2) by (auto simp: remove_attachments.simps removal_ok_def graph_ok_def)
  next
    case False
    obtain w x where wx: "last R = (w, x)" by fastforce
    then have "R = butlast R @ [(w, x)]" using False by (metis append_butlast_last_id)
    then have "removal_ok (loads s) (butlast R @ [(w, x)])" using 1(2) by simp
    from remove_attachment_ok [OF this] obtain l s' new where a: "fmlookup (loads s) x = Some l"
      "remove_attachment w x l s = Some (s', new)" "removal_ok (loads s') (butlast R @ new)" by blast
    have "\<exists>s''. remove_attachments (butlast R @ new) s' = Some s'' \<and> graph_ok (loads s'')"
      by (rule 1(1) [OF False wx [symmetric] refl refl a(1,2) refl a(3)])
    then show ?thesis using False wx a(1,2) by (simp add: remove_attachments.simps [of R])
  qed
qed

lemma remove_file_ok:
  fixes s :: "'d loader"
  assumes g: "graph_ok (loads s)" and l: "fmlookup (loads s) f = Some l" "load_info_of l = Some i"
  shows "\<exists>s'. remove_file tag f l s = Some s' \<and> graph_ok (loads s')"
proof (cases "position (\<lambda>a. a = global) (owners i)")
  case None
  then show ?thesis using g l by (simp add: remove_file_def)
next
  case (Some n)
  let ?L = "loads s" and ?vs = "erase_at n (owners i)" and ?s = "post (W_unready (l_call i) f tag) s"
  have g': "edges ?L []" "named ?L" "owned ?L" "settled ?L []" using g by (simp_all add: graph_ok_def)
  have n: "n < length (owners i)" "owners i ! n = global" using position_Some [OF Some] by simp_all
  then have m: "mset ?vs = mset (owners i) - {#global#}" "global \<in> set (owners i)"
    using mset_erase_at [OF n(1)] nth_mem [OF n(1)] by simp_all
  have "\<forall>y v. v \<noteq> 0 \<longrightarrow>
      count (owners_of ?L y) v = count (attachments_of ?L v) y + count (mset []) (v, y) + (if v = global \<and> y = f then 1 else 0)"
    using edgesD [OF g'(1)] by (simp add: global_def)
  note leaves = owner_leaves [OF this g'(2-4) l m]
  show ?thesis
  proof (cases "?vs = []")
    case True
    have z: "f \<noteq> 0" using namedD(1) [OF g'(2)] l by auto
    let ?d = "\<lambda>u. drop_file u f (i\<lparr>owners := ?vs\<rparr>) ?s"
    have "loads (?d u) = drop_entry f i ?L" for u by (simp add: drop_entry_def)
    then have "removal_ok (loads (?d u)) (map (Pair f) (attachments i))" for u
      using leaves(2) [OF True] z by (auto simp: removal_ok_def)
    from remove_attachments_ok [OF this] show ?thesis
      using l(2) Some True by (auto simp: remove_file_def Let_def)
  next
    case False
    then show ?thesis using l(2) Some leaves(1) [OF False] with_owners(3-5) [OF l, of ?vs] g'
      by (auto simp: remove_file_def Let_def graph_ok_def)
  qed
qed

end
