(* ===== verification/File_Lifetime.thy ===== *)
theory File_Lifetime
  imports File_Graph
begin

text \<open>
  What the messages of \<^verbatim>\<open>engine/file/loader.cpp\<close> do to the graph of files: which of them keep its invariant, what
  holds of every state they reach, and where the code breaks it.
\<close>

section \<open>A file is asked for\<close>

text \<open>The owner \<open>w\<close> counts one more attachment of \<open>f\<close> than \<open>f\<close> has owners.\<close>

definition owing :: "loads_map \<Rightarrow> asset \<Rightarrow> asset \<Rightarrow> bool" where
  "owing L w f \<longleftrightarrow> (\<forall>x v. v \<noteq> 0 \<longrightarrow>
     count (owners_of L x) v + (if v = w \<and> x = f then 1 else 0) = count (attachments_of L v) x)"

definition owing_ok :: "loads_map \<Rightarrow> asset \<Rightarrow> asset \<Rightarrow> bool" where
  "owing_ok L w f \<longleftrightarrow> owing L w f \<and> named L \<and> owned L \<and> settled L []"

lemma owing_global: "graph_ok L \<Longrightarrow> owing_ok L global f"
  by (simp add: graph_ok_def owing_ok_def owing_def edges_def global_def)

lemma owing_okD:
  "owing_ok L w f \<Longrightarrow> v \<noteq> 0 \<Longrightarrow> count (owners_of L x) v + (if v = w \<and> x = f then 1 else 0) = count (attachments_of L v) x"
  "owing_ok L w f \<Longrightarrow> named L" "owing_ok L w f \<Longrightarrow> owned L" "owing_ok L w f \<Longrightarrow> settled L []"
  by (simp_all add: owing_ok_def owing_def)

lemma load_old_ok:
  fixes s :: "'d loader"
  assumes o: "owing_ok (loads s) w f" and l: "fmlookup (loads s) f = Some l" "load_info_of l = Some i" and t: "l_filetype i = filetype"
  shows "\<exists>s'. load_old tag w f l name filetype data s = Some (True, s') \<and> graph_ok (loads s')"
proof -
  note o' = owing_okD [OF o] and u = with_owners [OF l, of "owners i @ [w]"]
  have i: "info (loads s) f = Some i" using l by (simp add: info_def)
  have "edges (fmupd f (with_info (i\<lparr>owners := owners i @ [w]\<rparr>) l) (loads s)) []"
    unfolding edges_def u(1,2)
  proof (intro allI impI)
    fix x v :: asset assume "v \<noteq> 0"
    from o'(1) [OF this, of x] show "count (((owners_of (loads s))(f := mset (owners i @ [w]))) x) v =
        count (attachments_of (loads s) v) x + count (mset []) (v, x)"
      by (auto simp: owners_of_def i)
  qed
  then show ?thesis using l(2) t u(3-5) o'(2-4) by (simp add: load_old_def graph_ok_def)
qed

lemma load_old_mismatch:
  "load_info_of l = Some i \<Longrightarrow> l_filetype i \<noteq> filetype \<Longrightarrow> load_old tag w f l name filetype data s = Some (False, s)"
  by (simp add: load_old_def)

text \<open>A new entry without attachments, and the name it was asked for by.\<close>

lemma new_entry:
  assumes o: "owing_ok L w f" and f: "fmlookup L f = None" "f \<noteq> 0" "name \<noteq> 0"
    and n: "name \<noteq> f \<Longrightarrow> fmlookup L name = None"
    and i: "owners i = [w]" "attachments i = []" "l_radical i = name"
  shows "graph_ok (fmupd f (LoadingLoad i (- 1) 0x80000000) (if name \<noteq> f then fmupd name (RadicalLoad f) L else L))"
    (is "graph_ok ?M")
proof -
  note o' = owing_okD [OF o]
  have lk: "fmlookup ?M a = (if a = f then Some (LoadingLoad i (- 1) 0x80000000)
      else if a = name then Some (RadicalLoad f) else fmlookup L a)" for a
    by simp
  have nf: "info L f = None" "name \<noteq> f \<Longrightarrow> info L name = None" using f(1) n by simp_all
  have inf: "info ?M a = (if a = f then Some i else info L a)" for a
    using nf unfolding info_def [of ?M] lk by (auto simp: load_info_of_def info_def)
  have om: "owners_of ?M x = (if x = f then {#w#} else owners_of L x)" "attachments_of ?M x = attachments_of L x" for x
    unfolding owners_of_def attachments_of_def inf using i nf by simp_all
  have ld: "loaded ?M = loaded L" using f(1) n by (auto simp: fun_eq_iff loaded_def lk)
  have "edges ?M []"
    unfolding edges_def
  proof (intro allI impI)
    fix x v :: asset assume "v \<noteq> 0"
    from o'(1) [OF this, of x] nf(1) show "count (owners_of ?M x) v = count (attachments_of ?M v) x + count (mset []) (v, x)"
      unfolding om by (auto simp: owners_of_def)
  qed
  moreover have "named ?M"
    unfolding named_def
  proof (intro conjI allI impI)
    show "fmlookup ?M 0 = None" using namedD(1) [OF o'(2)] f by (simp add: lk)
  next
    fix a g assume "fmlookup ?M a = Some (RadicalLoad g)"
    then have "(if a = f then Some (LoadingLoad i (- 1) 0x80000000) else if a = name then Some (RadicalLoad f) else fmlookup L a)
      = Some (RadicalLoad g)" by (simp only: lk)
    then have c: "a = name \<and> name \<noteq> f \<and> g = f \<or> a \<noteq> f \<and> fmlookup L a = Some (RadicalLoad g)"
      by (simp split: if_splits)
    have "a \<noteq> g \<and> (\<exists>k. info L g = Some k \<and> l_radical k = a)" if "fmlookup L a = Some (RadicalLoad g)"
      using namedD(2) [OF o'(2) that] .
    then show "a \<noteq> g" "\<exists>k. info ?M g = Some k \<and> l_radical k = a"
      using c nf(1) i(3) unfolding inf by auto
  next
    fix g k assume k: "info ?M g = Some k" "l_radical k \<noteq> g"
    show "fmlookup ?M (l_radical k) = Some (RadicalLoad g)"
    proof (cases "g = f")
      case True
      then show ?thesis using k i(3) unfolding inf lk by auto
    next
      case False
      then have "fmlookup L (l_radical k) = Some (RadicalLoad g)" using k namedD(3) [OF o'(2)] unfolding inf by simp
      then show ?thesis using f(1) n unfolding lk by auto
    qed
  qed
  moreover have "owned ?M" using o'(3) i(1) unfolding owned_def inf by simp
  moreover have "settled_at ?M [] v l" if m: "fmlookup ?M v = Some l" for v l
  proof -
    have "(if v = f then Some (LoadingLoad i (- 1) 0x80000000) else if v = name then Some (RadicalLoad f) else fmlookup L v)
      = Some l" using m by (simp only: lk)
    then consider "l = LoadingLoad i (- 1) 0x80000000" | "l = RadicalLoad f" | "fmlookup L v = Some l"
      by (metis option.inject)
    then show ?thesis
    proof cases
      case 1
      then show ?thesis using i(2) by (simp add: settled_at_def count_of_def unread_def done_part_def waiting_part_def)
    next
      case 3
      then show ?thesis using settled_at_cong [OF settledD [OF o'(4)] ld] by simp
    qed (simp add: settled_at_def)
  qed
  ultimately show ?thesis by (simp add: graph_ok_def settled_def pending_def)
qed

lemma load_new_ok:
  fixes s :: "'d loader"
  assumes o: "owing_ok (loads s) w f" and f: "fmlookup (loads s) f = None" "f \<noteq> 0" "name \<noteq> 0"
    and n: "name \<noteq> f \<Longrightarrow> fmlookup (loads s) name = None" and t: "filetypes s filetype \<noteq> None"
  shows "\<exists>s'. load_new tag w f (UniqueFile d p rs) name filetype data s = (True, s') \<and> graph_ok (loads s')"
proof -
  obtain ft where ft: "filetypes s filetype = Some ft" using t by auto
  let ?i = "\<lparr>l_filetype = filetype, l_directory = d, l_radical = name, l_filepath = p, l_call = next_call s,
    owners = [w], attachments = [], att_cap = 0\<rparr>"
  have "graph_ok (fmupd f (LoadingLoad ?i (- 1) 0x80000000) (if name \<noteq> f then fmupd name (RadicalLoad f) (loads s) else loads s))"
    by (rule new_entry [OF o f n]) simp_all
  then show ?thesis using ft f(1) n
    by (cases "name = f") (simp_all add: load_new_def emplace_load_def put_load_def Let_def)
qed

lemma underlying_load:
  assumes n: "named (loads s)"
  shows "find_underlying_load a s = (f, Some l) \<Longrightarrow> fmlookup (loads s) f = Some l \<and> (\<exists>i. load_info_of l = Some i)"
    "find_underlying_load a s = (f, None) \<Longrightarrow> f = a \<and> fmlookup (loads s) a = None"
proof -
  show "fmlookup (loads s) f = Some l \<and> (\<exists>i. load_info_of l = Some i)" if "find_underlying_load a s = (f, Some l)"
  proof (cases "fmlookup (loads s) a")
    case (Some k)
    then show ?thesis
    proof (cases k)
      case (RadicalLoad g)
      then show ?thesis using that Some namedD(2) [OF n, of a g]
        by (auto simp: find_underlying_load_def info_def bind_eq_Some_conv)
    qed (use that Some in \<open>auto simp: find_underlying_load_def load_info_of_def\<close>)
  qed (use that in \<open>simp add: find_underlying_load_def\<close>)
  show "f = a \<and> fmlookup (loads s) a = None" if "find_underlying_load a s = (f, None)"
  proof (cases "fmlookup (loads s) a")
    case (Some k)
    then show ?thesis
    proof (cases k)
      case (RadicalLoad g)
      then show ?thesis using that Some namedD(2) [OF n, of a g] by (auto simp: find_underlying_load_def info_def)
    qed (use that Some in \<open>auto simp: find_underlying_load_def\<close>)
  qed (use that in \<open>simp add: find_underlying_load_def\<close>)
qed


section \<open>A file depends on another\<close>

lemma mset_insert:
  assumes "0 < c" "c \<le> length xs"
  shows "mset (xs[length xs - c := a] @ [xs ! (length xs - c)]) = add_mset a (mset xs)"
    "take (Suc (length xs) - c) (xs[length xs - c := a] @ [xs ! (length xs - c)]) = take (length xs - c) xs @ [a]"
    "mset (drop (Suc (length xs) - c) (xs[length xs - c := a] @ [xs ! (length xs - c)])) = mset (drop (length xs - c) xs)"
proof -
  define n where "n = length xs - c"
  have n: "n < length xs" "Suc (length xs) - c = Suc n" using assms by (simp_all add: n_def)
  obtain ys y zs where x: "xs = ys @ y # zs" "length ys = n" using n(1) by (metis id_take_nth_drop length_take min.absorb4)
  show "mset (xs[length xs - c := a] @ [xs ! (length xs - c)]) = add_mset a (mset xs)"
    "take (Suc (length xs) - c) (xs[length xs - c := a] @ [xs ! (length xs - c)]) = take (length xs - c) xs @ [a]"
    "mset (drop (Suc (length xs) - c) (xs[length xs - c := a] @ [xs ! (length xs - c)])) = mset (drop (length xs - c) xs)"
    unfolding n(2) n_def [symmetric] using x by (simp_all add: list_update_append nth_append)
qed

text \<open>What the owner's entry becomes.\<close>

lemma attach:
  assumes g: "graph_ok L" and l: "fmlookup L w = Some (LoadingLoad i p r)"
    and j: "owners j = owners i" "l_radical j = l_radical i" "mset (attachments j) = add_mset f (mset (attachments i))"
    and parts: "loaded L f \<and> r' = r \<and> done_part j r = done_part i r @ [f] \<and> mset (waiting_part j r) = mset (waiting_part i r) \<or>
      \<not> loaded L f \<and> count_of r' = Suc (count_of r) \<and> unread r' = unread r \<and> done_part j r' = done_part i r \<and>
        mset (waiting_part j r') = add_mset f (mset (waiting_part i r))"
  shows "owing_ok (fmupd w (LoadingLoad j p r') L) w f"
proof -
  let ?M = "fmupd w (LoadingLoad j p r') L"
  have g': "edges L []" "named L" "owned L" "settled L []" using g by (simp_all add: graph_ok_def)
  have i: "info L w = Some i" using l by simp
  have om: "owners_of ?M = owners_of L" "attachments_of ?M = (attachments_of L)(w := add_mset f (attachments_of L w))"
    using i j by (auto simp: fun_eq_iff owners_of_def attachments_of_def info_upd load_info_of_def)
  have "owing ?M w f"
    unfolding owing_def om
  proof (intro allI impI)
    fix x v :: asset assume "v \<noteq> 0"
    from edgesD [OF g'(1) this, of x] show "count (owners_of L x) v + (if v = w \<and> x = f then 1 else 0) =
        count (((attachments_of L)(w := add_mset f (attachments_of L w))) v) x" by simp
  qed
  moreover have "named ?M" by (rule named_upd [OF i _ _ g'(2), of _ j]) (simp_all add: load_info_of_def j)
  moreover have "owned ?M" using g'(3) i j by (simp add: owned_def info_upd load_info_of_def)
  moreover have ld: "loaded ?M = loaded L" using loading_again [OF l] by (simp add: fun_eq_iff)
  have "settled_at ?M [] v k" if "fmlookup ?M v = Some k" for v k
  proof (cases "v = w")
    case True
    have at: "settled_at L [] w (LoadingLoad i p r)" by (rule settledD [OF g'(4) l])
    have "length (attachments j) = Suc (length (attachments i))" using arg_cong [OF j(3), of size] by simp
    moreover have "set (waiting_part j r') = (if loaded L f then set (waiting_part i r) else insert f (set (waiting_part i r)))"
      using parts by (metis mset_eq_setD set_mset_add_mset_insert set_mset_mset)
    ultimately show ?thesis using parts at that True ld by (auto simp: settled_at_def)
  next
    case False
    then show ?thesis using settled_at_cong [OF settledD [OF g'(4)] ld] that by simp
  qed
  ultimately show ?thesis by (simp add: owing_ok_def settled_def pending_def)
qed

lemma add_unloaded_ok:
  fixes s :: "'d loader"
  assumes g: "graph_ok (loads s)" and l: "fmlookup (loads s) w = Some (LoadingLoad i p r)" "count_of r < 2147483647" and f: "\<not> loaded (loads s) f"
  shows "owing_ok (fmupd w (LoadingLoad (push_attachment cfg f i) p (r + 1)) (loads s)) w f"
proof -
  have c: "count_of (r + 1) = count_of r + 1" "unread (r + 1) = unread r" "count_of r \<le> length (attachments i)"
    using l(2) count_of_succ [of r] settledD [OF _ l(1), of "[]"] g by (simp_all add: graph_ok_def settled_at_def)
  then show ?thesis
    using f by (intro attach [OF g l(1)]) (simp_all add: push_attachment_def done_part_def waiting_part_def)
qed

text \<open>The vector that a loaded dependency is inserted into, in front of those that are waited for; it is full when the iterator
  would dangle.\<close>

definition full :: "load_info \<Rightarrow> u32 \<Rightarrow> bool" where
  "full i r \<longleftrightarrow> count_of r \<noteq> 0 \<and> att_cap i \<le> length (attachments i)"

lemma add_loaded_ok:
  fixes s :: "'d loader"
  assumes g: "graph_ok (loads s)" and l: "fmlookup (loads s) w = Some (LoadingLoad i p r)" and f: "loaded (loads s) f"
  shows "full i r \<Longrightarrow> insert_attachment cfg (count_of r) f i = None"
    "\<not> full i r \<Longrightarrow> \<exists>j. insert_attachment cfg (count_of r) f i = Some j \<and> owing_ok (fmupd w (LoadingLoad j p r) (loads s)) w f"
proof -
  have c: "count_of r \<le> length (attachments i)" using settledD [OF _ l(1), of "[]"] g by (simp add: graph_ok_def settled_at_def)
  then show "insert_attachment cfg (count_of r) f i = None" if "full i r"
    using that by (simp add: insert_attachment_def Let_def full_def)
  assume l2: "\<not> full i r"
  obtain j where j: "insert_attachment cfg (count_of r) f i = Some j" "owners j = owners i" "l_radical j = l_radical i"
    "mset (attachments j) = add_mset f (mset (attachments i))"
    "done_part j r = done_part i r @ [f]" "mset (waiting_part j r) = mset (waiting_part i r)"
  proof (cases "count_of r = 0")
    case True
    then show ?thesis using that [of "push_attachment cfg f i"] c
      by (simp add: insert_attachment_def push_attachment_def done_part_def waiting_part_def)
  next
    case False
    let ?n = "length (attachments i) - count_of r"
    show ?thesis
      using that [of "i\<lparr>attachments := (attachments i)[?n := f] @ [attachments i ! ?n]\<rparr>"] False l2 c
        mset_insert [of "count_of r" "attachments i" f]
      by (simp add: insert_attachment_def Let_def full_def done_part_def waiting_part_def)
  qed
  have "owing_ok (fmupd w (LoadingLoad j p r) (loads s)) w f"
    using f j by (intro attach [OF g l(1)]) simp_all
  then show "\<exists>j. insert_attachment cfg (count_of r) f i = Some j \<and> owing_ok (fmupd w (LoadingLoad j p r) (loads s)) w f"
    using j(1) by blast
qed

section \<open>How the invariant is lost\<close>

lemma broken_zero: "fmlookup L 0 = Some l \<Longrightarrow> \<not> graph_ok L"
  by (auto simp: graph_ok_def named_def)

lemma broken_radical: "fmlookup L n = Some (RadicalLoad f) \<Longrightarrow> info L f = None \<Longrightarrow> \<not> graph_ok L"
  using namedD(2) [of L n f] by (auto simp: graph_ok_def)

lemma broken_owing: "owing_ok L w f \<Longrightarrow> fmlookup L w = Some l \<Longrightarrow> \<not> graph_ok L"
proof
  assume h: "owing_ok L w f" "fmlookup L w = Some l" "graph_ok L"
  then have "w \<noteq> 0" using broken_zero by blast
  then show False using owing_okD(1) [OF h(1), of w f] edgesD [of L "[]" w f] h(3) by (simp add: graph_ok_def)
qed

lemma broken_edge:
  assumes "fmlookup L w = Some (LoadingLoad k p r)" "y \<in> set (attachments k)" "info L y = None"
  shows "\<not> graph_ok L"
proof
  assume g: "graph_ok L"
  then have "w \<noteq> 0" using assms(1) broken_zero by blast
  then show False using edgesD [of L "[]" w y] g assms
    by (simp add: graph_ok_def owners_of_def attachments_of_def)
qed

lemma broken_done:
  assumes "fmlookup L w = Some (LoadingLoad k p r)" "count_of r = 0" "y \<in> set (attachments k)" "\<not> loaded L y"
  shows "\<not> graph_ok L"
  using settledD [of L "[]", OF _ assms(1)] assms(2-4) by (auto simp: graph_ok_def settled_at_def done_part_def)

lemma broken_waiting:
  assumes "fmlookup L w = Some (LoadingLoad k p r)" "y \<in> set (waiting_part k r)" "loaded L y"
  shows "\<not> graph_ok L"
  using settledD [of L "[]", OF _ assms(1)] assms(2,3) by (auto simp: graph_ok_def settled_at_def)

lemma count_of_overflow: "\<not> count_of r < 2147483647 \<Longrightarrow> count_of (r + 1) = 0"
proof -
  assume "\<not> count_of r < 2147483647"
  then have r: "unat r = 2147483647 \<or> unat r = 4294967295" using unat_u32 [of r] by (auto simp: count_of_if split: if_splits)
  have "unat (r + 1) = (unat r + 1) mod 2 ^ 32" by (simp add: unat_word_ariths)
  then show ?thesis using r by (auto simp: count_of_if)
qed

text \<open>What \<^verbatim>\<open>load_old\<close> leaves of the entries, whether it adds the owner or not.\<close>

lemma load_old_keeps:
  assumes o: "load_old tag w f l name filetype data s = Some (b, s')" and l: "fmlookup (loads s) f = Some l"
  shows "fmlookup (loads s) v = Some (LoadingLoad k p r) \<Longrightarrow>
      \<exists>k'. fmlookup (loads s') v = Some (LoadingLoad k' p r) \<and> attachments k' = attachments k"
    "loaded (loads s') a = loaded (loads s) a" "info (loads s') a = None \<longleftrightarrow> info (loads s) a = None"
proof -
  obtain i where i: "load_info_of l = Some i" using o by (auto simp: load_old_def bind_eq_Some_conv)
  have s': "loads s' = loads s \<or> loads s' = fmupd f (with_info (i\<lparr>owners := owners i @ [w]\<rparr>) l) (loads s)"
    using o i by (auto simp: load_old_def split: if_splits)
  show "\<exists>k'. fmlookup (loads s') v = Some (LoadingLoad k' p r) \<and> attachments k' = attachments k"
    if "fmlookup (loads s) v = Some (LoadingLoad k p r)"
    using that s' l i by (cases "v = f") (auto simp: with_info_def load_info_of_def)
  show "loaded (loads s') a = loaded (loads s) a"
    using s' l by (cases "a = f"; cases l) (auto simp: loaded_def with_info_def)
  show "info (loads s') a = None \<longleftrightarrow> info (loads s) a = None"
    using s' l i by (cases "a = f") (auto simp: info_upd info_def)
qed

section \<open>The messages keep the invariant\<close>


text \<open>A new entry that cannot be made, or is made under the number of the users.\<close>

lemma load_new_loads:
  fixes s :: "'d loader"
  assumes f: "fmlookup (loads s) f = None" and n: "name \<noteq> f \<Longrightarrow> fmlookup (loads s) name = None"
  defines "M \<equiv> if name \<noteq> f then fmupd name (RadicalLoad f) (loads s) else loads s"
  shows "\<exists>i. loads (snd (load_new tag w f (UniqueFile d p rs) name filetype data s)) =
    (if filetypes s filetype = None then M else fmupd f (LoadingLoad i (- 1) 0x80000000) M)"
  using f n by (cases "filetypes s filetype"; cases "name = f")
    (simp_all add: load_new_def emplace_load_def put_load_def Let_def M_def exI)

section \<open>The messages\<close>

text \<open>A result keeps the invariant exactly if it is not \<open>bad\<close>.\<close>

definition graph_kept :: "'d loader option \<Rightarrow> bool \<Rightarrow> bool" where
  "graph_kept r bad \<longleftrightarrow> (\<exists>s'. r = Some s' \<and> (graph_ok (loads s') \<longleftrightarrow> \<not> bad))"

lemma graph_keptI: "r = Some s' \<Longrightarrow> graph_ok (loads s') \<Longrightarrow> \<not> bad \<Longrightarrow> graph_kept r bad" "r = Some s' \<Longrightarrow> \<not> graph_ok (loads s') \<Longrightarrow> bad \<Longrightarrow> graph_kept r bad"
  by (simp_all add: graph_kept_def)

definition is_filetype :: "asset \<Rightarrow> load \<Rightarrow> bool" where
  "is_filetype filetype l = (case load_info_of l of None \<Rightarrow> False | Some i \<Rightarrow> l_filetype i = filetype)"

text \<open>A user asks for a file that is not there: an entry for its radical stands alone if the filetype is not registered.\<close>

definition bad_entry :: "asset \<Rightarrow> asset \<Rightarrow> asset \<Rightarrow> 'd loader \<Rightarrow> bool" where
  "bad_entry name f filetype s \<longleftrightarrow> (if filetypes s filetype = None then name \<noteq> f else name = 0 \<or> f = 0)"

text \<open>A file depends on one of which nothing is there under the name it is asked for by.  The entry of the file itself may be
  there, under its own name.\<close>

definition bad_dependency :: "asset \<Rightarrow> asset \<Rightarrow> asset \<Rightarrow> 'd loader \<Rightarrow> bool" where
  "bad_dependency name f filetype s \<longleftrightarrow> (case fmlookup (loads s) f of
     None \<Rightarrow> filetypes s filetype = None \<or> name = 0 \<or> f = 0
   | Some (LoadingLoad i p r) \<Rightarrow> l_filetype i \<noteq> filetype
   | Some _ \<Rightarrow> True)"

text \<open>The messages that spoil the graph: a loaded file is read again; an entry is made that stands for nothing or has the number
  of the users; a dependency that is recorded has a filetype that is not registered or is not the one the file was
  loaded with, is asked for by the radical of a file that is loaded under its own name, or is one too many for a count of 31 bits.\<close>

fun spoils :: "'d message \<Rightarrow> 'd loader \<Rightarrow> bool" where
  "spoils (MessageLoadInit a) s = loaded (loads s) a"
| "spoils (MessageLoadIndependent tag name filetype data) s =
     (case (find_underlying_load name s, find_underlying_file name (files s)) of
        ((_, None), (f, Some (UniqueFile d p rs))) \<Rightarrow>
          snd (find_underlying_load f s) = None \<and> tags s tag = None \<and> bad_entry name f filetype s
      | _ \<Rightarrow> False)"
| "spoils (MessageLoadDependency owner name filetype data) s = (case find_underlying_load owner s of
        (w, Some (LoadingLoad i p r)) \<Rightarrow> (case find_underlying_load name s of
            (f, Some l) \<Rightarrow> \<not> is_filetype filetype l \<or> \<not> loaded (loads s) f \<and> \<not> count_of r < 2147483647
          | (_, None) \<Rightarrow> (case find_underlying_file name (files s) of
                (f, Some (UniqueFile d q rs)) \<Rightarrow> bad_dependency name f filetype s \<or> \<not> count_of r < 2147483647
              | _ \<Rightarrow> False))
      | _ \<Rightarrow> False)"
| "spoils m s = False"

text \<open>The messages that have no defined outcome: the index of files comes to code that is marked as unreachable (\<open>File_Index\<close>
  says when it does not), a name stands for the radical of a radical, a loaded dependency is inserted in
  front of others into a vector that is full, or what a user unloads has become the radical of another file.\<close>

definition is_radical_file :: "file_entry option \<Rightarrow> bool" where
  "is_radical_file e = (case e of Some (RadicalFile d f) \<Rightarrow> True | _ \<Rightarrow> False)"

fun gives_up :: "names \<Rightarrow> 'd message \<Rightarrow> 'd loader \<Rightarrow> bool" where
  "gives_up N (MessageFileScan directory existing removed) s = (file_scan N directory existing removed (files s) = None)"
| "gives_up N (MessageLoadIndependent tag name filetype data) s =
     (snd (find_underlying_load name s) = None \<and> is_radical_file (snd (find_underlying_file name (files s))))"
| "gives_up N (MessageLoadDependency owner name filetype data) s = (case snd (find_underlying_load owner s) of
     None \<Rightarrow> False
   | Some k \<Rightarrow> (case snd (find_underlying_load name s) of
       None \<Rightarrow> is_radical_file (snd (find_underlying_file name (files s)))
     | Some (LoadedLoad y) \<Rightarrow> (case k of LoadingLoad i p r \<Rightarrow> full i r | _ \<Rightarrow> False)
     | Some _ \<Rightarrow> False))"
| "gives_up N (MessageUnloadIndependent tag) s = (case tags s tag of
     None \<Rightarrow> False
   | Some f \<Rightarrow> (case fmlookup (loads s) f of Some (RadicalLoad g) \<Rightarrow> True | _ \<Rightarrow> False))"
| "gives_up N m s = False"

lemma emplace_tag_loads: "emplace_tag tag f s = Some s' \<Longrightarrow> loads s' = loads s \<and> files s' = files s \<and> filetypes s' = filetypes s"
  by (auto simp: emplace_tag_def split: if_splits)

subsection \<open>A user asks for a file\<close>

lemma load_old_global:
  fixes s :: "'d loader"
  assumes g: "graph_ok (loads s)" and l: "fmlookup (loads s) f = Some l" "load_info_of l = Some i"
  shows "graph_kept (map_option snd (load_old tag global f l name filetype data s)) False"
proof (cases "l_filetype i = filetype")
  case True
  then show ?thesis using load_old_ok [OF owing_global [OF g] l, of filetype tag name data] by (auto simp: graph_kept_def)
next
  case False
  then show ?thesis using load_old_mismatch [OF l(2), of filetype tag global f name data s] g by (simp add: graph_kept_def)
qed

lemma load_new_global:
  fixes s :: "'d loader"
  assumes g: "graph_ok (loads s)" and f: "fmlookup (loads s) f = None" "fmlookup (loads s) name = None"
  shows "graph_kept (Some (snd (load_new tag global f (UniqueFile d p rs) name filetype data s))) (bad_entry name f filetype s)"
proof -
  let ?s = "snd (load_new tag global f (UniqueFile d p rs) name filetype data s)"
  let ?M = "if name \<noteq> f then fmupd name (RadicalLoad f) (loads s) else loads s"
  obtain i where l: "loads ?s = (if filetypes s filetype = None then ?M else fmupd f (LoadingLoad i (- 1) 0x80000000) ?M)"
    using load_new_loads [OF f(1), of name tag global d p rs filetype data] f(2) by blast
  consider "filetypes s filetype = None" "name \<noteq> f" | "filetypes s filetype = None" "name = f"
    | "filetypes s filetype \<noteq> None" "name = 0 \<or> f = 0" | "filetypes s filetype \<noteq> None" "name \<noteq> 0" "f \<noteq> 0" by blast
  then show ?thesis
  proof cases
    case 1
    have "\<not> graph_ok (loads ?s)" using 1 f by (intro broken_radical [of _ name f]) (simp_all add: l)
    then show ?thesis using 1 by (simp add: graph_kept_def bad_entry_def)
  next
    case 2
    then show ?thesis using g l by (simp add: graph_kept_def bad_entry_def)
  next
    case 3
    then have "\<exists>e. fmlookup (loads ?s) 0 = Some e" by (auto simp: l)
    then show ?thesis using 3 broken_zero by (auto simp: graph_kept_def bad_entry_def)
  next
    case 4
    then show ?thesis using load_new_ok [OF owing_global [OF g] f(1) 4(3,2) f(2) 4(1), of tag d p rs data]
      by (auto simp: graph_kept_def bad_entry_def)
  qed
qed

lemma load_independent_ok:
  fixes s :: "'d loader"
  assumes g: "graph_ok (loads s)"
    and m_def: "m = MessageLoadIndependent tag name filetype data"
  shows "gives_up N m s \<Longrightarrow> load_independent tag name filetype data s = None"
    "\<not> gives_up N m s \<Longrightarrow> graph_kept (load_independent tag name filetype data s) (spoils m s)"
proof -
  have nm: "named (loads s)" using g by (simp add: graph_ok_def)
  have old: "graph_kept (case emplace_tag tag f s of None \<Rightarrow> Some s
      | Some s \<Rightarrow> map_option snd (load_old tag global f l name filetype data s)) False"
    if u: "find_underlying_load a s = (f, Some l)" for a f l
  proof (cases "emplace_tag tag f s")
    case (Some s')
    obtain i where "fmlookup (loads s) f = Some l" "load_info_of l = Some i" using underlying_load(1) [OF nm u] by auto
    then show ?thesis using load_old_global [of s' f l i tag name filetype data] emplace_tag_loads [OF Some] g Some by auto
  qed (simp add: graph_kept_def g)
  obtain f l f' e where u: "find_underlying_load name s = (f, l)" "find_underlying_file name (files s) = (f', e)" by fastforce
  show "load_independent tag name filetype data s = None" if "gives_up N m s"
    using that u by (auto simp: m_def load_independent_def is_radical_file_def split: option.splits file_entry.splits)
  assume ng: "\<not> gives_up N m s"
  show "graph_kept (load_independent tag name filetype data s) (spoils m s)"
  proof (cases l)
    case (Some l')
    then show ?thesis using old [of name f l'] u by (simp add: load_independent_def m_def)
  next
    case None
    then have nn: "fmlookup (loads s) name = None" using underlying_load(2) [OF nm, of name f] u by simp
    show ?thesis
    proof (cases "\<exists>d p rs. e = Some (UniqueFile d p rs)")
      case False
      then show ?thesis using u None g ng
        by (cases e rule: option.exhaust; cases "the e") (auto simp: load_independent_def m_def is_radical_file_def graph_kept_def)
    next
      case True
      then obtain d p rs where e: "e = Some (UniqueFile d p rs)" by auto
      obtain h k where hk: "find_underlying_load f' s = (h, k)" by fastforce
      show ?thesis
      proof (cases k)
        case (Some k')
        then show ?thesis using old [of f' h k'] u None e hk by (simp add: load_independent_def m_def)
      next
        case k: None
        then have nf: "fmlookup (loads s) f' = None" using underlying_load(2) [OF nm, of f' h] hk by simp
        show ?thesis
        proof (cases "tags s tag")
          case Some
          then have "emplace_tag tag f' s = None" by (simp add: emplace_tag_def)
          then show ?thesis using Some u None e hk k g by (simp add: load_independent_def m_def graph_kept_def)
        next
          case t: None
          then obtain s' where s': "emplace_tag tag f' s = Some s'" by (simp add: emplace_tag_def)
          note t' = emplace_tag_loads [OF s']
          have "graph_kept (Some (snd (load_new tag global f' (UniqueFile d p rs) name filetype data s'))) (bad_entry name f' filetype s)"
            using load_new_global [of s' f' name tag d p rs filetype data] g nf nn t' by (simp add: bad_entry_def)
          then show ?thesis using u None e hk k s' t by (simp add: load_independent_def m_def)
        qed
      qed
    qed
  qed
qed

subsection \<open>A file depends on another\<close>

lemma load_old_owing:
  fixes s :: "'d loader"
  assumes o: "owing_ok (loads s) w f" "fmlookup (loads s) w = Some k" and l: "fmlookup (loads s) f = Some l" "load_info_of l = Some i"
  shows "graph_kept (map_option snd (load_old (ucast w) w f l name filetype data s)) (l_filetype i \<noteq> filetype)"
proof (cases "l_filetype i = filetype")
  case True
  then show ?thesis using load_old_ok [OF o(1) l, of filetype "ucast w" name data] by (auto simp: graph_kept_def)
next
  case False
  then show ?thesis using load_old_mismatch [OF l(2), of filetype "ucast w" w f name data s] broken_owing [OF o] by (simp add: graph_kept_def)
qed

text \<open>An owner that lists a file it does not wait for, or does not wait for one it lists.\<close>

lemma load_old_broken:
  fixes s :: "'d loader"
  assumes l: "fmlookup (loads s) f = Some l" "load_info_of l = Some i"
    and w: "fmlookup (loads s) w = Some (LoadingLoad k p r)" "y \<in> set (attachments k)"
    and b: "count_of r = 0 \<and> \<not> loaded (loads s) y \<or> y \<in> set (waiting_part k r) \<and> loaded (loads s) y \<or> info (loads s) y = None"
  shows "graph_kept (map_option snd (load_old tag v f l name filetype data s)) True"
proof -
  obtain t s' where o: "load_old tag v f l name filetype data s = Some (t, s')" using l(2)
    by (cases "l_filetype i = filetype") (auto simp: load_old_def)
  obtain k' where k': "fmlookup (loads s') w = Some (LoadingLoad k' p r)" "attachments k' = attachments k"
    using load_old_keeps(1) [OF o l(1) w(1)] by blast
  have "waiting_part k' r = waiting_part k r" using k'(2) by (simp add: waiting_part_def)
  then have "\<not> graph_ok (loads s')"
    using b w(2) broken_done [OF k'(1)] broken_waiting [OF k'(1)] broken_edge [OF k'(1)] k'(2)
      load_old_keeps(2,3) [OF o l(1), of y] by metis
  then show ?thesis using o by (simp add: graph_kept_def)
qed

lemma depend_old_ok:
  fixes s :: "'d loader"
  assumes g: "graph_ok (loads s)" and w: "fmlookup (loads s) w = Some (LoadingLoad i p r)"
    and l: "fmlookup (loads s) f = Some l" "load_info_of l = Some x"
    and step: "step = do {
      (ok, s) \<leftarrow> (case l of LoadedLoad y \<Rightarrow> add_dependency_loaded cfg w f s | _ \<Rightarrow> add_dependency_unloaded cfg w f s);
      if ok then do {
        l \<leftarrow> fmlookup (loads s) f;
        map_option snd (load_old (ucast w) w f l name filetype data s) }
      else Some s }"
  shows "l = LoadedLoad x \<Longrightarrow> full i r \<Longrightarrow> step = None"
    "\<not> (l = LoadedLoad x \<and> full i r) \<Longrightarrow>
      graph_kept step (\<not> is_filetype filetype l \<or> \<not> loaded (loads s) f \<and> \<not> count_of r < 2147483647)"
proof -
  have ty: "is_filetype filetype l \<longleftrightarrow> l_filetype x = filetype" using l(2) by (simp add: is_filetype_def)
  show "step = None" if "l = LoadedLoad x" "full i r"
  proof -
    have "loaded (loads s) f" using l(1) that(1) by (simp add: loaded_def)
    then show ?thesis using add_loaded_ok(1) [OF g w] that w by (simp add: step add_dependency_loaded_def)
  qed
  assume nf: "\<not> (l = LoadedLoad x \<and> full i r)"
  show "graph_kept step (\<not> is_filetype filetype l \<or> \<not> loaded (loads s) f \<and> \<not> count_of r < 2147483647)"
  proof (cases l)
    case (LoadedLoad y)
    then have y: "y = x" "loaded (loads s) f" "f \<noteq> w" using l w by (auto simp: loaded_def load_info_of_def)
    obtain j where j: "insert_attachment cfg (count_of r) f i = Some j" "owing_ok (fmupd w (LoadingLoad j p r) (loads s)) w f"
      using add_loaded_ok(2) [OF g w y(2)] nf LoadedLoad y(1) by blast
    let ?s = "put_load w (LoadingLoad j p r) s"
    have "fmlookup (loads ?s) f = Some l" "owing_ok (loads ?s) w f" "fmlookup (loads ?s) w = Some (LoadingLoad j p r)"
      using l(1) y(3) j(2) by simp_all
    from load_old_owing [OF this(2,3,1) l(2), of name filetype data] show ?thesis
      using LoadedLoad w j(1) l(1) y ty by (simp add: step add_dependency_loaded_def)
  next
    case (LoadingLoad k q t)
    have nl: "\<not> loaded (loads s) f" using l(1) LoadingLoad by (simp add: loaded_def)
    let ?i = "push_attachment cfg f i" and ?s = "put_load w (LoadingLoad (push_attachment cfg f i) p (r + 1)) s"
    have ws: "fmlookup (loads ?s) w = Some (LoadingLoad ?i p (r + 1))" by simp
    obtain l' x' where l': "fmlookup (loads ?s) f = Some l'" "load_info_of l' = Some x'" "l_filetype x' = l_filetype x"
      using l w LoadingLoad by (cases "f = w") (auto simp: load_info_of_def push_attachment_def)
    have st: "step = map_option snd (load_old (ucast w) w f l' name filetype data ?s)"
      using LoadingLoad w l'(1) by (simp add: step add_dependency_unloaded_def)
    show ?thesis
    proof (cases "count_of r < 2147483647")
      case True
      have "owing_ok (loads ?s) w f" using add_unloaded_ok [OF g w True nl] by simp
      from load_old_owing [OF this ws l'(1,2), of name filetype data] show ?thesis using st True l'(3) ty by simp
    next
      case False
      have "graph_kept step True"
        unfolding st using count_of_overflow [OF False] nl
        by (intro load_old_broken [OF l'(1,2) ws, of f]) (auto simp: push_attachment_def loaded_def)
      then show ?thesis using False nl by simp
    qed
  qed (use l(2) in \<open>simp add: load_info_of_def\<close>)
qed

lemma load_new_dependency:
  fixes s :: "'d loader"
  assumes o: "count_of r' = 0 \<or> owing_ok (loads s) w f" and f: "fmlookup (loads s) f = None" "fmlookup (loads s) name = None"
    and w: "fmlookup (loads s) w = Some (LoadingLoad k p r')" "f \<in> set (attachments k)"
  shows "graph_kept (Some (snd (load_new (ucast w) w f (UniqueFile d q rs) name filetype data s)))
    (filetypes s filetype = None \<or> name = 0 \<or> f = 0 \<or> count_of r' = 0)"
proof -
  let ?s = "snd (load_new (ucast w) w f (UniqueFile d q rs) name filetype data s)"
  let ?M = "if name \<noteq> f then fmupd name (RadicalLoad f) (loads s) else loads s"
  obtain i where l: "loads ?s = (if filetypes s filetype = None then ?M else fmupd f (LoadingLoad i (- 1) 0x80000000) ?M)"
    using load_new_loads [OF f(1), of name "ucast w" w d q rs filetype data] f(2) by blast
  have ws: "fmlookup (loads ?s) w = Some (LoadingLoad k p r')" using w(1) f by (auto simp: l)
  consider "filetypes s filetype = None" | "filetypes s filetype \<noteq> None" "name = 0 \<or> f = 0" | "count_of r' = 0"
    | "filetypes s filetype \<noteq> None" "name \<noteq> 0" "f \<noteq> 0" "count_of r' \<noteq> 0" by blast
  then show ?thesis
  proof cases
    case 1
    then have "info (loads ?s) f = None" using f by (simp add: l info_def)
    from broken_edge [OF ws w(2) this] show ?thesis using 1 by (simp add: graph_kept_def)
  next
    case 2
    then have "\<exists>e. fmlookup (loads ?s) 0 = Some e" by (auto simp: l)
    then show ?thesis using 2 broken_zero by (auto simp: graph_kept_def)
  next
    case 3
    have "\<not> loaded (loads ?s) f" using f by (auto simp: l loaded_def)
    from broken_done [OF ws 3 w(2) this] show ?thesis using 3 by (simp add: graph_kept_def)
  next
    case 4
    then have "owing_ok (loads s) w f" using o by simp
    from load_new_ok [OF this f(1) 4(3,2) f(2) 4(1), of "ucast w" d q rs data] show ?thesis using 4 by (auto simp: graph_kept_def)
  qed
qed

lemma depend_new_ok:
  fixes s :: "'d loader"
  assumes g: "graph_ok (loads s)" and w: "fmlookup (loads s) w = Some (LoadingLoad i p r)" and n: "fmlookup (loads s) name = None"
  shows "graph_kept (do {
      (ok, s) \<leftarrow> add_dependency_unloaded cfg w f s;
      if ok then (case find_underlying_load f s of
          (g, Some l) \<Rightarrow> map_option snd (load_old (ucast w) w g l name filetype data s)
        | (_, None) \<Rightarrow> Some (snd (load_new (ucast w) w f (UniqueFile d q rs) name filetype data s)))
      else Some s }) (bad_dependency name f filetype s \<or> \<not> count_of r < 2147483647)"
    (is "graph_kept ?step ?bad")
proof -
  let ?i = "push_attachment cfg f i" and ?s = "put_load w (LoadingLoad (push_attachment cfg f i) p (r + 1)) s"
  have ws: "fmlookup (loads ?s) w = Some (LoadingLoad ?i p (r + 1))" "f \<in> set (attachments ?i)"
    by (simp_all add: push_attachment_def)
  have st: "?step = (case find_underlying_load f ?s of
          (g, Some l) \<Rightarrow> map_option snd (load_old (ucast w) w g l name filetype data ?s)
        | (_, None) \<Rightarrow> Some (snd (load_new (ucast w) w f (UniqueFile d q rs) name filetype data ?s)))"
    using w by (simp add: add_dependency_unloaded_def)
  have up: "count_of (r + 1) = 0 \<longleftrightarrow> \<not> count_of r < 2147483647"
    using count_of_succ(1) [of r] count_of_overflow [of r] by auto
  show ?thesis
  proof (cases "fmlookup (loads s) f")
    case None
    then have f: "fmlookup (loads ?s) f = None" "fmlookup (loads ?s) name = None" using w n by auto
    have "\<not> loaded (loads s) f" using None by (simp add: loaded_def)
    then have "count_of (r + 1) = 0 \<or> owing_ok (loads ?s) w f" using add_unloaded_ok [OF g w] up by auto
    from load_new_dependency [OF this f ws, of d q rs filetype data]
    have "graph_kept ?step (filetypes ?s filetype = None \<or> name = 0 \<or> f = 0 \<or> count_of (r + 1) = 0)"
      unfolding st using f(1) by (simp add: find_underlying_load_def)
    then show ?thesis using None up by (simp add: bad_dependency_def put_load_def)
  next
    case (Some l)
    show ?thesis
    proof (cases l)
      case (LoadingLoad k q' t)
      then obtain l' k' where l': "fmlookup (loads ?s) f = Some l'" "load_info_of l' = Some k'" "l_filetype k' = l_filetype k"
          "\<forall>g. l' \<noteq> RadicalLoad g"
        using Some w by (cases "f = w") (auto simp: push_attachment_def load_info_of_def)
      have st': "?step = map_option snd (load_old (ucast w) w f l' name filetype data ?s)"
        unfolding st using l'(1,4) by (cases l') (simp_all add: find_underlying_load_def)
      have nl: "\<not> loaded (loads s) f" using Some LoadingLoad by (simp add: loaded_def)
      show ?thesis
      proof (cases "count_of r < 2147483647")
        case True
        have "owing_ok (loads ?s) w f" using add_unloaded_ok [OF g w True nl] by simp
        from load_old_owing [OF this ws(1) l'(1,2), of name filetype data] show ?thesis
          using st' True l'(3) Some LoadingLoad by (simp add: bad_dependency_def)
      next
        case False
        have "graph_kept ?step True"
          unfolding st' using count_of_overflow [OF False] nl
          by (intro load_old_broken [OF l'(1,2) ws]) (auto simp: loaded_def)
        then show ?thesis using False by simp
      qed
    next
      case (LoadedLoad k)
      have fw: "f \<noteq> w" using Some LoadedLoad w by auto
      then have l': "fmlookup (loads ?s) f = Some l" "load_info_of l = Some k" "loaded (loads ?s) f"
        using Some LoadedLoad by (simp_all add: load_info_of_def loaded_def)
      have st': "?step = map_option snd (load_old (ucast w) w f l name filetype data ?s)"
        unfolding st using l'(1) LoadedLoad by (simp add: find_underlying_load_def)
      have "\<exists>y. y \<in> set (attachments ?i) \<and> (count_of (r + 1) = 0 \<and> \<not> loaded (loads ?s) y \<or> y \<in> set (waiting_part ?i (r + 1)) \<and> loaded (loads ?s) y)"
      proof (cases "count_of r < 2147483647")
        case True
        then have "f \<in> set (waiting_part ?i (r + 1))"
          using count_of_succ(1) [OF True] by (simp add: waiting_part_def push_attachment_def)
        then show ?thesis using ws(2) l'(3) by blast
      next
        case False
        have at: "settled_at (loads s) [] w (LoadingLoad i p r)" using g settledD [OF _ w, of "[]"] by (simp add: graph_ok_def)
        then have "count_of r \<le> length (attachments i)" by (simp add: settled_at_def)
        then have "waiting_part i r \<noteq> []" using False by (auto simp: waiting_part_def)
        then obtain y where y: "y \<in> set (waiting_part i r)" using last_in_set by blast
        then have "\<not> loaded (loads s) y" using at by (auto simp: settled_at_def count_eq_zero_iff)
        then have "\<not> loaded (loads ?s) y" by (auto simp: loaded_def)
        moreover have "y \<in> set (attachments ?i)" using y by (auto simp: waiting_part_def push_attachment_def dest: in_set_dropD)
        ultimately show ?thesis using count_of_overflow [OF False] by blast
      qed
      then obtain y where "y \<in> set (attachments ?i)"
        "count_of (r + 1) = 0 \<and> \<not> loaded (loads ?s) y \<or> y \<in> set (waiting_part ?i (r + 1)) \<and> loaded (loads ?s) y" by blast
      then have "graph_kept ?step True" unfolding st' by (intro load_old_broken [OF l'(1,2) ws(1)]) auto
      then show ?thesis using Some LoadedLoad by (simp add: bad_dependency_def)
    next
      case (RadicalLoad h)
      have nm: "named (loads s)" using g by (simp add: graph_ok_def)
      have fw: "f \<noteq> w" using Some RadicalLoad w by auto
      then have fs: "fmlookup (loads ?s) f = Some (RadicalLoad h)" using Some RadicalLoad by simp
      obtain k where k: "info (loads s) h = Some k" using namedD(2) [OF nm, of f h] Some RadicalLoad by auto
      obtain l' k' where l': "fmlookup (loads ?s) h = Some l'" "load_info_of l' = Some k'"
        using k w by (cases "h = w") (auto simp: info_def bind_eq_Some_conv load_info_of_def)
      have st': "?step = map_option snd (load_old (ucast w) w h l' name filetype data ?s)"
        unfolding st using fs l'(1) by (simp add: find_underlying_load_def)
      have "graph_kept ?step True" unfolding st' using fs by (intro load_old_broken [OF l' ws]) simp_all
      then show ?thesis using Some RadicalLoad by (simp add: bad_dependency_def)
    qed
  qed
qed

lemma load_dependency_ok:
  fixes s :: "'d loader"
  assumes g: "graph_ok (loads s)" and m_def: "m = MessageLoadDependency owner name filetype data"
  shows "gives_up N m s \<Longrightarrow> load_dependency cfg owner name filetype data s = None"
    "\<not> gives_up N m s \<Longrightarrow> graph_kept (load_dependency cfg owner name filetype data s) (spoils m s)"
proof -
  have nm: "named (loads s)" using g by (simp add: graph_ok_def)
  obtain w k f l f' e where u: "find_underlying_load owner s = (w, k)" "find_underlying_load name s = (f, l)"
    "find_underlying_file name (files s) = (f', e)" by fastforce
  have unchanged: "add_dependency_loaded cfg w a s = Some (False, s)" "add_dependency_unloaded cfg w a s = Some (False, s)"
    if "k = Some (LoadedLoad y)" for y a
    using underlying_load(1) [OF nm, of owner w] u(1) that by (simp_all add: add_dependency_loaded_def add_dependency_unloaded_def)
  have "load_dependency cfg owner name filetype data s = None" if up: "gives_up N m s"
  proof -
    obtain k' where k': "k = Some k'" using up u by (auto simp: m_def split: option.splits)
    show ?thesis
    proof (cases l)
      case None
      then show ?thesis using up u k' by (auto simp: m_def load_dependency_def is_radical_file_def split: option.splits file_entry.splits)
    next
      case (Some l')
      then obtain y i p r where y: "l' = LoadedLoad y" "k' = LoadingLoad i p r" "full i r"
        using up u k' by (auto simp: m_def split: load.splits)
      have "fmlookup (loads s) w = Some (LoadingLoad i p r)" "fmlookup (loads s) f = Some (LoadedLoad y)"
        using underlying_load(1) [OF nm, of owner w] underlying_load(1) [OF nm, of name f] u Some k' y(1,2) by simp_all
      from depend_old_ok(1) [OF g this _ refl refl y(3), of cfg name filetype data] show ?thesis
        using u k' Some y(1) by (simp add: load_dependency_def load_info_of_def)
    qed
  qed
  moreover have "graph_kept (load_dependency cfg owner name filetype data s) (spoils m s)" if ng: "\<not> gives_up N m s"
  proof (cases k)
    case None
    then show ?thesis using u g by (simp add: load_dependency_def m_def graph_kept_def)
  next
    case (Some k')
    have w: "fmlookup (loads s) w = Some k'" using underlying_load(1) [OF nm, of owner w k'] u(1) Some by simp
    consider y where "k' = LoadedLoad y" | i p r where "k' = LoadingLoad i p r"
      using underlying_load(1) [OF nm, of owner w k'] u(1) Some by (cases k') (auto simp: load_info_of_def)
    then show ?thesis
    proof cases
      case 1
      note un = unchanged [OF Some [unfolded 1]]
      have "load_dependency cfg owner name filetype data s = Some s"
      proof (cases l)
        case l: (Some l')
        show ?thesis using u Some l un by (cases l') (simp_all add: load_dependency_def)
      next
        case l: None
        show ?thesis using u Some l un ng
          by (cases e rule: option.exhaust; cases "the e") (auto simp: load_dependency_def m_def is_radical_file_def)
      qed
      then show ?thesis using g u Some 1 by (simp add: graph_kept_def m_def)
    next
      case (2 i p r)
      note w' = w [unfolded 2]
      show ?thesis
      proof (cases l)
        case l: (Some l')
        obtain x where x: "fmlookup (loads s) f = Some l'" "load_info_of l' = Some x"
          using underlying_load(1) [OF nm, of name f l'] u(2) l by auto
        have "\<not> (l' = LoadedLoad x \<and> full i r)" using ng u l Some 2 by (auto simp: m_def)
        from depend_old_ok(2) [OF g w' x refl this, of cfg name filetype data] show ?thesis
          using u Some l 2 by (simp add: load_dependency_def m_def)
      next
        case l: None
        have nn: "fmlookup (loads s) name = None" using underlying_load(2) [OF nm, of name f] u(2) l by simp
        show ?thesis
        proof (cases "\<exists>d q rs. e = Some (UniqueFile d q rs)")
          case True
          then obtain d q rs where e: "e = Some (UniqueFile d q rs)" by auto
          from depend_new_ok [OF g w' nn, of cfg f' d q rs filetype data] show ?thesis
            using u Some l e 2 by (simp add: load_dependency_def m_def)
        next
          case False
          then show ?thesis using u Some l ng g 2
            by (cases e rule: option.exhaust; cases "the e") (auto simp: load_dependency_def m_def is_radical_file_def graph_kept_def)
        qed
      qed
    qed
  qed
  ultimately show "gives_up N m s \<Longrightarrow> load_dependency cfg owner name filetype data s = None"
    "\<not> gives_up N m s \<Longrightarrow> graph_kept (load_dependency cfg owner name filetype data s) (spoils m s)" by blast+
qed

subsection \<open>The other messages\<close>

lemma unload_independent_ok:
  fixes s :: "'d loader"
  assumes g: "graph_ok (loads s)"
  shows "gives_up N (MessageUnloadIndependent tag) s \<Longrightarrow> unload_independent tag s = None"
    "\<not> gives_up N (MessageUnloadIndependent tag) s \<Longrightarrow> graph_kept (unload_independent tag s) False"
proof -
  show "unload_independent tag s = None" if "gives_up N (MessageUnloadIndependent tag) s"
    using that by (auto simp: unload_independent_def remove_file_def load_info_of_def split: option.splits load.splits)
  assume ng: "\<not> gives_up N (MessageUnloadIndependent tag) s"
  show "graph_kept (unload_independent tag s) False"
  proof (cases "tags s tag")
    case (Some f)
    show ?thesis
    proof (cases "fmlookup (loads s) f")
      case l: (Some l)
      then obtain i where "load_info_of l = Some i" using ng Some by (cases l) (auto simp: load_info_of_def)
      then show ?thesis using remove_file_ok [OF g l] Some l by (simp add: unload_independent_def graph_kept_def)
    qed (use Some g in \<open>simp add: unload_independent_def graph_kept_def\<close>)
  qed (use g in \<open>simp add: unload_independent_def graph_kept_def\<close>)
qed

lemma load_init_defined: "\<exists>s'. load_init a s = Some s'"
  by (auto simp: load_init_def make_loading_def emplace_load_def erase_load_def split: option.splits load.splits)

lemma load_init_unloaded: "\<not> loaded (loads s) a \<Longrightarrow> load_init a s = Some s"
  by (auto simp: load_init_def loaded_def split: option.splits load.splits)

text \<open>All of them: which have no outcome, and which keep the invariant.\<close>

lemma process_message_ok:
  assumes g: "graph_ok (loads s)"
  shows "process_message cfg N m s = None \<longleftrightarrow> gives_up N m s"
    "process_message cfg N m s = Some s' \<Longrightarrow> \<not> spoils m s \<Longrightarrow> graph_ok (loads s')"
    "process_message cfg N m s = Some s' \<Longrightarrow> spoils m s \<Longrightarrow> graph_ok (loads s') \<Longrightarrow> \<exists>a. m = MessageLoadInit a"
proof -
  have "(gives_up N m s \<longrightarrow> process_message cfg N m s = None) \<and>
      (\<not> gives_up N m s \<longrightarrow> graph_kept (process_message cfg N m s) (spoils m s)) \<or>
    (\<exists>a. m = MessageLoadInit a)"
  proof (cases m)
    case (MessageLoadIndependent tag name filetype data)
    from load_independent_ok [OF g this, of N] show ?thesis using MessageLoadIndependent by auto
  next
    case (MessageLoadDependency owner name filetype data)
    from load_dependency_ok [OF g this, of N cfg] show ?thesis using MessageLoadDependency
      by (simp del: gives_up.simps spoils.simps)
  next
    case (MessageLoadDone a)
    then show ?thesis using load_done_ok [OF g, of a] by (auto simp: graph_kept_def)
  next
    case (MessageUnloadIndependent tag)
    then show ?thesis using unload_independent_ok [OF g, of N tag] by (auto simp del: gives_up.simps)
  qed (use g in \<open>auto simp: graph_kept_def\<close>)
  moreover have "\<not> gives_up N m s \<and> (\<exists>t. process_message cfg N m s = Some t \<and> (\<not> spoils m s \<longrightarrow> t = s))"
    if "m = MessageLoadInit a" for a
    using that load_init_defined [of a s] load_init_unloaded [of s a] by auto
  ultimately show "process_message cfg N m s = None \<longleftrightarrow> gives_up N m s"
    "process_message cfg N m s = Some s' \<Longrightarrow> \<not> spoils m s \<Longrightarrow> graph_ok (loads s')"
    "process_message cfg N m s = Some s' \<Longrightarrow> spoils m s \<Longrightarrow> graph_ok (loads s') \<Longrightarrow> \<exists>a. m = MessageLoadInit a"
    using g by (fastforce simp: graph_kept_def)+
qed

text \<open>Reading a loaded file again leaves a file that depends on it loaded, although the file is not.\<close>

lemma reread_breaks_order:
  assumes "fmlookup (loads s) a = Some (LoadedLoad i)" "fmlookup (loads s) w = Some (LoadedLoad k)" "w \<noteq> a" "a \<in> set (attachments k)"
  shows "\<exists>s'. load_init a s = Some s' \<and> fmlookup (loads s') w = Some (LoadedLoad k) \<and> \<not> loaded (loads s') a \<and> \<not> graph_ok (loads s')"
proof -
  let ?l = "LoadingLoad i (word_of_nat (length (attachments i))) 0x80000000"
  obtain s' where s': "load_init a s = Some s'" "loads s' = fmupd a ?l (loads s)"
    using assms(1) by (simp add: load_init_def make_loading_def emplace_load_def erase_load_def)
  then have w: "fmlookup (loads s') w = Some (LoadedLoad k)" "\<not> loaded (loads s') a" using assms(2,3) by (simp_all add: loaded_def)
  have "\<not> graph_ok (loads s')"
    using settledD [of "loads s'" "[]", OF _ w(1)] w(2) assms(4) by (auto simp: graph_ok_def settled_at_def)
  then show ?thesis using s'(1) w by blast
qed

end
