(* ===== verification/File_Behaviour.thy ===== *)
theory File_Behaviour
  imports File_Lifetime
begin

text \<open>
  What holds of the files the loader of \<^verbatim>\<open>engine/file/loader.cpp\<close> keeps, in every state that its messages reach, and
  where the code breaks it.
\<close>

section \<open>The states that are reached\<close>

text \<open>Messages are processed in any order, and posted work runs whenever the scheduler takes it.  The messages that spoil
  the graph (\<open>File_Lifetime\<close>) are left out, and no others: a run ends where a message has no outcome.\<close>

inductive lives :: "config \<Rightarrow> names \<Rightarrow> 'd react \<Rightarrow> 'd loader \<Rightarrow> bool" for cfg N react where
  lives_new: "lives cfg N react loader_new"
| lives_message: "lives cfg N react s \<Longrightarrow> \<not> spoils m s \<Longrightarrow> process_message cfg N m s = Some s' \<Longrightarrow> lives cfg N react s'"
| lives_work: "lives cfg N react s \<Longrightarrow> \<forall>m. w \<noteq> W_update m \<Longrightarrow> run_work cfg N react w s = Some (us, s') \<Longrightarrow> lives cfg N react s'"
| lives_posted: "lives cfg N react s \<Longrightarrow> lives cfg N react (s\<lparr>posted := ws\<rparr>)"

lemma loads_user_calls [simp]: "loads (user_calls react us s) = loads s" "loads (put_call c x s) = loads s"
  by (simp_all add: user_calls_def put_call_def)

lemma run_work_loads: "run_work cfg N react w s = Some (us, s') \<Longrightarrow> \<forall>m. w \<noteq> W_update m \<Longrightarrow> loads s' = loads s"
  by (cases w)
    (auto simp: ready_all_def ready_one_def unready_one_def unload_call_def file_load_def Let_def
      split: bind_splits if_splits option.splits)

lemma graph_ok_empty: "graph_ok fmempty"
  by (simp add: graph_ok_def edges_def owners_of_def attachments_of_def named_def owned_def settled_def pending_def info_def)

text \<open>What those who send messages to a strand rely on: which messages have no outcome, and that the others keep the invariant
  unless they spoil it.\<close>

locale message_strand =
  fixes step :: "'m \<Rightarrow> 's \<Rightarrow> 's option" and no_outcome :: "'m \<Rightarrow> 's \<Rightarrow> bool" and spoiling :: "'m \<Rightarrow> 's \<Rightarrow> bool" and inv :: "'s \<Rightarrow> bool"
  assumes undefined_iff: "inv s \<Longrightarrow> step m s = None \<longleftrightarrow> no_outcome m s"
    and keeps: "inv s \<Longrightarrow> step m s = Some s' \<Longrightarrow> \<not> spoiling m s \<Longrightarrow> inv s'"
begin

lemma progress: "inv s \<Longrightarrow> \<not> no_outcome m s \<Longrightarrow> \<not> spoiling m s \<Longrightarrow> \<exists>s'. step m s = Some s' \<and> inv s'"
  using undefined_iff keeps by fastforce

end

interpretation ld: message_strand "process_message cfg N" "gives_up N" spoils "\<lambda>s. graph_ok (loads s)" for cfg N
  by unfold_locales (fact process_message_ok(1), fact process_message_ok(2))

lemma lives_graph: "lives cfg N react s \<Longrightarrow> graph_ok (loads s)"
proof (induction rule: lives.induct)
  case lives_new
  then show ?case by (simp add: loader_new_def graph_ok_empty)
next
  case (lives_message s m s')
  then show ?case by (blast intro: ld.keeps [of s cfg N m s'])
next
  case (lives_work s w us s')
  then show ?case by (simp add: run_work_loads)
qed simp

text \<open>A run of messages, for the examples.\<close>

primrec run_sound :: "config \<Rightarrow> names \<Rightarrow> 'd message list \<Rightarrow> 'd loader \<Rightarrow> 'd loader option" where
  "run_sound cfg N [] s = Some s"
| "run_sound cfg N (m # ms) s = (if spoils m s then None else do { s \<leftarrow> process_message cfg N m s; run_sound cfg N ms s })"

lemma run_sound_lives: "run_sound cfg N ms s = Some s' \<Longrightarrow> lives cfg N react s \<Longrightarrow> lives cfg N react s'"
  by (induction ms arbitrary: s) (auto split: if_splits bind_splits intro: lives_message)

section \<open>What the messages leave alone\<close>

definition same_rest :: "'d loader \<Rightarrow> 'd loader \<Rightarrow> bool" where
  "same_rest s s' \<longleftrightarrow> tags s' = tags s \<and> delayed_messages s' = delayed_messages s \<and> scanning_directory s' = scanning_directory s"

lemma same_rest_refl [simp]: "same_rest s s"
  by (simp add: same_rest_def)

lemma same_rest_trans: "same_rest s s' \<Longrightarrow> same_rest s' s'' \<Longrightarrow> same_rest s s''"
  by (simp add: same_rest_def)

lemma same_rest_simps [simp]:
  "same_rest s (post w s') = same_rest s s'" "same_rest s (put_load f l s') = same_rest s s'"
  "same_rest s (drop_file u f i s') = same_rest s s'" "same_rest (post w s) s' = same_rest s s'"
  "same_rest (put_load f l s) s' = same_rest s s'" "same_rest (drop_file u f i s) s' = same_rest s s'"
  by (simp_all add: same_rest_def post_def put_load_def drop_file_def remove_watch_def erase_load_def Let_def)

lemma remove_attachment_rest: "remove_attachment w f l s = Some (s', new) \<Longrightarrow> same_rest s s'"
  by (auto simp: remove_attachment_def Let_def split: bind_splits option.splits if_splits)

lemma remove_attachments_rest: "remove_attachments R s = Some s' \<Longrightarrow> same_rest s s'"
proof (induction R s rule: remove_attachments.induct)
  case (1 R s)
  show ?case
  proof (cases "R = []")
    case True
    then show ?thesis using 1(2) by (simp add: remove_attachments.simps)
  next
    case False
    obtain w f where wf: "last R = (w, f)" by fastforce
    show ?thesis
    proof (cases "fmlookup (loads s) f")
      case None
      then show ?thesis using 1(2) False wf by (simp add: remove_attachments.simps [of R])
    next
      case (Some l)
      then obtain s1 new where a: "remove_attachment w f l s = Some (s1, new)" "remove_attachments (butlast R @ new) s1 = Some s'"
        using 1(2) False wf by (auto simp: remove_attachments.simps [of R] split: option.splits)
      from 1(1) [OF False wf [symmetric] refl refl Some a(1) refl a(2)] remove_attachment_rest [OF a(1)]
      show ?thesis by (blast intro: same_rest_trans)
    qed
  qed
qed

lemma remove_file_rest: "remove_file tag f l s = Some s' \<Longrightarrow> same_rest s s'"
  by (cases "load_info_of l"; cases "position (\<lambda>a. a = global) (owners (the (load_info_of l)))")
    (auto simp: remove_file_def Let_def dest!: remove_attachments_rest split: if_splits)

lemma drop_previous_rest: "drop_previous w f i p r s = Some (j, s') \<Longrightarrow> same_rest s s'"
  using remove_attachments_rest [of _ "put_load f _ s"]
  by (auto simp: drop_previous_def Let_def split: bind_splits if_splits)

lemma make_loaded_rest: "make_loaded f i s = Some s' \<Longrightarrow> same_rest s s'"
  by (auto simp: make_loaded_def emplace_load_def erase_load_def same_rest_def post_def put_load_def split: bind_splits if_splits)

lemma finish_owner_rest: "finish_owner w f i p r s = Some (s', new) \<Longrightarrow> same_rest s s'"
  using make_loaded_rest same_rest_trans drop_previous_rest [of f w _ p _ "put_load w _ s"]
  by (fastforce simp: finish_owner_def Let_def split: bind_splits option.splits if_splits)

lemma finish_relations_rest: "finish_relations Q s = Some s' \<Longrightarrow> same_rest s s'"
proof (induction Q s rule: finish_relations.induct)
  case (1 Q s)
  show ?case
  proof (cases "Q = []")
    case True
    then show ?thesis using 1(5) by (simp add: finish_relations.simps)
  next
    case False
    obtain w f where wf: "last Q = (w, f)" by fastforce
    note eq = 1(5) [unfolded finish_relations.simps [of Q s]]
    show ?thesis
    proof (cases "w = global")
      case True
      then show ?thesis using 1(1) [OF False refl wf [symmetric] refl] eq False wf by simp
    next
      case w: False
      then obtain l where l: "fmlookup (loads s) w = Some l" using eq False wf by (auto simp: Let_def split: option.splits)
      show ?thesis
      proof (cases l)
        case (LoadingLoad i p r)
        then obtain s1 new where a: "finish_owner w f i p r s = Some (s1, new)" "finish_relations (butlast Q @ new) s1 = Some s'"
          using eq False wf w l by (auto simp: Let_def split: option.splits)
        from 1(3) [OF False refl wf [symmetric] refl w l LoadingLoad a(1) refl a(2)] finish_owner_rest [OF a(1)]
        show ?thesis by (blast intro: same_rest_trans)
      qed (use 1(2,4) [OF False refl wf [symmetric] refl w l] eq False wf w l in \<open>auto simp: Let_def\<close>)
    qed
  qed
qed

lemma finish_loading_rest: "finish_loading f i p s = Some s' \<Longrightarrow> same_rest s s'"
proof -
  assume "finish_loading f i p s = Some s'"
  then obtain j s1 s2 where "drop_previous f f i p 0 s = Some (j, s1)" "make_loaded f j s1 = Some s2"
      "finish_relations (map (\<lambda>a. (a, f)) (owners i)) s2 = Some s'"
    by (auto simp: finish_loading_def Let_def bind_eq_Some_conv)
  then show ?thesis by (meson drop_previous_rest make_loaded_rest finish_relations_rest same_rest_trans)
qed

lemma load_done_rest: "load_done f s = Some s' \<Longrightarrow> same_rest s s'"
  using finish_loading_rest [of f _ _ "put_load f _ s" s']
  by (auto simp: load_done_def Let_def split: option.splits load.splits if_splits)


lemma emplace_load_delayed: "emplace_load a l s = Some s' \<Longrightarrow> delayed_messages s' = delayed_messages s"
  by (auto simp: emplace_load_def put_load_def split: if_splits)

lemma load_new_delayed: "load_new tag w f e name filetype data s = (b, s') \<Longrightarrow> delayed_messages s' = delayed_messages s"
  by (auto simp: load_new_def Let_def dest!: emplace_load_delayed split: if_splits option.splits file_entry.splits)

lemma load_old_delayed: "load_old tag w f l name filetype data s = Some (b, s') \<Longrightarrow> delayed_messages s' = delayed_messages s"
  by (auto simp: load_old_def post_def put_load_def bind_eq_Some_conv split: if_splits)

lemma emplace_tag_delayed: "emplace_tag tag f s = Some s' \<Longrightarrow> delayed_messages s' = delayed_messages s"
  by (auto simp: emplace_tag_def split: if_splits)

lemma load_independent_delayed:
  assumes "load_independent tag name filetype data s = Some s'"
  shows "delayed_messages s' = delayed_messages s"
proof -
  have new: "delayed_messages (snd (load_new tag w f e name filetype data t)) = delayed_messages t" for w f e t
    using load_new_delayed [of tag w f e name filetype data t] by (metis prod.collapse)
  show ?thesis using assms
    by (auto simp: load_independent_def new dest!: load_old_delayed dest: emplace_tag_delayed
        split: prod.splits option.splits file_entry.splits)
qed

lemma add_dependency_delayed:
  "add_dependency_loaded cfg w f s = Some (b, s') \<Longrightarrow> delayed_messages s' = delayed_messages s"
  "add_dependency_unloaded cfg w f s = Some (b, s') \<Longrightarrow> delayed_messages s' = delayed_messages s"
  by (auto simp: add_dependency_loaded_def add_dependency_unloaded_def put_load_def bind_eq_Some_conv split: option.splits load.splits)

lemma load_dependency_delayed:
  assumes d: "load_dependency cfg owner name filetype data s = Some s'"
  shows "delayed_messages s' = delayed_messages s"
proof -
  have new: "delayed_messages (snd (load_new tag w f e name filetype data t)) = delayed_messages t" for tag w f e t
    using load_new_delayed [of tag w f e name filetype data t] by (metis prod.collapse)
  obtain w k f l f' e where u: "find_underlying_load owner s = (w, k)" "find_underlying_load name s = (f, l)"
    "find_underlying_file name (files s) = (f', e)" by fastforce
  show ?thesis
  proof (cases "k = None \<or> l \<noteq> None \<or> (\<nexists>d q rs. e = Some (UniqueFile d q rs))")
    case True
    then show ?thesis using d u
      by (auto simp: load_dependency_def bind_eq_Some_conv dest!: load_old_delayed add_dependency_delayed
          split: option.splits file_entry.splits load.splits if_splits)
  next
    case False
    then obtain k' d' q rs where e: "k = Some k'" "l = None" "e = Some (UniqueFile d' q rs)" by auto
    obtain b s1 where s1: "add_dependency_unloaded cfg w f' s = Some (b, s1)"
      using d u e by (auto simp: load_dependency_def bind_eq_Some_conv)
    obtain g h where gh: "find_underlying_load f' s1 = (g, h)" by fastforce
    show ?thesis using d u e s1 gh add_dependency_delayed(2) [OF s1]
      by (cases h) (auto simp: load_dependency_def new dest!: load_old_delayed split: if_splits)
  qed
qed

lemma process_message_delayed: "process_message cfg N m s = Some s' \<Longrightarrow> delayed_messages s' = delayed_messages s"
proof (cases m)
  case (MessageUnloadIndependent tag)
  assume "process_message cfg N m s = Some s'"
  then show ?thesis using MessageUnloadIndependent remove_file_rest [of tag _ _ s s']
    by (auto simp: unload_independent_def same_rest_def split: option.splits)
next
  case (MessageLoadDone f)
  assume "process_message cfg N m s = Some s'"
  then show ?thesis using MessageLoadDone load_done_rest [of f s s'] by (simp add: same_rest_def)
next
  case (MessageLoadInit f)
  assume "process_message cfg N m s = Some s'"
  then show ?thesis using MessageLoadInit
    by (auto simp: load_init_def make_loading_def erase_load_def dest!: emplace_load_delayed split: option.splits load.splits)
qed (auto intro: load_independent_delayed load_dependency_delayed split: if_splits)

section \<open>Messages that are delayed\<close>

primrec run_messages :: "config \<Rightarrow> names \<Rightarrow> 'd message list \<Rightarrow> 'd loader \<Rightarrow> 'd loader option" where
  "run_messages cfg N [] s = Some s"
| "run_messages cfg N (m # ms) s = do { s \<leftarrow> process_message cfg N m s; run_messages cfg N ms s }"

lemma run_messages_delayed: "run_messages cfg N ms s = Some s' \<Longrightarrow> delayed_messages s' = delayed_messages s"
  by (induction ms arbitrary: s) (auto dest: process_message_delayed simp: bind_eq_Some_conv)

lemma run_delayed_plain:
  "list_all (\<lambda>m. \<not> is_register_library m) D \<Longrightarrow> delayed_messages s = D \<Longrightarrow> at \<le> length D \<Longrightarrow>
   run_delayed cfg N at (length D) s = map_option (Pair (length D)) (run_messages cfg N (drop at D) s)"
proof (induction "length D - at" arbitrary: at s)
  case 0
  then show ?case by (simp add: run_delayed.simps)
next
  case (Suc n)
  then have a: "at < length D" by simp
  have d: "drop at D = D ! at # drop (Suc at) D" using a by (simp add: Cons_nth_drop_Suc)
  have nr: "\<not> is_register_library (D ! at)" using Suc.prems(1) a by (simp add: list_all_length)
  show ?case
  proof (cases "process_message cfg N (D ! at) s")
    case None
    then show ?thesis using a Suc.prems(2) d by (simp add: run_delayed.simps [of cfg N at])
  next
    case (Some s1)
    have "delayed_messages s1 = D" using process_message_delayed [OF Some] Suc.prems(2) by simp
    then have "run_delayed cfg N (Suc at) (length D) s1 = map_option (Pair (length D)) (run_messages cfg N (drop (Suc at) D) s1)"
      using Suc.hyps(1) [of "Suc at" s1] Suc.hyps(2) Suc.prems(1) a by simp
    then show ?thesis using a Suc.prems(2) d Some nr by (simp add: run_delayed.simps [of cfg N at])
  qed
qed

text \<open>The strand takes one message after another.\<close>

primrec loader_updates :: "config \<Rightarrow> names \<Rightarrow> 'd message list \<Rightarrow> 'd loader \<Rightarrow> 'd loader option" where
  "loader_updates cfg N [] s = Some s"
| "loader_updates cfg N (m # ms) s = do { s \<leftarrow> loader_update cfg N m s; loader_updates cfg N ms s }"

lemma loader_updates_delay:
  "scanning_directory s \<noteq> 0 \<Longrightarrow> list_all (\<lambda>m. \<not> is_scan_of (scanning_directory s) m) ms \<Longrightarrow>
   loader_updates cfg N (ms @ ns) s = loader_updates cfg N ns (s\<lparr>delayed_messages := delayed_messages s @ ms\<rparr>)"
  by (induction ms arbitrary: s) (simp_all add: loader_update_def)

text \<open>C22: while a directory is scanned the other messages are delayed, and when the scan comes they are processed after
  it in the order in which they came, provided that no other directory is registered in between.\<close>

theorem loader_delays_messages:
  assumes "scanning_directory s \<noteq> 0" "is_scan_of (scanning_directory s) scan" "delayed_messages s = []"
    "list_all (\<lambda>m. \<not> is_scan_of (scanning_directory s) m \<and> \<not> is_register_library m) ms"
  shows "loader_updates cfg N (ms @ [scan]) s =
    map_option (\<lambda>t. t\<lparr>delayed_messages := []\<rparr>) (run_messages cfg N (scan # ms) (s\<lparr>delayed_messages := ms\<rparr>))"
proof -
  have ms: "list_all (\<lambda>m. \<not> is_scan_of (scanning_directory s) m) ms" "list_all (\<lambda>m. \<not> is_register_library m) ms"
    using assms(4) by (simp_all add: list_all_iff)
  let ?s = "s\<lparr>delayed_messages := ms\<rparr>"
  have "loader_updates cfg N (ms @ [scan]) s = loader_update cfg N scan ?s"
    using loader_updates_delay [OF assms(1) ms(1), of cfg N "[scan]"] assms(3) by simp
  also have "\<dots> = map_option (\<lambda>t. t\<lparr>delayed_messages := []\<rparr>) (run_messages cfg N (scan # ms) ?s)"
  proof (cases "process_message cfg N scan ?s")
    case (Some s1)
    then have d: "delayed_messages s1 = ms" using process_message_delayed [OF Some] by simp
    have "run_delayed cfg N 0 (length ms) s1 = map_option (Pair (length ms)) (run_messages cfg N ms s1)"
      using run_delayed_plain [OF ms(2) d, of 0] by simp
    then show ?thesis using Some assms(1,2) d run_messages_delayed [of cfg N ms s1]
      by (cases "run_messages cfg N ms s1") (simp_all add: loader_update_def)
  qed (use assms(1,2) in \<open>simp add: loader_update_def\<close>)
  finally show ?thesis .
qed

text \<open>If another directory was registered in between and its scan came too, the scan is taken from the vector of
  delayed messages, but the loop still runs to where the vector ended before: it reads a message that is not
  there.\<close>

theorem loader_delayed_overrun:
  assumes "scanning_directory s \<noteq> 0" "is_scan_of (scanning_directory s) scan"
    "delayed_messages s = [MessageRegisterLibrary d, MessageFileScan d existing removed]"
    "run_messages cfg N [scan, MessageRegisterLibrary d, MessageFileScan d existing removed] s = Some t"
  shows "loader_update cfg N scan s = None"
proof -
  obtain s1 s2 where s: "process_message cfg N scan s = Some s1" "process_message cfg N (MessageRegisterLibrary d) s1 = Some s2"
    "process_message cfg N (MessageFileScan d existing removed) s2 = Some t"
    using assms(4) by (auto simp: bind_eq_Some_conv simp del: process_message.simps)
  have d: "delayed_messages s1 = delayed_messages s" "delayed_messages s2 = delayed_messages s" "delayed_messages t = delayed_messages s"
    using s process_message_delayed by metis+
  have "scanning_directory s2 = d" using s(2) by auto
  then have "run_delayed cfg N 0 2 s1 = run_delayed cfg N 1 2 (t\<lparr>delayed_messages := [MessageRegisterLibrary d]\<rparr>)"
    using s d assms(3) by (simp add: run_delayed.simps [of cfg N 0] is_register_library_def is_scan_of_def del: process_message.simps)
  also have "\<dots> = None" by (simp add: run_delayed.simps)
  finally show ?thesis using assms(1,2,3) s(1) d(1) by (simp add: loader_update_def numeral_2_eq_2 del: process_message.simps)
qed


section \<open>What holds of every state\<close>

text \<open>C5: in a state reached so far the messages without an outcome are exactly those that \<open>gives_up\<close> lists; every other
  message is carried out and keeps the invariant of the graph, unless it is one of those that \<open>spoils\<close> lists, and those lose it, but
  for reading a loaded file again, which need not.  The invariant: owners and attachments agree, every file is owned,
  the attachments of a loaded file are loaded, and a file that is not loaded waits for exactly those of its
  attachments that are not.\<close>

theorem loader_keeps_graph:
  assumes "lives cfg N react s"
  shows "(process_message cfg N m s = None \<longleftrightarrow> gives_up N m s) \<and>
    (\<forall>s'. process_message cfg N m s = Some s' \<longrightarrow>
      (\<not> spoils m s \<longrightarrow> graph_ok (loads s')) \<and>
      (spoils m s \<and> (\<forall>a. m \<noteq> MessageLoadInit a) \<longrightarrow> \<not> graph_ok (loads s')))"
  using ld.undefined_iff [OF lives_graph [OF assms], of cfg N m] ld.keeps [OF lives_graph [OF assms], of cfg N m]
    process_message_ok(3) [OF lives_graph [OF assms], of cfg N m] by blast

text \<open>C4: a file is loaded only when all files it depends on are, and it is among their owners, so that they stay.  This holds as
  long as no message has spoilt the graph: no loaded file has been read again, every dependency that was recorded has a
  registered filetype that agrees with the one its file was loaded with, none was asked for by the radical of a file
  already loaded under its own name, and no file or name has the number of the users.\<close>

theorem dependencies_loaded_first:
  assumes "lives cfg N react s" "fmlookup (loads s) w = Some (LoadedLoad i)" "a \<in> set (attachments i)"
  shows "\<exists>j. fmlookup (loads s) a = Some (LoadedLoad j) \<and> w \<in> set (owners j)"
proof -
  have g: "edges (loads s) []" "named (loads s)" "settled (loads s) []"
    using lives_graph [OF assms(1)] by (simp_all add: graph_ok_def)
  have "loaded (loads s) a" using settledD [OF g(3) assms(2)] assms(3) by (simp add: settled_at_def)
  then obtain j where j: "info (loads s) a = Some j" "fmlookup (loads s) a = Some (LoadedLoad j)" using loaded_info by blast
  have "w \<noteq> 0" using namedD(1) [OF g(2)] assms(2) by auto
  from edgesD [OF g(1) this, of a] assms(2,3) have "0 < count (owners_of (loads s) a) w"
    by (simp add: attachments_of_def count_greater_zero_iff)
  then show ?thesis using j by (simp add: owners_of_def count_greater_zero_iff)
qed

text \<open>The dependencies between the files, which may be cyclic.\<close>

definition depends :: "loads_map \<Rightarrow> (asset \<times> asset) set" where
  "depends L = {(w, a). a \<in># attachments_of L w}"

lemma minimal_file:
  assumes "acyclic (depends L)" "\<And>f. f \<in> S \<Longrightarrow> info L f \<noteq> None" "S \<noteq> {}"
  shows "\<exists>f \<in> S. \<forall>a \<in> S. (f, a) \<notin> depends L" "\<exists>f \<in> S. \<forall>w \<in> S. (w, f) \<notin> depends L"
proof -
  have "S \<subseteq> fmdom' L" using assms(2) by (fastforce simp: info_def fmlookup_dom'_iff bind_eq_Some_conv)
  then have fin: "finite S" by (rule finite_subset) simp
  define R where "R = depends L \<inter> (S \<times> S)"
  have R: "finite R" "acyclic R" using fin assms(1) by (auto simp: R_def intro: acyclic_subset)
  then have "wf R" "wf (R\<inverse>)" by (auto intro: finite_acyclic_wf finite_acyclic_wf_converse)
  then show "\<exists>f \<in> S. \<forall>a \<in> S. (f, a) \<notin> depends L" "\<exists>f \<in> S. \<forall>w \<in> S. (w, f) \<notin> depends L"
    using assms(3) by (auto simp: wf_eq_minimal R_def) (metis IntI SigmaI converse_iff)+
qed

text \<open>C6: nothing waits for ever: when every file has been read and no file depends on itself, even in turn, all files are
  loaded, as long as no message has spoilt the graph (see C4).  The first message that C34 shows, a dependency by the radical
  of a file that is loaded already, is one that does.\<close>

theorem nothing_waits:
  assumes "lives cfg N react s" "acyclic (depends (loads s))"
    "\<forall>w i p r. fmlookup (loads s) w = Some (LoadingLoad i p r) \<longrightarrow> \<not> unread r"
  shows "info (loads s) f = Some i \<longrightarrow> fmlookup (loads s) f = Some (LoadedLoad i)"
proof -
  let ?L = "loads s"
  have g: "edges ?L []" "named ?L" "settled ?L []" using lives_graph [OF assms(1)] by (simp_all add: graph_ok_def)
  let ?S = "{w. loading ?L w}"
  have "?S = {}"
  proof (rule ccontr)
    assume "?S \<noteq> {}"
    then obtain w where w: "w \<in> ?S" "\<forall>a \<in> ?S. (w, a) \<notin> depends ?L"
      using minimal_file(1) [OF assms(2), of ?S] loading_info by fastforce
    then obtain i p r where l: "fmlookup ?L w = Some (LoadingLoad i p r)" using loading_info by blast
    have at: "settled_at ?L [] w (LoadingLoad i p r)" by (rule settledD [OF g(3) l])
    have "\<not> unread r" using assms(3) l by blast
    then obtain a where a: "a \<in> set (waiting_part i r)" using at
      by (auto simp: settled_at_def waiting_part_def) (metis diff_less drop_eq_Nil2 last_in_set less_le_trans not_le)
    then have "\<not> loaded ?L a" using at by (auto simp: settled_at_def count_eq_zero_iff)
    moreover have "a \<in># attachments_of ?L w" using a l by (auto simp: attachments_of_def waiting_part_def dest: in_set_dropD)
    moreover have "w \<noteq> 0" using namedD(1) [OF g(2)] l by auto
    ultimately obtain j where "info ?L a = Some j" "\<not> loaded ?L a" "(w, a) \<in> depends ?L"
      using edgesD [OF g(1), of w a] owner_info [of ?L a w] by (auto simp: depends_def count_greater_zero_iff)
    then show False using w(2) info_cases by blast
  qed
  then show ?thesis using info_cases [of ?L f i] loaded_info [of ?L f] by auto
qed

text \<open>C7: nothing is leaked: when no file is owned by a user any more and no file depends on itself, even in turn, no file
  is left, as long as no message has spoilt the graph (see C4).\<close>

theorem nothing_leaked:
  assumes "lives cfg N react s" "acyclic (depends (loads s))"
    "\<forall>f i. info (loads s) f = Some i \<longrightarrow> global \<notin> set (owners i)"
  shows "loads s = fmempty"
proof -
  let ?L = "loads s"
  have g: "edges ?L []" "named ?L" "owned ?L" using lives_graph [OF assms(1)] by (simp_all add: graph_ok_def)
  let ?S = "{f. info ?L f \<noteq> None}"
  have "?S = {}"
  proof (rule ccontr)
    assume "?S \<noteq> {}"
    then obtain f where f: "f \<in> ?S" "\<forall>w \<in> ?S. (w, f) \<notin> depends ?L" using minimal_file(2) [OF assms(2), of ?S] by auto
    then obtain i where i: "info ?L f = Some i" by auto
    then obtain w where w: "w \<in> set (owners i)" using g(3) by (metis owned_def last_in_set)
    then have "w \<noteq> 0" using assms(3) i by (auto simp: global_def)
    then have "f \<in># attachments_of ?L w"
      using edgesD [OF g(1), of w f] w i count_greater_zero_iff [of "mset (owners i)" w]
      by (simp add: owners_of_def flip: count_greater_zero_iff)
    then show False using f(2) attached_info [of ?L w f] by (auto simp: depends_def count_greater_zero_iff)
  qed
  then have n: "info ?L f = None" for f by auto
  have "fmlookup ?L f = None" for f
  proof (cases "fmlookup ?L f")
    case (Some l)
    then show ?thesis using namedD(2) [OF g(2), of f] n info_simps(1,2) [of ?L f] by (cases l) auto
  qed
  then show ?thesis by (intro fmap_ext) simp
qed


section \<open>Where the code breaks it\<close>

text \<open>A loaded file that is read again, as it is when it is watched and changes, is not loaded any more, but the files
  that depend on it stay loaded: the order of C4 is lost.\<close>

theorem reread_breaks_dependencies:
  assumes "lives cfg N react s" "fmlookup (loads s) w = Some (LoadedLoad i)" "a \<in> set (attachments i)" "w \<noteq> a"
  shows "\<exists>s'. process_message cfg N (MessageLoadInit a) s = Some s' \<and> fmlookup (loads s') w = Some (LoadedLoad i) \<and>
    \<not> loaded (loads s') a"
proof -
  have "settled (loads s) []" using lives_graph [OF assms(1)] by (simp add: graph_ok_def)
  then have "loaded (loads s) a" using settledD [OF _ assms(2)] assms(3) by (auto simp: settled_at_def)
  then obtain j where "fmlookup (loads s) a = Some (LoadedLoad j)" using loaded_info by blast
  from reread_breaks_order [OF this assms(2,4,3)] show ?thesis by auto
qed

text \<open>C34: a file that is loaded under its own name and is then depended on by its radical is counted as not loaded, but
  nobody tells the owner again: when the owner has been read, it keeps waiting although all its attachments are
  loaded.\<close>

theorem radical_dependency_stalls:
  assumes "fmlookup (loads s) w = Some (LoadingLoad i p r)" "count_of r = 0"
    "find_underlying_load owner s = (w, Some l)" "find_underlying_load name s = (name, None)"
    "find_underlying_file name (files s) = (f, Some (UniqueFile d q rs))"
    "fmlookup (loads s) f = Some (LoadedLoad j)" "l_filetype j = filetype" "set (attachments i) \<subseteq> {a. loaded (loads s) a}"
  shows "\<exists>s1 s2 k. load_dependency cfg owner name filetype data s = Some s1 \<and> load_done w s1 = Some s2 \<and>
    fmlookup (loads s2) w = Some (LoadingLoad k p 1) \<and> set (attachments k) \<subseteq> {a. loaded (loads s2) a} \<and> load_done f s2 = Some s2"
proof -
  let ?k = "push_attachment cfg f i"
  have wf: "w \<noteq> f" using assms(1,6) by auto
  have "load_dependency cfg owner name filetype data s = Some (post (W_ready_one (l_call j) f (ucast w) \<lparr>rc_name = name, rc_calls = data\<rparr>)
      (put_load f (LoadedLoad (j\<lparr>owners := owners j @ [w]\<rparr>)) (put_load w (LoadingLoad ?k p (r + 1)) s)))" (is "_ = Some ?s1")
    using assms wf
    by (simp add: load_dependency_def add_dependency_unloaded_def find_underlying_load_def load_old_def with_info_def load_info_of_def)
  moreover have "fmlookup (loads ?s1) w = Some (LoadingLoad ?k p (r + 1))" using wf by simp
  moreover have "(r + 1) AND 0x7fffffff = 1"
  proof -
    have "count_of (r + 1) = 1" using count_of_succ [of r] assms(2) by simp
    then have "unat ((r + 1) AND 0x7fffffff) = unat (1 :: u32)" by (simp add: count_of_def)
    then show ?thesis by (simp only: word_unat_eq_iff)
  qed
  ultimately have "load_done w ?s1 = Some (put_load w (LoadingLoad ?k p 1) ?s1)" by (simp add: load_done_def)
  moreover have "set (attachments ?k) \<subseteq> {a. loaded (loads (put_load w (LoadingLoad ?k p 1) ?s1)) a}"
    using assms(6,8) assms(1) wf by (auto simp: push_attachment_def loaded_upd) (auto simp: loaded_def)
  moreover have "load_done f (put_load w (LoadingLoad ?k p 1) ?s1) = Some (put_load w (LoadingLoad ?k p 1) ?s1)"
    using wf by (simp add: load_done_def)
  ultimately show ?thesis using \<open>load_dependency cfg owner name filetype data s = Some ?s1\<close> by auto
qed

text \<open>A dependency that cannot be loaded, because its filetype is not registered, is counted nevertheless: the owner
  waits for a file that is not being loaded.\<close>

theorem lost_dependency_counted:
  assumes "fmlookup (loads s) w = Some (LoadingLoad i p r)" "count_of r < 2147483647"
    "find_underlying_load owner s = (w, Some l)" "fmlookup (loads s) name = None"
    "find_underlying_file name (files s) = (name, Some (UniqueFile d q rs))" "filetypes s filetype = None"
  shows "\<exists>s1 k r'. load_dependency cfg owner name filetype data s = Some s1 \<and> fmlookup (loads s1) name = None \<and>
    fmlookup (loads s1) w = Some (LoadingLoad k p r') \<and> count_of r' = count_of r + 1 \<and> name \<in> set (waiting_part k r')"
proof -
  let ?s1 = "put_load w (LoadingLoad (push_attachment cfg name i) p (r + 1)) s"
  have wn: "w \<noteq> name" using assms(1,4) by auto
  have f: "filetypes ?s1 filetype = None" using assms(6) by (simp add: put_load_def)
  have "load_dependency cfg owner name filetype data s = Some ?s1"
    using assms wn f
    by (simp add: load_dependency_def add_dependency_unloaded_def find_underlying_load_def load_new_def)
  moreover have "name \<in> set (waiting_part (push_attachment cfg name i) (r + 1))"
    using count_of_succ(1) [OF assms(2)] by (simp add: waiting_part_def push_attachment_def)
  ultimately show ?thesis using wn assms(4) count_of_succ(1) [OF assms(2)] by auto
qed

text \<open>A tag is never given back: once something was loaded with it, and even after it was unloaded, nothing is loaded
  with it again.\<close>

theorem tag_not_reusable:
  assumes "tags s tag = Some f" "unload_independent tag s = Some s1" "load_independent tag name filetype data s1 = Some s2"
  shows "s2 = s1"
proof -
  have "tags s1 tag = Some f"
    using assms(1,2) remove_file_rest [of tag f _ s s1]
    by (auto simp: unload_independent_def same_rest_def split: option.splits)
  then show ?thesis using assms(3)
    by (auto simp: load_independent_def emplace_tag_def split: prod.splits option.splits file_entry.splits)
qed

text \<open>A file that was loaded by a name, of a filetype that is not registered, cannot be loaded any more by that name:
  the entry that was made for the name stands for a file that is not there, and the next attempt finds the name
  taken.\<close>

theorem unregistered_radical_poisoned:
  assumes "fmlookup (loads s) name = None" "fmlookup (loads s) f = None" "name \<noteq> f" "tags s tag = None"
    "find_underlying_file name (files s) = (f, Some (UniqueFile d q rs))" "filetypes s filetype = None"
    "tags s tag' = None" "tag \<noteq> tag'"
  shows "\<exists>s1 s2. load_independent tag name filetype data s = Some s1 \<and>
    load_independent tag' name filetype' data' (s1\<lparr>filetypes := ft\<rparr>) = Some s2 \<and>
    fmlookup (loads s1) name = Some (RadicalLoad f) \<and> loads s2 = loads s1 \<and> requests s2 = requests s"
  using assms
  by (auto simp: load_independent_def find_underlying_load_def emplace_tag_def load_new_def emplace_load_def put_load_def)


section \<open>Witnesses\<close>

definition files_cfg :: config where
  "files_cfg = \<lparr>static_capacity = None, alloc_ok = (\<lambda>n. True)\<rparr>"

text \<open>Three files, the first of which depends on the others.  It is asked for, and its two dependencies one after the other, before
  anything has been read.\<close>

abbreviation demo_a :: asset where "demo_a \<equiv> 0xe8b7be43"
abbreviation demo_b :: asset where "demo_b \<equiv> 0x71beeff9"
abbreviation demo_d :: asset where "demo_d \<equiv> 0x98dd4acc"

abbreviation demo_setup :: "unit message list" where
  "demo_setup \<equiv> [MessageRegisterFiletype 7 1, MessageRegisterLibrary 5, MessageFileScan 5 ''a;b;d'' [],
     MessageLoadIndependent 9 demo_a 7 (), MessageLoadDependency demo_a demo_d 7 (), MessageLoadDependency demo_a demo_b 7 ()]"

lemmas loader_eval = loader_new_def register_directory_def index_emplace_def load_independent_def load_dependency_def load_done_def
  unload_independent_def find_underlying_load_def find_underlying_file_def emplace_tag_def load_new_def load_old_def
  emplace_load_def put_load_def add_dependency_unloaded_def push_attachment_def finish_loading_def drop_previous_def make_loaded_def
  erase_load_def post_def count_of_def with_info_def load_info_of_def make_token_def is_filetype_def global_def
  bad_entry_def bad_dependency_def

lemma asset_b: "asset_of ''b'' = demo_b"
  by (simp add: asset_of_def crc_eval)

lemma demo_scan:
  "file_scan plain_names 5 ''a;b;d'' [] [5 \<mapsto> DirectoryFile] =
    Some [5 \<mapsto> DirectoryFile, demo_a \<mapsto> UniqueFile 5 ''a'' [], demo_b \<mapsto> UniqueFile 5 ''b'' [], demo_d \<mapsto> UniqueFile 5 ''d'' []]"
  by (simp add: file_scan_def scan_paths.simps plain_names_def note_file_def asset_names asset_b index_emplace_def Let_def)

lemma demo_run:
  "\<exists>s i j k. run_sound files_cfg plain_names demo_setup loader_new = Some s \<and>
    fmlookup (loads s) demo_a = Some (LoadingLoad i (- 1) 0x80000002) \<and> attachments i = [demo_d, demo_b] \<and> owners i = [0] \<and>
    fmlookup (loads s) demo_d = Some (LoadingLoad j (- 1) 0x80000000) \<and> l_filetype j = 7 \<and> attachments j = [] \<and> owners j = [demo_a] \<and>
    fmlookup (loads s) demo_b = Some (LoadingLoad k (- 1) 0x80000000) \<and> attachments k = [] \<and> owners k = [demo_a]"
  by (simp add: loader_eval demo_scan)

text \<open>The attachments are read after the file that depends on them, and then the file is unloaded.\<close>

abbreviation demo_read :: "unit message list" where
  "demo_read \<equiv> demo_setup @ [MessageLoadDone demo_a, MessageLoadDone demo_d, MessageLoadDone demo_b]"

lemma demo_loaded:
  "\<exists>s i j k. run_sound files_cfg plain_names demo_read loader_new = Some s \<and>
    fmlookup (loads s) demo_a = Some (LoadedLoad i) \<and> fmlookup (loads s) demo_d = Some (LoadedLoad j) \<and>
    fmlookup (loads s) demo_b = Some (LoadedLoad k) \<and> attachments i = [demo_d, demo_b] \<and> attachments j = [] \<and> attachments k = [] \<and>
    (\<forall>f. f \<noteq> demo_a \<longrightarrow> f \<noteq> demo_d \<longrightarrow> f \<noteq> demo_b \<longrightarrow> fmlookup (loads s) f = None)"
  by (simp add: loader_eval demo_scan finish_relations.simps finish_owner_def Let_def)

lemma demo_unloaded:
  "\<exists>s. run_sound files_cfg plain_names (demo_read @ [MessageUnloadIndependent 9]) loader_new = Some s \<and>
    (\<forall>f. fmlookup (loads s) f = None)"
  by (simp add: loader_eval demo_scan finish_relations.simps finish_owner_def Let_def remove_file_def erase_at_def
      remove_attachments.simps remove_attachment_def drop_file_def remove_watch_def)

declare run_sound.simps [simp del]

lemma demo_lives: "run_sound files_cfg plain_names ms loader_new = Some s \<Longrightarrow> lives files_cfg plain_names (\<lambda>u. []) s"
  by (erule run_sound_lives) (rule lives_new)

text \<open>One of the dependencies has been read; a third one, whose filetype is not registered, spoils the graph.\<close>

theorem loader_keeps_graph_witness:
  "\<exists>s s' s''. run_sound files_cfg plain_names demo_setup loader_new = Some s \<and>
    process_message files_cfg plain_names (MessageLoadDone demo_d) s = Some s' \<and> graph_ok (loads s') \<and>
    process_message files_cfg plain_names (MessageLoadDependency demo_a demo_d 8 ()) s = Some s'' \<and> \<not> graph_ok (loads s'')"
proof -
  obtain s i j where s: "run_sound files_cfg plain_names demo_setup loader_new = Some s"
    "fmlookup (loads s) demo_a = Some (LoadingLoad i (- 1) 0x80000002)"
    "fmlookup (loads s) demo_d = Some (LoadingLoad j (- 1) 0x80000000)" "l_filetype j = 7" using demo_run by blast
  let ?m = "MessageLoadDependency demo_a demo_d 8 ()"
  have m: "spoils ?m s" "\<not> gives_up plain_names ?m s"
    using s(2-4) by (simp_all add: find_underlying_load_def is_filetype_def load_info_of_def)
  note kept = loader_keeps_graph [OF demo_lives [OF s(1)]]
  obtain s' where s': "process_message files_cfg plain_names (MessageLoadDone demo_d) s = Some s'" "graph_ok (loads s')"
    using kept [of "MessageLoadDone demo_d"] by (cases "process_message files_cfg plain_names (MessageLoadDone demo_d) s") auto
  obtain s'' where s'': "process_message files_cfg plain_names ?m s = Some s''"
    using conjunct1 [OF kept [of ?m]] m(2) by (cases "process_message files_cfg plain_names ?m s") blast+
  have "\<not> graph_ok (loads s'')" using conjunct2 [OF kept [of ?m]] s'' m(1) by blast
  then show ?thesis using s(1) s' s'' by blast
qed

theorem dependencies_loaded_first_witness:
  "\<exists>s j. run_sound files_cfg plain_names demo_read loader_new = Some s \<and>
    fmlookup (loads s) demo_d = Some (LoadedLoad j) \<and> demo_a \<in> set (owners j)"
proof -
  obtain s i where s: "run_sound files_cfg plain_names demo_read loader_new = Some s"
    "fmlookup (loads s) demo_a = Some (LoadedLoad i)" "attachments i = [demo_d, demo_b]" using demo_loaded by blast
  then show ?thesis using dependencies_loaded_first [OF demo_lives [OF s(1)] s(2), of demo_d] by auto
qed

theorem reread_breaks_dependencies_witness:
  "\<exists>s s' i. run_sound files_cfg plain_names demo_read loader_new = Some s \<and>
    process_message files_cfg plain_names (MessageLoadInit demo_d) s = Some s' \<and>
    fmlookup (loads s') demo_a = Some (LoadedLoad i) \<and> demo_d \<in> set (attachments i) \<and> \<not> loaded (loads s') demo_d"
proof -
  obtain s i where s: "run_sound files_cfg plain_names demo_read loader_new = Some s"
    "fmlookup (loads s) demo_a = Some (LoadedLoad i)" "attachments i = [demo_d, demo_b]" using demo_loaded by blast
  then show ?thesis using reread_breaks_dependencies [OF demo_lives [OF s(1)] s(2), of demo_d] by auto
qed

lemma demo_depends:
  assumes "fmlookup L demo_a = Some (LoadedLoad i)" "fmlookup L demo_d = Some (LoadedLoad j)" "fmlookup L demo_b = Some (LoadedLoad k)"
    "attachments i = [demo_d, demo_b]" "attachments j = []" "attachments k = []"
    "\<And>f. f \<noteq> demo_a \<Longrightarrow> f \<noteq> demo_d \<Longrightarrow> f \<noteq> demo_b \<Longrightarrow> fmlookup L f = None"
  shows "acyclic (depends L)"
proof -
  have "attachments_of L f = (if f = demo_a then {#demo_d, demo_b#} else {#})" for f
    using assms by (cases "f = demo_d"; cases "f = demo_b") (auto simp: attachments_of_def)
  then have "depends L = {(demo_a, demo_d), (demo_a, demo_b)}" by (auto simp: depends_def split: if_splits)
  moreover have "(x, y) \<in> {(demo_a, demo_d), (demo_a, demo_b)}\<^sup>+ \<Longrightarrow> x = demo_a \<and> y \<noteq> demo_a" for x y
    by (induction rule: trancl_induct) auto
  ultimately show ?thesis by (auto simp: acyclic_def)
qed

theorem nothing_waits_witness:
  "\<exists>s i. run_sound files_cfg plain_names demo_read loader_new = Some s \<and> fmlookup (loads s) demo_a = Some (LoadedLoad i)"
proof -
  obtain s i j k where s: "run_sound files_cfg plain_names demo_read loader_new = Some s"
    "fmlookup (loads s) demo_a = Some (LoadedLoad i)" "fmlookup (loads s) demo_d = Some (LoadedLoad j)"
    "fmlookup (loads s) demo_b = Some (LoadedLoad k)" "attachments i = [demo_d, demo_b]" "attachments j = []" "attachments k = []"
    "\<And>f. f \<noteq> demo_a \<Longrightarrow> f \<noteq> demo_d \<Longrightarrow> f \<noteq> demo_b \<Longrightarrow> fmlookup (loads s) f = None"
    using demo_loaded by blast
  have "fmlookup (loads s) f \<noteq> Some (LoadingLoad x p r)" for f x p r
    using s(2-4) s(8) [of f] by (cases "f = demo_a"; cases "f = demo_d"; cases "f = demo_b") auto
  then have "info (loads s) demo_a = Some i \<longrightarrow> fmlookup (loads s) demo_a = Some (LoadedLoad i)"
    using nothing_waits [OF demo_lives [OF s(1)] demo_depends [OF s(2-8)], of demo_a i] by blast
  then show ?thesis using s(1,2) by auto
qed

theorem nothing_leaked_witness:
  "\<exists>s. run_sound files_cfg plain_names (demo_read @ [MessageUnloadIndependent 9]) loader_new = Some s \<and> loads s = fmempty"
proof -
  obtain s where s: "run_sound files_cfg plain_names (demo_read @ [MessageUnloadIndependent 9]) loader_new = Some s"
    "\<And>f. fmlookup (loads s) f = None" using demo_unloaded by blast
  then have "depends (loads s) = {}" by (simp add: depends_def attachments_of_def)
  then have "acyclic (depends (loads s))" by (simp add: acyclic_def)
  then show ?thesis using nothing_leaked [OF demo_lives [OF s(1)]] s by auto
qed

theorem loader_delays_messages_witness:
  "loader_updates files_cfg plain_names ([MessageRegisterFiletype 7 1] @ [MessageFileScan 5 [] []])
      ((loader_new :: unit loader)\<lparr>scanning_directory := 5\<rparr>) =
    map_option (\<lambda>t. t\<lparr>delayed_messages := []\<rparr>) (run_messages files_cfg plain_names [MessageFileScan 5 [] [], MessageRegisterFiletype 7 1]
      (loader_new\<lparr>scanning_directory := 5, delayed_messages := [MessageRegisterFiletype 7 1]\<rparr>))"
  using loader_delays_messages [of "(loader_new :: unit loader)\<lparr>scanning_directory := 5\<rparr>" "MessageFileScan 5 [] []" "[MessageRegisterFiletype 7 1]" files_cfg plain_names]
  by (simp add: loader_new_def is_scan_of_def is_register_library_def)

theorem loader_delayed_overrun_witness:
  "loader_update files_cfg plain_names (MessageFileScan 5 [] []) ((loader_new :: unit loader)\<lparr>scanning_directory := 5,
    delayed_messages := [MessageRegisterLibrary 6, MessageFileScan 6 [] []]\<rparr>) = None"
  (is "loader_update _ _ _ ?s = None")
proof -
  obtain t where "run_messages files_cfg plain_names [MessageFileScan 5 [] [], MessageRegisterLibrary 6, MessageFileScan 6 [] []] ?s = Some t"
    by (simp add: loader_new_def file_scan_def)
  then show ?thesis
    using loader_delayed_overrun [of ?s "MessageFileScan 5 [] []" 6 "[]" "[]" files_cfg plain_names t] by (simp add: is_scan_of_def)
qed

text \<open>A file that is being loaded, one that is loaded, and the radical of the latter.\<close>

definition demo_info :: load_info where
  "demo_info = \<lparr>l_filetype = 7, l_directory = 5, l_radical = 1, l_filepath = ''a'', l_call = 0, owners = [0], attachments = [], att_cap = 0\<rparr>"

definition demo_state :: "unit loader" where
  "demo_state = loader_new\<lparr>loads := fmupd 1 (LoadingLoad demo_info (- 1) 0x80000000) (fmupd 2 (LoadedLoad demo_info) fmempty),
    files := [2 \<mapsto> UniqueFile 5 ''d.x'' [], 3 \<mapsto> RadicalFile 5 2, 4 \<mapsto> UniqueFile 5 ''b'' [], 6 \<mapsto> RadicalFile 5 4], tags := [9 \<mapsto> 1]\<rparr>"

lemmas demo_defs = demo_state_def demo_info_def loader_new_def find_underlying_load_def find_underlying_file_def count_of_def

theorem radical_dependency_stalls_witness:
  "\<exists>s1 s2 k. load_dependency files_cfg 1 3 7 () demo_state = Some s1 \<and> load_done 1 s1 = Some s2 \<and>
    fmlookup (loads s2) 1 = Some (LoadingLoad k (- 1) 1) \<and> set (attachments k) \<subseteq> {a. loaded (loads s2) a} \<and> load_done 2 s2 = Some s2"
  using radical_dependency_stalls [of demo_state 1 demo_info "- 1" "0x80000000" 1 _ 3 2 5 "''d.x''" "[]" demo_info 7 files_cfg "()"]
  by (simp add: demo_defs)

theorem lost_dependency_counted_witness:
  "\<exists>s1 k r'. load_dependency files_cfg 1 4 8 () demo_state = Some s1 \<and> fmlookup (loads s1) 4 = None \<and>
    fmlookup (loads s1) 1 = Some (LoadingLoad k (- 1) r') \<and> count_of r' = count_of 0x80000000 + 1 \<and> 4 \<in> set (waiting_part k r')"
  using lost_dependency_counted [of demo_state 1 demo_info "- 1" "0x80000000" 1 _ 4 5 "''b''" "[]" 8 files_cfg "()"]
  by (simp add: demo_defs)

theorem tag_not_reusable_witness:
  "\<exists>s1. unload_independent 9 demo_state = Some s1 \<and> (\<forall>s2. load_independent 9 2 7 () s1 = Some s2 \<longrightarrow> s2 = s1)"
proof -
  obtain s1 where "unload_independent 9 demo_state = Some s1"
    by (simp add: unload_independent_def demo_defs remove_file_def load_info_of_def erase_at_def global_def remove_attachments.simps)
  moreover have "tags demo_state 9 = Some 1" by (simp add: demo_state_def)
  ultimately show ?thesis using tag_not_reusable [of demo_state 9 1 s1 2 7 "()"] by blast
qed

theorem unregistered_radical_poisoned_witness:
  "\<exists>s1 s2. load_independent 10 6 8 () demo_state = Some s1 \<and>
    load_independent 11 6 8 () (s1\<lparr>filetypes := [8 \<mapsto> 0]\<rparr>) = Some s2 \<and>
    fmlookup (loads s1) 6 = Some (RadicalLoad 4) \<and> loads s2 = loads s1 \<and> requests s2 = requests demo_state"
  using unregistered_radical_poisoned [of demo_state 6 4 10 5 "''b''" "[]" 8 11 "()" 8 "()" "[8 \<mapsto> 0]"]
  by (simp add: demo_defs)

end
