(* ===== verification/Serialization.thy ===== *)
theory Serialization
  imports Prelude "HOL-Library.Char_ord" "HOL-Library.Sublist"
begin

text \<open>
  What the readers and writers of texts share (\<open>core/serialization.hpp\<close>,
  \<open>utility/lookup_table.hpp\<close>, \<open>core/error.hpp\<close>): the tables that name the members of a class
  and the values of an enumeration, the types and values those tables describe, and access to a
  text through a pointer to its end.

  The readers of the program work on \<open>end + size\<close> with \<open>size\<close> negative; a result of zero means that
  the text is used up and a positive one is an error code.  Sizes are therefore integers, the text
  is a list of bytes (\<^typ>\<open>char\<close>), and an access outside of it is \<open>None\<close>.

  A C++ type with a lookup table is a \<open>ty\<close>: the keys of the table beside the types of its values,
  as the table itself has them.  Number types are numbered, since only the conversion routines tell
  them apart.  The string and conversion routines of the libraries \<open>ful\<close> and \<open>fio\<close> are not part of
  the repository and are the fields of a record that every definition takes.
\<close>

section \<open>Types and values\<close>

type_synonym ssize = int

datatype ty =
    TBool
  | TNum nat
  | TEnum "string list" "nat list"
  | TString
  | TClass "string list" "ty list"
  | TArray ty
  | TTuple "ty list"
  | TVector ty
  | TOptional ty

datatype 'n val =
    VBool bool
  | VNum 'n
  | VEnum nat
  | VString string
  | VClass "'n val list"
  | VArray "'n val list"
  | VTuple "'n val list"
  | VOptional "'n val option"

text \<open>A value-initialised object of a type: what \<open>emplace_back()\<close> and \<open>emplace()\<close> construct.\<close>

primrec init :: "ty \<Rightarrow> ('n::zero) val" where
  "init TBool = VBool False"
| "init (TNum k) = VNum 0"
| "init (TEnum keys values) = VEnum 0"
| "init TString = VString []"
| "init (TClass keys ts) = VClass (map init ts)"
| "init (TArray t) = VArray []"
| "init (TTuple ts) = VTuple (map init ts)"
| "init (TVector t) = init t"
| "init (TOptional t) = VOptional None"

text \<open>The values a type has.\<close>

fun conforms :: "ty \<Rightarrow> 'n val \<Rightarrow> bool" and conforms_all :: "ty list \<Rightarrow> 'n val list \<Rightarrow> bool" where
  "conforms TBool (VBool b) = True"
| "conforms (TNum k) (VNum n) = True"
| "conforms (TEnum keys values) (VEnum v) = True"
| "conforms TString (VString s) = True"
| "conforms (TClass keys ts) (VClass vs) = conforms_all ts vs"
| "conforms (TArray t) (VArray vs) = conforms_all (map (\<lambda>_. t) vs) vs"
| "conforms (TTuple ts) (VTuple vs) = conforms_all ts vs"
| "conforms (TVector t) v = conforms t v"
| "conforms (TOptional t) (VOptional None) = True"
| "conforms (TOptional t) (VOptional (Some v)) = conforms t v"
| "conforms _ _ = False"
| "conforms_all [] [] = True"
| "conforms_all (t # ts) (v # vs) = (conforms t v \<and> conforms_all ts vs)"
| "conforms_all _ _ = False"

text \<open>Types whose tables are tables: as many keys as values, and no empty tuple (its reader would
  take the element with the index \<open>-1\<close> and does not compile).  A class has at most 128 members:
  the dispatch on the index of a member has that many cases, and any other index is unreachable
  code.\<close>

primrec wf_ty :: "ty \<Rightarrow> bool" where
  "wf_ty TBool = True"
| "wf_ty (TNum k) = True"
| "wf_ty (TEnum keys values) = (length keys = length values)"
| "wf_ty TString = True"
| "wf_ty (TClass keys ts) = (length keys = length ts \<and> length keys \<le> 128 \<and> list_all id (map wf_ty ts))"
| "wf_ty (TArray t) = wf_ty t"
| "wf_ty (TTuple ts) = (ts \<noteq> [] \<and> list_all id (map wf_ty ts))"
| "wf_ty (TVector t) = wf_ty t"
| "wf_ty (TOptional t) = wf_ty t"

section \<open>Lookup tables\<close>

text \<open>\<open>find\<close> and \<open>find_value\<close> give the first index, or \<open>-1\<close>, here \<open>None\<close>.\<close>

fun find_impl :: "'a list \<Rightarrow> nat \<Rightarrow> 'a \<Rightarrow> nat option" where
  "find_impl [] i key = None"
| "find_impl (k # keys) i key = (if k = key then Some i else find_impl keys (Suc i) key)"

definition table_find :: "'a list \<Rightarrow> 'a \<Rightarrow> nat option" where
  "table_find keys key = find_impl keys 0 key"

definition table_get :: "'a list \<Rightarrow> nat \<Rightarrow> 'a option" where
  "table_get values i = (if i < length values then Some (values ! i) else None)"

definition value_get_key :: "string list \<Rightarrow> nat list \<Rightarrow> nat \<Rightarrow> string option" where
  "value_get_key keys values v = do {
     i \<leftarrow> table_find values v;
     table_get keys i }"

section \<open>Access to a text\<close>

definition byte_at :: "string \<Rightarrow> ssize \<Rightarrow> char option" where
  "byte_at s sz =
     (if - int (length s) \<le> sz \<and> sz < 0 then Some (s ! nat (int (length s) + sz)) else None)"

definition view :: "string \<Rightarrow> ssize \<Rightarrow> ssize \<Rightarrow> string option" where
  "view s a b =
     (if - int (length s) \<le> a \<and> a \<le> b \<and> b \<le> 0
      then Some (take (nat (b - a)) (drop (nat (int (length s) + a)) s)) else None)"

definition load_le :: "string \<Rightarrow> ssize \<Rightarrow> nat \<Rightarrow> nat option" where
  "load_le s sz n = map_option (horner_sum of_char 256) (view s sz (sz + int n))"

section \<open>Errors\<close>

record text_error =
  te_where :: ssize
  te_message :: string
  te_type :: "ty option"

section \<open>Library routines\<close>

text \<open>
  \<open>ful_find r c\<close> is \<open>ful::find(first, last, c) - first\<close> on the bytes \<open>r\<close> of the range;
  \<open>fio_from_chars k r x\<close> is the number of bytes of \<open>r\<close> that \<open>fio::from_chars\<close> uses for a number of
  type \<open>k\<close> and the number afterwards; \<open>fio_to_chars k x\<close> are the bytes \<open>fio::to_chars\<close> writes, or
  \<open>None\<close> for a null result; \<open>ful_copy data buf size\<close> is the buffer and the result of
  \<open>ful::copy(data, end + size, end)\<close>; \<open>ful_first s n\<close> is \<open>ful::first(s, n)\<close>.
\<close>

record 'n lib =
  ful_find :: "string \<Rightarrow> char \<Rightarrow> nat"
  fio_from_chars :: "nat \<Rightarrow> string \<Rightarrow> 'n \<Rightarrow> nat \<times> 'n"
  fio_to_chars :: "nat \<Rightarrow> 'n \<Rightarrow> string option"
  ful_copy :: "string \<Rightarrow> string \<Rightarrow> ssize \<Rightarrow> string \<times> ssize option"
  ful_first :: "string \<Rightarrow> nat \<Rightarrow> string"

text \<open>What reading relies on: a search finds the first occurrence or the end, and a conversion
  returns a pointer into its range.\<close>

definition reads_ok :: "('n, 'z) lib_scheme \<Rightarrow> bool" where
  "reads_ok L \<longleftrightarrow>
     (\<forall>r c. ful_find L r c = length (takeWhile (\<lambda>d. d \<noteq> c) r)) \<and>
     (\<forall>k r x. fst (fio_from_chars L k r x) \<le> length r)"

lemma ful_find_eq: "reads_ok L \<Longrightarrow> ful_find L r c = length (takeWhile (\<lambda>d. d \<noteq> c) r)"
  by (simp add: reads_ok_def)

lemma from_chars_le: "reads_ok L \<Longrightarrow> fio_from_chars L k r x = (n, y) \<Longrightarrow> n \<le> length r"
  unfolding reads_ok_def by (metis fst_conv)

section \<open>Facts\<close>

lemma conforms_all_iff:
  "conforms_all ts vs \<longleftrightarrow> length ts = length vs \<and> (\<forall>i < length ts. conforms (ts ! i) (vs ! i))"
proof (induction ts vs rule: list_induct2')
  case (4 t ts v vs)
  then show ?case by (auto simp: nth_Cons split: nat.splits)
qed simp_all

lemma conforms_all_replicate:
  "conforms_all (map (\<lambda>_. t) vs) vs \<longleftrightarrow> (\<forall>v \<in> set vs. conforms t v)"
  by (induction vs) auto

lemma conforms_init: "wf_ty t \<Longrightarrow> conforms t (init t)"
  by (induction t) (auto simp: conforms_all_iff list_all_iff)

lemma find_impl_bounds:
  "find_impl keys i key = Some j \<Longrightarrow> i \<le> j \<and> j < i + length keys \<and> keys ! (j - i) = key"
proof (induction keys arbitrary: i)
  case (Cons k keys)
  show ?case
  proof (cases "k = key")
    case True
    then show ?thesis using Cons.prems by simp
  next
    case False
    then have "find_impl keys (Suc i) key = Some j" using Cons.prems by simp
    from Cons.IH [OF this] show ?thesis by (auto simp: nth_Cons' diff_Suc split: nat.splits)
  qed
qed simp

lemma table_findD: "table_find keys key = Some j \<Longrightarrow> j < length keys \<and> keys ! j = key"
  using find_impl_bounds [of keys 0 key j] by (simp add: table_find_def)

lemma find_impl_distinct:
  "distinct keys \<Longrightarrow> j < length keys \<Longrightarrow> find_impl keys i (keys ! j) = Some (i + j)"
proof (induction keys arbitrary: i j)
  case (Cons k keys)
  then show ?case by (cases j) (auto simp: nth_mem)
qed simp

lemma table_find_distinct:
  "distinct keys \<Longrightarrow> j < length keys \<Longrightarrow> table_find keys (keys ! j) = Some j"
  by (simp add: table_find_def find_impl_distinct)

lemma byte_at_Some_iff: "(\<exists>c. byte_at s sz = Some c) \<longleftrightarrow> - int (length s) \<le> sz \<and> sz < 0"
  by (simp add: byte_at_def)

lemma byte_at_in: "- int (length s) \<le> sz \<Longrightarrow> sz < 0 \<Longrightarrow> byte_at s sz = Some (s ! nat (int (length s) + sz))"
  by (simp add: byte_at_def)

lemma view_in:
  "- int (length s) \<le> a \<Longrightarrow> a \<le> b \<Longrightarrow> b \<le> 0 \<Longrightarrow>
   view s a b = Some (take (nat (b - a)) (drop (nat (int (length s) + a)) s))"
  by (simp add: view_def)

subsection \<open>The rest of a text\<close>

text \<open>A size names the rest of the text that it leaves.\<close>

definition left :: "string \<Rightarrow> ssize" where
  "left r = - int (length r)"

lemma left_simps [simp]:
  "left [] = 0"
  "left (c # r) + 1 = left r"
  "left (c # r) < 0"
  "(0 \<le> left r) = (r = [])"
  "(left r < 0) = (r \<noteq> [])"
  "left r \<le> 0"
  "nat (- left r) = length r"
  "left (a @ r) + int (length a) = left r"
  "(left r = 0) = (r = [])"
  by (simp_all add: left_def)

lemma left_le: "suffix r s \<Longrightarrow> - int (length s) \<le> left r"
  by (simp add: left_def suffix_length_le)

lemma drop_suffix: "suffix r s \<Longrightarrow> drop (nat (int (length s) + left r)) s = r"
  by (auto simp: left_def suffix_def)

lemma suffix_split: "suffix (a @ r) s \<Longrightarrow> suffix r s"
  by (rule suffix_appendD)

lemma byte_at_suffix: "suffix (c # r) s \<Longrightarrow> byte_at s (left (c # r)) = Some c"
  by (auto simp: byte_at_def left_def suffix_def nth_append)

lemma view_suffix: "suffix (w @ r) s \<Longrightarrow> view s (left (w @ r)) (left r) = Some w"
  using left_le [of "w @ r" s] drop_suffix [of "w @ r" s] by (simp add: view_def left_def)

lemma load_le_suffix:
  "suffix (w @ r) s \<Longrightarrow> length w = n \<Longrightarrow> load_le s (left (w @ r)) n = Some (horner_sum of_char 256 w)"
  using view_suffix [of w r s] left_simps(8) [of w r] by (simp add: load_le_def)

section \<open>A concrete library\<close>

text \<open>
  An instance of the library routines, with integers in decimal notation, on which the theorems
  about readers and writers are evaluated.
\<close>

definition digit :: "nat \<Rightarrow> char" where
  "digit d = char_of (48 + d)"

definition is_digit :: "char \<Rightarrow> bool" where
  "is_digit c \<longleftrightarrow> 48 \<le> (of_char c :: nat) \<and> of_char c \<le> (57 :: nat)"

fun dec_nat :: "nat \<Rightarrow> string" where
  "dec_nat n = (if n < 10 then [digit n] else dec_nat (n div 10) @ [digit (n mod 10)])"

definition dec_int :: "int \<Rightarrow> string" where
  "dec_int i = (if i < 0 then CHR ''-'' # dec_nat (nat (- i)) else dec_nat (nat i))"

definition value_of :: "string \<Rightarrow> nat" where
  "value_of ds = foldl (\<lambda>a c. 10 * a + (of_char c - 48)) 0 ds"

definition scan_int :: "string \<Rightarrow> int \<Rightarrow> nat \<times> int" where
  "scan_int r x =
     (case r of [] \<Rightarrow> (0, x)
      | c # cs \<Rightarrow>
        if c = CHR ''-'' then
          (let ds = takeWhile is_digit cs in
           if ds = [] then (0, x) else (Suc (length ds), - int (value_of ds)))
        else
          (let ds = takeWhile is_digit r in
           if ds = [] then (0, x) else (length ds, int (value_of ds))))"

definition copy_bytes :: "string \<Rightarrow> string \<Rightarrow> ssize \<Rightarrow> string \<times> ssize option" where
  "copy_bytes data buf sz =
     (if - int (length buf) \<le> sz \<and> sz + int (length data) \<le> 0
      then (take (nat (int (length buf) + sz)) buf @ data @ drop (nat (int (length buf) + sz) + length data) buf,
            Some (sz + int (length data)))
      else (buf, None))"

definition dec_lib :: "int lib" where
  "dec_lib = \<lparr>ful_find = (\<lambda>r c. length (takeWhile (\<lambda>d. d \<noteq> c) r)),
     fio_from_chars = (\<lambda>k. scan_int), fio_to_chars = (\<lambda>k x. Some (dec_int x)),
     ful_copy = copy_bytes, ful_first = (\<lambda>s n. take n s)\<rparr>"

lemma scan_int_le: "fst (scan_int r x) \<le> length r"
  using length_takeWhile_le [of is_digit]
  by (auto simp: scan_int_def Let_def split: list.splits)

lemma dec_lib_reads_ok: "reads_ok dec_lib"
  by (simp add: reads_ok_def dec_lib_def scan_int_le)

lemma of_char_digit: "d < 10 \<Longrightarrow> of_char (digit d) = 48 + d"
  by (simp add: digit_def)

lemma value_of_snoc: "value_of (ds @ [c]) = 10 * value_of ds + (of_char c - 48)"
  by (simp add: value_of_def)

declare dec_nat.simps [simp del]

lemma dec_nat_read:
  "value_of (dec_nat n) = n \<and> (\<forall>c \<in> set (dec_nat n). is_digit c) \<and> dec_nat n \<noteq> []"
proof (induction n rule: dec_nat.induct)
  case (1 n)
  have d: "is_digit (digit m)" if "m < 10" for m
    using that by (simp add: is_digit_def of_char_digit)
  show ?case
  proof (cases "n < 10")
    case True
    then show ?thesis
      using d by (subst (1 2 3) dec_nat.simps) (simp add: value_of_def of_char_digit)
  next
    case False
    then have "value_of (dec_nat (n div 10)) = n div 10 \<and> (\<forall>c \<in> set (dec_nat (n div 10)). is_digit c)"
      using 1 by blast
    then show ?thesis
      using False d
      by (subst (1 2 3) dec_nat.simps) (auto simp: value_of_snoc of_char_digit)
  qed
qed

lemma dec_nat_hd: "dec_nat n \<noteq> [] \<and> is_digit (hd (dec_nat n))"
  using dec_nat_read [of n] hd_in_set [of "dec_nat n"] by blast

lemma takeWhile_all_stop:
  "\<forall>c \<in> set ds. P c \<Longrightarrow> \<not> (r \<noteq> [] \<and> P (hd r)) \<Longrightarrow> takeWhile P (ds @ r) = ds"
  by (cases r) (auto simp: takeWhile_append)

lemma scan_dec_int:
  assumes "\<not> (r \<noteq> [] \<and> is_digit (hd r))"
  shows "scan_int (dec_int i @ r) x = (length (dec_int i), i)"
proof -
  have n: "takeWhile is_digit (dec_nat n @ r) = dec_nat n" "dec_nat n \<noteq> []" "value_of (dec_nat n) = n" for n
    using dec_nat_read [of n] takeWhile_all_stop [of "dec_nat n" is_digit r] assms by blast+
  have h: "hd (dec_nat n) \<noteq> CHR ''-''" for n
    using dec_nat_hd [of n] by (auto simp: is_digit_def)
  show ?thesis
  proof (cases "i < 0")
    case True
    then show ?thesis using n [of "nat (- i)"] by (simp add: scan_int_def dec_int_def Let_def)
  next
    case False
    obtain c cs where c: "dec_nat (nat i) = c # cs" using n(2) by (cases "dec_nat (nat i)") auto
    then have "c \<noteq> CHR ''-''" using h [of "nat i"] by simp
    then show ?thesis using False n(1,3) [of "nat i"] c by (simp add: scan_int_def dec_int_def Let_def)
  qed
qed

lemma dec_int_start: "dec_int i \<noteq> [] \<and> (32 :: nat) < of_char (hd (dec_int i))"
  using dec_nat_hd [of "nat i"] by (auto simp: dec_int_def is_digit_def)

end
