(* ===== verification/Text_Reader.thy ===== *)
theory Text_Reader
  imports Serialization
begin

text \<open>
  What the readers of JSON and INI texts share.  A result carries the new size, the error if one
  was reported, and the object that was passed by reference.  Every caller returns at once when a
  size is not negative; that pattern is \<open>and_then\<close>.  A good result is one that a caller can rely
  on, and a reader of a type is one whose results are good.
\<close>

section \<open>Results\<close>

type_synonym 'a parsed = "(ssize \<times> text_error option \<times> 'a) option"

text \<open>\<open>if (size >= 0) return size;\<close> after a call: the caller's object is then \<open>out a\<close>.\<close>

definition and_then :: "'a parsed \<Rightarrow> ('a \<Rightarrow> 'b) \<Rightarrow> (ssize \<Rightarrow> 'a \<Rightarrow> 'b parsed) \<Rightarrow> 'b parsed" where
  "and_then r out k = do {
     (sz, e, a) \<leftarrow> r;
     if sz \<ge> 0 then Some (sz, e, out a) else k sz a }"

lemma and_then_next [simp]: "sz < 0 \<Longrightarrow> and_then (Some (sz, e, a)) out k = k sz a"
  by (simp add: and_then_def)

lemma and_then_stop [simp]: "0 \<le> sz \<Longrightarrow> and_then (Some (sz, e, a)) out k = Some (sz, e, out a)"
  by (simp add: and_then_def)

type_synonym 'n reader = "ssize \<Rightarrow> 'n val \<Rightarrow> 'n val parsed"

text \<open>\<open>member_table::call\<close>: the object of the member that the index names is read in place.\<close>

definition member_call :: "'n reader list \<Rightarrow> nat \<Rightarrow> 'n reader" where
  "member_call rds i sz x =
     (case x of VClass vs \<Rightarrow>
        if i < 128 \<and> i < length rds \<and> i < length vs
        then map_option (\<lambda>(sz, e, y). (sz, e, VClass (vs[i := y]))) ((rds ! i) sz (vs ! i))
        else None
      | _ \<Rightarrow> None)"

text \<open>\<open>core::optional\<close>: the value that is there, or a new one.\<close>

definition read_optional :: "'n reader \<Rightarrow> 'n val \<Rightarrow> 'n reader" where
  "read_optional rd y sz x =
     (case x of VOptional v \<Rightarrow>
        map_option (\<lambda>(sz, e, y). (sz, e, VOptional (Some y))) (rd sz (case v of None \<Rightarrow> y | Some z \<Rightarrow> z))
      | _ \<Rightarrow> None)"

section \<open>Good results\<close>

text \<open>
  A good result: the object is as expected; a negative size is at least \<open>lo\<close> and comes without an
  error; zero comes without one; a positive size comes with one whose position is in the text.
\<close>

definition settled :: "string \<Rightarrow> ssize \<Rightarrow> ssize \<Rightarrow> text_error option \<Rightarrow> bool" where
  "settled s lo sz e =
     (case e of None \<Rightarrow> sz = 0 \<or> lo \<le> sz \<and> sz < 0
      | Some te \<Rightarrow> 0 < sz \<and> - int (length s) \<le> te_where te \<and> te_where te \<le> 0)"

definition good :: "string \<Rightarrow> ssize \<Rightarrow> ('a \<Rightarrow> bool) \<Rightarrow> 'a parsed \<Rightarrow> bool" where
  "good s lo P r = (case r of None \<Rightarrow> False | Some (sz, e, a) \<Rightarrow> P a \<and> settled s lo sz e)"

lemma good_intro:
  "P a \<Longrightarrow> lo \<le> sz \<Longrightarrow> sz \<le> 0 \<Longrightarrow> good s lo P (Some (sz, None, a))"
  by (auto simp: good_def settled_def)

lemma good_weaken: "good s lo P r \<Longrightarrow> lo' \<le> lo \<Longrightarrow> good s lo' P r"
  by (auto simp: good_def settled_def split: option.splits)

lemma good_and_then:
  assumes "good s lo P r"
    and "\<And>sz a. lo \<le> sz \<Longrightarrow> sz < 0 \<Longrightarrow> P a \<Longrightarrow> good s lo' Q (k sz a)"
    and "\<And>a. P a \<Longrightarrow> Q (out a)"
  shows "good s lo' Q (and_then r out k)"
proof -
  obtain sz e a where r: "r = Some (sz, e, a)" and P: "P a" and c: "settled s lo sz e"
    using assms(1) by (auto simp: good_def split: option.splits)
  show ?thesis
  proof (cases "sz < 0")
    case True
    then have "lo \<le> sz" using c by (auto simp: settled_def split: option.splits)
    then show ?thesis using assms(2) [of sz a] True P r by (simp add: and_then_def)
  next
    case False
    then have "settled s lo' sz e" using c by (auto simp: settled_def split: option.splits)
    then show ?thesis using False P r assms(3) [of a] by (simp add: and_then_def good_def)
  qed
qed

lemma good_map:
  assumes "good s lo P r" and "\<And>a. P a \<Longrightarrow> Q (f a)"
  shows "good s lo Q (map_option (\<lambda>(sz, e, y). (sz, e, f y)) r)"
  using assms by (auto simp: good_def split: option.splits)

lemma good_byte:
  assumes "- int (length s) \<le> sz" "sz < 0"
    and "\<And>c. byte_at s sz = Some c \<Longrightarrow> good s lo P (f c)"
  shows "good s lo P (do { c \<leftarrow> byte_at s sz; f c })"
  using assms by (simp add: byte_at_in)

text \<open>A reader of type \<open>t\<close> advances, keeps the type of its object and stays in the text.\<close>

definition reads_type :: "string \<Rightarrow> ty \<Rightarrow> 'n reader \<Rightarrow> bool" where
  "reads_type s t rd \<longleftrightarrow>
     (\<forall>sz x. - int (length s) \<le> sz \<longrightarrow> sz \<le> 0 \<longrightarrow> conforms t x \<longrightarrow> good s (sz + 1) (conforms t) (rd sz x))"

lemma reads_typeI:
  assumes "\<And>sz x. - int (length s) \<le> sz \<Longrightarrow> sz \<le> 0 \<Longrightarrow> conforms t x \<Longrightarrow> good s (sz + 1) (conforms t) (rd sz x)"
  shows "reads_type s t rd"
  using assms by (simp add: reads_type_def)

lemma reads_typeD:
  "reads_type s t rd \<Longrightarrow> - int (length s) \<le> sz \<Longrightarrow> sz \<le> 0 \<Longrightarrow> conforms t x \<Longrightarrow> good s (sz + 1) (conforms t) (rd sz x)"
  by (simp add: reads_type_def)

lemma conforms_inv:
  "conforms (TNum k) x \<Longrightarrow> \<exists>n. x = VNum n"
  "conforms (TClass keys ts) x \<Longrightarrow> \<exists>vs. x = VClass vs \<and> conforms_all ts vs"
  "conforms (TArray t) x \<Longrightarrow> \<exists>vs. x = VArray vs \<and> (\<forall>v \<in> set vs. conforms t v)"
  "conforms (TTuple ts) x \<Longrightarrow> \<exists>vs. x = VTuple vs \<and> conforms_all ts vs"
  "conforms (TOptional t) x \<Longrightarrow> \<exists>v. x = VOptional v \<and> (\<forall>y. v = Some y \<longrightarrow> conforms t y)"
  subgoal by (cases x) simp_all
  subgoal by (cases x) simp_all
  subgoal by (cases x) (simp_all add: conforms_all_replicate)
  subgoal by (cases x) simp_all
  subgoal by (cases x) (auto elim: conforms.elims)
  done

lemma conforms_all_update:
  "conforms_all ts vs \<Longrightarrow> i < length ts \<Longrightarrow> conforms (ts ! i) y \<Longrightarrow> conforms_all ts (vs[i := y])"
  by (auto simp: conforms_all_iff nth_list_update)

lemma reads_optional:
  fixes rd :: "'n reader"
  assumes "reads_type s t rd" "conforms t y"
  shows "reads_type s (TOptional t) (read_optional rd y)"
proof (rule reads_typeI)
  fix sz and x :: "'n val"
  assume a: "- int (length s) \<le> sz" "sz \<le> 0" "conforms (TOptional t) x"
  obtain v where v: "x = VOptional v" "\<forall>y. v = Some y \<longrightarrow> conforms t y"
    using conforms_inv(5) [OF a(3)] by blast
  have "conforms t (case v of None \<Rightarrow> y | Some z \<Rightarrow> z)" using v assms(2) by (cases v) auto
  then have "good s (sz + 1) (conforms t) (rd sz (case v of None \<Rightarrow> y | Some z \<Rightarrow> z))"
    by (rule reads_typeD [OF assms(1) a(1,2)])
  then show "good s (sz + 1) (conforms (TOptional t)) (read_optional rd y sz x)"
    by (auto simp: read_optional_def v intro!: good_map)
qed

lemma good_call:
  assumes "list_all2 (reads_type s) ts rds" "i < length rds"
    and "- int (length s) \<le> sz" "sz \<le> 0" "conforms_all ts vs"
  shows "good s (sz + 1) (conforms_all ts) (map_option (\<lambda>(sz, e, y). (sz, e, vs[i := y])) ((rds ! i) sz (vs ! i)))"
proof -
  have len: "length ts = length rds" "reads_type s (ts ! i) (rds ! i)"
    using assms(1,2) by (auto simp: list_all2_conv_all_nth)
  have "conforms (ts ! i) (vs ! i)" using assms len by (simp add: conforms_all_iff)
  then have "good s (sz + 1) (conforms (ts ! i)) ((rds ! i) sz (vs ! i))"
    using reads_typeD len(2) assms(3,4) by blast
  then show ?thesis by (rule good_map) (use assms len in \<open>simp add: conforms_all_update\<close>)
qed

lemma good_member_call:
  assumes "list_all2 (reads_type s) ts rds" "i < length rds" "i < 128"
    and "- int (length s) \<le> sz" "sz \<le> 0" "conforms (TClass keys ts) x"
  shows "good s (sz + 1) (conforms (TClass keys ts)) (member_call rds i sz x)"
proof -
  obtain vs where vs: "x = VClass vs" "conforms_all ts vs" using conforms_inv(2) [OF assms(6)] by blast
  have "good s (sz + 1) (conforms (TClass keys ts)) (map_option (\<lambda>(sz, e, y). (sz, e, VClass y))
     (map_option (\<lambda>(sz, e, y). (sz, e, vs[i := y])) ((rds ! i) sz (vs ! i))))"
    by (rule good_map [OF good_call [OF assms(1,2,4,5) vs(2)]]) simp
  moreover have "i < length vs" using vs assms(1,2) by (auto simp: conforms_all_iff dest: list_all2_lengthD)
  ultimately show ?thesis using assms(2,3) vs(1)
    by (simp add: member_call_def option.map_comp comp_def case_prod_unfold)
qed

end
