(* ===== verification/Json_Structurer.thy ===== *)
theory Json_Structurer
  imports Text_Reader
begin

text \<open>
  The reader of JSON texts (\<open>core/JsonStructurer.hpp\<close>): one definition for every overload of
  \<open>read_value\<close>, composed by recursion over the type that is read, as overload resolution does.

  The two loops over a text take fuel, the number of bytes left when they start;
  \<open>json_read_total\<close> shows that it is enough, and that no access leaves the text.
\<close>

section \<open>Errors\<close>

datatype json_error =
    j_unexpected_eof | j_unexpected_error | j_unexpected_key | j_unexpected_symbol
  | j_unexpected_value | j_expected_array | j_expected_less | j_expected_more | j_expected_object
  | j_expected_string

fun json_code :: "json_error \<Rightarrow> ssize" where
  "json_code j_unexpected_eof = 1"
| "json_code j_unexpected_error = 2"
| "json_code j_unexpected_key = 3"
| "json_code j_unexpected_symbol = 4"
| "json_code j_unexpected_value = 5"
| "json_code j_expected_array = 6"
| "json_code j_expected_less = 7"
| "json_code j_expected_more = 8"
| "json_code j_expected_object = 9"
| "json_code j_expected_string = 10"

fun json_message :: "json_error \<Rightarrow> string option" where
  "json_message j_unexpected_eof = Some ''unexpected end of file''"
| "json_message j_unexpected_error = Some ''unexpected error''"
| "json_message j_unexpected_key = Some ''unexpected key''"
| "json_message j_unexpected_symbol = Some ''unexpected symbol''"
| "json_message j_expected_array = Some ''expected array''"
| "json_message j_expected_less = Some ''expected less''"
| "json_message j_expected_more = Some ''expected more''"
| "json_message j_expected_object = Some ''expected object''"
| "json_message j_expected_string = Some ''expected string''"
| "json_message j_unexpected_value = None"

definition json_fail :: "json_error \<Rightarrow> ssize \<Rightarrow> 'a \<Rightarrow> 'a parsed" where
  "json_fail E sz x = do {
     m \<leftarrow> json_message E;
     Some (json_code E, Some \<lparr>te_where = sz, te_message = m, te_type = None\<rparr>, x) }"

definition json_fail_for :: "json_error \<Rightarrow> ssize \<Rightarrow> ty \<Rightarrow> 'a \<Rightarrow> 'a parsed" where
  "json_fail_for E sz t x =
     (if E = j_unexpected_value
      then Some (json_code E, Some \<lparr>te_where = sz, te_message = ''unexpected value'', te_type = Some t\<rparr>, x)
      else None)"

section \<open>Scanning\<close>

function json_skip_whitespace :: "string \<Rightarrow> ssize \<Rightarrow> unit parsed" where
  "json_skip_whitespace s sz =
     (if sz \<ge> 0 then json_fail j_unexpected_eof sz ()
      else do {
        c \<leftarrow> byte_at s sz;
        if of_char c \<le> (32 :: nat) then json_skip_whitespace s (sz + 1)
        else Some (sz, None, ()) })"
  by pat_completeness auto
termination by (relation "measure (\<lambda>(s, sz). nat (- sz))") auto

declare json_skip_whitespace.simps [simp del]

function read_string_loop :: "('n, 'z) lib_scheme \<Rightarrow> string \<Rightarrow> ssize \<Rightarrow> unit parsed" where
  "read_string_loop L s sz = (let found = sz + int (ful_find L (drop (nat (int (length s) + sz)) s) (CHR 0x22)) in
     if found = 0 then json_fail j_unexpected_eof sz ()
     else do {
       b1 \<leftarrow> byte_at s (found - 1);
       if b1 \<noteq> CHR 0x5C then Some (found, None, ())
       else do {
         b2 \<leftarrow> byte_at s (found - 2);
         if b2 = CHR 0x5C then do {
           b3 \<leftarrow> byte_at s (found - 3);
           if b3 \<noteq> CHR 0x5C then Some (found, None, ())
           else do {
             b4 \<leftarrow> byte_at s (found - 4);
             if b4 = CHR 0x5C then json_fail j_unexpected_error found ()
             else read_string_loop L s (found + 1) } }
         else read_string_loop L s (found + 1) } })"
  by pat_completeness auto
termination
  by (relation "measure (\<lambda>(L, s, sz). nat (1 - sz))") (auto simp: byte_at_def split: if_splits)

declare read_string_loop.simps [simp del]

definition read_string :: "('n, 'z) lib_scheme \<Rightarrow> string \<Rightarrow> ssize \<Rightarrow> string parsed" where
  "read_string L s sz = do {
     c \<leftarrow> byte_at s sz;
     if c \<noteq> CHR 0x22 then json_fail j_expected_string sz []
     else and_then (read_string_loop L s (sz + 1)) (\<lambda>_. []) (\<lambda>last _. do {
       str \<leftarrow> view s (sz + 1) last;
       Some (last, None, str) }) }"

section \<open>Reading values\<close>

definition read_bool :: "string \<Rightarrow> 'n reader" where
  "read_bool s sz x =
     and_then (json_skip_whitespace s sz) (\<lambda>_. x) (\<lambda>sz _. do {
       is_true \<leftarrow> (if sz \<le> - 4 then do { w \<leftarrow> load_le s sz 4; Some (w = 0x65757274) } else Some False);
       if is_true then Some (sz + 4, None, VBool True)
       else do {
         is_false \<leftarrow> (if sz \<le> - 5 then do {
             w \<leftarrow> load_le s sz 4;
             if w = 0x736c6166 then do { c \<leftarrow> byte_at s (sz + 4); Some (c = CHR ''e'') } else Some False }
           else Some False);
         if is_false then Some (sz + 5, None, VBool False)
         else json_fail_for j_unexpected_value sz TBool x } })"

definition read_number :: "('n, 'z) lib_scheme \<Rightarrow> nat \<Rightarrow> string \<Rightarrow> 'n reader" where
  "read_number L k s sz x =
     and_then (json_skip_whitespace s sz) (\<lambda>_. x) (\<lambda>sz _.
       case x of VNum y \<Rightarrow>
         (let (n, y') = fio_from_chars L k (drop (nat (int (length s) + sz)) s) y in
          if n > 0 then Some (sz + int n, None, VNum y')
          else json_fail_for j_unexpected_value sz (TNum k) (VNum y'))
       | _ \<Rightarrow> None)"

definition read_enum ::
    "('n, 'z) lib_scheme \<Rightarrow> string list \<Rightarrow> nat list \<Rightarrow> string \<Rightarrow> 'n reader" where
  "read_enum L keys values s sz x =
     and_then (json_skip_whitespace s sz) (\<lambda>_. x) (\<lambda>sz _.
     and_then (read_string L s sz) (\<lambda>_. x) (\<lambda>len str.
       case table_find keys str of
         Some i \<Rightarrow> do { v \<leftarrow> table_get values i; Some (len + 1, None, VEnum v) }
       | None \<Rightarrow> json_fail_for j_unexpected_value sz (TEnum keys values) x))"

definition read_str :: "('n, 'z) lib_scheme \<Rightarrow> string \<Rightarrow> 'n reader" where
  "read_str L s sz x =
     and_then (json_skip_whitespace s sz) (\<lambda>_. x) (\<lambda>sz _.
     and_then (read_string L s sz) (\<lambda>_. x) (\<lambda>sz str.
       Some (sz + 1, None, VString str)))"

fun members_loop ::
    "nat \<Rightarrow> ('n, 'z) lib_scheme \<Rightarrow> string list \<Rightarrow> 'n reader list \<Rightarrow> string \<Rightarrow> 'n reader" where
  "members_loop 0 L keys rds s sz x = None"
| "members_loop (Suc n) L keys rds s sz x =
     and_then (json_skip_whitespace s (sz + 1)) (\<lambda>_. x) (\<lambda>sz _.
     and_then (read_string L s sz) (\<lambda>_. x) (\<lambda>len key.
       case table_find keys key of
         None \<Rightarrow> json_fail j_unexpected_key sz x
       | Some i \<Rightarrow>
         and_then (json_skip_whitespace s (len + 1)) (\<lambda>_. x) (\<lambda>sz _. do {
           c \<leftarrow> byte_at s sz;
           if c \<noteq> CHR '':'' then json_fail j_unexpected_symbol sz x
           else
             and_then (member_call rds i (sz + 1) x) id (\<lambda>sz x.
             and_then (json_skip_whitespace s sz) (\<lambda>_. x) (\<lambda>sz _. do {
               c \<leftarrow> byte_at s sz;
               if c = CHR '','' then members_loop n L keys rds s sz x
               else if c \<noteq> CHR ''}'' then json_fail j_unexpected_symbol sz x
               else Some (sz + 1, None, x) })) })))"

definition read_class ::
    "('n, 'z) lib_scheme \<Rightarrow> string list \<Rightarrow> 'n reader list \<Rightarrow> string \<Rightarrow> 'n reader" where
  "read_class L keys rds s sz x =
     and_then (json_skip_whitespace s sz) (\<lambda>_. x) (\<lambda>sz _. do {
       c \<leftarrow> byte_at s sz;
       if c \<noteq> CHR ''{'' then json_fail j_expected_object sz x
       else members_loop (nat (- sz)) L keys rds s sz x })"

text \<open>\<open>grow_range\<close> appends a value-initialised element and returns its address, which is never null
  for the standard vector.\<close>

definition grow_range :: "'n val \<Rightarrow> 'n val \<Rightarrow> 'n val option" where
  "grow_range y x = (case x of VArray vs \<Rightarrow> Some (VArray (vs @ [y])) | _ \<Rightarrow> None)"

definition last_call :: "'n reader \<Rightarrow> 'n reader" where
  "last_call rd sz x =
     (case x of VArray vs \<Rightarrow>
        if vs = [] then None
        else map_option (\<lambda>(sz, e, y). (sz, e, VArray (butlast vs @ [y]))) (rd sz (last vs))
      | _ \<Rightarrow> None)"

fun elements_loop :: "nat \<Rightarrow> 'n reader \<Rightarrow> 'n val \<Rightarrow> string \<Rightarrow> 'n reader" where
  "elements_loop 0 rd y s sz x = None"
| "elements_loop (Suc n) rd y s sz x = do {
     x \<leftarrow> grow_range y x;
     and_then (last_call rd sz x) id (\<lambda>sz x.
     and_then (json_skip_whitespace s sz) (\<lambda>_. x) (\<lambda>sz _. do {
       c \<leftarrow> byte_at s sz;
       if c = CHR '','' then elements_loop n rd y s (sz + 1) x
       else if c \<noteq> CHR '']'' then json_fail j_unexpected_symbol sz x
       else Some (sz + 1, None, x) })) }"

definition read_array :: "'n reader \<Rightarrow> 'n val \<Rightarrow> string \<Rightarrow> 'n reader" where
  "read_array rd y s sz x =
     and_then (json_skip_whitespace s sz) (\<lambda>_. x) (\<lambda>sz _. do {
       c \<leftarrow> byte_at s sz;
       if c \<noteq> CHR ''['' then json_fail j_expected_array sz x
       else and_then (json_skip_whitespace s (sz + 1)) (\<lambda>_. x) (\<lambda>sz _. do {
         c \<leftarrow> byte_at s sz;
         if c \<noteq> CHR '']'' then elements_loop (nat (- sz)) rd y s sz x
         else Some (sz + 1, None, x) }) })"

definition tuple_call :: "nat \<Rightarrow> 'n reader \<Rightarrow> 'n reader" where
  "tuple_call i rd sz x =
     (case x of VTuple vs \<Rightarrow>
        if i < length vs then map_option (\<lambda>(sz, e, y). (sz, e, VTuple (vs[i := y]))) (rd sz (vs ! i))
        else None
      | _ \<Rightarrow> None)"

fun read_value_tuple_impl :: "nat \<Rightarrow> 'n reader list \<Rightarrow> string \<Rightarrow> 'n reader" where
  "read_value_tuple_impl i [] s sz x = None"
| "read_value_tuple_impl i [rd] s sz x =
     and_then (tuple_call i rd (sz + 1) x) id (\<lambda>sz x.
     and_then (json_skip_whitespace s sz) (\<lambda>_. x) (\<lambda>sz _. do {
       c \<leftarrow> byte_at s sz;
       if c \<noteq> CHR '']'' then json_fail j_expected_less sz x
       else Some (sz + 1, None, x) }))"
| "read_value_tuple_impl i (rd # rd' # rds) s sz x =
     and_then (tuple_call i rd (sz + 1) x) id (\<lambda>sz x.
     and_then (json_skip_whitespace s sz) (\<lambda>_. x) (\<lambda>sz _. do {
       c \<leftarrow> byte_at s sz;
       if c \<noteq> CHR '','' then json_fail j_expected_more sz x
       else read_value_tuple_impl (Suc i) (rd' # rds) s sz x }))"

definition read_tuple :: "'n reader list \<Rightarrow> string \<Rightarrow> 'n reader" where
  "read_tuple rds s sz x =
     and_then (json_skip_whitespace s sz) (\<lambda>_. x) (\<lambda>sz _. do {
       c \<leftarrow> byte_at s sz;
       if c \<noteq> CHR ''['' then json_fail j_expected_array sz x
       else read_value_tuple_impl 0 rds s sz x })"

text \<open>The proxy of \<open>core::vector\<close>: an array is read and given to \<open>set\<close>, which always succeeds.\<close>

definition vector_set :: "'n val \<Rightarrow> 'n val \<Rightarrow> 'n val \<times> bool" where
  "vector_set x buffer = (buffer, True)"

definition read_proxy :: "'n reader \<Rightarrow> 'n val \<Rightarrow> string \<Rightarrow> 'n reader" where
  "read_proxy rd proxy s sz x =
     and_then (rd sz proxy) (\<lambda>_. x) (\<lambda>sz proxy.
       (let (x, ok) = vector_set x proxy in
        if \<not> ok then json_fail j_unexpected_error sz x else Some (sz, None, x)))"

primrec read_value :: "(('n::zero), 'z) lib_scheme \<Rightarrow> string \<Rightarrow> ty \<Rightarrow> 'n reader" where
  "read_value L s TBool = read_bool s"
| "read_value L s (TNum k) = read_number L k s"
| "read_value L s (TEnum keys values) = read_enum L keys values s"
| "read_value L s TString = read_str L s"
| "read_value L s (TClass keys ts) = read_class L keys (map (read_value L s) ts) s"
| "read_value L s (TArray t) = read_array (read_value L s t) (init t) s"
| "read_value L s (TTuple ts) = read_tuple (map (read_value L s) ts) s"
| "read_value L s (TVector t) = read_proxy (read_value L s t) (init t) s"
| "read_value L s (TOptional t) = read_optional (read_value L s t) (init t)"

text \<open>\<open>structure_json\<close>: whether it succeeded, the object, and the error it reports if it did not.\<close>

definition structure_json ::
    "(('n::zero), 'z) lib_scheme \<Rightarrow> ty \<Rightarrow> string \<Rightarrow> 'n val \<Rightarrow> (bool \<times> 'n val \<times> text_error option) option" where
  "structure_json L t s x = do {
     (remainder, e, x) \<leftarrow> read_value L s t (- int (length s)) x;
     if remainder \<le> 0 then Some (True, x, None) else Some (False, x, e) }"

section \<open>Every call returns\<close>

lemma json_code_pos: "0 < json_code E"
  by (cases E) auto

lemma good_fail:
  assumes "- int (length s) \<le> sz" "sz \<le> 0" "E \<noteq> j_unexpected_value" "P x"
  shows "good s lo P (json_fail E sz x)"
  using assms by (cases E) (auto simp: good_def json_fail_def settled_def)

lemma good_fail_for:
  assumes "- int (length s) \<le> sz" "sz \<le> 0" "P x"
  shows "good s lo P (json_fail_for j_unexpected_value sz t x)"
  using assms by (auto simp: good_def json_fail_for_def settled_def)

lemma good_skip:
  assumes "- int (length s) \<le> sz" "sz \<le> 0"
  shows "good s sz (\<lambda>_. True) (json_skip_whitespace s sz)"
  using assms
proof (induction s sz rule: json_skip_whitespace.induct)
  case (1 s sz)
  show ?case
  proof (cases "sz \<ge> 0")
    case True
    then show ?thesis using 1 by (simp add: json_skip_whitespace.simps good_fail)
  next
    case False
    then obtain c where c: "byte_at s sz = Some c" using 1 by (auto simp: byte_at_in)
    show ?thesis
    proof (cases "of_char c \<le> (32 :: nat)")
      case True
      have "good s (sz + 1) (\<lambda>_. True) (json_skip_whitespace s (sz + 1))"
        using 1 c True False by auto
      then show ?thesis
        using False c True good_weaken [of s "sz + 1" _ _ sz]
        by (subst json_skip_whitespace.simps) simp
    next
      case f: False
      then show ?thesis using False c
        by (subst json_skip_whitespace.simps) (simp add: good_def settled_def)
    qed
  qed
qed

text \<open>The search for the closing quote looks back at most to the opening one, at \<open>q\<close>.\<close>

lemma found_bounds:
  assumes "reads_ok L" "- int (length s) \<le> sz" "sz \<le> 0"
    and "found = sz + int (ful_find L (drop (nat (int (length s) + sz)) s) c)"
  shows "sz \<le> found" "found \<le> 0"
proof -
  have "length (takeWhile (\<lambda>d. d \<noteq> c) (drop (nat (int (length s) + sz)) s)) \<le> nat (- sz)"
    using length_takeWhile_le [of "\<lambda>d. d \<noteq> c" "drop (nat (int (length s) + sz)) s"] assms(2,3) by simp
  then show "sz \<le> found" "found \<le> 0" using assms by (simp_all add: ful_find_eq)
qed

lemma good_read_string_loop:
  assumes "reads_ok L" "- int (length s) \<le> q" "byte_at s q \<noteq> Some (CHR 0x5C)"
    and "q < sz" "sz \<le> 0"
  shows "good s sz (\<lambda>_. True) (read_string_loop L s sz)"
  using assms(4,5)
proof (induction "nat (- sz)" arbitrary: sz rule: less_induct)
  case less
  define found where
    "found = sz + int (ful_find L (drop (nat (int (length s) + sz)) s) (CHR 0x22))"
  have f: "sz \<le> found" "found \<le> 0"
    using found_bounds [OF assms(1) _ less.prems(2) found_def] less.prems(1) assms(2) by simp_all
  note step = read_string_loop.simps [of L s sz, folded found_def, unfolded Let_def]
  show ?case
  proof (cases "found = 0")
    case True
    then show ?thesis using less.prems assms(2) by (simp add: step good_fail)
  next
    case False
    then have neg: "found < 0" using f by simp
    have again: "good s sz (\<lambda>_. True) (read_string_loop L s (found + 1))"
      by (rule good_weaken [OF less.hyps]) (use neg f less.prems in auto)
    have stop: "good s sz (\<lambda>_. True) (Some (found, None, ()))"
      using f by (intro good_intro) auto
    have failed: "good s sz (\<lambda>_. True) (json_fail j_unexpected_error found ())"
      using f less.prems assms(2) by (intro good_fail) auto
    have behind: "\<exists>b. byte_at s (found - i) = Some b \<and> (b = CHR 0x5C \<longrightarrow> q < found - i)"
      if "q \<le> found - i" "0 < i" for i
    proof -
      have "- int (length s) \<le> found - i" "found - i < 0" using that assms(2) neg by auto
      then obtain b where b: "byte_at s (found - i) = Some b" by (simp add: byte_at_in)
      then have "b = CHR 0x5C \<Longrightarrow> found - i \<noteq> q" using assms(3) by blast
      then show ?thesis using b that by auto
    qed
    obtain b1 where b1: "byte_at s (found - 1) = Some b1" "b1 = CHR 0x5C \<longrightarrow> q < found - 1"
      using behind [of 1] f less.prems by auto
    show ?thesis
    proof (cases "b1 = CHR 0x5C")
      case f1: True
      then obtain b2 where b2: "byte_at s (found - 2) = Some b2" "b2 = CHR 0x5C \<longrightarrow> q < found - 2"
        using behind [of 2] b1(2) by auto
      show ?thesis
      proof (cases "b2 = CHR 0x5C")
        case f2: True
        then obtain b3 where b3: "byte_at s (found - 3) = Some b3" "b3 = CHR 0x5C \<longrightarrow> q < found - 3"
          using behind [of 3] b2(2) by auto
        then obtain b4 where b4: "b3 = CHR 0x5C \<longrightarrow> byte_at s (found - 4) = Some b4"
          using behind [of 4] by fastforce
        then show ?thesis using b1 b2 b3 f1 f2 neg stop again failed by (simp add: step)
      qed (use b1 b2 f1 neg again in \<open>simp add: step\<close>)
    qed (use b1 neg stop in \<open>simp add: step\<close>)
  qed
qed

lemma good_read_string:
  assumes "reads_ok L" "- int (length s) \<le> sz" "sz < 0"
  shows "good s (sz + 1) (\<lambda>_. True) (read_string L s sz)"
  unfolding read_string_def
proof (rule good_byte)
  fix c
  assume c: "byte_at s sz = Some c"
  show "good s (sz + 1) (\<lambda>_. True) (if c \<noteq> CHR 0x22 then json_fail j_expected_string sz []
     else and_then (read_string_loop L s (sz + 1)) (\<lambda>_. []) (\<lambda>last _. do {
       str \<leftarrow> view s (sz + 1) last;
       Some (last, None, str) }))"
  proof (cases "c = CHR 0x22")
    case True
    have "good s (sz + 1) (\<lambda>_. True) (read_string_loop L s (sz + 1))"
      using assms c True by (intro good_read_string_loop [of L s sz]) auto
    then have "good s (sz + 1) (\<lambda>_. True) (and_then (read_string_loop L s (sz + 1)) (\<lambda>_. []) (\<lambda>last _. do {
       str \<leftarrow> view s (sz + 1) last;
       Some (last, None, str) }))"
      by (rule good_and_then) (use assms in \<open>auto simp: view_in intro!: good_intro\<close>)
    then show ?thesis using True by simp
  qed (use assms in \<open>simp add: good_fail\<close>)
qed (use assms in simp_all)

lemma good_skip_then:
  assumes "- int (length s) \<le> sz" "sz \<le> 0" "Q x"
    and "\<And>sz'. sz \<le> sz' \<Longrightarrow> sz' < 0 \<Longrightarrow> good s lo Q (k sz' ())"
  shows "good s lo Q (and_then (json_skip_whitespace s sz) (\<lambda>_. x) k)"
  by (rule good_and_then [OF good_skip]) (use assms in auto)

lemma good_string_then:
  assumes "reads_ok L" "- int (length s) \<le> sz" "sz < 0" "Q x"
    and "\<And>sz' str. sz < sz' \<Longrightarrow> sz' < 0 \<Longrightarrow> good s lo Q (k sz' str)"
  shows "good s lo Q (and_then (read_string L s sz) (\<lambda>_. x) k)"
  by (rule good_and_then [OF good_read_string]) (use assms in auto)

lemma reads_bool: "reads_type s TBool (read_bool s)"
  unfolding read_bool_def
  by (intro reads_typeI good_skip_then)
    (auto simp: load_le_def view_in byte_at_in intro!: good_fail_for good_intro)

lemma reads_number:
  fixes L :: "('n, 'z) lib_scheme"
  assumes "reads_ok L"
  shows "reads_type s (TNum k) (read_number L k s)"
  unfolding read_number_def
proof (intro reads_typeI good_skip_then)
  fix sz sz' and x :: "'n val"
  assume a: "- int (length s) \<le> sz" "conforms (TNum k) x" "sz \<le> sz'" "sz' < 0"
  obtain y where x: "x = VNum y" using conforms_inv(1) [OF a(2)] by blast
  obtain n y' where n: "fio_from_chars L k (drop (nat (int (length s) + sz')) s) y = (n, y')"
    by fastforce
  have "int n \<le> - sz'" using from_chars_le [OF assms n] a by simp
  then show "good s (sz + 1) (conforms (TNum k)) (case x of VNum y \<Rightarrow>
         (let (n, y') = fio_from_chars L k (drop (nat (int (length s) + sz')) s) y in
          if n > 0 then Some (sz' + int n, None, VNum y')
          else json_fail_for j_unexpected_value sz' (TNum k) (VNum y'))
       | _ \<Rightarrow> None)"
    using a x n by (auto intro!: good_fail_for good_intro)
qed

lemma reads_enum:
  assumes "reads_ok L" "length keys = length values"
  shows "reads_type s (TEnum keys values) (read_enum L keys values s)"
  unfolding read_enum_def
  by (intro reads_typeI good_skip_then good_string_then)
    (use assms in \<open>auto simp: table_get_def dest: table_findD split: option.splits intro!: good_fail_for good_intro\<close>)

lemma reads_str: "reads_ok L \<Longrightarrow> reads_type s TString (read_str L s)"
  unfolding read_str_def
  by (intro reads_typeI good_skip_then good_string_then) (auto intro!: good_intro)

lemma reads_proxy:
  assumes "reads_type s t rd" "conforms t y"
  shows "reads_type s (TVector t) (read_proxy rd y s)"
  unfolding read_proxy_def
  by (intro reads_typeI good_and_then [OF reads_typeD [OF assms(1) _ _ assms(2)]])
    (auto simp: vector_set_def intro!: good_intro)

lemma good_tuple_call:
  assumes "list_all2 (reads_type s) ts rds" "i < length rds"
    and "- int (length s) \<le> sz" "sz \<le> 0" "conforms (TTuple ts) x"
  shows "good s (sz + 1) (conforms (TTuple ts)) (tuple_call i (rds ! i) sz x)"
proof -
  obtain vs where vs: "x = VTuple vs" "conforms_all ts vs" using conforms_inv(4) [OF assms(5)] by blast
  have "good s (sz + 1) (conforms (TTuple ts)) (map_option (\<lambda>(sz, e, y). (sz, e, VTuple y))
     (map_option (\<lambda>(sz, e, y). (sz, e, vs[i := y])) ((rds ! i) sz (vs ! i))))"
    by (rule good_map [OF good_call [OF assms(1-4) vs(2)]]) simp
  moreover have "i < length vs" using vs assms(1,2) by (auto simp: conforms_all_iff dest: list_all2_lengthD)
  ultimately show ?thesis using vs(1)
    by (simp add: tuple_call_def option.map_comp comp_def case_prod_unfold)
qed

lemma good_members_loop:
  assumes "reads_ok L" "list_all2 (reads_type s) ts rds" "length keys = length ts" "length keys \<le> 128"
    and "nat (- sz) \<le> n" "- int (length s) \<le> sz" "sz < 0" "conforms (TClass keys ts) x"
  shows "good s (sz + 1) (conforms (TClass keys ts)) (members_loop n L keys rds s sz x)"
  using assms(5-)
proof (induction n arbitrary: sz x)
  case (Suc n)
  have len: "length ts = length rds" using assms(2) by (rule list_all2_lengthD)
  let ?Q = "conforms (TClass keys ts)"
  show ?case
    unfolding members_loop.simps
  proof (intro good_skip_then good_string_then)
    fix sz1 sz2 key
    assume 1: "sz + 1 \<le> sz1" "sz1 < 0" "sz1 < sz2" "sz2 < 0"
    show "good s (sz + 1) ?Q (case table_find keys key of
         None \<Rightarrow> json_fail j_unexpected_key sz1 x
       | Some i \<Rightarrow>
         and_then (json_skip_whitespace s (sz2 + 1)) (\<lambda>_. x) (\<lambda>sz _. do {
           c \<leftarrow> byte_at s sz;
           if c \<noteq> CHR '':'' then json_fail j_unexpected_symbol sz x
           else
             and_then (member_call rds i (sz + 1) x) id (\<lambda>sz x.
             and_then (json_skip_whitespace s sz) (\<lambda>_. x) (\<lambda>sz _. do {
               c \<leftarrow> byte_at s sz;
               if c = CHR '','' then members_loop n L keys rds s sz x
               else if c \<noteq> CHR ''}'' then json_fail j_unexpected_symbol sz x
               else Some (sz + 1, None, x) })) }))"
    proof (cases "table_find keys key")
      case None
      then show ?thesis using 1 Suc.prems by (simp add: good_fail)
    next
      case (Some i)
      then have i: "i < length rds" "i < 128" using table_findD [OF Some] assms(3,4) len by auto
      have call: "good s (sz + 1) ?Q (and_then (member_call rds i (sz3 + 1) x) id (\<lambda>sz x.
             and_then (json_skip_whitespace s sz) (\<lambda>_. x) (\<lambda>sz _. do {
               c \<leftarrow> byte_at s sz;
               if c = CHR '','' then members_loop n L keys rds s sz x
               else if c \<noteq> CHR ''}'' then json_fail j_unexpected_symbol sz x
               else Some (sz + 1, None, x) })))" if 3: "sz2 < sz3" "sz3 < 0" for sz3
        by (rule good_and_then [OF good_member_call [OF assms(2) i _ _ Suc.prems(4)]]; (intro good_skip_then good_byte)?)
          (use 1 3 Suc.prems in \<open>auto intro!: good_fail good_intro good_weaken [OF Suc.IH]\<close>)
      show ?thesis unfolding Some option.case
        by (intro good_skip_then good_byte) (use 1 Suc.prems call in \<open>auto intro!: good_fail\<close>)
    qed
  qed (use Suc.prems assms(1) in auto)
qed simp

lemma reads_class:
  assumes "reads_ok L" "list_all2 (reads_type s) ts rds" "length keys = length ts" "length keys \<le> 128"
  shows "reads_type s (TClass keys ts) (read_class L keys rds s)"
  unfolding read_class_def
  by (intro reads_typeI good_skip_then good_byte)
    (auto intro!: good_fail good_weaken [OF good_members_loop [OF assms]])

lemma good_last_call:
  assumes "reads_type s t rd" "conforms (TArray t) (VArray vs)" "conforms t y"
    and "- int (length s) \<le> sz" "sz \<le> 0"
  shows "good s (sz + 1) (conforms (TArray t)) (last_call rd sz (VArray (vs @ [y])))"
proof -
  have "good s (sz + 1) (conforms (TArray t)) (map_option (\<lambda>(sz, e, y). (sz, e, VArray (vs @ [y]))) (rd sz y))"
    by (rule good_map [OF reads_typeD [OF assms(1,4,5,3)]])
      (use assms(2) conforms_all_replicate [of t "vs @ [_]"] in \<open>simp add: conforms_all_replicate\<close>)
  then show ?thesis by (simp add: last_call_def)
qed

lemma good_elements_loop:
  assumes "reads_type s t rd" "conforms t y"
    and "nat (- sz) \<le> n" "0 < n" "- int (length s) \<le> sz" "sz \<le> 0" "conforms (TArray t) x"
  shows "good s (sz + 1) (conforms (TArray t)) (elements_loop n rd y s sz x)"
  using assms(3-)
proof (induction n arbitrary: sz x)
  case (Suc n)
  obtain vs where vs: "x = VArray vs" using conforms_inv(3) [OF Suc.prems(5)] by blast
  have g: "grow_range y x = Some (VArray (vs @ [y]))" by (simp add: grow_range_def vs)
  note call = good_last_call [OF assms(1) Suc.prems(5) [unfolded vs] assms(2) Suc.prems(3,4)]
  show ?case
    unfolding elements_loop.simps g Option.bind.bind_lunit
    by (rule good_and_then [OF call]; (intro good_skip_then good_byte)?)
      (use Suc.prems in \<open>auto intro!: good_fail good_intro good_weaken [OF Suc.IH]\<close>)
qed simp

lemma reads_array:
  fixes rd :: "'n reader"
  assumes "reads_type s t rd" "conforms t y"
  shows "reads_type s (TArray t) (read_array rd y s)"
  unfolding read_array_def
proof (intro reads_typeI good_skip_then good_byte)
  fix sz sz1 c and x :: "'n val"
  assume a: "- int (length s) \<le> sz" "conforms (TArray t) x" "sz \<le> sz1" "sz1 < 0"
  have "good s (sz + 1) (conforms (TArray t)) (and_then (json_skip_whitespace s (sz1 + 1)) (\<lambda>_. x) (\<lambda>sz _. do {
         c \<leftarrow> byte_at s sz;
         if c \<noteq> CHR '']'' then elements_loop (nat (- sz)) rd y s sz x
         else Some (sz + 1, None, x) }))"
    by (intro good_skip_then good_byte)
      (use a in \<open>auto intro!: good_intro good_weaken [OF good_elements_loop [OF assms]]\<close>)
  then show "good s (sz + 1) (conforms (TArray t)) (if c \<noteq> CHR ''['' then json_fail j_expected_array sz1 x
       else and_then (json_skip_whitespace s (sz1 + 1)) (\<lambda>_. x) (\<lambda>sz _. do {
         c \<leftarrow> byte_at s sz;
         if c \<noteq> CHR '']'' then elements_loop (nat (- sz)) rd y s sz x
         else Some (sz + 1, None, x) }))"
    using a by (auto intro!: good_fail)
qed auto

lemma good_tuple_impl:
  assumes "list_all2 (reads_type s) ts rds"
    and "i < length rds" "- int (length s) \<le> sz" "sz < 0" "conforms (TTuple ts) x"
  shows "good s (sz + 1) (conforms (TTuple ts)) (read_value_tuple_impl i (drop i rds) s sz x)"
  using assms(2-)
proof (induction "length rds - i" arbitrary: i sz x)
  case (Suc n)
  note call = good_tuple_call [OF assms(1) Suc.prems(1) _ _ Suc.prems(4)]
  show ?case
  proof (cases "Suc i < length rds")
    case True
    have d: "drop i rds = rds ! i # rds ! Suc i # drop (Suc (Suc i)) rds"
      "rds ! Suc i # drop (Suc (Suc i)) rds = drop (Suc i) rds"
      using True by (simp_all add: Cons_nth_drop_Suc)
    have IH: "good s (sz + 1) (conforms (TTuple ts)) (read_value_tuple_impl (Suc i) (drop (Suc i) rds) s sz' x')"
      if "sz < sz'" "sz' < 0" "conforms (TTuple ts) x'" for sz' x'
      by (rule good_weaken [OF Suc.hyps(1)]) (use that True Suc.hyps(2) Suc.prems in auto)
    show ?thesis
      unfolding d(1) read_value_tuple_impl.simps(3)
      unfolding d(2)
      by (rule good_and_then [OF call]; (intro good_skip_then good_byte)?)
        (use Suc.prems IH in \<open>auto intro!: good_fail\<close>)
  next
    case False
    then have d: "drop i rds = [rds ! i]" using Suc.prems(1)
      by (metis Cons_nth_drop_Suc Suc_lessI drop_all le_refl)
    show ?thesis
      unfolding d read_value_tuple_impl.simps
      by (rule good_and_then [OF call]; (intro good_skip_then good_byte)?)
        (use Suc.prems in \<open>auto intro!: good_fail good_intro\<close>)
  qed
qed simp

lemma reads_tuple:
  assumes "list_all2 (reads_type s) ts rds" "ts \<noteq> []"
  shows "reads_type s (TTuple ts) (read_tuple rds s)"
proof -
  have "0 < length rds" using assms by (auto dest: list_all2_lengthD)
  note impl = good_tuple_impl [OF assms(1) this, unfolded drop0]
  show ?thesis
    unfolding read_tuple_def
    by (intro reads_typeI good_skip_then good_byte) (auto intro!: good_fail good_weaken [OF impl])
qed

lemma reads_value:
  fixes L :: "('n::zero, 'z) lib_scheme"
  assumes "reads_ok L"
  shows "wf_ty t \<Longrightarrow> reads_type s t (read_value L s t)"
proof (induction t)
  case (TClass keys ts)
  then have "list_all2 (reads_type s) ts (map (read_value L s) ts)"
    by (auto simp: list_all2_conv_all_nth list_all_length)
  then show ?case using TClass.prems assms by (simp add: reads_class)
next
  case (TTuple ts)
  then have "list_all2 (reads_type s) ts (map (read_value L s) ts)"
    by (auto simp: list_all2_conv_all_nth list_all_length)
  then show ?case using TTuple.prems by (simp add: reads_tuple)
qed (simp_all add: assms reads_bool reads_number reads_enum reads_str reads_array reads_proxy
      reads_optional conforms_init)

section \<open>Properties\<close>

text \<open>C26: Reading a JSON text always returns, for every text and every type whose tables are
  tables: the loops end, no access leaves the text, the object keeps its type, the call succeeds
  exactly when it reports no error, and the position of a reported error is in the text.  This
  holds for any search that finds the first occurrence of a character and any conversion of numbers
  that returns a pointer into its range.\<close>
theorem json_structure_total:
  fixes L :: "('n::zero, 'z) lib_scheme"
  assumes "reads_ok L" "wf_ty t" "conforms t x"
  shows "case structure_json L t s x of None \<Rightarrow> False
    | Some (ok, x', e) \<Rightarrow> conforms t x' \<and> ok = (e = None) \<and>
        (case e of None \<Rightarrow> True | Some te \<Rightarrow> - int (length s) \<le> te_where te \<and> te_where te \<le> 0)"
proof -
  have "good s (- int (length s) + 1) (conforms t) (read_value L s t (- int (length s)) x)"
    by (rule reads_typeD [OF reads_value [OF assms(1,2)]]) (simp_all add: assms(3))
  then obtain sz e x' where "read_value L s t (- int (length s)) x = Some (sz, e, x')" "conforms t x'"
    "settled s (- int (length s) + 1) sz e"
    by (auto simp: good_def split: option.splits)
  then show ?thesis
    by (auto simp: structure_json_def settled_def split: option.splits)
qed

theorem json_structure_total_witness:
  "let t = TClass [''a'', ''b''] [TArray (TNum 0), TBool]; x = VClass [VArray [], VBool True];
       s = ''{'' @ [CHR 0x22] @ ''a'' @ [CHR 0x22] @ '':[1,2''
   in reads_ok dec_lib \<and> wf_ty t \<and> conforms t x \<and>
     (case structure_json dec_lib t s x of None \<Rightarrow> False
      | Some (ok, x', e) \<Rightarrow> conforms t x' \<and> ok = (e = None) \<and>
          (case e of None \<Rightarrow> True | Some te \<Rightarrow> - int (length s) \<le> te_where te \<and> te_where te \<le> 0))"
  unfolding Let_def
  by (intro conjI dec_lib_reads_ok json_structure_total) simp_all

end
