(* ===== verification/Json_Text.thy ===== *)
theory Json_Text
  imports Json_Structurer
begin

text \<open>
  The JSON texts of values: a reference printer, and the proof that the reader of
  \<open>Json_Structurer\<close> reads such a text back as the value it was printed from, wherever the text
  stands and whatever object is given to the reader.
\<close>

section \<open>Reading a well-formed text\<close>

text \<open>White space, and strings that need no escaping.\<close>

definition blank :: "string \<Rightarrow> bool" where
  "blank ws \<longleftrightarrow> (\<forall>c \<in> set ws. of_char c \<le> (32 :: nat))"

definition plain :: "string \<Rightarrow> bool" where
  "plain str \<longleftrightarrow> CHR 0x22 \<notin> set str \<and> (str = [] \<or> last str \<noteq> CHR 0x5C)"

definition quoted :: "string \<Rightarrow> string" where
  "quoted str = CHR 0x22 # str @ [CHR 0x22]"

lemma skip_blank:
  assumes "blank ws" "suffix (ws @ c # r) s" "(32 :: nat) < of_char c"
  shows "json_skip_whitespace s (left (ws @ c # r)) = Some (left (c # r), None, ())"
  using assms
proof (induction ws)
  case Nil
  then show ?case by (subst json_skip_whitespace.simps) (simp add: byte_at_suffix)
next
  case (Cons w ws)
  have "suffix (ws @ c # r) s" using Cons.prems(2) suffix_ConsD by fastforce
  then show ?case using Cons
    by (subst json_skip_whitespace.simps) (simp add: byte_at_suffix blank_def)
qed

lemma read_quoted:
  assumes "reads_ok L" "plain str" "suffix (quoted str @ r) s"
  shows "read_string L s (left (quoted str @ r)) = Some (left (CHR 0x22 # r), None, str)"
proof -
  let ?q = "CHR 0x22"
  have s: "suffix (?q # str @ ?q # r) s" using assms(3) by (simp add: quoted_def)
  have s1: "suffix (str @ ?q # r) s" using s suffix_ConsD by fast
  have "takeWhile (\<lambda>d. d \<noteq> ?q) (str @ ?q # r) = str"
    using assms(2) by (intro takeWhile_all_stop) (auto simp: plain_def)
  then have found: "left (str @ ?q # r) + int (ful_find L (drop (nat (int (length s) + left (str @ ?q # r))) s) ?q)
      = left (?q # r)"
    by (simp add: drop_suffix [OF s1] ful_find_eq [OF assms(1)])
  have "suffix (butlast (?q # str) @ last (?q # str) # ?q # r) s"
    using s by (metis append.assoc append_Cons append_Nil append_butlast_last_id list.distinct(1))
  then have "byte_at s (left (last (?q # str) # ?q # r)) = Some (last (?q # str))"
    using byte_at_suffix suffix_split by blast
  moreover have "left (last (?q # str) # ?q # r) = left (?q # r) - 1"
    by (simp add: left_def)
  moreover have "last (?q # str) \<noteq> CHR 0x5C" using assms(2) by (auto simp: plain_def)
  ultimately have "read_string_loop L s (left (str @ ?q # r)) = Some (left (?q # r), None, ())"
    by (subst read_string_loop.simps) (simp add: found Let_def)
  then show ?thesis
    using byte_at_suffix [OF s] view_suffix [OF s1] by (simp add: read_string_def quoted_def)
qed

text \<open>A text \<open>txt\<close> is read as \<open>v\<close>, whatever object is given, after any white space and before
  anything that does not begin like a continuation of a number.\<close>

definition ends_value :: "string \<Rightarrow> bool" where
  "ends_value r \<longleftrightarrow> r \<noteq> [] \<and> hd r \<in> {CHR '','', CHR '']'', CHR 0x0A}"

definition echoes :: "(string \<Rightarrow> 'n reader) \<Rightarrow> ty \<Rightarrow> string \<Rightarrow> 'n val \<Rightarrow> bool" where
  "echoes rd t txt v \<longleftrightarrow>
     (\<forall>s ws r x. suffix (ws @ txt @ r) s \<longrightarrow> blank ws \<longrightarrow> ends_value r \<longrightarrow> conforms t x \<longrightarrow>
        rd s (left (ws @ txt @ r)) x = Some (left r, None, v))"

lemma echoesI:
  assumes "\<And>s ws r x. suffix (ws @ txt @ r) s \<Longrightarrow> blank ws \<Longrightarrow> ends_value r \<Longrightarrow> conforms t x \<Longrightarrow>
    rd s (left (ws @ txt @ r)) x = Some (left r, None, v)"
  shows "echoes rd t txt v"
  using assms by (simp add: echoes_def)

lemma echoesD:
  "echoes rd t txt v \<Longrightarrow> suffix (ws @ txt @ r) s \<Longrightarrow> blank ws \<Longrightarrow> ends_value r \<Longrightarrow> conforms t x \<Longrightarrow>
    rd s (left (ws @ txt @ r)) x = Some (left r, None, v)"
  by (simp add: echoes_def)

lemma echo_bool: "echoes (\<lambda>s. read_bool s) TBool (if b then ''true'' else ''false'') (VBool b)"
proof (rule echoesI)
  fix s ws r and x :: "'a val"
  assume a: "suffix (ws @ (if b then ''true'' else ''false'') @ r) s" "blank ws"
  show "read_bool s (left (ws @ (if b then ''true'' else ''false'') @ r)) x = Some (left r, None, VBool b)"
  proof (cases b)
    case True
    note a' = a(1) [unfolded if_P [OF True]]
    have "load_le s (left (''true'' @ r)) 4 = Some 0x65757274"
      using load_le_suffix [OF suffix_split [OF a'], of 4] by simp
    moreover have "left (''true'' @ r) + 4 = left r" by (simp add: left_def)
    moreover have "left (''true'' @ r) \<le> - 4" by (simp add: left_def)
    ultimately show ?thesis
      using skip_blank [OF a(2), of "CHR ''t''" "''rue'' @ r" s] a' True by (simp add: read_bool_def)
  next
    case False
    note a' = a(1) [unfolded if_not_P [OF False]]
    have w: "load_le s (left (''fals'' @ CHR ''e'' # r)) 4 = Some 0x736c6166"
      using load_le_suffix [of "''fals''" "CHR ''e'' # r" s 4] suffix_split [OF a'] by simp
    have "suffix (CHR ''e'' # r) s" using a' suffix_split [of "ws @ ''fals''" "CHR ''e'' # r" s] by simp
    then have "byte_at s (left (''fals'' @ CHR ''e'' # r) + 4) = Some (CHR ''e'')"
      using byte_at_suffix by (fastforce simp: left_def)
    moreover have "left (''fals'' @ CHR ''e'' # r) + 5 = left r" by (simp add: left_def)
    moreover have "left (''fals'' @ CHR ''e'' # r) \<le> - 5" by (simp add: left_def)
    ultimately show ?thesis
      using skip_blank [OF a(2), of "CHR ''f''" "''alse'' @ r" s] a' w False by (simp add: read_bool_def)
  qed
qed

lemma skip_quoted:
  "blank ws \<Longrightarrow> suffix (ws @ quoted str @ r) s \<Longrightarrow>
   json_skip_whitespace s (left (ws @ quoted str @ r)) = Some (left (quoted str @ r), None, ())"
  using skip_blank [of ws "CHR 0x22" "str @ CHR 0x22 # r" s] by (simp add: quoted_def)

lemma quoted_nonempty [simp]: "quoted str \<noteq> []"
  by (simp add: quoted_def)

lemma read_after_blank:
  assumes "reads_ok L" "plain str" "blank ws" "suffix (ws @ quoted str @ r) s"
  shows "and_then (json_skip_whitespace s (left (ws @ quoted str @ r))) out (\<lambda>sz _.
    and_then (read_string L s sz) out' (k sz)) = k (left (quoted str @ r)) (left (CHR 0x22 # r)) str"
  by (simp add: skip_quoted [OF assms(3,4)] read_quoted [OF assms(1,2) suffix_split [OF assms(4)]])

lemma echo_enum:
  assumes "reads_ok L" "plain key" "table_find keys key = Some i" "table_get values i = Some v"
  shows "echoes (\<lambda>s. read_enum L keys values s) (TEnum keys values) (quoted key) (VEnum v)"
  by (rule echoesI) (use assms in \<open>simp add: read_enum_def read_after_blank\<close>)

lemma echo_str:
  assumes "reads_ok L" "plain str"
  shows "echoes (\<lambda>s. read_str L s) TString (quoted str) (VString str)"
  by (rule echoesI) (use assms in \<open>simp add: read_str_def read_after_blank\<close>)

text \<open>What writing and reading of numbers rely on: a number that is written is not empty, begins
  with something visible and is read back when it is not continued.\<close>

definition numbers_ok :: "('n, 'z) lib_scheme \<Rightarrow> bool" where
  "numbers_ok L \<longleftrightarrow>
     (\<forall>k n txt. fio_to_chars L k n = Some txt \<longrightarrow>
        txt \<noteq> [] \<and> (32 :: nat) < of_char (hd txt) \<and>
        (\<forall>r x. ends_value r \<longrightarrow> fio_from_chars L k (txt @ r) x = (length txt, n)))"

lemma dec_lib_numbers_ok: "numbers_ok dec_lib"
proof -
  have "\<not> (r \<noteq> [] \<and> is_digit (hd r))" if "ends_value r" for r
    using that by (auto simp: ends_value_def is_digit_def)
  then show ?thesis using dec_int_start scan_dec_int by (simp add: numbers_ok_def dec_lib_def)
qed

lemma echo_number:
  assumes "numbers_ok L" "fio_to_chars L k n = Some txt"
  shows "echoes (\<lambda>s. read_number L k s) (TNum k) txt (VNum n)"
proof (rule echoesI)
  fix s ws r and x :: "'a val"
  assume a: "suffix (ws @ txt @ r) s" "blank ws" "ends_value r" "conforms (TNum k) x"
  obtain y where x: "x = VNum y" using conforms_inv(1) [OF a(4)] by blast
  have t: "txt \<noteq> []" "(32 :: nat) < of_char (hd txt)" "fio_from_chars L k (txt @ r) y = (length txt, n)"
    using assms a(3) unfolding numbers_ok_def by blast+
  then obtain c cs where c: "txt = c # cs" by (cases "txt") auto
  have "json_skip_whitespace s (left (ws @ txt @ r)) = Some (left (txt @ r), None, ())"
    using skip_blank [OF a(2), of c "cs @ r" s] a(1) t(2) c by simp
  then show "read_number L k s (left (ws @ txt @ r)) x = Some (left r, None, VNum n)"
    using t x drop_suffix [OF suffix_split [OF a(1)]] by (simp add: read_number_def)
qed

lemma member_step:
  assumes "reads_ok L" "distinct keys" "length keys \<le> 128" "length keys = length ts" "conforms_all ts xs"
    and "i < length keys" "length rds = length keys" "plain (keys ! i)"
    and "echoes rd (ts ! i) txt v" "rds ! i = rd s"
    and "blank ws" "suffix (c # ws @ quoted (keys ! i) @ '' : '' @ txt @ r) s" "ends_value r"
  shows "members_loop (Suc n) L keys rds s (left (c # ws @ quoted (keys ! i) @ '' : '' @ txt @ r)) (VClass xs) =
    and_then (json_skip_whitespace s (left r)) (\<lambda>_. VClass (xs[i := v])) (\<lambda>sz _. do {
       c \<leftarrow> byte_at s sz;
       if c = CHR '','' then members_loop n L keys rds s sz (VClass (xs[i := v]))
       else if c \<noteq> CHR ''}'' then json_fail j_unexpected_symbol sz (VClass (xs[i := v]))
       else Some (sz + 1, None, VClass (xs[i := v])) })"
proof -
  have s1: "suffix (ws @ quoted (keys ! i) @ '' : '' @ txt @ r) s"
    using assms(12) suffix_ConsD by fast
  have s3: "suffix ('' '' @ CHR '':'' # '' '' @ txt @ r) s" using suffix_split [OF suffix_split [OF s1]] by simp
  have s4: "suffix (CHR '':'' # CHR '' '' # txt @ r) s" using suffix_split [OF s3] by simp
  have s5: "suffix ('' '' @ txt @ r) s" using suffix_ConsD [OF s4] by simp
  have colon: "json_skip_whitespace s (left (CHR '' '' # CHR '':'' # CHR '' '' # txt @ r)) =
      Some (left (CHR '':'' # CHR '' '' # txt @ r), None, ())"
    using skip_blank [OF _ s3] by (simp add: blank_def)
  have "conforms (ts ! i) (xs ! i)" using assms by (simp add: conforms_all_iff)
  then have "rd s (left ('' '' @ txt @ r)) (xs ! i) = Some (left r, None, v)"
    using echoesD [OF assms(9) s5 _ assms(13)] by (simp add: blank_def)
  moreover have "i < length xs" using assms by (simp add: conforms_all_iff)
  ultimately have call: "member_call rds i (left (CHR '' '' # txt @ r)) (VClass xs) = Some (left r, None, VClass (xs[i := v]))"
    using assms by (simp add: member_call_def)
  have neg: "left r < 0" using assms(13) by (simp add: ends_value_def)
  show ?thesis
    unfolding members_loop.simps left_simps(2) read_after_blank [OF assms(1,8,11) s1]
      table_find_distinct [OF assms(2,6)] option.case
    using neg by (simp add: colon byte_at_suffix [OF s4] call)
qed

section \<open>The text of a value\<close>

definition tabs :: "nat \<Rightarrow> string" where
  "tabs n = replicate n (CHR 0x09)"

fun members_text :: "string \<Rightarrow> string list \<Rightarrow> string list \<Rightarrow> string" where
  "members_text sep [k] [t] = quoted k @ '' : '' @ t"
| "members_text sep (k # ks) (t # ts) = quoted k @ '' : '' @ t @ sep @ members_text sep ks ts"
| "members_text sep _ _ = []"

definition class_text :: "string list \<Rightarrow> string list \<Rightarrow> nat \<Rightarrow> string" where
  "class_text keys texts d =
     (if keys = [] then ''{}''
      else CHR ''{'' # CHR 0x0A # tabs (Suc d) @
        members_text (CHR '','' # CHR 0x0A # tabs (Suc d)) keys texts @ CHR 0x0A # tabs d @ ''}'')"

fun elements_text :: "string list \<Rightarrow> string" where
  "elements_text [] = []"
| "elements_text [t] = t"
| "elements_text (t # ts) = t @ '', '' @ elements_text ts"

definition tuple_text :: "string list \<Rightarrow> string" where
  "tuple_text texts = CHR ''['' # elements_text texts @ '']''"

text \<open>Only the types that have a writer have a text.\<close>

fun json_text :: "('n, 'z) lib_scheme \<Rightarrow> ty \<Rightarrow> nat \<Rightarrow> 'n val \<Rightarrow> string"
  and json_texts :: "('n, 'z) lib_scheme \<Rightarrow> ty list \<Rightarrow> nat \<Rightarrow> 'n val list \<Rightarrow> string list" where
  "json_text L TBool d (VBool b) = (if b then ''true'' else ''false'')"
| "json_text L (TNum k) d (VNum n) = (case fio_to_chars L k n of Some t \<Rightarrow> t | None \<Rightarrow> [])"
| "json_text L (TEnum keys values) d (VEnum v) =
     (case value_get_key keys values v of Some k \<Rightarrow> quoted k | None \<Rightarrow> [])"
| "json_text L TString d (VString str) = quoted str"
| "json_text L (TClass keys ts) d (VClass vs) = class_text keys (json_texts L ts (Suc d) vs) d"
| "json_text L (TTuple ts) d (VTuple vs) = tuple_text (json_texts L ts (Suc d) vs)"
| "json_text L _ d _ = []"
| "json_texts L (t # ts) d (v # vs) = json_text L t d v # json_texts L ts d vs"
| "json_texts L _ d _ = []"

text \<open>
  The values that a text determines: numbers and enumerators that can be printed, strings that
  need no escaping, classes with distinct keys and at least one member, tuples with at least one
  element, and none of the types that have no writer.
\<close>

fun printable :: "('n, 'z) lib_scheme \<Rightarrow> ty \<Rightarrow> 'n val \<Rightarrow> bool"
  and printables :: "('n, 'z) lib_scheme \<Rightarrow> ty list \<Rightarrow> 'n val list \<Rightarrow> bool" where
  "printable L TBool (VBool b) = True"
| "printable L (TNum k) (VNum n) = (fio_to_chars L k n \<noteq> None)"
| "printable L (TEnum keys values) (VEnum v) =
     (distinct keys \<and> length keys = length values \<and> v \<in> set values \<and> list_all plain keys)"
| "printable L TString (VString str) = plain str"
| "printable L (TClass keys ts) (VClass vs) =
     (keys \<noteq> [] \<and> distinct keys \<and> length keys = length ts \<and> length keys \<le> 128 \<and> list_all plain keys \<and>
      printables L ts vs)"
| "printable L (TTuple ts) (VTuple vs) = (ts \<noteq> [] \<and> printables L ts vs)"
| "printable L _ _ = False"
| "printables L [] [] = True"
| "printables L (t # ts) (v # vs) = (printable L t v \<and> printables L ts vs)"
| "printables L _ _ = False"

lemma printables_iff:
  "printables L ts vs \<longleftrightarrow> length ts = length vs \<and> (\<forall>i < length ts. printable L (ts ! i) (vs ! i))"
proof (induction ts vs rule: list_induct2')
  case (4 t ts v vs)
  then show ?case by (auto simp: nth_Cons split: nat.splits)
qed simp_all

lemma json_texts_nth:
  assumes "length ts = length vs"
  shows "length (json_texts L ts d vs) = length ts \<and>
    (\<forall>i < length ts. json_texts L ts d vs ! i = json_text L (ts ! i) d (vs ! i))"
  using assms
proof (induction ts vs rule: list_induct2)
  case (Cons t ts v vs)
  then show ?case by (auto simp: nth_Cons split: nat.splits)
qed simp

section \<open>Reading classes and tuples back\<close>

lemma blank_simps [simp]: "blank []" "blank (CHR 0x0A # ws) = blank ws" "blank (tabs n)"
  "blank (CHR '' '' # ws) = blank ws"
  by (auto simp: blank_def tabs_def)

lemma take_update_full:
  "i < length xs \<Longrightarrow> length xs = length vs \<Longrightarrow> take i xs = take i vs \<Longrightarrow>
   take (Suc i) (xs[i := vs ! i]) = take (Suc i) vs"
  by (simp add: take_Suc_update take_Suc_conv_app_nth)

lemma members_echo:
  assumes "reads_ok L" "distinct keys" "length keys \<le> 128" "length keys = length ts" "list_all plain keys"
    and "length texts = length keys" "length rds = length keys" "conforms_all ts vs"
    and "\<And>i. i < length keys \<Longrightarrow> echoes (\<lambda>s. rd s i) (ts ! i) (texts ! i) (vs ! i)"
    and "\<And>i. i < length keys \<Longrightarrow> rds ! i = rd s i"
    and "i < length keys" "length keys - i \<le> n" "conforms_all ts xs" "take i xs = take i vs"
    and "blank ws" "suffix (c # ws @ members_text (CHR '','' # CHR 0x0A # tabs d)
      (drop i keys) (drop i texts) @ CHR 0x0A # tabs d' @ CHR ''}'' # r) s"
  shows "members_loop n L keys rds s (left (c # ws @ members_text (CHR '','' # CHR 0x0A # tabs d)
      (drop i keys) (drop i texts) @ CHR 0x0A # tabs d' @ CHR ''}'' # r)) (VClass xs) = Some (left r, None, VClass vs)"
  using assms(11-)
proof (induction n arbitrary: i xs c ws)
  case (Suc n)
  let ?sep = "CHR '','' # CHR 0x0A # tabs d" and ?stop = "CHR 0x0A # tabs d' @ CHR ''}'' # r"
  have lv: "length vs = length keys" using assms(4,8) by (simp add: conforms_all_iff)
  have len: "length xs = length vs" using Suc.prems(3) assms(4,8) by (simp add: conforms_all_iff)
  have pl: "plain (keys ! i)" using assms(5) Suc.prems(1) by (simp add: list_all_length)
  note step = member_step [OF assms(1-4) Suc.prems(3,1) assms(7) pl assms(9) [OF Suc.prems(1)]
      assms(10) [OF Suc.prems(1)] Suc.prems(5)]
  have up: "conforms_all ts (xs[i := vs ! i])"
    using Suc.prems(1,3) assms(4,8) by (simp add: conforms_all_iff nth_list_update)
  have tk: "take (Suc i) (xs[i := vs ! i]) = take (Suc i) vs"
    using take_update_full Suc.prems len lv by metis
  show ?case
  proof (cases "Suc i < length keys")
    case True
    let ?rest = "members_text ?sep (drop (Suc i) keys) (drop (Suc i) texts) @ ?stop"
    have d: "members_text ?sep (drop i keys) (drop i texts) @ ?stop =
        quoted (keys ! i) @ '' : '' @ texts ! i @ CHR '','' # CHR 0x0A # tabs d @ ?rest"
    proof -
      have "drop i keys = keys ! i # keys ! Suc i # drop (Suc (Suc i)) keys"
        "drop i texts = texts ! i # texts ! Suc i # drop (Suc (Suc i)) texts"
        "drop (Suc i) keys = keys ! Suc i # drop (Suc (Suc i)) keys"
        "drop (Suc i) texts = texts ! Suc i # drop (Suc (Suc i)) texts"
        using True assms(6) by (simp_all add: Cons_nth_drop_Suc)
      then show ?thesis by simp
    qed
    note s0 = Suc.prems(6) [unfolded d]
    have s1: "suffix (CHR '','' # (CHR 0x0A # tabs d) @ ?rest) s"
      using suffix_split [of "c # ws @ quoted (keys ! i) @ '' : '' @ texts ! i"] s0 by simp
    have sk: "json_skip_whitespace s (left (CHR '','' # (CHR 0x0A # tabs d) @ ?rest)) =
        Some (left (CHR '','' # (CHR 0x0A # tabs d) @ ?rest), None, ())"
      using skip_blank [of "[]" "CHR '',''" "(CHR 0x0A # tabs d) @ ?rest" s] s1 by simp
    have IH: "members_loop n L keys rds s (left (CHR '','' # (CHR 0x0A # tabs d) @ ?rest)) (VClass (xs[i := vs ! i])) =
        Some (left r, None, VClass vs)"
      by (rule Suc.IH [OF _ _ up tk _ s1]) (use True Suc.prems(2) in auto)
    show ?thesis
      unfolding d using step [OF s0] sk byte_at_suffix [OF s1] IH by (simp add: ends_value_def)
  next
    case False
    then have i: "Suc i = length keys" using Suc.prems(1) by simp
    have d: "members_text ?sep (drop i keys) (drop i texts) @ ?stop =
        quoted (keys ! i) @ '' : '' @ texts ! i @ ?stop"
    proof -
      have "drop i keys = [keys ! i]" "drop i texts = [texts ! i]"
        using i assms(6) by (metis Cons_nth_drop_Suc drop_all le_refl lessI)+
      then show ?thesis by simp
    qed
    note s0 = Suc.prems(6) [unfolded d]
    have s1: "suffix ((CHR 0x0A # tabs d') @ CHR ''}'' # r) s"
      using suffix_split [of "c # ws @ quoted (keys ! i) @ '' : '' @ texts ! i"] s0 by simp
    have vs: "xs[i := vs ! i] = vs" using tk i len lv by simp
    show ?thesis
      unfolding d using step [OF s0] skip_blank [OF _ s1] byte_at_suffix [OF suffix_split [OF s1]] vs
      by (simp add: ends_value_def)
  qed
qed simp

lemma members_text_length:
  "length keys = length texts \<Longrightarrow> length keys \<le> length (members_text sep keys texts)"
  by (induction sep keys texts rule: members_text.induct) (simp_all add: quoted_def)

lemma echo_class:
  assumes "reads_ok L" "distinct keys" "length keys \<le> 128" "length keys = length ts" "list_all plain keys"
    and "length texts = length keys" "\<And>s. length (rds s) = length keys" "conforms_all ts vs" "keys \<noteq> []"
    and "\<And>i. i < length keys \<Longrightarrow> echoes (\<lambda>s. rds s ! i) (ts ! i) (texts ! i) (vs ! i)"
  shows "echoes (\<lambda>s. read_class L keys (rds s) s) (TClass keys ts) (class_text keys texts d) (VClass vs)"
proof (rule echoesI)
  fix s ws r and x :: "'a val"
  let ?body = "members_text (CHR '','' # CHR 0x0A # tabs (Suc d)) keys texts @ CHR 0x0A # tabs d @ CHR ''}'' # r"
  let ?all = "CHR ''{'' # (CHR 0x0A # tabs (Suc d)) @ ?body"
  assume a: "suffix (ws @ class_text keys texts d @ r) s" "blank ws" "conforms (TClass keys ts) x"
  have t: "class_text keys texts d @ r = ?all" using assms(9) by (simp add: class_text_def)
  obtain xs where xs: "x = VClass xs" "conforms_all ts xs" using conforms_inv(2) [OF a(3)] by blast
  note s0 = a(1) [unfolded t]
  note s1 = suffix_split [OF s0]
  have len: "length keys \<le> length ?all"
    using members_text_length [OF assms(6) [symmetric], of "CHR '','' # CHR 0x0A # tabs (Suc d)"] by simp
  have "members_loop (length ?all) L keys (rds s) s (left (CHR ''{'' # (CHR 0x0A # tabs (Suc d)) @
      members_text (CHR '','' # CHR 0x0A # tabs (Suc d)) (drop 0 keys) (drop 0 texts) @ CHR 0x0A # tabs d @ CHR ''}'' # r))
      (VClass xs) = Some (left r, None, VClass vs)"
    by (rule members_echo [where rd = "\<lambda>s i. rds s ! i"]) (use assms xs(2) s1 len in auto)
  then have loop: "members_loop (nat (- left ?all)) L keys (rds s) s (left ?all) (VClass xs) = Some (left r, None, VClass vs)"
    by simp
  show "read_class L keys (rds s) s (left (ws @ class_text keys texts d @ r)) x = Some (left r, None, VClass vs)"
    unfolding t read_class_def
    using skip_blank [OF a(2) s0] byte_at_suffix [OF s1] loop xs(1) by simp
qed

lemma tuple_echo:
  assumes "length texts = length rds" "conforms_all ts vs" "length ts = length rds"
    and "\<And>i. i < length rds \<Longrightarrow> echoes (\<lambda>s. rd s i) (ts ! i) (texts ! i) (vs ! i)"
    and "\<And>i. i < length rds \<Longrightarrow> rds ! i = rd s i"
    and "i < length rds" "conforms_all ts xs" "take i xs = take i vs"
    and "blank ws" "suffix (c # ws @ elements_text (drop i texts) @ CHR '']'' # r) s"
  shows "read_value_tuple_impl i (drop i rds) s (left (c # ws @ elements_text (drop i texts) @ CHR '']'' # r)) (VTuple xs)
    = Some (left r, None, VTuple vs)"
  using assms(6-)
proof (induction "length rds - i" arbitrary: i xs c ws)
  case (Suc n)
  have lv: "length vs = length rds" "length xs = length rds"
    using assms(2,3) Suc.prems(2) by (simp_all add: conforms_all_iff)
  have up: "conforms_all ts (xs[i := vs ! i])"
    using Suc.prems(1,2) assms(2,3) by (simp add: conforms_all_iff nth_list_update)
  have tk: "take (Suc i) (xs[i := vs ! i]) = take (Suc i) vs"
    using take_update_full Suc.prems(1,3) lv by metis
  have call: "tuple_call i (rds ! i) (left (ws @ texts ! i @ r')) (VTuple xs) = Some (left r', None, VTuple (xs[i := vs ! i]))"
    if "suffix (ws @ texts ! i @ r') s" "ends_value r'" for r'
  proof -
    have "conforms (ts ! i) (xs ! i)" using Suc.prems(1,2) assms(3) by (simp add: conforms_all_iff)
    then show ?thesis
      using echoesD [OF assms(4) [OF Suc.prems(1)] that(1) Suc.prems(4) that(2)] assms(5) [OF Suc.prems(1)] lv Suc.prems(1)
      by (simp add: tuple_call_def)
  qed
  show ?case
  proof (cases "Suc i < length rds")
    case True
    let ?rest = "elements_text (drop (Suc i) texts) @ CHR '']'' # r"
    have d: "elements_text (drop i texts) @ CHR '']'' # r = texts ! i @ CHR '','' # '' '' @ ?rest"
    proof -
      have "drop i texts = texts ! i # texts ! Suc i # drop (Suc (Suc i)) texts"
        "drop (Suc i) texts = texts ! Suc i # drop (Suc (Suc i)) texts"
        using True assms(1) by (simp_all add: Cons_nth_drop_Suc)
      then show ?thesis by simp
    qed
    note s0 = suffix_ConsD [OF Suc.prems(5) [unfolded d]]
    have s1: "suffix (CHR '','' # '' '' @ ?rest) s"
      using suffix_split [OF suffix_split [OF s0]] .
    have IH: "read_value_tuple_impl (Suc i) (drop (Suc i) rds) s (left (CHR '','' # '' '' @ ?rest)) (VTuple (xs[i := vs ! i]))
        = Some (left r, None, VTuple vs)"
      by (rule Suc.hyps(1) [OF _ True up tk _ s1]) (use Suc.hyps(2) in simp_all)
    have r: "drop i rds = rds ! i # rds ! Suc i # drop (Suc (Suc i)) rds"
      "rds ! Suc i # drop (Suc (Suc i)) rds = drop (Suc i) rds"
      using True by (simp_all add: Cons_nth_drop_Suc)
    have sk: "json_skip_whitespace s (left (CHR '','' # '' '' @ ?rest)) = Some (left (CHR '','' # '' '' @ ?rest), None, ())"
      using skip_blank [of "[]" "CHR '',''" "'' '' @ ?rest" s] s1 by simp
    show ?thesis
      unfolding d r(1) read_value_tuple_impl.simps(3) left_simps(2)
      unfolding r(2) using call [OF s0] sk byte_at_suffix [OF s1] IH by (simp add: ends_value_def)
  next
    case False
    then have i: "Suc i = length rds" using Suc.prems(1) by simp
    have d: "drop i texts = [texts ! i]" "drop i rds = [rds ! i]"
      using i assms(1) by (metis Cons_nth_drop_Suc drop_all le_refl lessI)+
    note s0 = suffix_ConsD [OF Suc.prems(5) [unfolded d(1) elements_text.simps]]
    note s1 = suffix_split [OF suffix_split [OF s0]]
    have vs: "xs[i := vs ! i] = vs" using tk i lv by simp
    show ?thesis
      unfolding d elements_text.simps read_value_tuple_impl.simps(2) left_simps(2)
      using call [OF s0] skip_blank [of "[]" "CHR '']''" r s] byte_at_suffix [OF s1] s1 vs by (simp add: ends_value_def)
  qed
qed simp

lemma echo_tuple:
  assumes "length texts = length ts" "conforms_all ts vs" "\<And>s. length (rds s) = length ts" "ts \<noteq> []"
    and "\<And>i. i < length ts \<Longrightarrow> echoes (\<lambda>s. rds s ! i) (ts ! i) (texts ! i) (vs ! i)"
  shows "echoes (\<lambda>s. read_tuple (rds s) s) (TTuple ts) (tuple_text texts) (VTuple vs)"
proof (rule echoesI)
  fix s ws r and x :: "'a val"
  assume a: "suffix (ws @ tuple_text texts @ r) s" "blank ws" "conforms (TTuple ts) x"
  have t: "tuple_text texts @ r = CHR ''['' # elements_text texts @ CHR '']'' # r" by (simp add: tuple_text_def)
  obtain xs where xs: "x = VTuple xs" "conforms_all ts xs" using conforms_inv(4) [OF a(3)] by blast
  note s0 = a(1) [unfolded t]
  note s1 = suffix_split [OF s0]
  have "read_value_tuple_impl 0 (drop 0 (rds s)) s (left (CHR ''['' # [] @ elements_text (drop 0 texts) @ CHR '']'' # r)) (VTuple xs)
    = Some (left r, None, VTuple vs)"
    by (rule tuple_echo [where rd = "\<lambda>s i. rds s ! i"]) (use assms xs s1 in auto)
  then show "read_tuple (rds s) s (left (ws @ tuple_text texts @ r)) x = Some (left r, None, VTuple vs)"
    unfolding t read_tuple_def
    using skip_blank [OF a(2) s0] byte_at_suffix [OF s1] xs(1) by simp
qed

lemma printable_conforms: "printable L t v \<Longrightarrow> conforms t v"
  and printables_conform: "printables L ts vs \<Longrightarrow> conforms_all ts vs"
  by (induction L t v and L ts vs rule: printable_printables.induct) simp_all

lemma find_impl_mem: "key \<in> set keys \<Longrightarrow> \<exists>j. find_impl keys i key = Some j"
  by (induction keys arbitrary: i) auto

lemma table_find_mem: "key \<in> set keys \<Longrightarrow> \<exists>j. table_find keys key = Some j"
  by (simp add: table_find_def find_impl_mem)

lemma enum_key:
  assumes "distinct keys" "length keys = length values" "v \<in> set values"
  obtains key i where "value_get_key keys values v = Some key" "key \<in> set keys"
    "table_find keys key = Some i" "table_get values i = Some v"
proof -
  obtain i where i: "table_find values v = Some i"
    using table_find_mem [OF assms(3)] by blast
  then have "i < length values" "values ! i = v" using table_findD [OF i] by auto
  then show ?thesis using that [of "keys ! i" i] assms i
    by (simp add: value_get_key_def table_get_def table_find_distinct)
qed

lemma read_json_text:
  fixes L :: "('n::zero, 'z) lib_scheme"
  assumes "reads_ok L" "numbers_ok L"
  shows "printable L t v \<Longrightarrow> echoes (\<lambda>s. read_value L s t) t (json_text L t d v) v"
proof (induction t arbitrary: v d)
  case TBool
  then obtain b where "v = VBool b" by (cases v) simp_all
  then show ?case by (simp add: echo_bool)
next
  case (TNum k)
  then obtain n where "v = VNum n" by (cases v) simp_all
  then show ?case using TNum echo_number [OF assms(2)] by auto
next
  case (TEnum keys vals)
  then obtain e where v: "v = VEnum e" by (cases v) simp_all
  then have p: "distinct keys" "length keys = length vals" "e \<in> set vals" "list_all plain keys"
    using TEnum by simp_all
  from p(1-3) obtain key i where "value_get_key keys vals e = Some key" "key \<in> set keys"
    "table_find keys key = Some i" "table_get vals i = Some e" by (rule enum_key)
  then show ?case using v p(4) echo_enum [OF assms(1)] by (simp add: list_all_iff)
next
  case TString
  then obtain str where "v = VString str" by (cases v) simp_all
  then show ?case using TString by (simp add: echo_str assms(1))
next
  case (TClass keys ts)
  then obtain vs where v: "v = VClass vs" by (cases v) simp_all
  then have p: "keys \<noteq> []" "distinct keys" "length keys = length ts" "length keys \<le> 128" "list_all plain keys"
    "printables L ts vs" using TClass.prems by simp_all
  then have n: "length ts = length vs" "\<And>i. i < length ts \<Longrightarrow> printable L (ts ! i) (vs ! i)"
    by (simp_all add: printables_iff)
  have e: "echoes (\<lambda>s. map (read_value L s) ts ! i) (ts ! i) (json_texts L ts (Suc d) vs ! i) (vs ! i)"
    if "i < length ts" for i
    using that TClass.IH [OF nth_mem n(2)] json_texts_nth [OF n(1), of L "Suc d"] by simp
  have "echoes (\<lambda>s. read_class L keys (map (read_value L s) ts) s) (TClass keys ts)
      (class_text keys (json_texts L ts (Suc d) vs) d) (VClass vs)"
    by (rule echo_class)
      (use p n assms(1) e json_texts_nth [OF n(1)] printables_conform [OF p(6)] in auto)
  then show ?case by (simp add: v)
next
  case (TTuple ts)
  then obtain vs where v: "v = VTuple vs" by (cases v) simp_all
  then have p: "ts \<noteq> []" "printables L ts vs" using TTuple.prems by simp_all
  then have n: "length ts = length vs" "\<And>i. i < length ts \<Longrightarrow> printable L (ts ! i) (vs ! i)"
    by (simp_all add: printables_iff)
  have e: "echoes (\<lambda>s. map (read_value L s) ts ! i) (ts ! i) (json_texts L ts (Suc d) vs ! i) (vs ! i)"
    if "i < length ts" for i
    using that TTuple.IH [OF nth_mem n(2)] json_texts_nth [OF n(1), of L "Suc d"] by simp
  have "echoes (\<lambda>s. read_tuple (map (read_value L s) ts) s) (TTuple ts)
      (tuple_text (json_texts L ts (Suc d) vs)) (VTuple vs)"
    by (rule echo_tuple)
      (use p n e json_texts_nth [OF n(1)] printables_conform [OF p(2)] in auto)
  then show ?case by (simp add: v)
qed simp_all

end
