(* ===== verification/Text_Writer.thy ===== *)
theory Text_Writer
  imports Serialization
begin

text \<open>
  What the writers of JSON and INI texts share: both contain the same two private functions
  \<open>write\<close>.  A writer fills a buffer of fixed size and returns the buffer and the new size; a size
  that is not negative means that the buffer was too small, and every caller is meant to return at
  once, the pattern \<open>and_write\<close>.  A write outside of the buffer is \<open>None\<close>.  A writer emits a text if it
  puts that text where it starts, provided that there is room for it and at least one byte more.
\<close>

section \<open>Writing\<close>

type_synonym written = "(string \<times> ssize) option"

definition and_write :: "written \<Rightarrow> (string \<Rightarrow> ssize \<Rightarrow> written) \<Rightarrow> written" where
  "and_write w k = do { (b, sz) \<leftarrow> w; if sz \<ge> 0 then Some (b, sz) else k b sz }"

definition write_char :: "char \<Rightarrow> string \<Rightarrow> ssize \<Rightarrow> written" where
  "write_char c b sz =
     (if sz < 0 then
        (if - int (length b) \<le> sz then Some (b[nat (int (length b) + sz) := c], sz + 1) else None)
      else Some (b, sz))"

definition write_view :: "('n, 'z) lib_scheme \<Rightarrow> string \<Rightarrow> string \<Rightarrow> ssize \<Rightarrow> written" where
  "write_view L data b sz =
     (case ful_copy L data b sz of (b', Some sz') \<Rightarrow> Some (b', sz') | (b', None) \<Rightarrow> Some (b', - sz))"

text \<open>The call of \<open>fio::to_chars\<close> in both writers: it is not given the end of the buffer.\<close>

definition write_to_chars :: "('n, 'z) lib_scheme \<Rightarrow> nat \<Rightarrow> 'n \<Rightarrow> string \<Rightarrow> ssize \<Rightarrow> written" where
  "write_to_chars L k n b sz =
     (case fio_to_chars L k n of
        None \<Rightarrow> Some (b, - sz)
      | Some t \<Rightarrow>
        if - int (length b) \<le> sz \<and> sz + int (length t) \<le> 0
        then Some (take (nat (int (length b) + sz)) b @ t @ drop (nat (int (length b) + sz) + length t) b,
                   sz + int (length t))
        else None)"

section \<open>Emitting a text\<close>

text \<open>What writing relies on: data that fits is copied and the end of it returned, data that does
  not fit gives a null pointer, and the first bytes of a string are a prefix of it.\<close>

definition writes_ok :: "('n, 'z) lib_scheme \<Rightarrow> bool" where
  "writes_ok L \<longleftrightarrow>
     (\<forall>data pre old r. length old = length data \<longrightarrow>
        ful_copy L data (pre @ old @ r) (left (old @ r)) = (pre @ data @ r, Some (left r))) \<and>
     (\<forall>data b sz. 0 < sz + int (length data) \<longrightarrow> ful_copy L data b sz = (b, None)) \<and>
     (\<forall>s n. n \<le> length s \<longrightarrow> ful_first L s n = take n s)"

definition emits :: "(string \<Rightarrow> ssize \<Rightarrow> written) \<Rightarrow> string \<Rightarrow> bool" where
  "emits w t \<longleftrightarrow>
     (\<forall>pre old r. length old = length t \<longrightarrow> r \<noteq> [] \<longrightarrow>
        w (pre @ old @ r) (left (old @ r)) = Some (pre @ t @ r, left r))"

lemma emitsI:
  assumes "\<And>pre old r. length old = length t \<Longrightarrow> r \<noteq> [] \<Longrightarrow>
    w (pre @ old @ r) (left (old @ r)) = Some (pre @ t @ r, left r)"
  shows "emits w t"
  using assms by (simp add: emits_def)

lemma emitsD:
  "emits w t \<Longrightarrow> length old = length t \<Longrightarrow> r \<noteq> [] \<Longrightarrow>
   w (pre @ old @ r) (left (old @ r)) = Some (pre @ t @ r, left r)"
  by (simp add: emits_def)

lemma emits_bind:
  assumes "emits w t" "emits k t'"
  shows "emits (\<lambda>b sz. do { (b, sz) \<leftarrow> w b sz; k b sz }) (t @ t')"
proof (rule emitsI)
  fix pre old r :: string
  assume a: "length old = length (t @ t')" "r \<noteq> []"
  define o1 o2 where o: "o1 = take (length t) old" "o2 = drop (length t) old"
  have old: "old = o1 @ o2" "length o1 = length t" "length o2 = length t'" using a o by simp_all
  have 1: "w (pre @ o1 @ o2 @ r) (left (o1 @ o2 @ r)) = Some (pre @ t @ o2 @ r, left (o2 @ r))"
    using emitsD [OF assms(1) old(2), of "o2 @ r" pre] a(2) by simp
  have 2: "k ((pre @ t) @ o2 @ r) (left (o2 @ r)) = Some ((pre @ t) @ t' @ r, left r)"
    by (rule emitsD [OF assms(2) old(3) a(2)])
  show "(do { (b, sz) \<leftarrow> w (pre @ old @ r) (left (old @ r)); k b sz }) = Some (pre @ (t @ t') @ r, left r)"
    using 1 2 by (simp add: old(1))
qed

lemma emits_and_write:
  assumes "emits w t" "emits k t'"
  shows "emits (\<lambda>b sz. and_write (w b sz) k) (t @ t')"
proof -
  have "emits (\<lambda>b sz. if sz \<ge> 0 then Some (b, sz) else k b sz) t'"
    using assms(2) by (simp add: emits_def)
  from emits_bind [OF assms(1) this] show ?thesis by (simp add: and_write_def)
qed

lemma emits_nothing: "emits (\<lambda>b sz. Some (b, sz)) []"
  by (simp add: emits_def)

lemma emits_char: "emits (write_char c) [c]"
proof (rule emitsI)
  fix pre old r :: string
  assume "length old = length [c]" "r \<noteq> []"
  then obtain d where "old = [d]" by (auto simp: length_Suc_conv)
  then show "write_char c (pre @ old @ r) (left (old @ r)) = Some (pre @ [c] @ r, left r)"
    by (simp add: write_char_def left_def list_update_append)
qed

lemma emits_view: "writes_ok L \<Longrightarrow> emits (write_view L data) data"
  by (rule emitsI) (simp add: write_view_def writes_ok_def)

lemma emits_to_chars:
  assumes "fio_to_chars L k n = Some t"
  shows "emits (write_to_chars L k n) t"
proof (rule emitsI)
  fix pre old r :: string
  assume a: "length old = length t"
  then have "nat (int (length (pre @ old @ r)) + left (old @ r)) = length pre" by (simp add: left_def)
  moreover have "left (old @ r) + int (length t) = left r" using a by (simp add: left_def)
  moreover have "- int (length (pre @ old @ r)) \<le> left (old @ r)" by (simp add: left_def)
  ultimately show "write_to_chars L k n (pre @ old @ r) (left (old @ r)) = Some (pre @ t @ r, left r)"
    using assms a by (simp add: write_to_chars_def)
qed

lemma dec_lib_writes_ok: "writes_ok dec_lib"
  by (auto simp: writes_ok_def dec_lib_def copy_bytes_def left_def)

end
