(* ===== verification/Json_Serializer.thy ===== *)
theory Json_Serializer
  imports Json_Text Text_Writer
begin

text \<open>
  The writer of JSON texts (\<open>core/JsonSerializer.hpp\<close>) into a buffer of fixed size, and the round
  trip with the reader.

  There is no writer for optional members and vectors (no overload of \<open>write_value\<close> accepts them),
  and the one for ranges asks the index of an element for a member that an index does not have, so
  that it does not compile when it is used; these types are \<open>None\<close>.
\<close>

section \<open>The writer\<close>

definition write_string :: "('n, 'z) lib_scheme \<Rightarrow> string \<Rightarrow> string \<Rightarrow> ssize \<Rightarrow> written" where
  "write_string L str b sz =
     and_write (write_char (CHR 0x22) b sz) (\<lambda>b sz.
     and_write (write_view L str b sz) (write_char (CHR 0x22)))"

type_synonym 'n writer = "'n val \<Rightarrow> nat \<Rightarrow> string \<Rightarrow> ssize \<Rightarrow> written"

definition write_bool :: "('n, 'z) lib_scheme \<Rightarrow> 'n writer" where
  "write_bool L x depth b sz =
     (case x of VBool v \<Rightarrow> write_view L (if v then ''true'' else ''false'') b sz | _ \<Rightarrow> None)"

definition write_enum :: "('n, 'z) lib_scheme \<Rightarrow> string list \<Rightarrow> nat list \<Rightarrow> 'n writer" where
  "write_enum L keys values x depth b sz =
     (case x of VEnum v \<Rightarrow> do { key \<leftarrow> value_get_key keys values v; write_string L key b sz } | _ \<Rightarrow> None)"

definition write_str :: "('n, 'z) lib_scheme \<Rightarrow> 'n writer" where
  "write_str L x depth b sz = (case x of VString str \<Rightarrow> write_string L str b sz | _ \<Rightarrow> None)"

definition write_number :: "('n, 'z) lib_scheme \<Rightarrow> nat \<Rightarrow> 'n writer" where
  "write_number L k x depth b sz = (case x of VNum n \<Rightarrow> write_to_chars L k n b sz | _ \<Rightarrow> None)"

text \<open>The members of a class from index \<open>i\<close> on.  The result of \<open>write_string\<close> is not checked.\<close>

fun write_members ::
    "('n, 'z) lib_scheme \<Rightarrow> nat \<Rightarrow> nat \<Rightarrow> string list \<Rightarrow> 'n writer list \<Rightarrow> 'n val list \<Rightarrow> string \<Rightarrow> ssize \<Rightarrow> written"
where
  "write_members L depth i (key # keys) (wr # wrs) (y # ys) b sz =
     and_write (if i \<noteq> 0 then write_view L (ful_first L (CHR '','' # CHR 0x0A # replicate 16 (CHR 0x09)) (2 + depth)) b sz
                else Some (b, sz)) (\<lambda>b sz. do {
     (b, sz) \<leftarrow> write_string L key b sz;
     and_write (write_view L '' : '' b sz) (\<lambda>b sz.
     and_write (wr y depth b sz) (\<lambda>b sz.
     write_members L depth (Suc i) keys wrs ys b sz)) })"
| "write_members L depth i [] [] [] b sz = Some (b, sz)"
| "write_members L depth i _ _ _ b sz = None"

definition write_class :: "('n, 'z) lib_scheme \<Rightarrow> string list \<Rightarrow> 'n writer list \<Rightarrow> 'n writer" where
  "write_class L keys wrs x depth b sz =
     (case x of VClass ys \<Rightarrow>
        if keys = [] then write_view L ''{}'' b sz
        else let depth = Suc depth in
          and_write (write_view L (ful_first L (CHR ''{'' # CHR 0x0A # replicate 16 (CHR 0x09)) (2 + depth)) b sz) (\<lambda>b sz.
          and_write (write_members L depth 0 keys wrs ys b sz) (\<lambda>b sz.
          and_write (write_view L (ful_first L (CHR 0x0A # replicate 16 (CHR 0x09)) depth) b sz) (write_char (CHR ''}''))))
      | _ \<Rightarrow> None)"

fun write_elements ::
    "('n, 'z) lib_scheme \<Rightarrow> nat \<Rightarrow> nat \<Rightarrow> 'n writer list \<Rightarrow> 'n val list \<Rightarrow> string \<Rightarrow> ssize \<Rightarrow> written" where
  "write_elements L depth i (wr # wrs) (y # ys) b sz =
     and_write (if i \<noteq> 0 then write_view L '', '' b sz else Some (b, sz)) (\<lambda>b sz.
     and_write (wr y depth b sz) (\<lambda>b sz.
     write_elements L depth (Suc i) wrs ys b sz))"
| "write_elements L depth i [] [] b sz = Some (b, sz)"
| "write_elements L depth i _ _ b sz = None"

definition write_tuple :: "('n, 'z) lib_scheme \<Rightarrow> 'n writer list \<Rightarrow> 'n writer" where
  "write_tuple L wrs x depth b sz =
     (case x of VTuple ys \<Rightarrow>
        if ys = [] then write_view L ''[]'' b sz
        else let depth = Suc depth in
          and_write (write_char (CHR ''['') b sz) (\<lambda>b sz.
          and_write (write_elements L depth 0 wrs ys b sz) (write_char (CHR '']'')))
      | _ \<Rightarrow> None)"

primrec write_value :: "('n, 'z) lib_scheme \<Rightarrow> ty \<Rightarrow> 'n writer" where
  "write_value L TBool = write_bool L"
| "write_value L (TNum k) = write_number L k"
| "write_value L (TEnum keys values) = write_enum L keys values"
| "write_value L TString = write_str L"
| "write_value L (TClass keys ts) = write_class L keys (map (write_value L) ts)"
| "write_value L (TArray t) = (\<lambda>x depth b sz. None)"
| "write_value L (TTuple ts) = write_tuple L (map (write_value L) ts)"
| "write_value L (TVector t) = (\<lambda>x depth b sz. None)"
| "write_value L (TOptional t) = (\<lambda>x depth b sz. None)"

text \<open>\<open>serialize_json\<close>: the buffer and the number of bytes written, zero for a failure.\<close>

definition serialize_json :: "('n, 'z) lib_scheme \<Rightarrow> ty \<Rightarrow> string \<Rightarrow> 'n val \<Rightarrow> (string \<times> ssize) option" where
  "serialize_json L t b x = do {
     (b, sz) \<leftarrow> write_value L t x 0 b (- int (length b));
     if sz < 0 then
       (if - int (length b) \<le> sz
        then Some (b[nat (int (length b) + sz) := CHR 0x0A], sz + 1 - (- int (length b))) else None)
     else Some (b, 0) }"

section \<open>A writer emits the text of its value\<close>

lemma emits_string: "writes_ok L \<Longrightarrow> emits (write_string L str) (quoted str)"
  using emits_and_write [OF emits_char emits_and_write [OF emits_view emits_char]]
  unfolding write_string_def [abs_def] quoted_def by fastforce

text \<open>The indentation of the writer is cut from strings with sixteen tabs.\<close>

primrec levels :: "ty \<Rightarrow> nat" where
  "levels TBool = 0"
| "levels (TNum k) = 0"
| "levels (TEnum keys values) = 0"
| "levels TString = 0"
| "levels (TClass keys ts) = Suc (foldr max (map levels ts) 0)"
| "levels (TArray t) = Suc (levels t)"
| "levels (TTuple ts) = Suc (foldr max (map levels ts) 0)"
| "levels (TVector t) = levels t"
| "levels (TOptional t) = levels t"

lemma levels_nth: "i < length ts \<Longrightarrow> levels (ts ! i) \<le> foldr max (map levels ts) 0"
proof (induction ts arbitrary: i)
  case (Cons t ts)
  then show ?case by (cases i) (auto simp: le_max_iff_disj)
qed simp

lemma first_tabs:
  assumes "writes_ok L" "n \<le> length p + 16" "length p \<le> n"
  shows "ful_first L (p @ replicate 16 (CHR 0x09)) n = p @ tabs (n - length p)"
  using assms by (simp add: writes_ok_def tabs_def take_replicate min_absorb1)

lemma emits_members:
  assumes "writes_ok L" "length keys = length texts" "length wrs = length texts" "length ys = length texts"
    and "\<And>i. i < length texts \<Longrightarrow> emits ((wrs ! i) (ys ! i) depth) (texts ! i)" "depth \<le> 16"
  shows "emits (write_members L depth i keys wrs ys)
    ((if i \<noteq> 0 \<and> keys \<noteq> [] then CHR '','' # CHR 0x0A # tabs depth else []) @
     members_text (CHR '','' # CHR 0x0A # tabs depth) keys texts)"
  using assms(2-5)
proof (induction keys texts arbitrary: wrs ys i rule: list_induct2')
  case 1
  then show ?case using emits_nothing by simp
next
  case (4 key keys t ts)
  obtain wr wrs' where w: "wrs = wr # wrs'" "length wrs' = length ts" using 4(3) by (cases wrs) auto
  obtain y ys' where y: "ys = y # ys'" "length ys' = length ts" using 4(4) by (cases ys) auto
  have IH: "emits (write_members L depth (Suc i) keys wrs' ys')
    ((if keys \<noteq> [] then CHR '','' # CHR 0x0A # tabs depth else []) @
     members_text (CHR '','' # CHR 0x0A # tabs depth) keys ts)"
    using 4(1) [of wrs' ys' "Suc i"] 4(2,5) w y by fastforce
  have wr: "emits (wr y depth) t" using 4(5) [of 0] w y by simp
  have sep: "emits (\<lambda>b sz. if i \<noteq> 0 then write_view L (ful_first L (CHR '','' # CHR 0x0A # replicate 16 (CHR 0x09)) (2 + depth)) b sz
       else Some (b, sz)) (if i \<noteq> 0 then CHR '','' # CHR 0x0A # tabs depth else [])"
    using emits_view [OF assms(1)] emits_nothing first_tabs [OF assms(1), of "2 + depth" "[CHR '','', CHR 0x0A]"] assms(6)
    by (cases "i = 0") simp_all
  note all = emits_and_write [OF sep emits_bind [OF emits_string [OF assms(1)] emits_and_write [OF emits_view [OF assms(1)]
      emits_and_write [OF wr IH]]], of key "'' : ''"]
  have "members_text (CHR '','' # CHR 0x0A # tabs depth) (key # keys) (t # ts) = quoted key @ '' : '' @ t @
     (if keys \<noteq> [] then CHR '','' # CHR 0x0A # tabs depth else []) @
     members_text (CHR '','' # CHR 0x0A # tabs depth) keys ts"
    using 4(2) by (cases keys; cases ts) simp_all
  then show ?case using all w(1) y(1) by (simp add: write_members.simps(1) [abs_def])
qed simp_all

lemma emits_class:
  assumes "writes_ok L" "length keys = length texts" "length wrs = length texts" "length ys = length texts"
    and "\<And>i. i < length texts \<Longrightarrow> emits ((wrs ! i) (ys ! i) (Suc d)) (texts ! i)" "Suc d \<le> 16" "keys \<noteq> []"
  shows "emits (write_class L keys wrs (VClass ys) d) (class_text keys texts d)"
proof -
  have f: "ful_first L (CHR ''{'' # CHR 0x0A # replicate 16 (CHR 0x09)) (2 + Suc d) = CHR ''{'' # CHR 0x0A # tabs (Suc d)"
    "ful_first L (CHR 0x0A # replicate 16 (CHR 0x09)) (Suc d) = CHR 0x0A # tabs d"
    using first_tabs [OF assms(1), of "2 + Suc d" "[CHR ''{'', CHR 0x0A]"]
      first_tabs [OF assms(1), of "Suc d" "[CHR 0x0A]"] assms(6) by simp_all
  note all = emits_and_write [OF emits_view [OF assms(1)] emits_and_write [OF emits_members [OF assms(1-6), of 0]
      emits_and_write [OF emits_view [OF assms(1)] emits_char]], of "CHR ''{'' # CHR 0x0A # tabs (Suc d)" "CHR 0x0A # tabs d" "CHR ''}''"]
  then show ?thesis using assms(7) by (simp add: write_class_def [abs_def] class_text_def f [simplified])
qed

lemma emits_elements:
  assumes "writes_ok L" "length wrs = length texts" "length ys = length texts"
    and "\<And>i. i < length texts \<Longrightarrow> emits ((wrs ! i) (ys ! i) depth) (texts ! i)"
  shows "emits (write_elements L depth i wrs ys) ((if i \<noteq> 0 \<and> texts \<noteq> [] then '', '' else []) @ elements_text texts)"
  using assms(2-)
proof (induction texts arbitrary: wrs ys i)
  case Nil
  then show ?case using emits_nothing by simp
next
  case (Cons t ts)
  obtain wr wrs' where w: "wrs = wr # wrs'" "length wrs' = length ts" using Cons.prems(1) by (cases wrs) auto
  obtain y ys' where y: "ys = y # ys'" "length ys' = length ts" using Cons.prems(2) by (cases ys) auto
  have IH: "emits (write_elements L depth (Suc i) wrs' ys') ((if ts \<noteq> [] then '', '' else []) @ elements_text ts)"
    using Cons.IH [of wrs' ys' "Suc i"] Cons.prems(3) w y by fastforce
  have wr: "emits (wr y depth) t" using Cons.prems(3) [of 0] w y by simp
  have sep: "emits (\<lambda>b sz. if i \<noteq> 0 then write_view L '', '' b sz else Some (b, sz)) (if i \<noteq> 0 then '', '' else [])"
    using emits_view [OF assms(1)] emits_nothing by (cases "i = 0") simp_all
  have "elements_text (t # ts) = t @ (if ts \<noteq> [] then '', '' else []) @ elements_text ts"
    by (cases ts) simp_all
  then show ?case
    using emits_and_write [OF sep emits_and_write [OF wr IH]] w(1) y(1)
    by (simp add: write_elements.simps(1) [abs_def])
qed

lemma emits_tuple:
  assumes "writes_ok L" "length wrs = length texts" "length ys = length texts" "ys \<noteq> []"
    and "\<And>i. i < length texts \<Longrightarrow> emits ((wrs ! i) (ys ! i) (Suc d)) (texts ! i)"
  shows "emits (write_tuple L wrs (VTuple ys) d) (tuple_text texts)"
  using emits_and_write [OF emits_char emits_and_write [OF emits_elements [OF assms(1-3,5), of 0] emits_char],
      of "CHR ''[''" "CHR '']''"] assms(4)
  by (simp add: write_tuple_def [abs_def] tuple_text_def)

lemma emits_number: "fio_to_chars L k n = Some t \<Longrightarrow> emits (write_number L k (VNum n) d) t"
  using emits_to_chars by (simp add: write_number_def [abs_def])

lemma emits_value:
  assumes "writes_ok L"
  shows "printable L t v \<Longrightarrow> levels t + d \<le> 16 \<Longrightarrow> emits (write_value L t v d) (json_text L t d v)"
proof (induction t arbitrary: v d)
  case TBool
  then obtain b where "v = VBool b" by (cases v) simp_all
  then show ?case using emits_view [OF assms] by (simp add: write_bool_def [abs_def])
next
  case (TNum k)
  then obtain n where "v = VNum n" by (cases v) simp_all
  then show ?case using TNum emits_number by auto
next
  case (TEnum keys vals)
  then obtain e where v: "v = VEnum e" by (cases v) simp_all
  then have "distinct keys" "length keys = length vals" "e \<in> set vals" using TEnum by simp_all
  then obtain key where "value_get_key keys vals e = Some key" by (rule enum_key)
  then show ?case using v emits_string [OF assms] by (simp add: write_enum_def [abs_def])
next
  case TString
  then obtain str where "v = VString str" by (cases v) simp_all
  then show ?case using emits_string [OF assms] by (simp add: write_str_def [abs_def])
next
  case (TClass keys ts)
  then obtain vs where v: "v = VClass vs" by (cases v) simp_all
  then have p: "keys \<noteq> []" "length keys = length ts" "printables L ts vs" using TClass.prems by simp_all
  then have n: "length ts = length vs" "\<And>i. i < length ts \<Longrightarrow> printable L (ts ! i) (vs ! i)"
    by (simp_all add: printables_iff)
  have e: "emits ((map (write_value L) ts ! i) (vs ! i) (Suc d)) (json_texts L ts (Suc d) vs ! i)"
    if "i < length ts" for i
    using that TClass.IH [OF nth_mem n(2)] json_texts_nth [OF n(1), of L "Suc d"] levels_nth [OF that] TClass.prems(2) by simp
  have "emits (write_class L keys (map (write_value L) ts) (VClass vs) d) (class_text keys (json_texts L ts (Suc d) vs) d)"
    by (rule emits_class [OF assms]) (use p n e json_texts_nth [OF n(1), of L "Suc d"] TClass.prems(2) in auto)
  then show ?case by (simp add: v)
next
  case (TTuple ts)
  then obtain vs where v: "v = VTuple vs" by (cases v) simp_all
  then have p: "ts \<noteq> []" "printables L ts vs" using TTuple.prems by simp_all
  then have n: "length ts = length vs" "\<And>i. i < length ts \<Longrightarrow> printable L (ts ! i) (vs ! i)"
    by (simp_all add: printables_iff)
  have e: "emits ((map (write_value L) ts ! i) (vs ! i) (Suc d)) (json_texts L ts (Suc d) vs ! i)"
    if "i < length ts" for i
    using that TTuple.IH [OF nth_mem n(2)] json_texts_nth [OF n(1), of L "Suc d"] levels_nth [OF that] TTuple.prems(2) by simp
  have "emits (write_tuple L (map (write_value L) ts) (VTuple vs) d) (tuple_text (json_texts L ts (Suc d) vs))"
    by (rule emits_tuple [OF assms]) (use p n e json_texts_nth [OF n(1), of L "Suc d"] in auto)
  then show ?case by (simp add: v)
qed simp_all

lemma serialize_text:
  assumes "writes_ok L" "printable L t v" "levels t \<le> 16" "length (json_text L t 0 v) < length b"
  shows "serialize_json L t b v =
    Some (json_text L t 0 v @ CHR 0x0A # drop (Suc (length (json_text L t 0 v))) b, int (length (json_text L t 0 v)) + 1)"
proof -
  let ?t = "json_text L t 0 v"
  define old r where o: "old = take (length ?t) b" "r = drop (length ?t) b"
  have b: "b = [] @ old @ r" "length old = length ?t" "r \<noteq> []" using assms(4) o by simp_all
  obtain c r' where r: "r = c # r'" using b(3) by (cases r) auto
  have "write_value L t v 0 ([] @ old @ r) (left (old @ r)) = Some ([] @ ?t @ r, left r)"
    by (rule emitsD [OF emits_value [OF assms(1,2)] b(2,3)]) (use assms(3) in simp)
  moreover have "left (old @ r) = - int (length b)" using b(1) by (simp add: left_def)
  moreover have "nat (int (length (?t @ r)) + left r) = length ?t" by (simp add: left_def)
  moreover have "drop (Suc (length ?t)) b = r'" using o r by (metis drop_Suc tl_drop list.sel(3))
  moreover have "- int (length (?t @ r)) \<le> left r" by (simp add: left_def)
  ultimately show ?thesis
    using b(1) r by (simp add: serialize_json_def list_update_append left_def)
qed

section \<open>Properties\<close>

text \<open>C1: A value that is written to a large enough buffer and read back is the same value,
  whatever object is given to the reader and whatever the rest of the buffer holds; the number of
  bytes the writer returns is that of the text and its final newline.  The value may use every type
  that has a writer, nested at most sixteen levels deep, with strings that need no escaping.\<close>
theorem json_round_trip:
  fixes L :: "('n::zero, 'z) lib_scheme"
  assumes "reads_ok L" "numbers_ok L" "writes_ok L"
    and "printable L t v" "levels t \<le> 16" "length (json_text L t 0 v) < length b" "conforms t x"
  shows "case serialize_json L t b v of None \<Rightarrow> False
    | Some (b', n) \<Rightarrow> n = int (length (json_text L t 0 v)) + 1 \<and>
        structure_json L t (take (nat n) b') x = Some (True, v, None) \<and>
        structure_json L t b' x = Some (True, v, None)"
proof -
  let ?t = "json_text L t 0 v"
  have read: "structure_json L t (?t @ CHR 0x0A # r) x = Some (True, v, None)" for r
  proof -
    have "read_value L (?t @ CHR 0x0A # r) t (left ([] @ ?t @ CHR 0x0A # r)) x = Some (left (CHR 0x0A # r), None, v)"
      by (rule echoesD [OF read_json_text [OF assms(1,2,4)]]) (use assms(7) in \<open>auto simp: ends_value_def\<close>)
    then show ?thesis by (simp add: structure_json_def left_def)
  qed
  show ?thesis
    using serialize_text [OF assms(3-6)] read [of "[]"] read [of "drop (Suc (length ?t)) b"]
    by (simp add: nat_add_distrib)
qed

theorem json_round_trip_witness:
  "let t = TClass [''id'', ''name''] [TNum 0, TTuple [TBool, TString]];
       v = VClass [VNum (- 42), VTuple [VBool True, VString ''abc'']];
       b = replicate 100 (CHR ''x'');
       x = VClass [VNum 0, VTuple [VBool False, VString []]]
   in reads_ok dec_lib \<and> numbers_ok dec_lib \<and> writes_ok dec_lib \<and> printable dec_lib t v \<and> conforms t x \<and>
     (case serialize_json dec_lib t b v of None \<Rightarrow> False
      | Some (b', n) \<Rightarrow> n = int (length (json_text dec_lib t 0 v)) + 1 \<and>
          structure_json dec_lib t (take (nat n) b') x = Some (True, v, None) \<and>
          structure_json dec_lib t b' x = Some (True, v, None))"
proof -
  let ?t = "TClass [''id'', ''name''] [TNum 0, TTuple [TBool, TString]]"
    and ?v = "VClass [VNum (- 42), VTuple [VBool True, VString ''abc'']] :: int val"
    and ?x = "VClass [VNum 0, VTuple [VBool False, VString []]] :: int val"
  have p: "printable dec_lib ?t ?v" by (simp add: dec_lib_def plain_def)
  have l: "length (json_text dec_lib ?t 0 ?v) < length (replicate 100 (CHR ''x''))" by code_simp
  have "case serialize_json dec_lib ?t (replicate 100 (CHR ''x'')) ?v of None \<Rightarrow> False
      | Some (b', n) \<Rightarrow> n = int (length (json_text dec_lib ?t 0 ?v)) + 1 \<and>
          structure_json dec_lib ?t (take (nat n) b') ?x = Some (True, ?v, None) \<and>
          structure_json dec_lib ?t b' ?x = Some (True, ?v, None)"
    by (rule json_round_trip [OF dec_lib_reads_ok dec_lib_numbers_ok dec_lib_writes_ok p _ l]) simp_all
  then show ?thesis
    unfolding Let_def using dec_lib_reads_ok dec_lib_numbers_ok dec_lib_writes_ok p by simp
qed

text \<open>A text that ends inside of an object or an array is accepted: when a member or an element
  is followed by the end of the text, its size of zero is handed up as the result of the whole
  call, and zero is taken for success.\<close>
theorem json_unterminated_accepted:
  fixes L :: "('n::zero, 'z) lib_scheme"
  assumes "reads_ok L" "plain key" "num \<noteq> []" "(32 :: nat) < of_char (hd num)" "hd num \<noteq> CHR '']''"
    and "\<And>x. fio_from_chars L k num x = (length num, n)"
  shows "structure_json L (TClass [key] [TNum k]) (CHR ''{'' # quoted key @ CHR '':'' # num) (VClass [VNum y])
      = Some (True, VClass [VNum n], None) \<and>
    structure_json L (TArray (TNum k)) (CHR ''['' # num) (VArray []) = Some (True, VArray [VNum n], None)"
proof
  obtain c cs where c: "num = c # cs" using assms(3) by (cases num) auto
  have skip: "json_skip_whitespace s (left num) = Some (left num, None, ())" if "suffix num s" for s
    using skip_blank [of "[]" c cs s] that assms c by simp
  have num: "read_number L k s (left num) (VNum z) = Some (0, None, VNum n)" if "suffix num s" for s z
    using skip [OF that] drop_suffix [OF that] assms(3,6) by (simp add: read_number_def) (simp add: left_def)
  let ?o = "CHR ''{'' # quoted key @ CHR '':'' # num" and ?a = "CHR ''['' # num"
  have s: "suffix ([] @ quoted key @ CHR '':'' # num) ?o" "suffix (CHR '':'' # num) ?o" "suffix num ?o" "suffix num ?a"
    by (simp_all add: suffix_def)
  have n: "nat (- left ?o) = Suc (length (quoted key @ CHR '':'' # num))" by simp
  have "members_loop (nat (- left ?o)) L [key] [read_number L k ?o] ?o (left ?o) (VClass [VNum y])
      = Some (0, None, VClass [VNum n])"
    unfolding n members_loop.simps left_simps(2)
      read_after_blank [OF assms(1,2) blank_simps(1) s(1), unfolded append_Nil]
    using skip_blank [of "[]" "CHR '':''" num ?o] byte_at_suffix [OF s(2)]
      num [OF s(3)] s(2)
    by (simp add: table_find_def member_call_def)
  moreover have "byte_at ?o (left ?o) = Some (CHR ''{'')" by (rule byte_at_suffix) simp
  moreover have "json_skip_whitespace ?o (left ?o) = Some (left ?o, None, ())"
    using skip_blank [of "[]" "CHR ''{''" "quoted key @ CHR '':'' # num" ?o] by simp
  ultimately show "structure_json L (TClass [key] [TNum k]) ?o (VClass [VNum y]) = Some (True, VClass [VNum n], None)"
    unfolding structure_json_def left_def [symmetric] by (simp add: read_class_def)
  have "byte_at ?a (left num) = Some c" "c \<noteq> CHR '']''" using byte_at_suffix [of c cs ?a] s(4) c assms(5) by simp_all
  moreover have "byte_at ?a (left ?a) = Some (CHR ''['')" by (rule byte_at_suffix) simp
  moreover have "json_skip_whitespace ?a (left ?a) = Some (left ?a, None, ())"
    using skip_blank [of "[]" "CHR ''[''" num ?a] by simp
  moreover have "elements_loop (length num) (read_number L k ?a) (VNum 0) ?a (left num) (VArray []) = Some (0, None, VArray [VNum n])"
    using num [OF s(4)] c by (simp add: grow_range_def last_call_def)
  ultimately show "structure_json L (TArray (TNum k)) ?a (VArray []) = Some (True, VArray [VNum n], None)"
    unfolding structure_json_def left_def [symmetric] using skip [OF s(4)] assms(3) by (simp add: read_array_def)
qed

theorem json_unterminated_accepted_witness:
  "structure_json dec_lib (TClass [''a''] [TNum 0]) (CHR ''{'' # quoted ''a'' @ CHR '':'' # ''12'') (VClass [VNum 0])
      = Some (True, VClass [VNum 12], None) \<and>
   structure_json dec_lib (TArray (TNum 0)) (CHR ''['' # ''12'') (VArray []) = Some (True, VArray [VNum 12], None)"
  by (rule json_unterminated_accepted [OF dec_lib_reads_ok])
    (simp_all add: plain_def dec_lib_def scan_int_def is_digit_def value_of_def)

text \<open>The writer can report success for a text it did not write: when a key does not fit, the
  positive size that says so is passed to the next write unchecked, which fails too and negates it,
  so that writing goes on where the key should have been.  For a class with one number whose text
  \<open>t\<close> is short, a buffer of \<open>7 + length t\<close> bytes and any key of more than \<open>3 + length t\<close> bytes, the
  result is a text without the key, reported with the size of the whole buffer.\<close>
theorem json_key_error_lost:
  assumes "writes_ok L" "fio_to_chars L k n = Some t"
    and "length b = 7 + length t" "3 + length t < length key"
  shows "serialize_json L (TClass [key] [TNum k]) b (VClass [VNum n]) =
    Some (''{'' @ [CHR 0x0A, CHR 0x09, CHR 0x22] @ t @ [CHR 0x0A, CHR ''}'', CHR 0x0A], 7 + int (length t))"
proof -
  have "\<exists>b1 b2 b3 b4 o2 x y z. b = b1 # b2 # b3 # b4 # o2 @ [x, y, z] \<and> length o2 = length t"
  proof -
    obtain h m e where "b = h @ m @ e" "length h = 4" "length m = length t" "length e = 3"
      using assms(3) that [of "take 4 b" "take (length t) (drop 4 b)" "drop (4 + length t) b"]
      by (simp flip: drop_drop add: add.commute)
    then show ?thesis by (auto simp: numeral_eq_Suc length_Suc_conv)
  qed
  then obtain b1 b2 b3 b4 o2 x y z where b: "b = b1 # b2 # b3 # b4 # o2 @ [x, y, z]" and o2: "length o2 = length t"
    by blast
  let ?h = "[CHR ''{'', CHR 0x0A, CHR 0x09]" and ?room = "o2 @ [x, y, z]"
  have refuse: "ful_copy L data B sz = (B, None)" if "0 < sz + int (length data)" for data B sz
    using assms(1) that by (simp add: writes_ok_def)
  have f: "ful_first L (CHR ''{'' # CHR 0x0A # replicate 16 (CHR 0x09)) (Suc (Suc (Suc 0))) = ?h"
    "ful_first L (CHR 0x0A # replicate 16 (CHR 0x09)) (Suc 0) = [CHR 0x0A]"
    using first_tabs [OF assms(1), of "Suc (Suc (Suc 0))" "[CHR ''{'', CHR 0x0A]"] first_tabs [OF assms(1), of "Suc 0" "[CHR 0x0A]"]
    by (simp_all add: tabs_def)
  have 1: "write_view L ?h b (left b) = Some (?h @ b4 # ?room, left (b4 # ?room))"
    using emitsD [OF emits_view [OF assms(1)], of "[b1, b2, b3]" ?h "b4 # ?room" "[]"] by (simp add: b)
  have 2: "write_char (CHR 0x22) (?h @ b4 # ?room) (left (b4 # ?room)) = Some (?h @ CHR 0x22 # ?room, left ?room)"
    using emitsD [OF emits_char, of "[b4]" "CHR 0x22" ?room ?h] by simp
  have "0 < left ?room + int (length key)" using assms(4) o2 by (simp add: left_def)
  then have 3: "write_view L key B (left ?room) = Some (B, - left ?room)" for B
    by (simp add: write_view_def refuse)
  have "0 < - left ?room + int (length '' : '')" by (simp add: left_def)
  from refuse [OF this] have 4: "write_view L '' : '' B (- left ?room) = Some (B, left ?room)" for B
    by (simp add: write_view_def)
  have 5: "write_number L k (VNum n) (Suc 0) (?h @ CHR 0x22 # ?room) (left ?room) =
      Some (?h @ CHR 0x22 # t @ [x, y, z], left [x, y, z])"
    using emitsD [OF emits_number [OF assms(2), of "Suc 0"] o2, of "[x, y, z]" "?h @ [CHR 0x22]"] by simp
  have 6: "write_view L [CHR 0x0A] (?h @ CHR 0x22 # t @ [x, y, z]) (left [x, y, z]) =
      Some (?h @ CHR 0x22 # t @ [CHR 0x0A, y, z], left [y, z])"
    using emitsD [OF emits_view [OF assms(1)], of "[x]" "[CHR 0x0A]" "[y, z]" "?h @ CHR 0x22 # t"] by simp
  have 7: "write_char (CHR ''}'') (?h @ CHR 0x22 # t @ [CHR 0x0A, y, z]) (left [y, z]) =
      Some (?h @ CHR 0x22 # t @ [CHR 0x0A, CHR ''}'', z], left [z])"
    using emitsD [OF emits_char, of "[y]" "CHR ''}''" "[z]" "?h @ CHR 0x22 # t @ [CHR 0x0A]"] by simp
  have str: "write_string L key (?h @ b4 # ?room) (left (b4 # ?room)) = Some (?h @ CHR 0x22 # ?room, - left ?room)"
    using 2 3 by (simp add: write_string_def and_write_def)
  have "write_members L (Suc 0) 0 [key] [write_number L k] [VNum n] (?h @ b4 # ?room) (left (b4 # ?room)) =
      Some (?h @ CHR 0x22 # t @ [x, y, z], left [x, y, z])"
    using str 4 5 by (simp add: and_write_def)
  then have "write_value L (TClass [key] [TNum k]) (VClass [VNum n]) 0 b (left b) =
      Some (?h @ CHR 0x22 # t @ [CHR 0x0A, CHR ''}'', z], left [z])"
    using 1 6 7 f by (simp add: write_class_def and_write_def del: write_members.simps)
  then show ?thesis
    unfolding serialize_json_def left_def [symmetric]
    by (simp add: list_update_append) (simp add: left_def list_update_append nat_add_distrib)
qed

theorem json_key_error_lost_witness:
  "serialize_json dec_lib (TClass [''abcde''] [TNum 0]) (replicate 8 (CHR ''x'')) (VClass [VNum 5]) =
    Some (''{'' @ [CHR 0x0A, CHR 0x09, CHR 0x22] @ ''5'' @ [CHR 0x0A, CHR ''}'', CHR 0x0A], 7 + int (length ''5''))"
proof (rule json_key_error_lost [OF dec_lib_writes_ok])
  show "fio_to_chars dec_lib 0 5 = Some ''5''"
    by (simp add: dec_lib_def dec_int_def) code_simp
qed simp_all

end
