(* ===== verification/Ini_Structurer.thy ===== *)
theory Ini_Structurer
  imports Text_Reader
begin

text \<open>
  The reader of INI texts (\<open>core/IniStructurer.hpp\<close>): lines \<open>key = value\<close>, comments, and headers in
  brackets that name the member whose keys follow.  One definition for every overload, as in the
  reader of JSON texts.  The loops over lines and headers take fuel, one more than the
  number of bytes left and that number.

  Unlike the reader of JSON texts this one does leave the text: it looks past an equals sign that
  ends the text, past a value that the text ends with, and in front of a key that is missing.
  \<open>ini_structure_total\<close> shows that it does not for the texts that are \<open>orderly\<close>, and
  \<open>ini_overread\<close> that it does for others.
\<close>

section \<open>Errors\<close>

datatype ini_error =
    i_unexpected_eof | i_unexpected_eol | i_unexpected_header1 | i_unexpected_key
  | i_unexpected_symbol | i_unexpected_value | i_unexpected_value2 | i_missing_spaces
  | i_type_mismatch

fun ini_code :: "ini_error \<Rightarrow> ssize" where
  "ini_code i_unexpected_eof = 1"
| "ini_code i_unexpected_eol = 2"
| "ini_code i_unexpected_header1 = 3"
| "ini_code i_unexpected_key = 4"
| "ini_code i_unexpected_symbol = 5"
| "ini_code i_unexpected_value = 6"
| "ini_code i_unexpected_value2 = 7"
| "ini_code i_missing_spaces = 8"
| "ini_code i_type_mismatch = 9"

fun ini_message :: "ini_error \<Rightarrow> (ssize \<times> string) option" where
  "ini_message i_unexpected_eof = Some (0, ''unexpected end of file'')"
| "ini_message i_unexpected_eol = Some (0, ''unexpected end of line'')"
| "ini_message i_unexpected_header1 = Some (1, ''unexpected header'')"
| "ini_message i_unexpected_key = Some (0, ''unexpected key'')"
| "ini_message i_unexpected_symbol = Some (0, ''unexpected symbol'')"
| "ini_message i_missing_spaces = Some (0, ''missing spaces around ='')"
| "ini_message _ = None"

definition ini_fail :: "ini_error \<Rightarrow> ssize \<Rightarrow> 'a \<Rightarrow> 'a parsed" where
  "ini_fail E sz x = do {
     (off, m) \<leftarrow> ini_message E;
     Some (ini_code E, Some \<lparr>te_where = sz + off, te_message = m, te_type = None\<rparr>, x) }"

fun ini_message_for :: "ini_error \<Rightarrow> (ssize \<times> string) option" where
  "ini_message_for i_unexpected_symbol = Some (0, ''unexpected symbol'')"
| "ini_message_for i_unexpected_value2 = Some (2, ''unexpected value'')"
| "ini_message_for i_unexpected_value = Some (0, ''unexpected value'')"
| "ini_message_for i_type_mismatch = Some (0, ''type mismatch'')"
| "ini_message_for _ = None"

definition ini_fail_for :: "ini_error \<Rightarrow> ssize \<Rightarrow> ty \<Rightarrow> 'a \<Rightarrow> 'a parsed" where
  "ini_fail_for E sz t x = do {
     (off, m) \<leftarrow> ini_message_for E;
     Some (ini_code E, Some \<lparr>te_where = sz + off, te_message = m, te_type = Some t\<rparr>, x) }"

section \<open>Scanning\<close>

function skip_to_char_loop :: "string \<Rightarrow> char \<Rightarrow> ssize \<Rightarrow> unit parsed" where
  "skip_to_char_loop s c sz =
     (if sz + 1 \<ge> 0 then ini_fail i_unexpected_eof (sz + 1) ()
      else do {
        d \<leftarrow> byte_at s (sz + 1);
        if (of_char d :: nat) > of_char c then skip_to_char_loop s c (sz + 1)
        else if d = CHR 0x0D \<or> d = CHR 0x0A then ini_fail i_unexpected_eol (sz + 1) ()
        else if d \<noteq> c then skip_to_char_loop s c (sz + 1)
        else Some (sz + 1, None, ()) })"
  by pat_completeness auto
termination by (relation "measure (\<lambda>(s, c, sz). nat (- sz))") auto

definition skip_to_char :: "string \<Rightarrow> char \<Rightarrow> ssize \<Rightarrow> unit parsed" where
  "skip_to_char s c sz = (if sz < 0 then skip_to_char_loop s c sz else ini_fail i_unexpected_eof sz ())"

function skip_to_line_loop :: "string \<Rightarrow> ssize \<Rightarrow> unit parsed" where
  "skip_to_line_loop s sz =
     (if sz + 1 \<ge> 0 then ini_fail i_unexpected_eof (sz + 1) ()
      else do {
        d \<leftarrow> byte_at s (sz + 1);
        if of_char d > (13 :: nat) then skip_to_line_loop s (sz + 1)
        else if d \<noteq> CHR 0x0D \<and> d \<noteq> CHR 0x0A then skip_to_line_loop s (sz + 1)
        else Some (sz + 1, None, ()) })"
  by pat_completeness auto
termination by (relation "measure (\<lambda>(s, sz). nat (- sz))") auto

definition skip_to_line :: "string \<Rightarrow> ssize \<Rightarrow> unit parsed" where
  "skip_to_line s sz = (if sz < 0 then skip_to_line_loop s sz else ini_fail i_unexpected_eof sz ())"

declare skip_to_char_loop.simps [simp del] skip_to_line_loop.simps [simp del]

lemma skip_to_line_loop_progress: "skip_to_line_loop s sz = Some (sz', e, a) \<Longrightarrow> sz' < 0 \<Longrightarrow> sz < sz'"
proof (induction s sz rule: skip_to_line_loop.induct)
  case (1 s sz)
  show ?case
  proof (cases "sz + 1 \<ge> 0")
    case True
    then show ?thesis using 1(3,4) by (subst (asm) skip_to_line_loop.simps) (simp add: ini_fail_def)
  next
    case False
    then obtain d where d: "byte_at s (sz + 1) = Some d"
      using 1(3) by (subst (asm) skip_to_line_loop.simps) auto
    then show ?thesis using 1(1,2) [OF False d] 1(3,4) False
      by (subst (asm) (3) skip_to_line_loop.simps) (auto split: if_splits)
  qed
qed

text \<open>The \<open>switch\<close> jumps into the loop over comments, or behind the comment of its first round.\<close>

function skip_loop :: "string \<Rightarrow> bool \<Rightarrow> ssize \<Rightarrow> unit parsed" where
  "skip_loop s comment sz =
     (if comment then do {
        (sz', e, _) \<leftarrow> skip_to_line s sz;
        if sz' \<ge> 0 then Some (sz', e, ()) else skip_loop s False sz' }
      else if sz + 1 \<ge> 0 then Some (sz + 1, None, ())
      else do {
        d \<leftarrow> byte_at s (sz + 1);
        if of_char d \<le> (32 :: nat) then skip_loop s False (sz + 1)
        else if d = CHR '';'' then skip_loop s True (sz + 1)
        else Some (sz + 1, None, ()) })"
  by pat_completeness auto
termination
  by (relation "measure (\<lambda>(s, comment, sz). nat (- sz))")
    (auto simp: skip_to_line_def ini_fail_def dest: skip_to_line_loop_progress split: if_splits)

declare skip_loop.simps [simp del]

definition ini_skip_whitespace :: "string \<Rightarrow> ssize \<Rightarrow> unit parsed" where
  "ini_skip_whitespace s sz =
     (if sz < 0 then do {
        d \<leftarrow> byte_at s sz;
        if d = CHR '';'' then skip_loop s True sz
        else if of_char d \<le> (32 :: nat) then skip_loop s False sz
        else Some (sz, None, ()) }
      else ini_fail i_unexpected_eof sz ())"

definition read_header :: "string \<Rightarrow> ssize \<Rightarrow> string parsed" where
  "read_header s sz = do {
     c \<leftarrow> byte_at s sz;
     if c \<noteq> CHR ''['' then ini_fail i_unexpected_symbol sz []
     else and_then (skip_to_char s (CHR '']'') sz) (\<lambda>_. []) (\<lambda>sz' _.
       if sz' + 1 < 0 then do {
         d \<leftarrow> byte_at s (sz' + 1);
         if d = CHR 0x0A \<or> d = CHR 0x0D then do {
           str \<leftarrow> view s (sz + 1) sz';
           Some (sz' + 1, None, str) }
         else ini_fail i_unexpected_symbol (sz' + 1) [] }
       else ini_fail i_unexpected_eof (sz' + 1) []) }"

section \<open>Values\<close>

definition ini_read_bool :: "string \<Rightarrow> 'n reader" where
  "ini_read_bool s sz x = do {
     c \<leftarrow> byte_at s sz;
     if c \<noteq> CHR ''='' then ini_fail i_unexpected_symbol sz x
     else do {
       is_true \<leftarrow> (if sz \<le> - 7 then do {
           w \<leftarrow> load_le s (sz + 7 - 8) 8; Some (w = 0x0a65757274203d20 \<or> w = 0x0d65757274203d20) }
         else Some False);
       if is_true then Some (sz + 6, None, VBool True)
       else do {
         is_false \<leftarrow> (if sz \<le> - 8 then do {
             w \<leftarrow> load_le s (sz + 8 - 8) 8; Some (w = 0x0a65736c6166203d \<or> w = 0x0d65736c6166203d) }
           else Some False);
         if is_false then Some (sz + 7, None, VBool False)
         else ini_fail_for i_unexpected_value2 sz TBool x } } }"

definition ini_read_number :: "('n, 'z) lib_scheme \<Rightarrow> nat \<Rightarrow> string \<Rightarrow> 'n reader" where
  "ini_read_number L k s sz x = do {
     c \<leftarrow> byte_at s sz;
     if c \<noteq> CHR ''='' then ini_fail_for i_unexpected_symbol sz (TNum k) x
     else case x of VNum y \<Rightarrow>
       (let sz = sz + 2; (n, y') = fio_from_chars L k (drop (nat (int (length s) + sz)) s) y in
        do {
          ends \<leftarrow> (if n > 0 \<and> sz < - int n then do {
              d \<leftarrow> byte_at s (sz + int n); Some (d = CHR 0x0A \<or> d = CHR 0x0D) }
            else Some False);
          if ends then Some (sz + int n, None, VNum y')
          else ini_fail_for i_unexpected_value sz (TNum k) (VNum y') })
     | _ \<Rightarrow> None }"

text \<open>The result of \<open>skip_to_line\<close> is used as the end of the value even if it is an error code.\<close>

definition ini_read_enum :: "string list \<Rightarrow> nat list \<Rightarrow> string \<Rightarrow> 'n reader" where
  "ini_read_enum keys values s sz x = do {
     c \<leftarrow> byte_at s sz;
     if c \<noteq> CHR ''='' then ini_fail_for i_unexpected_symbol sz (TEnum keys values) x
     else do {
       (len, e, _) \<leftarrow> skip_to_line s (sz + 1);
       str \<leftarrow> view s (sz + 2) len;
       case table_find keys str of
         Some i \<Rightarrow> do { v \<leftarrow> table_get values i; Some (len, e, VEnum v) }
       | None \<Rightarrow> ini_fail_for i_unexpected_value2 sz (TEnum keys values) x } }"

definition ini_read_str :: "string \<Rightarrow> 'n reader" where
  "ini_read_str s sz x = do {
     c \<leftarrow> byte_at s sz;
     if c \<noteq> CHR ''='' then ini_fail_for i_unexpected_symbol sz TString x
     else do {
       (len, e, _) \<leftarrow> skip_to_line s (sz + 1);
       str \<leftarrow> view s (sz + 2) len;
       Some (len, e, VString str) } }"

text \<open>No overload reads an array, a tuple or a vector; a class has a header instead.\<close>

primrec ini_read_value :: "(('n::zero), 'z) lib_scheme \<Rightarrow> string \<Rightarrow> ty \<Rightarrow> 'n reader" where
  "ini_read_value L s TBool = ini_read_bool s"
| "ini_read_value L s (TNum k) = ini_read_number L k s"
| "ini_read_value L s (TEnum keys values) = ini_read_enum keys values s"
| "ini_read_value L s TString = ini_read_str s"
| "ini_read_value L s (TClass keys ts) = (\<lambda>sz x. ini_fail_for i_type_mismatch sz (TClass keys ts) x)"
| "ini_read_value L s (TArray t) = (\<lambda>sz x. None)"
| "ini_read_value L s (TTuple ts) = (\<lambda>sz x. None)"
| "ini_read_value L s (TVector t) = (\<lambda>sz x. None)"
| "ini_read_value L s (TOptional t) = read_optional (ini_read_value L s t) (init t)"

section \<open>Lines and headers\<close>

text \<open>One line, from the equals sign at \<open>sz\<close> on, with its key from \<open>from\<close> to there.\<close>

definition key_value ::
    "string list \<Rightarrow> 'n reader list \<Rightarrow> string \<Rightarrow> ssize \<Rightarrow> ssize \<Rightarrow> 'n val \<Rightarrow> 'n reader \<Rightarrow> 'n val parsed" where
  "key_value keys rds s from sz x rest = do {
     b \<leftarrow> byte_at s (sz - 1);
     spaces \<leftarrow> (if b \<noteq> CHR '' '' then Some False else do { d \<leftarrow> byte_at s (sz + 1); Some (d = CHR '' '') });
     if \<not> spaces then ini_fail i_missing_spaces sz x
     else do {
       key \<leftarrow> view s from (sz - 1);
       case table_find keys key of
         Some i \<Rightarrow> and_then (member_call rds i sz x) id rest
       | None \<Rightarrow> ini_fail i_unexpected_key from x } }"

fun key_values_loop :: "nat \<Rightarrow> string list \<Rightarrow> 'n reader list \<Rightarrow> string \<Rightarrow> 'n reader" where
  "key_values_loop 0 keys rds s sz x = None"
| "key_values_loop (Suc n) keys rds s sz x =
     and_then (ini_skip_whitespace s sz) (\<lambda>_. x) (\<lambda>from _. do {
       c \<leftarrow> byte_at s from;
       if c = CHR ''['' then Some (from, None, x)
       else
         and_then (if c \<noteq> CHR ''='' then skip_to_char s (CHR ''='') from else Some (from, None, ()))
           (\<lambda>_. x) (\<lambda>sz _. key_value keys rds s from sz x (\<lambda>sz x. key_values_loop n keys rds s sz x)) })"

definition read_key_values :: "string list \<Rightarrow> 'n reader list \<Rightarrow> string \<Rightarrow> 'n reader" where
  "read_key_values keys rds s sz x = key_values_loop (Suc (nat (- sz))) keys rds s sz x"

text \<open>The keys behind a header belong to the member it names.\<close>

primrec read_section :: "(('n::zero), 'z) lib_scheme \<Rightarrow> string \<Rightarrow> ty \<Rightarrow> 'n reader" where
  "read_section L s TBool = (\<lambda>sz x. ini_fail_for i_type_mismatch sz TBool x)"
| "read_section L s (TNum k) = (\<lambda>sz x. ini_fail_for i_type_mismatch sz (TNum k) x)"
| "read_section L s (TEnum keys values) = (\<lambda>sz x. ini_fail_for i_type_mismatch sz (TEnum keys values) x)"
| "read_section L s TString = (\<lambda>sz x. ini_fail_for i_type_mismatch sz TString x)"
| "read_section L s (TClass keys ts) = read_key_values keys (map (ini_read_value L s) ts) s"
| "read_section L s (TArray t) = (\<lambda>sz x. ini_fail_for i_type_mismatch sz (TArray t) x)"
| "read_section L s (TTuple ts) = (\<lambda>sz x. ini_fail_for i_type_mismatch sz (TTuple ts) x)"
| "read_section L s (TVector t) = (\<lambda>sz x. None)"
| "read_section L s (TOptional t) = read_optional (read_section L s t) (init t)"

fun headers_loop :: "nat \<Rightarrow> string list \<Rightarrow> 'n reader list \<Rightarrow> string \<Rightarrow> 'n reader" where
  "headers_loop 0 keys secs s sz x = None"
| "headers_loop (Suc n) keys secs s sz x =
     and_then (read_header s sz) (\<lambda>_. x) (\<lambda>len header.
       case table_find keys header of
         Some i \<Rightarrow> and_then (member_call secs i len x) id (\<lambda>sz x. headers_loop n keys secs s sz x)
       | None \<Rightarrow> ini_fail i_unexpected_header1 sz x)"

definition read_all :: "(('n::zero), 'z) lib_scheme \<Rightarrow> string list \<Rightarrow> ty list \<Rightarrow> string \<Rightarrow> 'n reader" where
  "read_all L keys ts s sz x =
     (if sz \<ge> 0 then Some (sz, None, x)
      else do {
        c \<leftarrow> byte_at s sz;
        if c = CHR ''='' then ini_fail i_missing_spaces sz x
        else
          and_then (read_key_values keys (map (ini_read_value L s) ts) s sz x) id (\<lambda>sz x.
            headers_loop (nat (- sz)) keys (map (read_section L s) ts) s sz x) })"

definition structure_ini ::
    "(('n::zero), 'z) lib_scheme \<Rightarrow> ty \<Rightarrow> string \<Rightarrow> 'n val \<Rightarrow> (bool \<times> 'n val \<times> text_error option) option" where
  "structure_ini L t s x =
     (case t of TClass keys ts \<Rightarrow> do {
        (remainder, e, x) \<leftarrow> read_all L keys ts s (- int (length s)) x;
        if remainder \<le> 0 then Some (True, x, None) else Some (False, x, e) }
      | _ \<Rightarrow> None)"

section \<open>Orderly texts\<close>

text \<open>A text is orderly if it ends with a newline and no equals sign with a space before it begins
  a line or follows further white space.\<close>

fun spaced :: "bool \<Rightarrow> string \<Rightarrow> bool" where
  "spaced blank (c # d # r) =
     (\<not> (blank \<and> c = CHR '' '' \<and> d = CHR ''='') \<and> spaced (of_char c \<le> (32 :: nat)) (d # r))"
| "spaced blank r = True"

definition orderly :: "string \<Rightarrow> bool" where
  "orderly s \<longleftrightarrow> (s \<noteq> [] \<longrightarrow> last s = CHR 0x0A) \<and> spaced True s"

lemma spaced_nth:
  assumes "spaced blank r" "Suc i < length r" "r ! i = CHR '' ''" "r ! Suc i = CHR ''=''"
  shows "if i = 0 then \<not> blank else (32 :: nat) < of_char (r ! (i - 1))"
  using assms
proof (induction blank r arbitrary: i rule: spaced.induct)
  case (1 blank c d r)
  show ?case
  proof (cases i)
    case 0
    then show ?thesis using 1 by simp
  next
    case (Suc j)
    have "if j = 0 then \<not> of_char c \<le> (32 :: nat) else (32 :: nat) < of_char ((d # r) ! (j - 1))"
      by (rule "1.IH") (use "1.prems" Suc in simp_all)
    then show ?thesis using Suc by (cases j) simp_all
  qed
qed simp_all

lemma orderly_last: "orderly s \<Longrightarrow> s \<noteq> [] \<Longrightarrow> byte_at s (- 1) = Some (CHR 0x0A)"
  by (simp add: orderly_def byte_at_def last_conv_nth nat_diff_distrib' Suc_le_eq)

lemma orderly_key:
  assumes "orderly s" "byte_at s sz = Some (CHR ''='')" "byte_at s (sz - 1) = Some (CHR '' '')"
  shows "\<exists>d. byte_at s (sz - 2) = Some d \<and> (32 :: nat) < of_char d"
proof -
  have b: "- int (length s) \<le> sz - 1" "sz < 0" "s ! nat (int (length s) + sz) = CHR ''=''"
    "s ! nat (int (length s) + (sz - 1)) = CHR '' ''"
    using assms(2,3) by (simp_all add: byte_at_def split: if_splits)
  define i where "i = nat (int (length s) + (sz - 1))"
  have i: "nat (int (length s) + sz) = Suc i" "Suc i < length s" using b(1,2) by (auto simp: i_def)
  have "if i = 0 then \<not> True else (32 :: nat) < of_char (s ! (i - 1))"
    using spaced_nth [of True s i] assms(1) i b(3,4) by (simp add: orderly_def i_def)
  then have "0 < i" "(32 :: nat) < of_char (s ! (i - 1))" by (simp_all split: if_splits)
  moreover have "nat (int (length s) + (sz - 2)) = i - 1" by (simp add: i_def)
  moreover have "- int (length s) \<le> sz - 2" using \<open>0 < i\<close> by (simp add: i_def)
  ultimately show ?thesis using b(2) by (simp add: byte_at_def)
qed

section \<open>Sound results\<close>

text \<open>A good result that stops at a byte as expected.\<close>

definition sound :: "string \<Rightarrow> (ssize \<Rightarrow> bool) \<Rightarrow> ssize \<Rightarrow> ('a \<Rightarrow> bool) \<Rightarrow> 'a parsed \<Rightarrow> bool" where
  "sound s Q lo P r \<longleftrightarrow> good s lo P r \<and> (\<forall>sz e a. r = Some (sz, e, a) \<longrightarrow> sz < 0 \<longrightarrow> Q sz)"

lemma soundI: "P a \<Longrightarrow> lo \<le> sz \<Longrightarrow> sz \<le> 0 \<Longrightarrow> (sz < 0 \<Longrightarrow> Q sz) \<Longrightarrow> sound s Q lo P (Some (sz, None, a))"
  by (auto simp: sound_def intro: good_intro)

lemma sound_weaken: "sound s Q lo P r \<Longrightarrow> lo' \<le> lo \<Longrightarrow> sound s Q lo' P r"
  by (auto simp: sound_def intro: good_weaken)

lemma sound_and_then:
  assumes "sound s Q lo P r"
    and "\<And>sz a. lo \<le> sz \<Longrightarrow> sz < 0 \<Longrightarrow> Q sz \<Longrightarrow> P a \<Longrightarrow> sound s Q' lo' P' (k sz a)"
    and "\<And>a. P a \<Longrightarrow> P' (out a)"
  shows "sound s Q' lo' P' (and_then r out k)"
proof -
  obtain sz e a where r: "r = Some (sz, e, a)" and P: "P a" and c: "settled s lo sz e"
    using assms(1) by (auto simp: sound_def good_def split: option.splits)
  show ?thesis
  proof (cases "sz < 0")
    case True
    then have "lo \<le> sz" "Q sz" using c assms(1) r by (auto simp: settled_def sound_def split: option.splits)
    then show ?thesis using assms(2) [of sz a] True P r by simp
  next
    case False
    then have "settled s lo' sz e" using c by (auto simp: settled_def split: option.splits)
    then show ?thesis using False P r assms(3) [of a] by (simp add: sound_def good_def)
  qed
qed

lemma sound_map:
  assumes "sound s Q lo P r" and "\<And>a. P a \<Longrightarrow> P' (f a)"
  shows "sound s Q lo P' (map_option (\<lambda>(sz, e, y). (sz, e, f y)) r)"
  using assms good_map [of s lo P r P' f] by (auto simp: sound_def)

lemma sound_byte:
  assumes "- int (length s) \<le> sz" "sz < 0"
    and "\<And>c. byte_at s sz = Some c \<Longrightarrow> sound s Q lo P (f c)"
  shows "sound s Q lo P (do { c \<leftarrow> byte_at s sz; f c })"
  using assms by (simp add: byte_at_in)

lemma sound_fail:
  assumes "case ini_message E of None \<Rightarrow> False | Some (off, m) \<Rightarrow> - int (length s) \<le> sz + off \<and> sz + off \<le> 0" "P x"
  shows "sound s Q lo P (ini_fail E sz x)"
  using assms by (cases E) (auto simp: sound_def good_def settled_def ini_fail_def)

lemma sound_fail_for:
  assumes "case ini_message_for E of None \<Rightarrow> False | Some (off, m) \<Rightarrow> - int (length s) \<le> sz + off \<and> sz + off \<le> 0" "P x"
  shows "sound s Q lo P (ini_fail_for E sz t x)"
  using assms by (cases E) (auto simp: sound_def good_def settled_def ini_fail_for_def)

abbreviation eol :: "string \<Rightarrow> ssize \<Rightarrow> bool" where
  "eol s sz \<equiv> byte_at s sz = Some (CHR 0x0A) \<or> byte_at s sz = Some (CHR 0x0D)"

lemma sound_skip_to_char:
  assumes "- int (length s) \<le> sz" "sz < 0"
  shows "sound s (\<lambda>z. byte_at s z = Some c) (sz + 1) (\<lambda>_. True) (skip_to_char s c sz)"
proof -
  have "sound s (\<lambda>z. byte_at s z = Some c) (sz + 1) (\<lambda>_. True) (skip_to_char_loop s c sz)"
    using assms
  proof (induction s c sz rule: skip_to_char_loop.induct)
    case (1 s c sz)
    show ?case
    proof (cases "sz + 1 \<ge> 0")
      case True
      then show ?thesis using 1 by (simp add: skip_to_char_loop.simps sound_fail)
    next
      case False
      then obtain d where d: "byte_at s (sz + 1) = Some d" using 1 by (auto simp: byte_at_in)
      have onward: "sound s (\<lambda>z. byte_at s z = Some c) (sz + 1) (\<lambda>_. True) (skip_to_char_loop s c (sz + 1))"
        if "(of_char d :: nat) > of_char c \<or> \<not> (d = CHR 0x0D \<or> d = CHR 0x0A) \<and> d \<noteq> c"
        by (rule sound_weaken [of _ _ "sz + 1 + 1"]) (use 1 d False that in auto)
      then show ?thesis
        using False d 1 by (subst skip_to_char_loop.simps) (auto intro!: sound_fail soundI)
    qed
  qed
  then show ?thesis using assms by (simp add: skip_to_char_def)
qed

text \<open>In an orderly text every line ends.\<close>

lemma sound_skip_to_line:
  assumes "orderly s" "- int (length s) \<le> sz" "sz < - 1"
  shows "\<exists>z. skip_to_line s sz = Some (z, None, ()) \<and> sz < z \<and> z < 0 \<and> eol s z"
proof -
  have "\<exists>z. skip_to_line_loop s sz = Some (z, None, ()) \<and> sz < z \<and> z < 0 \<and> eol s z"
    using assms
  proof (induction s sz rule: skip_to_line_loop.induct)
    case (1 s sz)
    then obtain d where d: "byte_at s (sz + 1) = Some d" by (auto simp: byte_at_in)
    have neg: "\<not> sz + 1 \<ge> 0" using 1 by simp
    show ?case
    proof (cases "d = CHR 0x0D \<or> d = CHR 0x0A")
      case True
      then show ?thesis using d neg by (subst skip_to_line_loop.simps) auto
    next
      case False
      have "s \<noteq> []" using 1 by auto
      then have "sz + 1 < - 1" using d False orderly_last [OF 1(3)] neg
        by (cases "sz + 1 = - 1") auto
      then have "\<exists>z. skip_to_line_loop s (sz + 1) = Some (z, None, ()) \<and> sz + 1 < z \<and> z < 0 \<and> eol s z"
        using 1 neg d False by fastforce
      then show ?thesis using d neg False by (subst skip_to_line_loop.simps) auto
    qed
  qed
  then show ?thesis using assms by (simp add: skip_to_line_def)
qed

text \<open>White space and comments end at a visible byte; a space before it that is not where they began
  has white space before it.\<close>

definition stops :: "string \<Rightarrow> ssize \<Rightarrow> ssize \<Rightarrow> bool" where
  "stops s start z \<longleftrightarrow>
     (\<exists>d. byte_at s z = Some d \<and> (32 :: nat) < of_char d) \<and>
     (byte_at s (z - 1) = Some (CHR '' '') \<longrightarrow>
        z - 1 = start \<or> (\<exists>d. byte_at s (z - 2) = Some d \<and> of_char d \<le> (32 :: nat)))"

lemma orderly_not_last:
  assumes "orderly s" "byte_at s sz = Some d" "d \<noteq> CHR 0x0A"
  shows "sz < - 1"
proof -
  have "sz < 0" "s \<noteq> []" using assms(2) by (auto simp: byte_at_def split: if_splits)
  moreover have "sz \<noteq> - 1" using orderly_last [OF assms(1) \<open>s \<noteq> []\<close>] assms(2,3) by auto
  ultimately show ?thesis by simp
qed

lemma sound_skip_loop:
  assumes "orderly s" "byte_at s sz = Some c" "if comment then c = CHR '';'' else of_char c \<le> (32 :: nat)"
  shows "\<exists>z. skip_loop s comment sz = Some (z, None, ()) \<and> sz < z \<and> z \<le> 0 \<and>
    (z < 0 \<longrightarrow> stops s (if comment then - int (length s) - 1 else sz) z)"
  using assms
proof (induction s comment sz arbitrary: c rule: skip_loop.induct)
  case (1 s comment sz)
  have r: "- int (length s) \<le> sz" "sz < 0" using 1(5) by (auto simp: byte_at_def split: if_splits)
  show ?case
  proof (cases comment)
    case True
    have "sz < - 1" using orderly_not_last [OF 1(4,5)] 1(6) True by auto
    then obtain z where z: "skip_to_line s sz = Some (z, None, ())" "sz < z" "z < 0" "eol s z"
      using sound_skip_to_line [OF 1(4) r(1)] by blast
    obtain d where d: "byte_at s z = Some d" "d = CHR 0x0A \<or> d = CHR 0x0D" using z(4) by auto
    have "\<exists>z'. skip_loop s False z = Some (z', None, ()) \<and> z < z' \<and> z' \<le> 0 \<and> (z' < 0 \<longrightarrow> stops s z z')"
      using 1(1) [OF True z(1) refl refl] z(3) 1(4) d by fastforce
    then obtain z' where z': "skip_loop s False z = Some (z', None, ())" "z < z'" "z' \<le> 0" "z' < 0 \<longrightarrow> stops s z z'" by blast
    have "z' < 0 \<longrightarrow> stops s (- int (length s) - 1) z'"
      using z'(4) d by (auto simp: stops_def)
    then show ?thesis using True z z' by (subst skip_loop.simps) auto
  next
    case f: False
    show ?thesis
    proof (cases "sz + 1 \<ge> 0")
      case True
      then show ?thesis using f r by (subst skip_loop.simps) auto
    next
      case False
      then obtain d where d: "byte_at s (sz + 1) = Some d" using r by (auto simp: byte_at_in)
      consider "of_char d \<le> (32 :: nat)" | "\<not> of_char d \<le> (32 :: nat)" "d = CHR '';''"
        | "\<not> of_char d \<le> (32 :: nat)" "d \<noteq> CHR '';''" by blast
      then show ?thesis
      proof cases
        case b: 1
        then obtain z where z: "skip_loop s False (sz + 1) = Some (z, None, ())" "sz + 1 < z" "z \<le> 0"
          "z < 0 \<longrightarrow> stops s (sz + 1) z"
          using 1(2) [OF f False d b 1(4) d] by auto
        have "z < 0 \<longrightarrow> stops s sz z"
          using z(4) 1(5,6) f by (auto simp: stops_def)
        then show ?thesis using z b f False d by (subst skip_loop.simps) auto
      next
        case b: 2
        then obtain z where z: "skip_loop s True (sz + 1) = Some (z, None, ())" "sz + 1 < z" "z \<le> 0"
          "z < 0 \<longrightarrow> stops s (- int (length s) - 1) z"
          using 1(3) [OF f False d _ _ 1(4) d] by auto
        have "z < 0 \<longrightarrow> stops s sz z"
          using z(2,4) r by (auto simp: stops_def)
        then show ?thesis using z b f False d by (subst skip_loop.simps) auto
      next
        case b: 3
        have "stops s sz (sz + 1)" using d b by (auto simp: stops_def)
        then show ?thesis using b f False d by (subst skip_loop.simps) auto
      qed
    qed
  qed
qed

text \<open>Where a line may begin: at the start of the text, or at the end of the line before it.\<close>

definition line_start :: "string \<Rightarrow> ssize \<Rightarrow> bool" where
  "line_start s sz \<longleftrightarrow> sz = - int (length s) \<and> byte_at s sz \<noteq> Some (CHR ''='') \<or> eol s sz"

lemma sound_ini_skip:
  assumes "orderly s" "- int (length s) \<le> sz" "sz < 0"
  shows "sound s (\<lambda>z. z = sz \<or> stops s sz z) sz (\<lambda>_. True) (ini_skip_whitespace s sz)"
proof -
  obtain d where d: "byte_at s sz = Some d" using assms by (auto simp: byte_at_in)
  consider "d = CHR '';''" | "d \<noteq> CHR '';''" "of_char d \<le> (32 :: nat)" | "\<not> of_char d \<le> (32 :: nat)" "d \<noteq> CHR '';''"
    by auto
  then show ?thesis
  proof cases
    case 1
    then obtain z where "skip_loop s True sz = Some (z, None, ())" "sz < z" "z \<le> 0" "z < 0 \<longrightarrow> stops s (- int (length s) - 1) z"
      using sound_skip_loop [OF assms(1) d, of True] by auto
    moreover have "z < 0 \<longrightarrow> stops s sz z" using calculation assms by (auto simp: stops_def)
    ultimately show ?thesis using 1 d assms by (simp add: ini_skip_whitespace_def soundI)
  next
    case 2
    then obtain z where "skip_loop s False sz = Some (z, None, ())" "sz < z" "z \<le> 0" "z < 0 \<longrightarrow> stops s sz z"
      using sound_skip_loop [OF assms(1) d, of False] by auto
    then show ?thesis using 2 d assms by (simp add: ini_skip_whitespace_def soundI)
  next
    case 3
    then show ?thesis using d assms by (simp add: ini_skip_whitespace_def soundI)
  qed
qed

lemma no_space_before:
  assumes "orderly s" "line_start s sz" "- int (length s) \<le> sz" "sz \<le> z" "z = sz \<or> stops s sz z" "byte_at s z = Some (CHR ''='')"
  shows "\<exists>b. byte_at s (z - 1) = Some b \<and> b \<noteq> CHR '' ''"
proof -
  have ne: "z \<noteq> sz" using assms(2,6) by (auto simp: line_start_def)
  then have z: "sz < z" "stops s sz z" using assms(4,5) by simp_all
  moreover have "z < 0" using assms(6) by (simp add: byte_at_def split: if_splits)
  ultimately obtain b where b: "byte_at s (z - 1) = Some b" using assms(3) by (auto simp: byte_at_in)
  have "b \<noteq> CHR '' ''"
  proof
    assume sp: "b = CHR '' ''"
    then obtain d where d: "byte_at s (z - 2) = Some d" "(32 :: nat) < of_char d"
      using orderly_key [OF assms(1,6)] b by auto
    then have "z - 1 = sz" using z(2) b sp by (auto simp: stops_def)
    moreover have "- int (length s) \<le> z - 2" using d(1) by (simp add: byte_at_def split: if_splits)
    ultimately show False using assms(2) b sp by (auto simp: line_start_def)
  qed
  then show ?thesis using b by blast
qed

subsection \<open>Values\<close>

text \<open>A value is read at an equals sign with spaces around it, and ends at the end of a line.\<close>

definition reads_line :: "string \<Rightarrow> ty \<Rightarrow> 'n reader \<Rightarrow> bool" where
  "reads_line s t rd \<longleftrightarrow>
     (\<forall>sz x. byte_at s sz = Some (CHR ''='') \<longrightarrow> byte_at s (sz - 1) = Some (CHR '' '') \<longrightarrow>
        byte_at s (sz + 1) = Some (CHR '' '') \<longrightarrow> conforms t x \<longrightarrow> sound s (eol s) (sz + 1) (conforms t) (rd sz x))"

lemma reads_lineI:
  assumes "\<And>sz x. byte_at s sz = Some (CHR ''='') \<Longrightarrow> - int (length s) \<le> sz - 1 \<Longrightarrow> sz < - 2 \<Longrightarrow> conforms t x \<Longrightarrow>
    sound s (eol s) (sz + 1) (conforms t) (rd sz x)" and "orderly s"
  shows "reads_line s t rd"
  unfolding reads_line_def
proof (intro allI impI)
  fix sz and x :: "'a val"
  assume a: "byte_at s sz = Some (CHR ''='')" "byte_at s (sz - 1) = Some (CHR '' '')" "byte_at s (sz + 1) = Some (CHR '' '')" "conforms t x"
  have "- int (length s) \<le> sz - 1" using a(2) by (simp add: byte_at_def split: if_splits)
  moreover have "sz < - 2" using orderly_not_last [OF assms(2) a(3)] by simp
  ultimately show "sound s (eol s) (sz + 1) (conforms t) (rd sz x)" using assms(1) a by blast
qed

lemma load_le_in:
  "- int (length s) \<le> sz \<Longrightarrow> sz + int n \<le> 0 \<Longrightarrow> load_le s sz n = Some (horner_sum of_char 256 (take n (drop (nat (int (length s) + sz)) s)))"
  by (simp add: load_le_def view_in)

lemma horner_bytes_inj:
  "length xs = length ys \<Longrightarrow> horner_sum of_char (256 :: nat) xs = horner_sum of_char 256 ys \<Longrightarrow> xs = (ys :: string)"
proof (induction xs ys rule: list_induct2)
  case (Cons x xs y ys)
  let ?h = "horner_sum of_char (256 :: nat)"
  have e: "of_char x + ?h xs * 256 = of_char y + ?h ys * 256"
    using Cons.prems by (simp add: mult.commute)
  then have "(of_char x + ?h xs * 256) mod 256 = (of_char y + ?h ys * 256) mod 256" by (rule arg_cong)
  then have "(of_char x :: nat) mod 256 = of_char y mod 256" by (simp only: mod_mult_self1)
  then have "(of_char x :: nat) = of_char y" by simp
  then show ?case using e Cons.IH by simp
qed simp

lemma word_last:
  assumes "load_le s sz 8 = Some (horner_sum of_char 256 (w @ [c]))" "length w = 7" "- int (length s) \<le> sz" "sz \<le> - 8"
  shows "byte_at s (sz + 7) = Some c"
proof -
  have "take 8 (drop (nat (int (length s) + sz)) s) = w @ [c]"
    by (rule horner_bytes_inj) (use assms in \<open>simp_all add: load_le_in\<close>)
  then have "(take 8 (drop (nat (int (length s) + sz)) s)) ! 7 = c" using assms(2) by (metis nth_append_length)
  then have "s ! (nat (int (length s) + sz) + 7) = c" using assms(3,4) by simp
  moreover have "nat (int (length s) + sz) + 7 = nat (int (length s) + (sz + 7))" using assms(3) by simp
  ultimately show ?thesis using assms by (simp add: byte_at_def)
qed

lemma line_bool:
  assumes "orderly s"
  shows "reads_line s TBool (ini_read_bool s)"
proof (rule reads_lineI [OF _ assms])
  fix sz and x :: "'a val"
  assume a: "byte_at s sz = Some (CHR ''='')" "- int (length s) \<le> sz - 1" "sz < - 2" "conforms TBool x"
  have t: "eol s (sz + 6)" if "load_le s (sz - 1) 8 = Some w" "w = 0x0a65757274203d20 \<or> w = 0x0d65757274203d20" "sz \<le> - 7" for w
    using word_last [of s "sz - 1" "'' = true''" "CHR 0x0A"] word_last [of s "sz - 1" "'' = true''" "CHR 0x0D"] that a(2)
    by (auto simp: add.commute)
  have f: "eol s (sz + 7)" if "load_le s sz 8 = Some w" "w = 0x0a65736c6166203d \<or> w = 0x0d65736c6166203d" "sz \<le> - 8" for w
    using word_last [of s sz "''= false''" "CHR 0x0A"] word_last [of s sz "''= false''" "CHR 0x0D"] that a(2) by auto
  obtain w1 where w1: "sz \<le> - 7 \<longrightarrow> load_le s (sz - 1) 8 = Some w1" using a(2) load_le_in [of s "sz - 1" 8] by auto
  obtain w2 where w2: "sz \<le> - 8 \<longrightarrow> load_le s sz 8 = Some w2" using a(2) load_le_in [of s sz 8] by auto
  show "sound s (eol s) (sz + 1) (conforms TBool) (ini_read_bool s sz x)"
    using a w1 w2 t f by (auto simp: ini_read_bool_def intro!: soundI sound_fail_for)
qed

lemma line_number:
  fixes L :: "('n, 'z) lib_scheme"
  assumes "orderly s" "reads_ok L"
  shows "reads_line s (TNum k) (ini_read_number L k s)"
proof (rule reads_lineI [OF _ assms(1)])
  fix sz and x :: "'n val"
  assume a: "byte_at s sz = Some (CHR ''='')" "- int (length s) \<le> sz - 1" "sz < - 2" "conforms (TNum k) x"
  obtain y where x: "x = VNum y" using conforms_inv(1) [OF a(4)] by blast
  obtain n y' where n: "fio_from_chars L k (drop (nat (int (length s) + (sz + 2))) s) y = (n, y')" by fastforce
  have "\<exists>d. byte_at s (sz + 2 + int n) = Some d" if "sz + 2 < - int n" using that a(2) by (simp add: byte_at_in)
  then show "sound s (eol s) (sz + 1) (conforms (TNum k)) (ini_read_number L k s sz x)"
    using a x n by (auto simp: ini_read_number_def Let_def intro!: soundI sound_fail_for)
qed

lemma line_end:
  assumes "orderly s" "- int (length s) \<le> sz - 1" "sz < - 2"
  obtains len str where "skip_to_line s (sz + 1) = Some (len, None, ())" "view s (sz + 2) len = Some str"
    "sz + 1 < len" "len < 0" "eol s len"
  using sound_skip_to_line [OF assms(1), of "sz + 1"] assms(2,3) view_in [of s "sz + 2"] by force

lemma line_enum:
  assumes "orderly s" "length keys = length vals"
  shows "reads_line s (TEnum keys vals) (ini_read_enum keys vals s)"
proof (rule reads_lineI [OF _ assms(1)])
  fix sz and x :: "'a val"
  assume a: "byte_at s sz = Some (CHR ''='')" "- int (length s) \<le> sz - 1" "sz < - 2" "conforms (TEnum keys vals) x"
  obtain len str where l: "skip_to_line s (sz + 1) = Some (len, None, ())" "view s (sz + 2) len = Some str"
    "sz + 1 < len" "len < 0" "eol s len" using line_end [OF assms(1) a(2,3)] by blast
  show "sound s (eol s) (sz + 1) (conforms (TEnum keys vals)) (ini_read_enum keys vals s sz x)"
  proof (cases "table_find keys str")
    case None
    then show ?thesis using a l(1,2) by (simp add: ini_read_enum_def sound_fail_for)
  next
    case (Some i)
    then have "table_get vals i = Some (vals ! i)" using table_findD assms(2) by (fastforce simp: table_get_def)
    then show ?thesis using a l Some by (simp add: ini_read_enum_def soundI)
  qed
qed

lemma line_str:
  assumes "orderly s"
  shows "reads_line s TString (ini_read_str s)"
proof (rule reads_lineI [OF _ assms(1)])
  fix sz and x :: "'a val"
  assume a: "byte_at s sz = Some (CHR ''='')" "- int (length s) \<le> sz - 1" "sz < - 2"
  obtain len str where "skip_to_line s (sz + 1) = Some (len, None, ())" "view s (sz + 2) len = Some str"
    "sz + 1 < len" "len < 0" "eol s len" using line_end [OF assms(1) a(2,3)] by blast
  then show "sound s (eol s) (sz + 1) (conforms TString) (ini_read_str s sz x)"
    using a(1) by (simp add: ini_read_str_def soundI)
qed

lemma line_optional:
  fixes rd :: "'n reader"
  assumes "reads_line s t rd" "conforms t y"
  shows "reads_line s (TOptional t) (read_optional rd y)"
  unfolding reads_line_def
proof (intro allI impI)
  fix sz and x :: "'n val"
  assume a: "byte_at s sz = Some (CHR ''='')" "byte_at s (sz - 1) = Some (CHR '' '')" "byte_at s (sz + 1) = Some (CHR '' '')"
    "conforms (TOptional t) x"
  obtain v where v: "x = VOptional v" "\<forall>y. v = Some y \<longrightarrow> conforms t y" using conforms_inv(5) [OF a(4)] by blast
  have "conforms t (case v of None \<Rightarrow> y | Some z \<Rightarrow> z)" using v assms(2) by (cases v) auto
  then have "sound s (eol s) (sz + 1) (conforms t) (rd sz (case v of None \<Rightarrow> y | Some z \<Rightarrow> z))"
    using assms(1) a unfolding reads_line_def by blast
  then show "sound s (eol s) (sz + 1) (conforms (TOptional t)) (read_optional rd y sz x)"
    by (auto simp: read_optional_def v intro!: sound_map)
qed

text \<open>The types that the overloads accept.\<close>

primrec ini_ty :: "ty \<Rightarrow> bool" where
  "ini_ty TBool = True"
| "ini_ty (TNum k) = True"
| "ini_ty (TEnum keys values) = True"
| "ini_ty TString = True"
| "ini_ty (TClass keys ts) = list_all id (map ini_ty ts)"
| "ini_ty (TArray t) = False"
| "ini_ty (TTuple ts) = False"
| "ini_ty (TVector t) = False"
| "ini_ty (TOptional t) = ini_ty t"

lemma line_value:
  fixes L :: "('n::zero, 'z) lib_scheme"
  assumes "orderly s" "reads_ok L"
  shows "wf_ty t \<Longrightarrow> ini_ty t \<Longrightarrow> reads_line s t (ini_read_value L s t)"
proof (induction t)
  case (TClass keys ts)
  show ?case
    by (rule reads_lineI [OF _ assms(1)]) (auto intro!: sound_fail_for)
qed (simp_all add: assms line_bool line_number line_enum line_str line_optional conforms_init)

subsection \<open>Lines and headers\<close>

lemma sound_member_call:
  assumes "i < length ts" "i < 128" "length rds = length ts" "conforms (TClass keys ts) x"
    and "\<And>y. conforms (ts ! i) y \<Longrightarrow> sound s Q lo (conforms (ts ! i)) ((rds ! i) sz y)"
  shows "sound s Q lo (conforms (TClass keys ts)) (member_call rds i sz x)"
proof -
  obtain vs where vs: "x = VClass vs" "conforms_all ts vs" using conforms_inv(2) [OF assms(4)] by blast
  then have i: "conforms (ts ! i) (vs ! i)" "i < length vs" using assms(1) by (simp_all add: conforms_all_iff)
  have "sound s Q lo (conforms (TClass keys ts)) (map_option (\<lambda>(sz, e, y). (sz, e, VClass (vs[i := y]))) ((rds ! i) sz (vs ! i)))"
    by (rule sound_map [OF assms(5) [OF i(1)]]) (use vs(2) assms(1) in \<open>simp add: conforms_all_update\<close>)
  then show ?thesis using assms(1-3) i(2) vs(1) by (simp add: member_call_def)
qed

lemma sound_key_value:
  fixes x :: "'n val"
  assumes "orderly s" "list_all2 (reads_line s) ts rds" "length keys = length ts" "length keys \<le> 128"
    and "conforms (TClass keys ts) x" "- int (length s) \<le> from" "from \<le> z" "z < 0" "byte_at s z = Some (CHR ''='')"
    and "byte_at s (z - 1) = Some b" "b = CHR '' '' \<longrightarrow> from < z"
    and rest: "\<And>z' y. z < z' \<Longrightarrow> z' < 0 \<Longrightarrow> eol s z' \<Longrightarrow> conforms (TClass keys ts) y \<Longrightarrow>
      sound s Q lo (conforms (TClass keys ts)) (rest z' y)"
  shows "sound s Q lo (conforms (TClass keys ts)) (key_value keys rds s from z x rest)"
proof -
  have len: "length rds = length ts" using list_all2_lengthD [OF assms(2)] by simp
  obtain d where d: "byte_at s (z + 1) = Some d"
    using orderly_not_last [OF assms(1,9)] assms(6,7) by (auto simp: byte_at_in)
  show ?thesis
  proof (cases "b = CHR '' '' \<and> d = CHR '' ''")
    case True
    then obtain key where key: "view s from (z - 1) = Some key" using assms(6,8,11) by (auto simp: view_in)
    show ?thesis
    proof (cases "table_find keys key")
      case None
      then show ?thesis using True d key assms(5-11) by (simp add: key_value_def sound_fail)
    next
      case (Some i)
      then have i: "i < length ts" "i < 128" using table_findD [OF Some] assms(3,4) by auto
      have "reads_line s (ts ! i) (rds ! i)" using assms(2) i(1) by (simp add: list_all2_conv_all_nth)
      then have rd: "sound s (eol s) (z + 1) (conforms (ts ! i)) ((rds ! i) z y)" if "conforms (ts ! i) y" for y
        using assms(9,10) d True that unfolding reads_line_def by blast
      have "sound s Q lo (conforms (TClass keys ts)) (and_then (member_call rds i z x) id rest)"
        by (rule sound_and_then [OF sound_member_call [OF i len assms(5) rd]]) (auto intro: rest)
      then show ?thesis using True d key Some assms(10) by (simp add: key_value_def)
    qed
  next
    case False
    then show ?thesis using d assms(5-10) by (auto simp: key_value_def intro!: sound_fail)
  qed
qed

lemma sound_key_values:
  fixes x :: "'n val"
  assumes "orderly s" "list_all2 (reads_line s) ts rds" "length keys = length ts" "length keys \<le> 128"
    and "nat (- sz) < n" "- int (length s) \<le> sz" "sz < 0" "line_start s sz" "conforms (TClass keys ts) x"
  shows "sound s (\<lambda>z. byte_at s z = Some (CHR ''['')) sz (conforms (TClass keys ts)) (key_values_loop n keys rds s sz x)"
  using assms(5-)
proof (induction n arbitrary: sz x)
  case (Suc n)
  let ?C = "conforms (TClass keys ts)" and ?Q = "\<lambda>z. byte_at s z = Some (CHR ''['')"
  let ?rest = "\<lambda>sz x. key_values_loop n keys rds s sz x"
  have line: "sound s ?Q sz ?C (key_value keys rds s from z x ?rest)"
    if "sz \<le> from" "from \<le> z" "z < 0" "byte_at s z = Some (CHR ''='')" "byte_at s (z - 1) = Some b" "b = CHR '' '' \<longrightarrow> from < z"
    for z "from" b
    by (rule sound_key_value [OF assms(1-4) Suc.prems(5)])
      (use that Suc.prems in \<open>auto simp: line_start_def intro!: sound_weaken [OF Suc.IH]\<close>)
  have skipped: "sound s ?Q sz ?C (and_then (skip_to_char s (CHR ''='') from) (\<lambda>_. x) (\<lambda>z _. key_value keys rds s from z x ?rest))"
    if f: "sz \<le> from" "from < 0" for "from"
  proof (rule sound_and_then [OF sound_skip_to_char])
    fix z
    assume z: "from + 1 \<le> z" "z < 0" "byte_at s z = Some (CHR ''='')"
    then obtain b where "byte_at s (z - 1) = Some b" using f(1) Suc.prems(2) by (auto simp: byte_at_in)
    then show "sound s ?Q sz ?C (key_value keys rds s from z x ?rest)" using line [of "from" z b] z f(1) by simp
  qed (use f Suc.prems in auto)
  show ?case
    unfolding key_values_loop.simps
  proof (rule sound_and_then [OF sound_ini_skip [OF assms(1) Suc.prems(2,3)]], rule sound_byte)
    fix "from" c
    assume f: "sz \<le> from" "from < 0" "from = sz \<or> stops s sz from" and c: "byte_at s from = Some c"
    consider "c = CHR ''[''" | "c = CHR ''=''" | "c \<noteq> CHR ''[''" "c \<noteq> CHR ''=''" by blast
    then show "sound s ?Q sz ?C (if c = CHR ''['' then Some (from, None, x)
       else and_then (if c \<noteq> CHR ''='' then skip_to_char s (CHR ''='') from else Some (from, None, ()))
         (\<lambda>_. x) (\<lambda>z _. key_value keys rds s from z x ?rest))"
    proof cases
      case 1
      then show ?thesis using f c Suc.prems by (auto intro!: soundI)
    next
      case 2
      then obtain b where "byte_at s (from - 1) = Some b" "b \<noteq> CHR '' ''"
        using no_space_before [OF assms(1) Suc.prems(4,2) f(1,3)] c by blast
      then show ?thesis using line [of "from" "from" b] 2 f c by simp
    next
      case 3
      then show ?thesis using skipped [OF f(1,2)] by simp
    qed
  qed (use Suc.prems in auto)
qed simp

lemma sound_read_key_values:
  fixes L :: "('n::zero, 'z) lib_scheme"
  assumes "orderly s" "reads_ok L" "wf_ty (TClass keys ts)" "ini_ty (TClass keys ts)"
    and "- int (length s) \<le> sz" "sz < 0" "line_start s sz" "conforms (TClass keys ts) x"
  shows "sound s (\<lambda>z. byte_at s z = Some (CHR ''['')) sz (conforms (TClass keys ts))
    (read_key_values keys (map (ini_read_value L s) ts) s sz x)"
proof -
  have "list_all2 (reads_line s) ts (map (ini_read_value L s) ts)"
    using assms(3,4) line_value [OF assms(1,2)] by (auto simp: list_all2_conv_all_nth list_all_length)
  then show ?thesis unfolding read_key_values_def
    by (rule sound_key_values [OF assms(1)]) (use assms in simp_all)
qed

text \<open>A section is read at the end of the line of its header.\<close>

definition reads_section :: "string \<Rightarrow> ty \<Rightarrow> 'n reader \<Rightarrow> bool" where
  "reads_section s t rd \<longleftrightarrow>
     (\<forall>sz x. - int (length s) \<le> sz \<longrightarrow> sz < 0 \<longrightarrow> eol s sz \<longrightarrow> conforms t x \<longrightarrow>
        sound s (\<lambda>z. byte_at s z = Some (CHR ''['')) sz (conforms t) (rd sz x))"

lemma reads_sectionD:
  "reads_section s t rd \<Longrightarrow> - int (length s) \<le> sz \<Longrightarrow> sz < 0 \<Longrightarrow> eol s sz \<Longrightarrow> conforms t x \<Longrightarrow>
    sound s (\<lambda>z. byte_at s z = Some (CHR ''['')) sz (conforms t) (rd sz x)"
  unfolding reads_section_def by blast

lemma section_value:
  fixes L :: "('n::zero, 'z) lib_scheme"
  assumes "orderly s" "reads_ok L"
  shows "wf_ty t \<Longrightarrow> ini_ty t \<Longrightarrow> reads_section s t (read_section L s t)"
proof (induction t)
  case (TClass keys ts)
  then show ?case using sound_read_key_values [OF assms] by (auto simp: reads_section_def line_start_def)
next
  case (TOptional t)
  show ?case
    unfolding reads_section_def
  proof (intro allI impI)
    fix sz and x :: "'n val"
    assume a: "- int (length s) \<le> sz" "sz < 0" "eol s sz" "conforms (TOptional t) x"
    obtain v where v: "x = VOptional v" "\<forall>y. v = Some y \<longrightarrow> conforms t y" using conforms_inv(5) [OF a(4)] by blast
    have "conforms t (case v of None \<Rightarrow> init t | Some z \<Rightarrow> z)" using v TOptional.prems conforms_init by (cases v) auto
    then have "sound s (\<lambda>z. byte_at s z = Some (CHR ''['')) sz (conforms t)
        (read_section L s t sz (case v of None \<Rightarrow> init t | Some z \<Rightarrow> z))"
      using TOptional a(1-3) by (intro reads_sectionD) simp_all
    then show "sound s (\<lambda>z. byte_at s z = Some (CHR ''['')) sz (conforms (TOptional t)) (read_section L s (TOptional t) sz x)"
      by (auto simp: read_optional_def v intro!: sound_map)
  qed
qed (auto simp: reads_section_def intro!: sound_fail_for)

lemma sound_header:
  assumes "orderly s" "- int (length s) \<le> sz" "byte_at s sz = Some (CHR ''['')"
  shows "sound s (eol s) (sz + 1) (\<lambda>_. True) (read_header s sz)"
proof -
  have "sz < - 1" using orderly_not_last [OF assms(1,3)] by simp
  then have "sound s (eol s) (sz + 1) (\<lambda>_. True) (and_then (skip_to_char s (CHR '']'') sz) (\<lambda>_. []) (\<lambda>sz' _.
       if sz' + 1 < 0 then do {
         d \<leftarrow> byte_at s (sz' + 1);
         if d = CHR 0x0A \<or> d = CHR 0x0D then do {
           str \<leftarrow> view s (sz + 1) sz';
           Some (sz' + 1, None, str) }
         else ini_fail i_unexpected_symbol (sz' + 1) [] }
       else ini_fail i_unexpected_eof (sz' + 1) []))"
    by (intro sound_and_then [OF sound_skip_to_char])
      (use assms(2) in \<open>auto simp: byte_at_in view_in intro!: soundI sound_fail\<close>)
  then show ?thesis using assms(3) by (simp add: read_header_def)
qed

lemma sound_headers:
  fixes x :: "'n val"
  assumes "orderly s" "list_all2 (reads_section s) ts secs" "length keys = length ts" "length keys \<le> 128"
    and "nat (- sz) \<le> n" "- int (length s) \<le> sz" "sz < 0" "byte_at s sz = Some (CHR ''['')" "conforms (TClass keys ts) x"
  shows "sound s (\<lambda>_. True) sz (conforms (TClass keys ts)) (headers_loop n keys secs s sz x)"
  using assms(5-)
proof (induction n arbitrary: sz x)
  case (Suc n)
  let ?C = "conforms (TClass keys ts)"
  have len: "length secs = length ts" using list_all2_lengthD [OF assms(2)] by simp
  show ?case
    unfolding headers_loop.simps
  proof (rule sound_and_then [OF sound_header [OF assms(1) Suc.prems(2,4)]])
    fix z header
    assume z: "sz + 1 \<le> z" "z < 0" "eol s z"
    show "sound s (\<lambda>_. True) sz ?C (case table_find keys header of
         Some i \<Rightarrow> and_then (member_call secs i z x) id (\<lambda>sz x. headers_loop n keys secs s sz x)
       | None \<Rightarrow> ini_fail i_unexpected_header1 sz x)"
    proof (cases "table_find keys header")
      case None
      then show ?thesis using Suc.prems by (simp add: sound_fail)
    next
      case (Some i)
      then have i: "i < length ts" "i < 128" using table_findD [OF Some] assms(3,4) by auto
      have "reads_section s (ts ! i) (secs ! i)" using assms(2) i(1) by (simp add: list_all2_conv_all_nth)
      then have rd: "sound s (\<lambda>z. byte_at s z = Some (CHR ''['')) z (conforms (ts ! i)) ((secs ! i) z y)"
        if "conforms (ts ! i) y" for y
        by (rule reads_sectionD) (use z Suc.prems(2) that in simp_all)
      have "sound s (\<lambda>_. True) sz ?C (and_then (member_call secs i z x) id (\<lambda>sz x. headers_loop n keys secs s sz x))"
        by (rule sound_and_then [OF sound_member_call [OF i len Suc.prems(5) rd]])
          (use z Suc.prems in \<open>auto intro!: sound_weaken [OF Suc.IH]\<close>)
      then show ?thesis using Some by simp
    qed
  qed (use Suc.prems in simp)
qed simp

section \<open>Properties\<close>

text \<open>C27: Reading an orderly INI text always returns, for every class whose members have types that
  the reader accepts: the loops end, no access leaves the text, the object keeps its type, the call
  succeeds exactly when it reports no error, and the position of a reported error is in the text.\<close>
theorem ini_structure_total:
  fixes L :: "('n::zero, 'z) lib_scheme"
  assumes "reads_ok L" "orderly s" "wf_ty (TClass keys ts)" "ini_ty (TClass keys ts)" "conforms (TClass keys ts) x"
  shows "case structure_ini L (TClass keys ts) s x of None \<Rightarrow> False
    | Some (ok, x', e) \<Rightarrow> conforms (TClass keys ts) x' \<and> ok = (e = None) \<and>
        (case e of None \<Rightarrow> True | Some te \<Rightarrow> - int (length s) \<le> te_where te \<and> te_where te \<le> 0)"
proof -
  let ?sz = "- int (length s)" and ?C = "conforms (TClass keys ts)"
  have secs: "list_all2 (reads_section s) ts (map (read_section L s) ts)"
    using assms(3,4) section_value [OF assms(2,1)] by (auto simp: list_all2_conv_all_nth list_all_length)
  have "sound s (\<lambda>_. True) ?sz ?C (read_all L keys ts s ?sz x)"
  proof (cases "s = []")
    case True
    then show ?thesis using assms(5) by (simp add: read_all_def soundI)
  next
    case False
    then obtain c where c: "byte_at s ?sz = Some c" by (auto simp: byte_at_def)
    have "sound s (\<lambda>_. True) ?sz ?C (and_then (read_key_values keys (map (ini_read_value L s) ts) s ?sz x) id (\<lambda>sz x.
            headers_loop (nat (- sz)) keys (map (read_section L s) ts) s sz x))" if "c \<noteq> CHR ''=''"
      by (rule sound_and_then [OF sound_read_key_values [OF assms(2,1,3,4) _ _ _ assms(5)]])
        (use False c that assms(3) in \<open>auto simp: line_start_def intro!: sound_weaken [OF sound_headers [OF assms(2) secs]]\<close>)
    then show ?thesis using False c assms(5) by (auto simp: read_all_def intro!: sound_fail)
  qed
  then obtain sz e x' where "read_all L keys ts s ?sz x = Some (sz, e, x')" "?C x'" "settled s ?sz sz e"
    by (auto simp: sound_def good_def split: option.splits)
  then show ?thesis
    by (auto simp: structure_ini_def settled_def split: option.splits)
qed

theorem ini_structure_total_witness:
  "let keys = [''a'', ''b'']; ts = [TNum 0, TClass [''c''] [TString]]; x = VClass [VNum 0, VClass [VString []]];
       s = ''a = 1'' @ [CHR 0x0A] @ ''[b]'' @ [CHR 0x0A] @ ''c = d'' @ [CHR 0x0A]
   in reads_ok dec_lib \<and> orderly s \<and> wf_ty (TClass keys ts) \<and> ini_ty (TClass keys ts) \<and> conforms (TClass keys ts) x \<and>
     (case structure_ini dec_lib (TClass keys ts) s x of None \<Rightarrow> False
      | Some (ok, x', e) \<Rightarrow> conforms (TClass keys ts) x' \<and> ok = (e = None) \<and>
          (case e of None \<Rightarrow> True | Some te \<Rightarrow> - int (length s) \<le> te_where te \<and> te_where te \<le> 0))"
  unfolding Let_def
  by (intro conjI dec_lib_reads_ok ini_structure_total) (simp_all add: orderly_def)

end
