(* ===== verification/Ini_Text.thy ===== *)
theory Ini_Text
  imports Ini_Structurer Json_Text
begin

text \<open>
  The INI texts of values: a reference printer, the proof that the reader of \<open>Ini_Structurer\<close>
  reads such a text back, and the texts on which it leaves its input.
\<close>

section \<open>Scanning a well-formed text\<close>

abbreviation nl :: char where "nl \<equiv> CHR 0x0A"

definition one_line :: "string \<Rightarrow> bool" where
  "one_line w \<longleftrightarrow> nl \<notin> set w \<and> CHR 0x0D \<notin> set w"

definition plain_key :: "string \<Rightarrow> bool" where
  "plain_key k \<longleftrightarrow> k \<noteq> [] \<and> (32 :: nat) < of_char (hd k) \<and> hd k \<noteq> CHR ''['' \<and> hd k \<noteq> CHR '';'' \<and>
     CHR ''='' \<notin> set k \<and> one_line k"

definition plain_header :: "string \<Rightarrow> bool" where
  "plain_header h \<longleftrightarrow> CHR '']'' \<notin> set h \<and> one_line h"

lemma one_line_simps [simp]:
  "one_line []" "one_line (c # w) = (c \<noteq> nl \<and> c \<noteq> CHR 0x0D \<and> one_line w)"
  "one_line (v @ w) = (one_line v \<and> one_line w)"
  by (auto simp: one_line_def)

lemma skip_to_char_found:
  assumes "c \<notin> set w" "one_line w" "suffix (a # w @ c # r) s" "c \<noteq> nl" "c \<noteq> CHR 0x0D"
  shows "skip_to_char s c (left (a # w @ c # r)) = Some (left (c # r), None, ())"
proof -
  have "skip_to_char_loop s c (left (a # w @ c # r)) = Some (left (c # r), None, ())"
    using assms(1-3)
  proof (induction w arbitrary: a)
    case Nil
    then have "suffix (c # r) s" using suffix_ConsD by fastforce
    then show ?case using assms(4,5) by (subst skip_to_char_loop.simps) (simp add: byte_at_suffix)
  next
    case (Cons d w)
    then have s: "suffix (d # w @ c # r) s" using suffix_ConsD by fastforce
    then show ?case using Cons by (subst skip_to_char_loop.simps) (auto simp: byte_at_suffix)
  qed
  then show ?thesis by (simp add: skip_to_char_def)
qed

lemma skip_to_line_found:
  assumes "one_line w" "suffix (a # w @ nl # r) s"
  shows "skip_to_line s (left (a # w @ nl # r)) = Some (left (nl # r), None, ())"
proof -
  have "skip_to_line_loop s (left (a # w @ nl # r)) = Some (left (nl # r), None, ())"
    using assms
  proof (induction w arbitrary: a)
    case Nil
    then have "suffix (nl # r) s" using suffix_ConsD by fastforce
    then show ?case by (subst skip_to_line_loop.simps) (simp add: byte_at_suffix)
  next
    case (Cons d w)
    then have s: "suffix (d # w @ nl # r) s" using suffix_ConsD by fastforce
    then show ?case using Cons by (subst skip_to_line_loop.simps) (auto simp: byte_at_suffix)
  qed
  then show ?thesis by (simp add: skip_to_line_def)
qed

lemma skip_to_line_missed:
  assumes "one_line w" "suffix (a # w) s"
  shows "\<exists>e. skip_to_line s (left (a # w)) = Some (1, e, ())"
proof -
  have "\<exists>e. skip_to_line_loop s (left (a # w)) = Some (1, e, ())"
    using assms
  proof (induction w arbitrary: a)
    case Nil
    then show ?case by (subst skip_to_line_loop.simps) (simp add: ini_fail_def)
  next
    case (Cons d w)
    then have s: "suffix (d # w) s" using suffix_ConsD by fastforce
    then show ?case using Cons by (subst skip_to_line_loop.simps) (auto simp: byte_at_suffix)
  qed
  then show ?thesis by (simp add: skip_to_line_def)
qed

text \<open>What may follow white space: nothing, or a visible byte that does not start a comment.\<close>

definition visible :: "string \<Rightarrow> bool" where
  "visible r \<longleftrightarrow> (r = [] \<or> (32 :: nat) < of_char (hd r) \<and> hd r \<noteq> CHR '';'')"

lemma skip_loop_blank:
  assumes "blank ws" "visible r" "suffix (a # ws @ r) s"
  shows "skip_loop s False (left (a # ws @ r)) = Some (left r, None, ())"
  using assms(1,3)
proof (induction ws arbitrary: a)
  case Nil
  show ?case
  proof (cases r)
    case (Cons c r')
    have "suffix (c # r') s" using Nil(2) Cons suffix_ConsD by fastforce
    then show ?thesis using assms(2) Cons by (subst skip_loop.simps) (simp add: byte_at_suffix visible_def)
  qed (subst skip_loop.simps, simp)
next
  case (Cons d ws)
  have s: "suffix (d # ws @ r) s" using Cons.prems(2) suffix_ConsD by fastforce
  then have "skip_loop s False (left (d # ws @ r)) = Some (left r, None, ())" using Cons by (simp add: blank_def)
  then show ?case using Cons.prems(1) s by (subst skip_loop.simps) (simp add: byte_at_suffix blank_def)
qed

lemma ini_skip_blank:
  assumes "blank ws" "visible r" "suffix (ws @ r) s" "ws @ r \<noteq> []"
  shows "ini_skip_whitespace s (left (ws @ r)) = Some (left r, None, ())"
proof (cases ws)
  case Nil
  then obtain c r' where "r = c # r'" using assms(4) by (cases r) auto
  then show ?thesis using Nil assms by (simp add: ini_skip_whitespace_def byte_at_suffix visible_def)
next
  case (Cons c ws')
  have "skip_loop s False (left (c # ws' @ r)) = Some (left r, None, ())"
    by (rule skip_loop_blank) (use assms Cons in \<open>auto simp: blank_def\<close>)
  moreover have "of_char c \<le> (32 :: nat)" "c \<noteq> CHR '';''" using assms(1) Cons by (auto simp: blank_def)
  ultimately show ?thesis using Cons assms(3) by (simp add: ini_skip_whitespace_def byte_at_suffix)
qed

lemma header_found:
  assumes "plain_header h" "suffix (CHR ''['' # h @ CHR '']'' # nl # r) s"
  shows "read_header s (left (CHR ''['' # h @ CHR '']'' # nl # r)) = Some (left (nl # r), None, h)"
proof -
  have s1: "suffix (h @ CHR '']'' # nl # r) s" using assms(2) suffix_ConsD by fast
  have "skip_to_char s (CHR '']'') (left (CHR ''['' # h @ CHR '']'' # nl # r)) = Some (left (CHR '']'' # nl # r), None, ())"
    by (rule skip_to_char_found) (use assms in \<open>auto simp: plain_header_def\<close>)
  moreover have "byte_at s (left (nl # r)) = Some nl"
    using suffix_split [of "h @ [CHR '']'']" "nl # r" s] s1 by (simp add: byte_at_suffix)
  moreover have "left (CHR '']'' # nl # r) + 1 < 0" by simp
  ultimately show ?thesis
    using byte_at_suffix [OF assms(2)] view_suffix [OF s1] by (simp add: read_header_def)
qed

section \<open>Reading values\<close>

text \<open>A text \<open>txt\<close> behind an equals sign and before a newline is read as \<open>v\<close>.\<close>

definition line_echoes :: "(string \<Rightarrow> 'n reader) \<Rightarrow> ty \<Rightarrow> string \<Rightarrow> 'n val \<Rightarrow> bool" where
  "line_echoes rd t txt v \<longleftrightarrow>
     (\<forall>s r x. suffix (CHR '' '' # CHR ''='' # CHR '' '' # txt @ nl # r) s \<longrightarrow> conforms t x \<longrightarrow>
        rd s (left (CHR ''='' # CHR '' '' # txt @ nl # r)) x = Some (left (nl # r), None, v))"

lemma line_echoesI:
  assumes "\<And>s r x. suffix (CHR '' '' # CHR ''='' # CHR '' '' # txt @ nl # r) s \<Longrightarrow>
    suffix (CHR ''='' # CHR '' '' # txt @ nl # r) s \<Longrightarrow> conforms t x \<Longrightarrow>
    rd s (left (CHR ''='' # CHR '' '' # txt @ nl # r)) x = Some (left (nl # r), None, v)"
  shows "line_echoes rd t txt v"
  unfolding line_echoes_def by (intro allI impI assms) (assumption, erule suffix_ConsD, assumption)

lemma line_echo_bool: "line_echoes (\<lambda>s. ini_read_bool s) TBool (if b then ''true'' else ''false'') (VBool b)"
proof (rule line_echoesI)
  fix s r and x :: "'a val"
  assume a: "suffix (CHR '' '' # CHR ''='' # CHR '' '' # (if b then ''true'' else ''false'') @ nl # r) s"
    "suffix (CHR ''='' # CHR '' '' # (if b then ''true'' else ''false'') @ nl # r) s"
  show "ini_read_bool s (left (CHR ''='' # CHR '' '' # (if b then ''true'' else ''false'') @ nl # r)) x =
      Some (left (nl # r), None, VBool b)"
  proof (cases b)
    case True
    define z where "z = left (CHR ''='' # CHR '' '' # ''true'' @ nl # r)"
    have "load_le s (left ((CHR '' '' # CHR ''='' # CHR '' '' # ''true'' @ [nl]) @ r)) 8 = Some 0x0a65757274203d20"
      using load_le_suffix [of "CHR '' '' # CHR ''='' # CHR '' '' # ''true'' @ [nl]" r s 8] a(1) True by simp
    moreover have "left ((CHR '' '' # CHR ''='' # CHR '' '' # ''true'' @ [nl]) @ r) = z - 1" "z \<le> - 7" "z + 6 = left (nl # r)"
      by (simp_all add: z_def left_def)
    moreover have "byte_at s z = Some (CHR ''='')" using a(2) True by (simp add: z_def byte_at_suffix)
    ultimately have "ini_read_bool s z x = Some (left (nl # r), None, VBool True)" by (simp add: ini_read_bool_def)
    then show ?thesis using True by (simp add: z_def)
  next
    case False
    define z where "z = left (CHR ''='' # CHR '' '' # ''false'' @ nl # r)"
    have f: "load_le s z 8 = Some 0x0a65736c6166203d"
      using load_le_suffix [of "CHR ''='' # CHR '' '' # ''false'' @ [nl]" r s 8] a(2) False by (simp add: z_def)
    have "load_le s (left ((CHR '' '' # CHR ''='' # CHR '' '' # ''false'') @ nl # r)) 8 = Some 0x65736c6166203d20"
      using load_le_suffix [of "CHR '' '' # CHR ''='' # CHR '' '' # ''false''" "nl # r" s 8] a(1) False by simp
    moreover have "left ((CHR '' '' # CHR ''='' # CHR '' '' # ''false'') @ nl # r) = z - 1" "z \<le> - 8"
      by (simp_all add: z_def left_def)
    moreover have "byte_at s z = Some (CHR ''='')" using a(2) False by (simp add: z_def byte_at_suffix)
    ultimately have "ini_read_bool s z x = Some (z + 7, None, VBool False)" using f by (simp add: ini_read_bool_def)
    moreover have "z + 7 = left (nl # r)" by (simp add: z_def left_def)
    ultimately show ?thesis using False by (simp add: z_def)
  qed
qed

lemma line_echo_number:
  fixes L :: "('n, 'z) lib_scheme"
  assumes "numbers_ok L" "fio_to_chars L k n = Some txt"
  shows "line_echoes (\<lambda>s. ini_read_number L k s) (TNum k) txt (VNum n)"
proof (rule line_echoesI)
  fix s r and x :: "'n val"
  assume a: "suffix (CHR ''='' # CHR '' '' # txt @ nl # r) s" "conforms (TNum k) x"
  obtain y where x: "x = VNum y" using conforms_inv(1) [OF a(2)] by blast
  have t: "txt \<noteq> []" "fio_from_chars L k (txt @ nl # r) y = (length txt, n)"
    using assms unfolding numbers_ok_def by (auto simp: ends_value_def)
  define z where "z = left (CHR ''='' # CHR '' '' # txt @ nl # r)"
  have s1: "suffix (txt @ nl # r) s" using suffix_split [of "''= ''" "txt @ nl # r" s] a(1) by simp
  have z: "z + 2 = left (txt @ nl # r)" "z + 2 + int (length txt) = left (nl # r)" "z + 2 < - int (length txt)"
    by (simp_all add: z_def left_def)
  have "drop (nat (int (length s) + (z + 2))) s = txt @ nl # r" using drop_suffix [OF s1] z(1) by simp
  moreover have "byte_at s (z + 2 + int (length txt)) = Some nl"
    using byte_at_suffix [OF suffix_split [OF s1]] z(2) by simp
  moreover have "byte_at s z = Some (CHR ''='')" using a(1) by (simp add: z_def byte_at_suffix)
  ultimately have "ini_read_number L k s z x = Some (z + 2 + int (length txt), None, VNum n)"
    using t x z(3) by (simp add: ini_read_number_def Let_def)
  then show "ini_read_number L k s (left (CHR ''='' # CHR '' '' # txt @ nl # r)) x = Some (left (nl # r), None, VNum n)"
    using z(2) by (simp add: z_def)
qed

lemma value_line:
  assumes "one_line str" "suffix (CHR ''='' # CHR '' '' # str @ nl # r) s"
  shows "byte_at s (left (CHR ''='' # CHR '' '' # str @ nl # r)) = Some (CHR ''='')"
    "skip_to_line s (left (CHR '' '' # str @ nl # r)) = Some (left (nl # r), None, ())"
    "view s (left (CHR ''='' # CHR '' '' # str @ nl # r) + 2) (left (nl # r)) = Some str"
proof -
  have s1: "suffix (CHR '' '' # str @ nl # r) s" using suffix_ConsD [OF assms(2)] .
  have s2: "suffix (str @ nl # r) s" using suffix_ConsD [OF s1] .
  show "byte_at s (left (CHR ''='' # CHR '' '' # str @ nl # r)) = Some (CHR ''='')" by (rule byte_at_suffix [OF assms(2)])
  show "skip_to_line s (left (CHR '' '' # str @ nl # r)) = Some (left (nl # r), None, ())"
    by (rule skip_to_line_found [OF assms(1) s1])
  have "left (CHR ''='' # CHR '' '' # str @ nl # r) + 2 = left (str @ nl # r)" by (simp add: left_def)
  then show "view s (left (CHR ''='' # CHR '' '' # str @ nl # r) + 2) (left (nl # r)) = Some str"
    using view_suffix [OF s2] by simp
qed

lemma line_echo_str:
  assumes "one_line str"
  shows "line_echoes (\<lambda>s. ini_read_str s) TString str (VString str)"
  by (rule line_echoesI) (simp add: ini_read_str_def value_line [OF assms])

lemma line_echo_enum:
  assumes "one_line key" "table_find keys key = Some i" "table_get values i = Some v"
  shows "line_echoes (\<lambda>s. ini_read_enum keys values s) (TEnum keys values) key (VEnum v)"
  by (rule line_echoesI) (use assms in \<open>simp add: ini_read_enum_def value_line\<close>)

section \<open>Reading lines and sections\<close>

definition line_text :: "string \<Rightarrow> string \<Rightarrow> string" where
  "line_text k txt = k @ CHR '' '' # CHR ''='' # CHR '' '' # txt @ [nl]"

definition lines_text :: "string list \<Rightarrow> string list \<Rightarrow> nat list \<Rightarrow> string" where
  "lines_text keys texts is = concat (map (\<lambda>i. line_text (keys ! i) (texts ! i)) is)"

definition headers_text :: "string list \<Rightarrow> string list \<Rightarrow> nat list \<Rightarrow> string" where
  "headers_text keys bodies js = concat (map (\<lambda>j. CHR ''['' # keys ! j @ CHR '']'' # nl # bodies ! j) js)"

text \<open>The members of a list of indices, replaced.\<close>

definition put :: "'a list \<Rightarrow> nat list \<Rightarrow> 'a list \<Rightarrow> 'a list" where
  "put vs is xs = fold (\<lambda>i xs. xs[i := vs ! i]) is xs"

lemma put_simps [simp]: "put vs [] xs = xs" "put vs (i # is) xs = put vs is (xs[i := vs ! i])"
  by (simp_all add: put_def)

lemma put_nth: "length (put vs is xs) = length xs \<and>
    (\<forall>i < length xs. put vs is xs ! i = (if i \<in> set is then vs ! i else xs ! i))"
  by (induction "is" arbitrary: xs) (auto simp: nth_list_update)

lemma put_all:
  assumes "length xs = length vs" "set is \<union> set js = {..<length vs}"
  shows "put vs js (put vs is xs) = vs"
proof (rule nth_equalityI)
  show "length (put vs js (put vs is xs)) = length vs" using put_nth assms(1) by metis
  fix i
  assume "i < length (put vs js (put vs is xs))"
  then have i: "i < length vs" using put_nth assms(1) by metis
  then have "i \<in> set is \<or> i \<in> set js" using assms(2) by auto
  moreover have "length (put vs is xs) = length vs" using put_nth assms(1) by metis
  ultimately show "put vs js (put vs is xs) ! i = vs ! i"
    using put_nth [of vs "is" xs] put_nth [of vs js "put vs is xs"] i assms(1) by auto
qed

definition next_section :: "string \<Rightarrow> bool" where
  "next_section r \<longleftrightarrow> r = [] \<or> hd r = CHR ''[''"

lemma next_section_visible: "next_section r \<Longrightarrow> visible r"
  by (auto simp: next_section_def visible_def)

lemma key_start:
  assumes "plain_key key" "blank ws" "suffix (ws @ key @ CHR '' '' # CHR ''='' # r) s"
  shows "key_values_loop (Suc n) keys rds s (left (ws @ key @ CHR '' '' # CHR ''='' # r)) x =
      key_value keys rds s (left (key @ CHR '' '' # CHR ''='' # r)) (left (CHR ''='' # r)) x
        (\<lambda>sz x. key_values_loop n keys rds s sz x)"
    and "byte_at s (left (CHR ''='' # r) - 1) = Some (CHR '' '')"
    and "view s (left (key @ CHR '' '' # CHR ''='' # r)) (left (CHR ''='' # r) - 1) = Some key"
proof -
  obtain c k where k: "key = c # k" using assms(1) by (cases key) (auto simp: plain_key_def)
  let ?eq = "CHR ''='' # r"
  have t: "key @ CHR '' '' # ?eq = c # (k @ '' '') @ ?eq" by (simp add: k)
  have c: "(32 :: nat) < of_char c" "c \<noteq> CHR ''[''" "c \<noteq> CHR '';''" "c \<noteq> CHR ''=''" "CHR ''='' \<notin> set k" "one_line k"
    using assms(1) k by (auto simp: plain_key_def)
  note s0 = assms(3) [unfolded t]
  note s1 = suffix_split [OF s0]
  have s2: "suffix (CHR '' '' # ?eq) s" using suffix_split [of "c # k" "CHR '' '' # ?eq" s] s1 by simp
  have skip: "ini_skip_whitespace s (left (ws @ c # (k @ '' '') @ ?eq)) = Some (left (c # (k @ '' '') @ ?eq), None, ())"
    by (rule ini_skip_blank [OF assms(2) _ s0]) (use c in \<open>simp_all add: visible_def\<close>)
  have to: "skip_to_char s (CHR ''='') (left (c # (k @ '' '') @ ?eq)) = Some (left ?eq, None, ())"
    by (rule skip_to_char_found [OF _ _ s1]) (use c in auto)
  show "key_values_loop (Suc n) keys rds s (left (ws @ key @ CHR '' '' # ?eq)) x =
      key_value keys rds s (left (key @ CHR '' '' # ?eq)) (left ?eq) x (\<lambda>sz x. key_values_loop n keys rds s sz x)"
    unfolding t key_values_loop.simps skip using byte_at_suffix [OF s1] c(2,4) to by simp
  show "byte_at s (left ?eq - 1) = Some (CHR '' '')"
    using byte_at_suffix [OF s2] by (simp add: left_def)
  show "view s (left (key @ CHR '' '' # ?eq)) (left ?eq - 1) = Some key"
    using view_suffix [of key "CHR '' '' # ?eq" s] suffix_split [OF assms(3)] by (simp add: left_def)
qed

lemma key_value_step:
  assumes "distinct keys" "length keys \<le> 128" "length keys = length ts" "conforms_all ts xs"
    and "i < length keys" "length rds = length keys" "plain_key (keys ! i)"
    and "line_echoes rd (ts ! i) txt v" "rds ! i = rd s"
    and "blank ws" "suffix (ws @ line_text (keys ! i) txt @ r) s"
  shows "key_values_loop (Suc n) keys rds s (left (ws @ line_text (keys ! i) txt @ r)) (VClass xs) =
    key_values_loop n keys rds s (left (nl # r)) (VClass (xs[i := v]))"
proof -
  let ?eq = "CHR ''='' # CHR '' '' # txt @ nl # r"
  have t: "line_text (keys ! i) txt @ r = keys ! i @ CHR '' '' # ?eq" by (simp add: line_text_def)
  note start = key_start [OF assms(7,10) assms(11) [unfolded t]]
  have s2: "suffix (CHR '' '' # ?eq) s" using suffix_split [of "ws @ keys ! i" "CHR '' '' # ?eq" s] assms(11) t by simp
  have space: "byte_at s (left ?eq + 1) = Some (CHR '' '')"
    using byte_at_suffix [of "CHR '' ''" "txt @ nl # r" s] suffix_ConsD [OF suffix_ConsD [OF s2]] by simp
  have ci: "conforms (ts ! i) (xs ! i)" "i < length xs" using assms(3-5) by (simp_all add: conforms_all_iff)
  then have "rd s (left ?eq) (xs ! i) = Some (left (nl # r), None, v)"
    using assms(8) s2 unfolding line_echoes_def by blast
  then have call: "member_call rds i (left ?eq) (VClass xs) = Some (left (nl # r), None, VClass (xs[i := v]))"
    using assms(2,5,6,9) ci(2) by (simp add: member_call_def)
  show ?thesis
    unfolding t start(1) key_value_def using start(2,3) space call
    by (simp add: table_find_distinct [OF assms(1,5)])
qed

lemma key_values_echo:
  assumes "distinct keys" "length keys \<le> 128" "length keys = length ts" "length rds = length keys" "conforms_all ts vs"
    and "\<And>i. i \<in> set is \<Longrightarrow> i < length keys \<and> plain_key (keys ! i) \<and>
      line_echoes (\<lambda>s. rd s i) (ts ! i) (texts ! i) (vs ! i) \<and> rds ! i = rd s i"
    and "conforms_all ts xs" "blank ws" "blank ws'" "next_section r" "length is < n"
    and "suffix (ws @ lines_text keys texts is @ ws' @ r) s" "ws @ lines_text keys texts is @ ws' @ r \<noteq> []"
  shows "key_values_loop n keys rds s (left (ws @ lines_text keys texts is @ ws' @ r)) (VClass xs) =
    Some (left r, None, VClass (put vs is xs))"
  using assms(6-)
proof (induction "is" arbitrary: xs ws n)
  case Nil
  then obtain m where m: "n = Suc m" by (cases n) auto
  have b: "blank (ws @ ws')" using Nil by (auto simp: blank_def)
  have s: "suffix ((ws @ ws') @ r) s" using Nil by (simp add: lines_text_def)
  have "ini_skip_whitespace s (left ((ws @ ws') @ r)) = Some (left r, None, ())"
    by (rule ini_skip_blank [OF b next_section_visible [OF Nil(5)] s]) (use Nil in \<open>simp add: lines_text_def\<close>)
  then show ?case
    using m suffix_split [OF s] Nil(5) byte_at_suffix
    by (cases r) (auto simp: lines_text_def next_section_def)
next
  case (Cons i "is")
  obtain m where m: "n = Suc m" "length is < m" using Cons.prems(6) by (cases n) auto
  have i: "i < length keys" "plain_key (keys ! i)" "line_echoes (\<lambda>s. rd s i) (ts ! i) (texts ! i) (vs ! i)" "rds ! i = rd s i"
    using Cons.prems(1) [of i] by simp_all
  let ?r = "lines_text keys texts is @ ws' @ r"
  have t: "lines_text keys texts (i # is) @ ws' @ r = line_text (keys ! i) (texts ! i) @ ?r" by (simp add: lines_text_def)
  note s0 = Cons.prems(7) [unfolded t]
  have s1: "suffix ([nl] @ ?r) s"
    using suffix_split [of "ws @ keys ! i @ CHR '' '' # CHR ''='' # CHR '' '' # texts ! i" "nl # ?r" s] s0
    by (simp add: line_text_def)
  have up: "conforms_all ts (xs[i := vs ! i])"
    using Cons.prems(2) assms(3,5) i(1) by (simp add: conforms_all_iff nth_list_update)
  have "key_values_loop m keys rds s (left ([nl] @ ?r)) (VClass (xs[i := vs ! i])) =
      Some (left r, None, VClass (put vs is (xs[i := vs ! i])))"
    by (rule Cons.IH [OF _ up _ Cons.prems(4,5) m(2) s1]) (use Cons.prems(1) in auto)
  then show ?case
    unfolding t m(1)
    using key_value_step [OF assms(1-3) Cons.prems(2) i(1) assms(4) i(2,3,4) Cons.prems(3) s0] by simp
qed

definition section_echoes :: "(string \<Rightarrow> 'n reader) \<Rightarrow> ty \<Rightarrow> string \<Rightarrow> 'n val \<Rightarrow> bool" where
  "section_echoes sec t body v \<longleftrightarrow>
     (\<forall>s r x. suffix (nl # body @ r) s \<longrightarrow> next_section r \<longrightarrow> conforms t x \<longrightarrow>
        sec s (left (nl # body @ r)) x = Some (left r, None, v))"

lemma next_headers: "next_section (headers_text keys bodies js)"
  by (cases js) (simp_all add: headers_text_def next_section_def)

lemma headers_echo:
  assumes "distinct keys" "length keys \<le> 128" "length keys = length ts" "length secs = length keys" "conforms_all ts vs"
    and "\<And>j. j \<in> set js \<Longrightarrow> j < length keys \<and> plain_header (keys ! j) \<and>
      section_echoes (\<lambda>s. sec s j) (ts ! j) (bodies ! j) (vs ! j) \<and> secs ! j = sec s j"
    and "conforms_all ts xs" "js \<noteq> []" "length js \<le> n" "suffix (headers_text keys bodies js) s"
  shows "headers_loop n keys secs s (left (headers_text keys bodies js)) (VClass xs) = Some (0, None, VClass (put vs js xs))"
  using assms(6-)
proof (induction js arbitrary: xs n)
  case (Cons j js)
  obtain m where m: "n = Suc m" "length js \<le> m" using Cons.prems(4) by (cases n) auto
  have j: "j < length keys" "plain_header (keys ! j)" "section_echoes (\<lambda>s. sec s j) (ts ! j) (bodies ! j) (vs ! j)" "secs ! j = sec s j"
    using Cons.prems(1) [of j] by simp_all
  let ?r = "headers_text keys bodies js"
  have t: "headers_text keys bodies (j # js) = CHR ''['' # keys ! j @ CHR '']'' # nl # bodies ! j @ ?r"
    by (simp add: headers_text_def)
  note s0 = Cons.prems(5) [unfolded t]
  have s1: "suffix (nl # bodies ! j @ ?r) s"
    using suffix_split [of "CHR ''['' # keys ! j @ '']''" "nl # bodies ! j @ ?r" s] s0 by simp
  have s2: "suffix ?r s" using suffix_split [of "nl # bodies ! j" ?r s] s1 by simp
  have cj: "conforms (ts ! j) (xs ! j)" "j < length xs" using Cons.prems(2) assms(3) j(1) by (simp_all add: conforms_all_iff)
  then have "sec s j (left (nl # bodies ! j @ ?r)) (xs ! j) = Some (left ?r, None, vs ! j)"
    using j(3) s1 next_headers unfolding section_echoes_def by blast
  then have call: "member_call secs j (left (nl # bodies ! j @ ?r)) (VClass xs) = Some (left ?r, None, VClass (xs[j := vs ! j]))"
    using assms(2,4) j(1,4) cj(2) by (simp add: member_call_def)
  have up: "conforms_all ts (xs[j := vs ! j])"
    using Cons.prems(2) assms(3,5) j(1) by (simp add: conforms_all_iff nth_list_update)
  have "and_then (Some (left ?r, None, VClass (xs[j := vs ! j]))) id (\<lambda>sz x. headers_loop m keys secs s sz x) =
      Some (0, None, VClass (put vs js (xs[j := vs ! j])))"
  proof (cases "js = []")
    case False
    then have "left ?r < 0" by (cases js) (simp_all add: headers_text_def)
    then show ?thesis using Cons.IH [OF _ up False m(2) s2] Cons.prems(1) by simp
  qed (simp add: headers_text_def)
  then show ?case
    unfolding t m(1) headers_loop.simps header_found [OF j(2) s0]
    using call by (simp add: table_find_distinct [OF assms(1) j(1)])
qed simp

section \<open>The text of a class\<close>

fun ini_value_text :: "('n, 'z) lib_scheme \<Rightarrow> ty \<Rightarrow> 'n val \<Rightarrow> string" where
  "ini_value_text L TBool (VBool b) = (if b then ''true'' else ''false'')"
| "ini_value_text L (TNum k) (VNum n) = (case fio_to_chars L k n of Some t \<Rightarrow> t | None \<Rightarrow> [])"
| "ini_value_text L (TEnum keys values) (VEnum v) = (case value_get_key keys values v of Some k \<Rightarrow> k | None \<Rightarrow> [])"
| "ini_value_text L TString (VString str) = str"
| "ini_value_text L _ _ = []"

primrec has_header :: "ty \<Rightarrow> bool" where
  "has_header TBool = False"
| "has_header (TNum k) = False"
| "has_header (TEnum keys values) = False"
| "has_header TString = False"
| "has_header (TClass keys ts) = True"
| "has_header (TArray t) = False"
| "has_header (TTuple ts) = False"
| "has_header (TVector t) = False"
| "has_header (TOptional t) = False"

definition line_indices :: "ty list \<Rightarrow> nat list" where
  "line_indices ts = filter (\<lambda>i. \<not> has_header (ts ! i)) [0..<length ts]"

definition header_indices :: "ty list \<Rightarrow> nat list" where
  "header_indices ts = filter (\<lambda>i. has_header (ts ! i)) [0..<length ts]"

fun ini_text :: "('n, 'z) lib_scheme \<Rightarrow> ty \<Rightarrow> 'n val \<Rightarrow> string"
  and ini_texts :: "('n, 'z) lib_scheme \<Rightarrow> ty list \<Rightarrow> 'n val list \<Rightarrow> string list" where
  "ini_text L (TClass keys ts) (VClass vs) =
     lines_text keys (map2 (ini_value_text L) ts vs) (line_indices ts) @
     (if line_indices ts = [] then [] else [nl]) @
     headers_text keys (ini_texts L ts vs) (header_indices ts)"
| "ini_text L _ _ = []"
| "ini_texts L (t # ts) (v # vs) = ini_text L t v # ini_texts L ts vs"
| "ini_texts L _ _ = []"

text \<open>The values that an INI text determines: one level of sections under the outermost class, with
  keys, headers and strings that need no escaping.\<close>

fun line_printable :: "('n, 'z) lib_scheme \<Rightarrow> ty \<Rightarrow> 'n val \<Rightarrow> bool" where
  "line_printable L TBool (VBool b) = True"
| "line_printable L (TNum k) (VNum n) = (fio_to_chars L k n \<noteq> None)"
| "line_printable L (TEnum keys values) (VEnum v) =
     (distinct keys \<and> length keys = length values \<and> v \<in> set values \<and> list_all one_line keys)"
| "line_printable L TString (VString str) = one_line str"
| "line_printable L _ _ = False"

definition lines_printable :: "('n, 'z) lib_scheme \<Rightarrow> string list \<Rightarrow> ty list \<Rightarrow> 'n val list \<Rightarrow> bool" where
  "lines_printable L keys ts vs \<longleftrightarrow> distinct keys \<and> length keys \<le> 128 \<and> length keys = length ts \<and> length vs = length ts \<and>
     list_all (\<lambda>i. plain_key (keys ! i) \<and> line_printable L (ts ! i) (vs ! i)) (line_indices ts)"

fun section_printable :: "('n, 'z) lib_scheme \<Rightarrow> ty \<Rightarrow> 'n val \<Rightarrow> bool" where
  "section_printable L (TClass keys ts) (VClass vs) = (header_indices ts = [] \<and> lines_printable L keys ts vs)"
| "section_printable L _ _ = False"

fun ini_printable :: "('n, 'z) lib_scheme \<Rightarrow> ty \<Rightarrow> 'n val \<Rightarrow> bool" where
  "ini_printable L (TClass keys ts) (VClass vs) =
     (lines_printable L keys ts vs \<and>
      list_all (\<lambda>j. plain_header (keys ! j) \<and> section_printable L (ts ! j) (vs ! j)) (header_indices ts))"
| "ini_printable L _ _ = False"

lemma line_printable_conforms: "line_printable L t v \<Longrightarrow> conforms t v"
  by (induction L t v rule: line_printable.induct) simp_all

lemma indices: "set (line_indices ts) \<union> set (header_indices ts) = {..<length ts}"
  by (auto simp: line_indices_def header_indices_def)

lemma read_line_text:
  fixes L :: "('n::zero, 'z) lib_scheme"
  assumes "numbers_ok L" "line_printable L t v"
  shows "line_echoes (\<lambda>s. ini_read_value L s t) t (ini_value_text L t v) v"
  using assms(2)
proof (cases rule: line_printable.cases [of "(L, t, v)"])
  case (3 L' keys vals e)
  then have p: "distinct keys" "length keys = length vals" "e \<in> set vals" "list_all one_line keys" using assms(2) by simp_all
  from p(1-3) obtain key i where k: "value_get_key keys vals e = Some key" "key \<in> set keys"
    "table_find keys key = Some i" "table_get vals i = Some e" by (rule enum_key)
  then have "one_line key" using p(4) by (simp add: list_all_iff)
  from line_echo_enum [OF this k(3,4)] show ?thesis using 3 k(1) by simp
qed (use assms in \<open>auto simp: line_echo_bool line_echo_str line_echo_number\<close>)

lemma lines_printableD:
  fixes L :: "('n::zero, 'z) lib_scheme"
  assumes "numbers_ok L" "lines_printable L keys ts vs" "i \<in> set (line_indices ts)"
  shows "i < length keys" "plain_key (keys ! i)"
    "line_echoes (\<lambda>s. ini_read_value L s (ts ! i)) (ts ! i) (map2 (ini_value_text L) ts vs ! i) (vs ! i)"
  using assms read_line_text [OF assms(1)]
  by (auto simp: lines_printable_def list_all_iff line_indices_def)

lemma section_conforms:
  "section_printable L t v \<Longrightarrow> conforms t v"
proof (induction L t v rule: section_printable.induct)
  case (1 L keys ts vs)
  then have "set (line_indices ts) = {..<length ts}" using indices [of ts] by simp
  then show ?case using 1 line_printable_conforms
    by (fastforce simp: lines_printable_def list_all_iff conforms_all_iff)
qed simp_all

lemma ini_printable_conforms:
  assumes "ini_printable L (TClass keys ts) (VClass vs)"
  shows "conforms_all ts vs"
proof -
  have "conforms (ts ! i) (vs ! i)" if "i < length ts" for i
  proof -
    have "i \<in> set (line_indices ts) \<or> i \<in> set (header_indices ts)" using that indices [of ts] by auto
    then show ?thesis using assms line_printable_conforms section_conforms
      by (fastforce simp: lines_printable_def list_all_iff)
  qed
  then show ?thesis using assms by (simp add: conforms_all_iff lines_printable_def)
qed

lemma ini_texts_nth: "length ts = length vs \<Longrightarrow> i < length ts \<Longrightarrow> ini_texts L ts vs ! i = ini_text L (ts ! i) (vs ! i)"
proof (induction ts vs arbitrary: i rule: list_induct2)
  case (Cons t ts v vs)
  then show ?case by (cases i) simp_all
qed simp

lemma lines_length: "length is \<le> length (lines_text keys texts is)"
  by (induction "is") (simp_all add: lines_text_def line_text_def)

lemma headers_length: "length js \<le> length (headers_text keys bodies js)"
  by (induction js) (simp_all add: headers_text_def)

text \<open>The lines of a class, read from anywhere, at most white space before them.\<close>

lemma read_lines:
  fixes L :: "('n::zero, 'z) lib_scheme"
  assumes "numbers_ok L" "lines_printable L keys ts vs" "conforms_all ts vs" "conforms_all ts xs"
    and "blank ws" "blank ws'" "next_section r"
    and "suffix (ws @ lines_text keys (map2 (ini_value_text L) ts vs) (line_indices ts) @ ws' @ r) s"
    and "ws @ lines_text keys (map2 (ini_value_text L) ts vs) (line_indices ts) @ ws' @ r \<noteq> []"
  shows "read_key_values keys (map (ini_read_value L s) ts) s
      (left (ws @ lines_text keys (map2 (ini_value_text L) ts vs) (line_indices ts) @ ws' @ r)) (VClass xs) =
    Some (left r, None, VClass (put vs (line_indices ts) xs))"
  unfolding read_key_values_def
proof (rule key_values_echo [where rd = "\<lambda>s i. ini_read_value L s (ts ! i)"])
  show "length (line_indices ts) < Suc (nat (- left (ws @ lines_text keys (map2 (ini_value_text L) ts vs) (line_indices ts) @ ws' @ r)))"
    using lines_length [of "line_indices ts" keys "map2 (ini_value_text L) ts vs"] by simp
  fix i
  assume "i \<in> set (line_indices ts)"
  then show "i < length keys \<and> plain_key (keys ! i) \<and>
      line_echoes (\<lambda>s. ini_read_value L s (ts ! i)) (ts ! i) (map2 (ini_value_text L) ts vs ! i) (vs ! i) \<and>
      map (ini_read_value L s) ts ! i = ini_read_value L s (ts ! i)"
    using lines_printableD [OF assms(1,2)] assms(2) by (simp add: lines_printable_def)
qed (use assms in \<open>auto simp: lines_printable_def\<close>)

lemma read_section_text:
  fixes L :: "('n::zero, 'z) lib_scheme"
  assumes "numbers_ok L" "section_printable L t v"
  shows "section_echoes (\<lambda>s. read_section L s t) t (ini_text L t v) v"
  unfolding section_echoes_def
proof (intro allI impI)
  fix s r and x :: "'n val"
  assume a: "suffix (nl # ini_text L t v @ r) s" "next_section r" "conforms t x"
  obtain keys ts vs where t: "t = TClass keys ts" "v = VClass vs" "header_indices ts = []" "lines_printable L keys ts vs"
    using assms(2) by (cases rule: section_printable.cases [of "(L, t, v)"]) auto
  obtain xs where xs: "x = VClass xs" "conforms_all ts xs" using conforms_inv(2) a(3) t(1) by blast
  have cv: "conforms_all ts vs" using section_conforms [OF assms(2)] t by simp
  have body: "nl # ini_text L t v @ r = [nl] @ lines_text keys (map2 (ini_value_text L) ts vs) (line_indices ts) @
      (if line_indices ts = [] then [] else [nl]) @ r"
    by (simp add: t headers_text_def)
  have "read_key_values keys (map (ini_read_value L s) ts) s (left (nl # ini_text L t v @ r)) (VClass xs) =
      Some (left r, None, VClass (put vs (line_indices ts) xs))"
    unfolding body by (rule read_lines [OF assms(1) t(4) cv xs(2)]) (use a body in auto)
  moreover have "put vs [] (put vs (line_indices ts) xs) = vs"
    by (rule put_all) (use cv xs(2) indices [of ts] t(3) in \<open>auto simp: conforms_all_iff\<close>)
  ultimately show "read_section L s t (left (nl # ini_text L t v @ r)) x = Some (left r, None, v)"
    using t(1,2) xs(1) by simp
qed

lemma read_ini_text:
  fixes L :: "('n::zero, 'z) lib_scheme"
  assumes "numbers_ok L" "ini_printable L t v" "conforms t x"
  shows "structure_ini L t (ini_text L t v) x = Some (True, v, None)"
proof -
  obtain keys ts vs where t: "t = TClass keys ts" "v = VClass vs" "lines_printable L keys ts vs"
    and h: "\<And>j. j \<in> set (header_indices ts) \<Longrightarrow> plain_header (keys ! j) \<and> section_printable L (ts ! j) (vs ! j)"
    using assms(2) by (cases rule: ini_printable.cases [of "(L, t, v)"]) (auto simp: list_all_iff)
  obtain xs where xs: "x = VClass xs" "conforms_all ts xs" using conforms_inv(2) assms(3) t(1) by blast
  have cv: "conforms_all ts vs" using ini_printable_conforms assms(2) t by blast
  let ?H = "headers_text keys (ini_texts L ts vs) (header_indices ts)"
  let ?ws = "if line_indices ts = [] then [] else [nl]"
  define s where "s = ini_text L t v"
  have s: "s = [] @ lines_text keys (map2 (ini_value_text L) ts vs) (line_indices ts) @ ?ws @ ?H"
    by (simp add: s_def t)
  have vs: "put vs (header_indices ts) (put vs (line_indices ts) xs) = vs"
    by (rule put_all) (use cv xs(2) indices [of ts] in \<open>auto simp: conforms_all_iff\<close>)
  have sec: "j < length keys \<and> plain_header (keys ! j) \<and>
      section_echoes (\<lambda>s. read_section L s (ts ! j)) (ts ! j) (ini_texts L ts vs ! j) (vs ! j) \<and>
      map (read_section L s) ts ! j = read_section L s (ts ! j)" if "j \<in> set (header_indices ts)" for j
  proof -
    have "j < length ts" using that by (simp add: header_indices_def)
    then show ?thesis using h [OF that] read_section_text [OF assms(1)] t(3)
      by (simp add: lines_printable_def ini_texts_nth)
  qed
  have tail: "and_then (Some (left ?H, None, VClass (put vs (line_indices ts) xs))) id (\<lambda>sz x.
      headers_loop (nat (- sz)) keys (map (read_section L s) ts) s sz x) = Some (0, None, VClass vs)"
  proof (cases "header_indices ts = []")
    case True
    then show ?thesis using vs by (simp add: headers_text_def)
  next
    case False
    then have neg: "left ?H < 0" by (cases "header_indices ts") (simp_all add: headers_text_def)
    have up: "conforms_all ts (put vs (line_indices ts) xs)"
      using cv xs(2) put_nth [of vs "line_indices ts" xs] by (simp add: conforms_all_iff)
    have "headers_loop (nat (- left ?H)) keys (map (read_section L s) ts) s (left ?H) (VClass (put vs (line_indices ts) xs)) =
        Some (0, None, VClass (put vs (header_indices ts) (put vs (line_indices ts) xs)))"
      by (rule headers_echo [where sec = "\<lambda>s j. read_section L s (ts ! j)", OF _ _ _ _ cv sec up False])
        (use t(3) headers_length s suffix_split in \<open>auto simp: lines_printable_def suffix_def\<close>)
    then show ?thesis using neg vs by simp
  qed
  have "read_all L keys ts s (left s) (VClass xs) = Some (0, None, VClass vs)"
  proof (cases s)
    case Nil
    then have "line_indices ts = []" "header_indices ts = []"
      using s by (auto split: if_splits simp: headers_text_def)
    then show ?thesis using Nil vs by (simp add: read_all_def)
  next
    case (Cons c s')
    have "c \<noteq> CHR ''=''"
    proof (cases "line_indices ts")
      case Nil
      then have "s = ?H" using s by (simp add: lines_text_def)
      then have "next_section (c # s')" using Cons next_headers [of keys "ini_texts L ts vs" "header_indices ts"] by simp
      then show ?thesis by (simp add: next_section_def)
    next
      case li: (Cons i "is")
      then have "plain_key (keys ! i)" using lines_printableD(2) [OF assms(1) t(3), of i] by simp
      moreover have "\<exists>r. s = keys ! i @ r" using s li by (auto simp: lines_text_def line_text_def)
      ultimately show ?thesis using Cons by (cases "keys ! i") (auto simp: plain_key_def)
    qed
    moreover have "byte_at s (left s) = Some c" using byte_at_suffix [of c s' s] Cons by simp
    moreover have "read_key_values keys (map (ini_read_value L s) ts) s (left s) (VClass xs) =
        Some (left ?H, None, VClass (put vs (line_indices ts) xs))"
      using read_lines [OF assms(1) t(3) cv xs(2) _ _ next_headers, of "[]" ?ws keys "ini_texts L ts vs" "header_indices ts" s,
          folded s] Cons by simp
    ultimately show ?thesis using Cons tail by (simp add: read_all_def)
  qed
  then have "read_all L keys ts s (- int (length s)) (VClass xs) = Some (0, None, VClass vs)" by (simp add: left_def)
  then show ?thesis by (simp add: structure_ini_def t xs(1) s_def)
qed

section \<open>Properties\<close>

text \<open>The reader of INI texts leaves its text in three cases, whatever the types are: when the
  text ends with an equals sign (the byte behind the end is compared with a space), when it ends
  with a string that no newline follows (the error code of the failed search is used as the end of
  the string), and when a line begins with a space and an equals sign (the key ends before it
  starts).\<close>
theorem ini_overread:
  fixes L :: "('n::zero, 'z) lib_scheme"
  assumes "plain_key key" "one_line str"
  shows "structure_ini L (TClass [key] [t]) (key @ '' ='') x = None \<and>
    structure_ini L (TClass [key] [TString]) (key @ '' = '' @ str) (VClass [VString old]) = None \<and>
    structure_ini L (TClass keys ts) ('' = '' @ r) y = None"
proof (intro conjI)
  obtain c k where k: "key = c # k" "c \<noteq> CHR ''=''" using assms(1) by (cases key) (auto simp: plain_key_def)
  have first: "byte_at (key @ r) (left (key @ r)) = Some c" for r
    using byte_at_suffix [of c "k @ r" "key @ r"] k by simp
  let ?s = "key @ CHR '' '' # CHR ''='' # []"
  have "byte_at ?s (left (CHR ''='' # []) + 1) = None" by (simp add: byte_at_def)
  then have "read_all L [key] [t] ?s (left ?s) x = None"
    using key_start(1) [OF assms(1), of "[]" "[]" ?s, where x = x] key_start(2,3) [OF assms(1), of "[]" "[]" ?s] first [of "'' =''"] k
    by (simp add: read_all_def read_key_values_def key_value_def and_then_def del: key_values_loop.simps)
  then show "structure_ini L (TClass [key] [t]) (key @ '' ='') x = None"
    by (simp add: structure_ini_def left_def)
  let ?u = "key @ CHR '' '' # CHR ''='' # CHR '' '' # str"
  have u: "suffix (CHR ''='' # CHR '' '' # str) ?u" "suffix (CHR '' '' # str) ?u" by (simp_all add: suffix_def)
  obtain e where "skip_to_line ?u (left (CHR '' '' # str)) = Some (1, e, ())"
    using skip_to_line_missed [OF assms(2) u(2)] by blast
  then have "ini_read_str ?u (left (CHR ''='' # CHR '' '' # str)) (VString old) = (None :: 'n val parsed)"
    using byte_at_suffix [OF u(1)] by (simp add: ini_read_str_def view_def)
  then have "read_all L [key] [TString] ?u (left ?u) (VClass [VString old]) = None"
    using key_start(1) [OF assms(1), of "[]" "CHR '' '' # str" ?u, where x = "VClass [VString old] :: 'n val"]
      key_start(2,3) [OF assms(1), of "[]" "CHR '' '' # str" ?u] first [of "'' = '' @ str"] k byte_at_suffix [OF u(2)]
    by (simp add: read_all_def read_key_values_def key_value_def and_then_def table_find_def member_call_def
        del: key_values_loop.simps)
  then show "structure_ini L (TClass [key] [TString]) (key @ '' = '' @ str) (VClass [VString old]) = None"
    by (simp add: structure_ini_def left_def)
  let ?w = "CHR '' '' # CHR ''='' # CHR '' '' # r"
  have w: "suffix (CHR ''='' # CHR '' '' # r) ?w" "suffix (CHR '' '' # r) ?w" by (simp_all add: suffix_def)
  have "ini_skip_whitespace ?w (left ('' '' @ CHR ''='' # CHR '' '' # r)) = Some (left (CHR ''='' # CHR '' '' # r), None, ())"
    by (rule ini_skip_blank) (simp_all add: visible_def)
  moreover have "byte_at ?w (left (CHR ''='' # CHR '' '' # r) - 1) = Some (CHR '' '')"
    using byte_at_suffix [of "CHR '' ''" "CHR ''='' # CHR '' '' # r" ?w] by (simp add: left_def)
  moreover have "view ?w (left (CHR ''='' # CHR '' '' # r)) (left (CHR ''='' # CHR '' '' # r) - 1) = None"
    by (simp add: view_def)
  ultimately have "read_all L keys ts ?w (left ?w) y = None"
    using byte_at_suffix [OF w(1)] byte_at_suffix [OF w(2)] byte_at_suffix [of "CHR '' ''" "CHR ''='' # CHR '' '' # r" ?w]
    by (simp add: read_all_def read_key_values_def key_value_def and_then_def)
  then show "structure_ini L (TClass keys ts) ('' = '' @ r) y = None"
    by (simp add: structure_ini_def left_def)
qed

theorem ini_overread_witness:
  "structure_ini dec_lib (TClass [''a''] [TBool]) (''a'' @ '' ='') (VClass [VBool True]) = None \<and>
   structure_ini dec_lib (TClass [''a''] [TString]) (''a'' @ '' = '' @ ''b'') (VClass [VString []]) = None \<and>
   structure_ini dec_lib (TClass [] []) ('' = '' @ ''1'') (VClass []) = None"
  by (rule ini_overread) (simp_all add: plain_key_def)

end
