(* ===== verification/Ini_Serializer.thy ===== *)
theory Ini_Serializer
  imports Ini_Text Text_Writer
begin

text \<open>
  The writer of INI texts (\<open>core/IniSerializer.hpp\<close>) into a buffer of fixed size, and the round trip
  with the reader.  The members of a class that are not classes are written first, a line each and
  an empty line behind them; then each member that is a class is written behind its header.  A
  class inside such a member is written like that too, but the reader looks every header up in the
  outermost class; the round trip is for one level of headers.
\<close>

section \<open>The writer\<close>

definition ini_write_value :: "('n, 'z) lib_scheme \<Rightarrow> ty \<Rightarrow> 'n val \<Rightarrow> string \<Rightarrow> ssize \<Rightarrow> written" where
  "ini_write_value L t x b sz =
     (case (t, x) of
        (TEnum keys values, VEnum v) \<Rightarrow> do {
          key \<leftarrow> value_get_key keys values v;
          and_write (write_view L key b sz) (write_char nl) }
      | (TString, VString str) \<Rightarrow> and_write (write_view L str b sz) (write_char nl)
      | (TNum k, VNum n) \<Rightarrow>
          (case fio_to_chars L k n of None \<Rightarrow> Some (b, - sz)
           | Some _ \<Rightarrow> do { (b, sz) \<leftarrow> write_to_chars L k n b sz; write_char nl b sz })
      | _ \<Rightarrow> None)"

definition write_key_value :: "('n, 'z) lib_scheme \<Rightarrow> string \<Rightarrow> ty \<Rightarrow> 'n val \<Rightarrow> string \<Rightarrow> ssize \<Rightarrow> written" where
  "write_key_value L name t x b sz =
     (case (t, x) of
        (TBool, VBool v) \<Rightarrow>
          and_write (write_view L name b sz) (write_view L (if v then '' = true'' @ [nl] else '' = false'' @ [nl]))
      | _ \<Rightarrow>
          and_write (write_view L name b sz) (\<lambda>b sz.
          and_write (write_view L '' = '' b sz) (ini_write_value L t x)))"

definition try_write_key_value :: "('n, 'z) lib_scheme \<Rightarrow> string \<Rightarrow> ty \<Rightarrow> 'n val \<Rightarrow> string \<Rightarrow> ssize \<Rightarrow> written" where
  "try_write_key_value L key t x b sz = (if has_header t then Some (b, sz) else write_key_value L key t x b sz)"

fun write_lines ::
    "('n, 'z) lib_scheme \<Rightarrow> string list \<Rightarrow> ty list \<Rightarrow> 'n val list \<Rightarrow> string \<Rightarrow> ssize \<Rightarrow> written" where
  "write_lines L (key # keys) (t # ts) (y # ys) b sz =
     and_write (try_write_key_value L key t y b sz) (write_lines L keys ts ys)"
| "write_lines L [] [] [] b sz = Some (b, sz)"
| "write_lines L _ _ _ b sz = None"

type_synonym 'n section_writer = "'n val \<Rightarrow> string \<Rightarrow> ssize \<Rightarrow> written"

definition write_header :: "('n, 'z) lib_scheme \<Rightarrow> string \<Rightarrow> 'n section_writer \<Rightarrow> 'n section_writer" where
  "write_header L name all x b sz =
     and_write (write_char (CHR ''['') b sz) (\<lambda>b sz.
     and_write (write_view L name b sz) (\<lambda>b sz.
     and_write (write_view L ('']'' @ [nl]) b sz) (all x)))"

definition try_write_header :: "('n, 'z) lib_scheme \<Rightarrow> string \<Rightarrow> ty \<Rightarrow> 'n section_writer \<Rightarrow> 'n section_writer" where
  "try_write_header L key t all x b sz = (if has_header t then write_header L key all x b sz else Some (b, sz))"

fun write_headers ::
    "('n, 'z) lib_scheme \<Rightarrow> string list \<Rightarrow> ty list \<Rightarrow> 'n section_writer list \<Rightarrow> 'n val list \<Rightarrow> string \<Rightarrow> ssize \<Rightarrow> written"
where
  "write_headers L (key # keys) (t # ts) (all # alls) (y # ys) b sz =
     and_write (try_write_header L key t all y b sz) (write_headers L keys ts alls ys)"
| "write_headers L [] [] [] [] b sz = Some (b, sz)"
| "write_headers L _ _ _ _ b sz = None"

text \<open>When there is no room for the empty line, zero is returned (\<open>return false\<close>).\<close>

definition write_class_all ::
    "('n, 'z) lib_scheme \<Rightarrow> string list \<Rightarrow> ty list \<Rightarrow> 'n section_writer list \<Rightarrow> 'n section_writer" where
  "write_class_all L keys ts alls x b sz =
     (case x of VClass ys \<Rightarrow>
        and_write
          (if list_ex (\<lambda>t. \<not> has_header t) ts then
             and_write (write_lines L keys ts ys b sz) (\<lambda>b sz. do {
               (b, sz) \<leftarrow> write_char nl b sz;
               if sz \<ge> 0 then Some (b, 0) else Some (b, sz) })
           else Some (b, sz)) (\<lambda>b sz.
        if list_ex has_header ts then write_headers L keys ts alls ys b sz else Some (b, sz))
      | _ \<Rightarrow> None)"

primrec write_all :: "('n, 'z) lib_scheme \<Rightarrow> ty \<Rightarrow> 'n section_writer" where
  "write_all L TBool = (\<lambda>x b sz. None)"
| "write_all L (TNum k) = (\<lambda>x b sz. None)"
| "write_all L (TEnum keys values) = (\<lambda>x b sz. None)"
| "write_all L TString = (\<lambda>x b sz. None)"
| "write_all L (TClass keys ts) = write_class_all L keys ts (map (write_all L) ts)"
| "write_all L (TArray t) = (\<lambda>x b sz. None)"
| "write_all L (TTuple ts) = (\<lambda>x b sz. None)"
| "write_all L (TVector t) = (\<lambda>x b sz. None)"
| "write_all L (TOptional t) = (\<lambda>x b sz. None)"

definition serialize_ini :: "('n, 'z) lib_scheme \<Rightarrow> ty \<Rightarrow> string \<Rightarrow> 'n val \<Rightarrow> (string \<times> ssize) option" where
  "serialize_ini L t b x = do {
     (b', sz) \<leftarrow> write_all L t x b (- int (length b));
     if sz < 0 then Some (b', sz - (- int (length b))) else Some (b', 0) }"

section \<open>A writer emits the text of its class\<close>

lemma emits_ini_value:
  assumes "writes_ok L" "line_printable L t v" "t \<noteq> TBool"
  shows "emits (ini_write_value L t v) (ini_value_text L t v @ [nl])"
  using assms(2)
proof (cases rule: line_printable.cases [of "(L, t, v)"])
  case (2 L' k n)
  then obtain num where t: "fio_to_chars L k n = Some num" using assms(2) by auto
  show ?thesis using emits_bind [OF emits_to_chars [OF t] emits_char] 2 t by (simp add: ini_write_value_def [abs_def])
next
  case (3 L' keys vals e)
  then have "distinct keys" "length keys = length vals" "e \<in> set vals" using assms(2) by simp_all
  then obtain key where "value_get_key keys vals e = Some key" by (rule enum_key)
  then show ?thesis using emits_and_write [OF emits_view [OF assms(1)] emits_char] 3 by (simp add: ini_write_value_def [abs_def])
next
  case (4 L' str)
  then show ?thesis using emits_and_write [OF emits_view [OF assms(1)] emits_char] by (simp add: ini_write_value_def [abs_def])
qed (use assms in auto)

lemma emits_key_value:
  assumes "writes_ok L" "line_printable L t v"
  shows "emits (write_key_value L k t v) (line_text k (ini_value_text L t v))"
proof (cases "t = TBool")
  case True
  then obtain b where v: "v = VBool b" using assms(2) by (cases v) auto
  have "line_text k (ini_value_text L t v) = k @ (if b then '' = true'' @ [nl] else '' = false'' @ [nl])"
    using True v by (simp add: line_text_def)
  then show ?thesis using emits_and_write [OF emits_view [OF assms(1)] emits_view [OF assms(1)]] True v
    by (simp add: write_key_value_def [abs_def] del: append_Cons append_Nil)
next
  case False
  have t: "line_text k (ini_value_text L t v) = k @ '' = '' @ ini_value_text L t v @ [nl]" by (simp add: line_text_def)
  have w: "write_key_value L k t v = (\<lambda>b sz. and_write (write_view L k b sz) (\<lambda>b sz.
          and_write (write_view L '' = '' b sz) (ini_write_value L t v)))"
    using False by (cases t) (simp_all add: write_key_value_def [abs_def])
  show ?thesis
    unfolding t w by (intro emits_and_write emits_view emits_ini_value assms False)
qed

lemma filter_upt_Suc: "filter P [0..<Suc n] = (if P 0 then [0] else []) @ map Suc (filter (\<lambda>i. P (Suc i)) [0..<n])"
proof -
  have "[0..<Suc n] = 0 # map Suc [0..<n]" by (simp add: upt_conv_Cons map_Suc_upt del: upt_Suc)
  then show ?thesis by (simp add: filter_map comp_def)
qed

lemma line_indices_Cons: "line_indices (t # ts) = (if has_header t then [] else [0]) @ map Suc (line_indices ts)"
  unfolding line_indices_def by (simp add: filter_upt_Suc del: upt_Suc)

lemma header_indices_Cons: "header_indices (t # ts) = (if has_header t then [0] else []) @ map Suc (header_indices ts)"
  unfolding header_indices_def by (simp add: filter_upt_Suc del: upt_Suc)

lemma lines_text_Cons:
  "lines_text (k # keys) (txt # texts) (line_indices (t # ts)) =
     (if has_header t then [] else line_text k txt) @ lines_text keys texts (line_indices ts)"
  by (simp add: lines_text_def line_indices_Cons comp_def)

lemma headers_text_Cons:
  "headers_text (k # keys) (body # bodies) (header_indices (t # ts)) =
     (if has_header t then CHR ''['' # k @ CHR '']'' # nl # body else []) @ headers_text keys bodies (header_indices ts)"
  by (simp add: headers_text_def header_indices_Cons comp_def)

lemma emits_lines:
  assumes "writes_ok L" "length keys = length ts" "length ts = length vs"
    and "\<And>i. i \<in> set (line_indices ts) \<Longrightarrow> line_printable L (ts ! i) (vs ! i)"
  shows "emits (write_lines L keys ts vs) (lines_text keys (map2 (ini_value_text L) ts vs) (line_indices ts))"
  using assms(2-)
proof (induction keys ts vs rule: list_induct3)
  case Nil
  then show ?case using emits_nothing by (simp add: lines_text_def line_indices_def)
next
  case (Cons k keys t ts v vs)
  have "emits (write_lines L keys ts vs) (lines_text keys (map2 (ini_value_text L) ts vs) (line_indices ts))"
  proof (rule Cons.IH)
    fix i
    assume "i \<in> set (line_indices ts)"
    then show "line_printable L (ts ! i) (vs ! i)" using Cons.prems [of "Suc i"] by (simp add: line_indices_Cons)
  qed
  moreover have "emits (try_write_key_value L k t v) (if has_header t then [] else line_text k (ini_value_text L t v))"
    using emits_nothing emits_key_value [OF assms(1)] Cons.prems [of 0]
    by (simp add: try_write_key_value_def [abs_def] line_indices_Cons)
  ultimately show ?case
    using emits_and_write by (simp add: lines_text_Cons write_lines.simps(1) [abs_def])
qed

lemma emits_headers:
  assumes "writes_ok L" "length keys = length ts" "length ts = length vs" "length vs = length alls"
    and "\<And>i. i \<in> set (header_indices ts) \<Longrightarrow> emits ((alls ! i) (vs ! i)) (ini_text L (ts ! i) (vs ! i))"
  shows "emits (write_headers L keys ts alls vs) (headers_text keys (ini_texts L ts vs) (header_indices ts))"
  using assms(2-)
proof (induction keys ts vs alls rule: list_induct4)
  case Nil
  then show ?case using emits_nothing by (simp add: headers_text_def header_indices_def)
next
  case (Cons k keys t ts v vs all alls)
  have 1: "emits (write_headers L keys ts alls vs) (headers_text keys (ini_texts L ts vs) (header_indices ts))"
  proof (rule Cons.IH)
    fix i
    assume "i \<in> set (header_indices ts)"
    then show "emits ((alls ! i) (vs ! i)) (ini_text L (ts ! i) (vs ! i))"
      using Cons.prems [of "Suc i"] by (simp add: header_indices_Cons)
  qed
  have 2: "emits (write_header L k all v) (CHR ''['' # k @ CHR '']'' # nl # ini_text L t v)" if "has_header t"
  proof -
    have "emits (all v) (ini_text L t v)" using Cons.prems [of 0] that by (simp add: header_indices_Cons)
    then have "emits (write_header L k all v) ([CHR ''[''] @ k @ ('']'' @ [nl]) @ ini_text L t v)"
      unfolding write_header_def [abs_def] by (intro emits_and_write emits_char emits_view assms(1))
    then show ?thesis by simp
  qed
  have "emits (try_write_header L k t all v) (if has_header t then CHR ''['' # k @ CHR '']'' # nl # ini_text L t v else [])"
    using emits_nothing 2 by (simp add: try_write_header_def [abs_def])
  then show ?case
    using emits_and_write [OF _ 1] by (simp add: headers_text_Cons write_headers.simps(1) [abs_def])
qed

lemma list_ex_indices:
  "list_ex (\<lambda>t. \<not> has_header t) ts = (line_indices ts \<noteq> [])" "list_ex has_header ts = (header_indices ts \<noteq> [])"
  by (auto simp: list_ex_length line_indices_def header_indices_def filter_empty_conv)

lemma emits_class_all:
  assumes "writes_ok L" "length keys = length ts" "length ts = length vs" "length vs = length alls"
    and "\<And>i. i \<in> set (line_indices ts) \<Longrightarrow> line_printable L (ts ! i) (vs ! i)"
    and "\<And>i. i \<in> set (header_indices ts) \<Longrightarrow> emits ((alls ! i) (vs ! i)) (ini_text L (ts ! i) (vs ! i))"
  shows "emits (write_class_all L keys ts alls (VClass vs)) (ini_text L (TClass keys ts) (VClass vs))"
proof -
  let ?lines = "lines_text keys (map2 (ini_value_text L) ts vs) (line_indices ts)"
  have "emits (\<lambda>b sz. do { (b, sz) \<leftarrow> write_char nl b sz; if sz \<ge> 0 then Some (b, 0) else Some (b, sz) }) ([nl] @ [])"
    by (rule emits_bind [OF emits_char]) (simp add: emits_def)
  then have 1: "emits (\<lambda>b sz. if list_ex (\<lambda>t. \<not> has_header t) ts then
             and_write (write_lines L keys ts vs b sz) (\<lambda>b sz. do {
               (b, sz) \<leftarrow> write_char nl b sz;
               if sz \<ge> 0 then Some (b, 0) else Some (b, sz) })
           else Some (b, sz)) (?lines @ (if line_indices ts = [] then [] else [nl]))"
    using emits_and_write [OF emits_lines [OF assms(1-3,5)]] emits_nothing
    by (cases "line_indices ts = []") (simp_all add: list_ex_indices lines_text_def)
  have 2: "emits (\<lambda>b sz. if list_ex has_header ts then write_headers L keys ts alls vs b sz else Some (b, sz))
      (headers_text keys (ini_texts L ts vs) (header_indices ts))"
    using emits_headers [OF assms(1-4,6)] emits_nothing
    by (cases "header_indices ts = []") (simp_all add: list_ex_indices headers_text_def)
  show ?thesis
    using emits_and_write [OF 1 2] by (simp add: write_class_all_def [abs_def])
qed

lemma emits_section:
  assumes "writes_ok L" "section_printable L t v"
  shows "emits (write_all L t v) (ini_text L t v)"
proof -
  obtain keys ts vs where t: "t = TClass keys ts" "v = VClass vs" "header_indices ts = []" "lines_printable L keys ts vs"
    using assms(2) by (cases rule: section_printable.cases [of "(L, t, v)"]) auto
  have "emits (write_class_all L keys ts (map (write_all L) ts) (VClass vs)) (ini_text L (TClass keys ts) (VClass vs))"
    by (rule emits_class_all [OF assms(1)]) (use t(3,4) in \<open>auto simp: lines_printable_def list_all_iff\<close>)
  then show ?thesis by (simp add: t)
qed

lemma emits_ini:
  assumes "writes_ok L" "ini_printable L t v"
  shows "emits (write_all L t v) (ini_text L t v)"
proof -
  obtain keys ts vs where t: "t = TClass keys ts" "v = VClass vs" "lines_printable L keys ts vs"
    and h: "\<And>j. j \<in> set (header_indices ts) \<Longrightarrow> section_printable L (ts ! j) (vs ! j)"
    using assms(2) by (cases rule: ini_printable.cases [of "(L, t, v)"]) (auto simp: list_all_iff)
  have "emits (write_class_all L keys ts (map (write_all L) ts) (VClass vs)) (ini_text L (TClass keys ts) (VClass vs))"
    by (rule emits_class_all [OF assms(1)])
      (use t(3) emits_section [OF assms(1) h] in \<open>auto simp: lines_printable_def list_all_iff header_indices_def\<close>)
  then show ?thesis by (simp add: t)
qed

section \<open>Properties\<close>

text \<open>C10: A configuration that is written to a large enough buffer and read back is the same
  configuration, whatever object is given to the reader; the number of bytes the writer returns is
  that of the text.  The configuration is a class of booleans, numbers, enumerators and strings, and
  of classes of these, with keys and strings that need no escaping.\<close>
theorem ini_round_trip:
  fixes L :: "('n::zero, 'z) lib_scheme"
  assumes "numbers_ok L" "writes_ok L" "ini_printable L t v" "length (ini_text L t v) < length b" "conforms t x"
  shows "case serialize_ini L t b v of None \<Rightarrow> False
    | Some (b', n) \<Rightarrow> n = int (length (ini_text L t v)) \<and> structure_ini L t (take (nat n) b') x = Some (True, v, None)"
proof -
  let ?t = "ini_text L t v"
  define old r where o: "old = take (length ?t) b" "r = drop (length ?t) b"
  have b: "b = [] @ old @ r" "length old = length ?t" "r \<noteq> []" using assms(4) o by simp_all
  have "write_all L t v ([] @ old @ r) (left (old @ r)) = Some ([] @ ?t @ r, left r)"
    by (rule emitsD [OF emits_ini [OF assms(2,3)] b(2,3)])
  moreover have "left (old @ r) = - int (length b)" using b(1) by (simp add: left_def)
  ultimately have "serialize_ini L t b v = Some (?t @ r, int (length ?t))"
    using b by (simp add: serialize_ini_def left_def)
  then show ?thesis using read_ini_text [OF assms(1,3,5)] by simp
qed

theorem ini_round_trip_witness:
  "let t = TClass [''width'', ''audio''] [TNum 0, TClass [''on'', ''driver''] [TBool, TString]];
       v = VClass [VNum 720, VClass [VBool True, VString ''al sa'']];
       b = replicate 100 (CHR ''x'');
       x = VClass [VNum 0, VClass [VBool False, VString []]]
   in numbers_ok dec_lib \<and> writes_ok dec_lib \<and> ini_printable dec_lib t v \<and> conforms t x \<and>
     (case serialize_ini dec_lib t b v of None \<Rightarrow> False
      | Some (b', n) \<Rightarrow> n = int (length (ini_text dec_lib t v)) \<and> structure_ini dec_lib t (take (nat n) b') x = Some (True, v, None))"
proof -
  let ?t = "TClass [''width'', ''audio''] [TNum 0, TClass [''on'', ''driver''] [TBool, TString]]"
    and ?v = "VClass [VNum 720, VClass [VBool True, VString ''al sa'']] :: int val"
    and ?x = "VClass [VNum 0, VClass [VBool False, VString []]] :: int val"
  have p: "ini_printable dec_lib ?t ?v"
    by (simp add: lines_printable_def plain_key_def plain_header_def dec_lib_def header_indices_Cons line_indices_Cons
        header_indices_def line_indices_def)
  have l: "length (ini_text dec_lib ?t ?v) < length (replicate 100 (CHR ''x''))" by code_simp
  have "case serialize_ini dec_lib ?t (replicate 100 (CHR ''x'')) ?v of None \<Rightarrow> False
      | Some (b', n) \<Rightarrow> n = int (length (ini_text dec_lib ?t ?v)) \<and> structure_ini dec_lib ?t (take (nat n) b') ?x = Some (True, ?v, None)"
    by (rule ini_round_trip [OF dec_lib_numbers_ok dec_lib_writes_ok p l]) simp
  then show ?thesis unfolding Let_def using dec_lib_numbers_ok dec_lib_writes_ok p by simp
qed

end
