(* ===== verification/Text_Error.thy ===== *)
theory Text_Error
  imports Serialization
begin

text \<open>
  The position that is printed with an error in a text (\<open>core/error.cpp\<close>): the row and the column
  of the byte that the error names, found by scanning the text before it.
\<close>

section \<open>Rows and columns\<close>

text \<open>The two nested loops of \<open>find_row_and_col\<close>; \<open>m\<close> counts newlines and \<open>n\<close> is the size at the last
  one.\<close>

function row_col_loop :: "string \<Rightarrow> ssize \<Rightarrow> ssize \<Rightarrow> ssize \<Rightarrow> (ssize \<times> ssize) option" where
  "row_col_loop s sz m n =
     (if sz + 1 \<ge> 0 then Some (m, n)
      else do {
        c \<leftarrow> byte_at s (sz + 1);
        if c \<noteq> CHR 0x0A then row_col_loop s (sz + 1) m n
        else row_col_loop s (sz + 1) (m + 1) (sz + 1) })"
  by pat_completeness auto
termination by (relation "measure (\<lambda>(s, sz, m, n). nat (- sz))") auto

declare row_col_loop.simps [simp del]

definition find_row_and_col :: "ssize \<Rightarrow> string \<Rightarrow> (ssize \<times> ssize) option" where
  "find_row_and_col sz s = do {
     (m, n) \<leftarrow> (if sz < 0 then do {
         c \<leftarrow> byte_at s sz;
         if c \<noteq> CHR 0x0A then row_col_loop s sz 0 (sz - 1) else Some (0, sz - 1) }
       else Some (0, sz - 1));
     Some (m + 1, 0 - n) }"

text \<open>The row and column that \<open>report_text_error\<close> prints: the text before the error is scanned.\<close>

definition error_row_col :: "string \<Rightarrow> text_error \<Rightarrow> (ssize \<times> ssize) option" where
  "error_row_col s e = do {
     before \<leftarrow> view s (- int (length s)) (te_where e);
     find_row_and_col (- int (length s) - te_where e) before }"

section \<open>What they are\<close>

definition row_of :: "string \<Rightarrow> int" where
  "row_of before = 1 + int (length (filter (\<lambda>c. c = CHR 0x0A) before))"

definition col_of :: "string \<Rightarrow> int" where
  "col_of before = 1 + int (length (takeWhile (\<lambda>c. c \<noteq> CHR 0x0A) (rev before)))"

lemma takeWhile_stop: "\<not> P d \<Longrightarrow> takeWhile P (xs @ d # ys) = takeWhile P xs"
  by (induction xs) simp_all

lemma row_col_loop_eq:
  assumes "suffix (c # r) s" "CHR 0x0A \<notin> set mid"
  shows "row_col_loop s (left (c # r)) m (left r - int (length mid) - 1) =
    Some (m + int (length (filter (\<lambda>c. c = CHR 0x0A) r)),
      - 1 - int (length (takeWhile (\<lambda>c. c \<noteq> CHR 0x0A) (rev (mid @ r)))))"
  using assms
proof (induction r arbitrary: c m mid)
  case Nil
  have "takeWhile (\<lambda>c. c \<noteq> CHR 0x0A) (rev mid) = rev mid" using Nil(2) by (auto simp: takeWhile_eq_all_conv)
  then have "length (takeWhile (\<lambda>c. c \<noteq> CHR 0x0A) (rev mid)) = length mid" by (simp only: length_rev)
  then show ?case by (subst row_col_loop.simps) simp
next
  case (Cons d r)
  have s: "suffix (d # r) s" using Cons.prems(1) suffix_ConsD by fast
  show ?case
  proof (cases "d = CHR 0x0A")
    case True
    have "takeWhile (\<lambda>c. c \<noteq> CHR 0x0A) (rev (mid @ d # r)) = takeWhile (\<lambda>c. c \<noteq> CHR 0x0A) (rev r)"
      using True by (simp add: takeWhile_stop)
    moreover have "left r - int (length ([] :: string)) - 1 = left (d # r)" by (simp add: left_def)
    note Cons.IH [OF s, of "[]" "m + 1", unfolded this]
    ultimately show ?thesis
      using True byte_at_suffix [OF s] by (subst row_col_loop.simps) simp
  next
    case False
    have "left r - int (length (mid @ [d])) - 1 = left (d # r) - int (length mid) - 1" by (simp add: left_def)
    note Cons.IH [OF s, of "mid @ [d]" m, unfolded this]
    then show ?thesis
      using Cons.prems(2) False byte_at_suffix [OF s] by (subst row_col_loop.simps) simp
  qed
qed

text \<open>C40: The row and column reported with an error are those of the byte it names, the rows counted
  by newlines and the columns from the last of them, both from one, unless the text begins with a
  newline: then the row is always one, and the column counts from the start of the text.\<close>
theorem error_position:
  assumes "- int (length s) \<le> te_where e" "te_where e \<le> 0"
  shows "error_row_col s e =
    (let before = take (nat (int (length s) + te_where e)) s in
     if before \<noteq> [] \<and> hd before = CHR 0x0A then Some (1, int (length before) + 1)
     else Some (row_of before, col_of before))"
proof -
  define before where "before = take (nat (int (length s) + te_where e)) s"
  have len: "- int (length s) - te_where e = left before" using assms by (simp add: before_def left_def)
  have v: "view s (- int (length s)) (te_where e) = Some before"
    using assms by (simp add: view_def before_def add.commute)
  have "find_row_and_col (left before) before =
      (if before \<noteq> [] \<and> hd before = CHR 0x0A then Some (1, int (length before) + 1) else Some (row_of before, col_of before))"
  proof (cases before)
    case Nil
    then show ?thesis by (simp add: find_row_and_col_def row_of_def col_of_def)
  next
    case (Cons c r)
    have b: "byte_at before (left before) = Some c" using byte_at_suffix [of c r before] Cons by simp
    show ?thesis
    proof (cases "c = CHR 0x0A")
      case True
      then show ?thesis using b Cons by (simp add: find_row_and_col_def) (simp add: left_def)
    next
      case False
      have "left before - 1 = left r - int (length [c]) - 1" by (simp add: left_def Cons)
      from row_col_loop_eq [of c r before "[c]" 0, folded this] have "row_col_loop before (left before) 0 (left before - 1) =
          Some (int (length (filter (\<lambda>c. c = CHR 0x0A) r)), - 1 - int (length (takeWhile (\<lambda>c. c \<noteq> CHR 0x0A) (rev ([c] @ r)))))"
        using Cons False by simp
      then show ?thesis using b Cons False by (simp add: find_row_and_col_def row_of_def col_of_def)
    qed
  qed
  then show ?thesis by (simp add: error_row_col_def v len before_def [symmetric])
qed

theorem error_position_witness:
  "let s = ''ab'' @ [CHR 0x0A] @ ''cd''; e = \<lparr>te_where = - 1, te_message = [], te_type = None\<rparr> in
   error_row_col s e =
    (let before = take (nat (int (length s) + te_where e)) s in
     if before \<noteq> [] \<and> hd before = CHR 0x0A then Some (1, int (length before) + 1)
     else Some (row_of before, col_of before))"
  unfolding Let_def [of "''ab'' @ [CHR 0x0A] @ ''cd''"] Let_def [of "\<lparr>te_where = - 1, te_message = [], te_type = None\<rparr>"]
  by (rule error_position) simp_all

end
