(* ===== verification/Hid_Input.thy ===== *)
theory Hid_Input
  imports Prelude
begin

text \<open>
  The 8-byte message of an input device, \<^verbatim>\<open>engine/hid/input.hpp\<close>: a union of five structures whose first member is
  the state that says which of them it is.  Axes and buttons are the numbers of their enumerations.  The player, the
  number of a device, is a signed byte; the coordinates of a cursor are bit-fields of 24 bits, or three bytes each
  where the compiler packs bit-fields differently.
\<close>

section \<open>The union\<close>

datatype state = AXIS_TILT | AXIS_TRIGGER | BUTTON_DOWN | BUTTON_UP | CURSOR_MOVE | KEY_CHARACTER

definition state_count :: nat where "state_count = 6"
definition max_player :: int where "max_player = 127"

type_synonym axis = nat
type_synonym button = nat

definition MOUSE_MOVE :: axis where "MOUSE_MOVE = 1"
definition axis_count :: nat where "axis_count = 18"
definition button_count :: nat where "button_count = 152"

text \<open>The structures, each with the player; the state of a button is down or up.\<close>

datatype input =
    AxisTiltValue u8 axis u32
  | AxisTriggerValue u8 axis u32
  | ButtonState bool u8 button
  | CursorMove u8 "24 word" "24 word"
  | KeyCharacter u8 button u32

definition AxisTiltInput :: "int \<Rightarrow> axis \<Rightarrow> int \<Rightarrow> input" where
  "AxisTiltInput player code value = AxisTiltValue (word_of_int player) code (word_of_int value)"

definition AxisTriggerInput :: "int \<Rightarrow> axis \<Rightarrow> nat \<Rightarrow> input" where
  "AxisTriggerInput player code value = AxisTriggerValue (word_of_int player) code (word_of_nat value)"

definition ButtonStateInput :: "int \<Rightarrow> button \<Rightarrow> bool \<Rightarrow> input" where
  "ButtonStateInput player code down = ButtonState down (word_of_int player) code"

definition KeyCharacterInput :: "int \<Rightarrow> button \<Rightarrow> u32 \<Rightarrow> input" where
  "KeyCharacterInput player code unicode = KeyCharacter (word_of_int player) code unicode"

definition CursorMoveInput :: "int \<Rightarrow> int \<Rightarrow> int \<Rightarrow> input" where
  "CursorMoveInput player x y = CursorMove (word_of_int player) (word_of_int x) (word_of_int y)"

section \<open>Reading\<close>

text \<open>A member of another structure than that of the state is \<open>None\<close>: the code is marked as unreachable.\<close>

fun getState :: "input \<Rightarrow> state" where
  "getState (AxisTiltValue _ _ _) = AXIS_TILT"
| "getState (AxisTriggerValue _ _ _) = AXIS_TRIGGER"
| "getState (ButtonState down _ _) = (if down then BUTTON_DOWN else BUTTON_UP)"
| "getState (CursorMove _ _ _) = CURSOR_MOVE"
| "getState (KeyCharacter _ _ _) = KEY_CHARACTER"

fun getDevice :: "input \<Rightarrow> int" where
  "getDevice (AxisTiltValue player _ _) = sint player"
| "getDevice (AxisTriggerValue player _ _) = sint player"
| "getDevice (ButtonState _ player _) = sint player"
| "getDevice (CursorMove player _ _) = sint player"
| "getDevice (KeyCharacter player _ _) = sint player"

fun getAxis :: "input \<Rightarrow> axis option" where
  "getAxis (AxisTiltValue _ code _) = Some code"
| "getAxis (AxisTriggerValue _ code _) = Some code"
| "getAxis _ = None"

fun getButton :: "input \<Rightarrow> button option" where
  "getButton (ButtonState _ _ code) = Some code"
| "getButton (KeyCharacter _ code _) = Some code"
| "getButton _ = None"

fun getPosition :: "input \<Rightarrow> (int \<times> int) option" where
  "getPosition (CursorMove _ x y) = Some (sint x, sint y)"
| "getPosition _ = None"

fun getTilt :: "input \<Rightarrow> int option" where
  "getTilt (AxisTiltValue _ _ value) = Some (sint value)"
| "getTilt _ = None"

fun getTrigger :: "input \<Rightarrow> nat option" where
  "getTrigger (AxisTriggerValue _ _ value) = Some (unat value)"
| "getTrigger _ = None"

fun getUnicode :: "input \<Rightarrow> u32 option" where
  "getUnicode (KeyCharacter _ _ unicode) = Some unicode"
| "getUnicode _ = None"

text \<open>\<^verbatim>\<open>getValueSigned\<close> and \<^verbatim>\<open>getValueUnsigned\<close> repeat \<^verbatim>\<open>getTilt\<close> and \<^verbatim>\<open>getTrigger\<close>.\<close>

definition getValueSigned :: "input \<Rightarrow> int option" where
  "getValueSigned input = getTilt input"

definition getValueUnsigned :: "input \<Rightarrow> nat option" where
  "getValueUnsigned input = getTrigger input"

section \<open>Coordinates in three bytes\<close>

unbundle bit_operations_syntax

definition set_bytes :: "u32 \<Rightarrow> u8 \<times> u8 \<times> u8" where
  "set_bytes value = (ucast (value AND 0x000000ff), ucast (signed_drop_bit 8 value AND 0x000000ff),
     ucast (signed_drop_bit 16 value AND 0x000000ff))"

fun get_bytes :: "u8 \<times> u8 \<times> u8 \<Rightarrow> int" where
  "get_bytes (b0, b1, b2) =
     sint (signed_drop_bit 8 (push_bit 24 (ucast b2) OR push_bit 16 (ucast b1) OR push_bit 8 (ucast b0) :: u32))"

lemma mask8: "(0x000000ff :: u32) = mask 8"
  by (simp add: mask_eq_exp_minus_1)

lemma bytes_word:
  "(push_bit 24 (ucast (ucast (signed_drop_bit 16 v AND mask 8) :: u8)) OR
   push_bit 16 (ucast (ucast (signed_drop_bit 8 v AND mask 8) :: u8)) OR
   push_bit 8 (ucast (ucast (v AND mask 8) :: u8))) = push_bit 8 v" (is "?l = _") for v :: u32
proof (rule bit_word_eqI)
  fix n
  assume "n < LENGTH(32)"
  moreover have "16 \<le> n \<Longrightarrow> 8 + (n - 16) = n - 8" "24 \<le> n \<Longrightarrow> 16 + (n - 24) = n - 8" by simp_all
  ultimately show "bit (?l :: u32) n \<longleftrightarrow> bit (push_bit 8 v) n"
    by (cases "n < 16"; cases "n < 24") (auto simp: bit_simps bit_signed_drop_bit_iff)
qed

lemma sint_shifted: "sint (signed_drop_bit 8 (push_bit 8 v)) = sint (ucast v :: 24 word)" for v :: u32
proof (rule bit_eqI)
  fix n :: nat
  consider "n < 23" | "n = 23" | "24 \<le> n" by linarith
  then show "bit (sint (signed_drop_bit 8 (push_bit 8 v))) n = bit (sint (ucast v :: 24 word)) n"
    by cases (simp_all add: bit_simps bit_signed_drop_bit_iff min_less_iff_disj)
qed

text \<open>The two layouts of a coordinate hold the same: its lowest 24 bits, with the sign.\<close>
theorem cursor_layouts_agree: "get_bytes (set_bytes (word_of_int x)) = sint (word_of_int x :: 24 word)"
proof -
  have "get_bytes (set_bytes (word_of_int x)) = sint (ucast (word_of_int x :: u32) :: 24 word)"
    using bytes_word [of "word_of_int x"] by (simp add: set_bytes_def mask8 sint_shifted)
  also have "(ucast (word_of_int x :: u32) :: 24 word) = word_of_int x"
    by (rule bit_word_eqI) (simp add: bit_simps)
  finally show ?thesis .
qed

section \<open>What is read is what was written\<close>

definition in_bits :: "nat \<Rightarrow> int \<Rightarrow> bool" where
  "in_bits n x \<longleftrightarrow> - (2 ^ (n - 1)) \<le> x \<and> x < 2 ^ (n - 1)"

lemma sint_of_int_iff: "sint (word_of_int x :: 'a::len word) = x \<longleftrightarrow> in_bits LENGTH('a) x"
proof
  assume "sint (word_of_int x :: 'a word) = x"
  then show "in_bits LENGTH('a) x" using sint_ge [of "word_of_int x :: 'a word"] sint_lt [of "word_of_int x :: 'a word"] by (simp add: in_bits_def)
qed (simp add: in_bits_def signed_of_int signed_take_bit_int_eq_self)

text \<open>A message gives back its player and its values exactly when they fit into their members: a player of one byte,
  a tilt of 32 bits, coordinates of 24 bits; the codes and the state of a button always come back.\<close>
theorem input_round_trip:
  "(getDevice (AxisTiltInput p a v) = p \<longleftrightarrow> in_bits 8 p) \<and> (getTilt (AxisTiltInput p a v) = Some v \<longleftrightarrow> in_bits 32 v) \<and>
   (getDevice (ButtonStateInput p b down) = p \<longleftrightarrow> in_bits 8 p) \<and>
   (getPosition (CursorMoveInput p x y) = Some (x, y) \<longleftrightarrow> in_bits 24 x \<and> in_bits 24 y) \<and>
   getAxis (AxisTiltInput p a v) = Some a \<and> getButton (ButtonStateInput p b down) = Some b \<and>
   getState (ButtonStateInput p b down) = (if down then BUTTON_DOWN else BUTTON_UP)"
  using sint_of_int_iff [of p, where 'a = 8] sint_of_int_iff [of v, where 'a = 32]
    sint_of_int_iff [of x, where 'a = 24] sint_of_int_iff [of y, where 'a = 24]
  by (simp add: AxisTiltInput_def ButtonStateInput_def CursorMoveInput_def)

end
