(* ===== verification/Hid_Ui.thy ===== *)
theory Hid_Ui
  imports Hid_Input Collection Erased_Lists
begin

text \<open>
  The context machine of \<^verbatim>\<open>engine/hid/ui.cpp\<close>, which turns inputs of devices into calls of the users.  A mapping
  gives filters to buttons and axes; a context has states, to each of which mappings are bound with a callback, and
  devices; the mappings of the active state are written into a table of every device of the context, where an input
  finds its filter and callback.

  A failing assertion that guards nothing, code that is marked as unreachable, a call through a pointer that was not
  initialised and a signed overflow are \<open>None\<close>.  Callbacks and their data are numbers; what the machine calls and what
  it answers is recorded in a log.  Vectors get the memory they ask for; the collection of filters is that of
  \<open>Collection\<close>, with the configuration of its storages as a parameter.
\<close>

section \<open>Data\<close>

type_synonym device = int
type_synonym command = u32

text \<open>The components of the collection of filters, of the types 0 to 3 in this order.\<close>

datatype filter =
    AxisMove (command_x: command) (command_y: command)
  | AxisTilt (command_min: command) (command_max: command)
  | ButtonPress command
  | ButtonRelease command

fun filter_type :: "filter \<Rightarrow> nat" where
  "filter_type (AxisMove _ _) = 0"
| "filter_type (AxisTilt _ _) = 1"
| "filter_type (ButtonPress _) = 2"
| "filter_type (ButtonRelease _) = 3"

text \<open>The three arrays of a device for its buttons, and those for its axes.  Only the filters are initialised.\<close>

record row =
  r_filters :: "int list"
  r_callbacks :: "nat option list"
  r_datas :: "nat option list"

record device_mapping =
  buttons :: row
  axes :: row

definition row_new :: "nat \<Rightarrow> row" where
  "row_new n = \<lparr>r_filters = replicate n 0, r_callbacks = replicate n None, r_datas = replicate n None\<rparr>"

definition device_mapping_new :: device_mapping where
  "device_mapping_new = \<lparr>buttons = row_new button_count, axes = row_new axis_count\<rparr>"

record device_source =
  src_type :: int
  src_path :: string
  src_name :: string

record mapping =
  map_buttons :: "int list"
  map_axes :: "int list"

definition mapping_new :: mapping where
  "mapping_new = \<lparr>map_buttons = replicate button_count 0, map_axes = replicate axis_count 0\<rparr>"

record state_mapping =
  sm_mappings :: "token list"
  sm_callbacks :: "nat list"
  sm_datas :: "nat list"

record ctx =
  active :: nat
  has_device_mappings :: bool
  ctx_states :: "token list"
  state_mappings :: "state_mapping list"
  ctx_devices :: "device list"

text \<open>The value a callback gets: a number, or a number divided by the largest 32-bit integer, as floats.\<close>

datatype float_value = Whole int | Scaled int

record context_info =
  ci_asset :: token
  ci_states :: "token list"
  ci_devices :: "device list"

record device_info =
  di_id :: device
  di_sources :: "device_source list"

datatype event =
    Called nat command float_value nat
  | AnswerContexts nat "context_info list"
  | AnswerDevices nat "device_info list"

record ui =
  dimension :: "int \<times> int"
  devices :: "device list"
  device_mappings :: "device_mapping list"
  device_sources :: "device_source list list"
  filters :: "filter col"
  next_available_filter :: int
  mapping_entities :: "token list"
  mappings :: "mapping list"
  context_assets :: "token list"
  contexts :: "ctx list"
  default_context :: token
  log_of :: "event list"

definition ui_new :: "col_cfg \<Rightarrow> ui" where
  "ui_new cfg = \<lparr>dimension = (0, 0), devices = [], device_mappings = [], device_sources = [], filters = col_new cfg 4,
     next_available_filter = 1, mapping_entities = [], mappings = [], context_assets = [], contexts = [],
     default_context = 0, log_of = []\<rparr>"

section \<open>Devices and mappings\<close>

definition find_device :: "device \<Rightarrow> ui \<Rightarrow> nat option" where
  "find_device d s = position (\<lambda>x. x = d) (devices s)"

definition add_device :: "device \<Rightarrow> ui \<Rightarrow> ui option" where
  "add_device d s = (if d \<in> set (devices s) then None
     else Some (s\<lparr>devices := devices s @ [d], device_mappings := device_mappings s @ [device_mapping_new],
       device_sources := device_sources s @ [[]]\<rparr>))"

definition remove_device :: "device \<Rightarrow> ui \<Rightarrow> ui option" where
  "remove_device d s = do {
     i \<leftarrow> find_device d s;
     Some (s\<lparr>device_sources := erase_at i (device_sources s), device_mappings := erase_at i (device_mappings s),
       devices := erase_at i (devices s)\<rparr>) }"

definition find_mapping :: "token \<Rightarrow> ui \<Rightarrow> nat option" where
  "find_mapping m s = position (\<lambda>x. x = m) (mapping_entities s)"

definition add_or_find_mapping :: "token \<Rightarrow> ui \<Rightarrow> nat \<times> ui" where
  "add_or_find_mapping m s = (case find_mapping m s of
     Some i \<Rightarrow> (i, s)
   | None \<Rightarrow> (length (mapping_entities s),
       s\<lparr>mapping_entities := mapping_entities s @ [m], mappings := mappings s @ [mapping_new]\<rparr>))"

text \<open>The key of a filter: \<^verbatim>\<open>static_cast<ext::usize>\<close> of an \<^verbatim>\<open>int\<close>.\<close>

definition filter_key :: "int \<Rightarrow> u64" where
  "filter_key f = word_of_int f"

section \<open>The table of a device\<close>

text \<open>The loops over the filters of a mapping in \<^verbatim>\<open>set_device_mappings\<close>, which has the same loop for buttons and axes,
  and in \<^verbatim>\<open>clear_device_mappings\<close>.\<close>

fun set_row :: "nat list \<Rightarrow> int list \<Rightarrow> nat \<Rightarrow> nat \<Rightarrow> row \<Rightarrow> row option" where
  "set_row [] fs callback data r = Some r"
| "set_row (i # is) fs callback data r = (
    if fs ! i = 0 then set_row is fs callback data r
    else if r_filters r ! i \<noteq> 0 then None
    else set_row is fs callback data \<lparr>r_filters = (r_filters r)[i := fs ! i],
      r_callbacks = (r_callbacks r)[i := Some callback], r_datas = (r_datas r)[i := Some data]\<rparr>)"

fun clear_row :: "nat list \<Rightarrow> int list \<Rightarrow> row \<Rightarrow> row option" where
  "clear_row [] fs r = Some r"
| "clear_row (i # is) fs r = (
    if fs ! i = 0 then clear_row is fs r
    else if r_filters r ! i \<noteq> fs ! i then None
    else clear_row is fs (r\<lparr>r_filters := (r_filters r)[i := 0]\<rparr>))"

definition set_mapping :: "mapping \<Rightarrow> nat \<Rightarrow> nat \<Rightarrow> device_mapping \<Rightarrow> device_mapping option" where
  "set_mapping m callback data dm = do {
     b \<leftarrow> set_row [0..<button_count] (map_buttons m) callback data (buttons dm);
     a \<leftarrow> set_row [0..<axis_count] (map_axes m) callback data (axes dm);
     Some \<lparr>buttons = b, axes = a\<rparr> }"

definition clear_mapping :: "mapping \<Rightarrow> device_mapping \<Rightarrow> device_mapping option" where
  "clear_mapping m dm = do {
     b \<leftarrow> clear_row [0..<button_count] (map_buttons m) (buttons dm);
     a \<leftarrow> clear_row [0..<axis_count] (map_axes m) (axes dm);
     Some \<lparr>buttons = b, axes = a\<rparr> }"

text \<open>One mapping of a state, for one device.\<close>

definition set_bound :: "ui \<Rightarrow> state_mapping \<Rightarrow> nat \<Rightarrow> device_mapping \<Rightarrow> device_mapping option" where
  "set_bound s sm j dm = do {
     k \<leftarrow> find_mapping (sm_mappings sm ! j) s;
     set_mapping (mappings s ! k) (sm_callbacks sm ! j) (sm_datas sm ! j) dm }"

definition clear_bound :: "ui \<Rightarrow> state_mapping \<Rightarrow> nat \<Rightarrow> device_mapping \<Rightarrow> device_mapping option" where
  "clear_bound s sm j dm = do {
     k \<leftarrow> find_mapping (sm_mappings sm ! j) s;
     clear_mapping (mappings s ! k) dm }"

definition set_device :: "state_mapping \<Rightarrow> device \<Rightarrow> ui \<Rightarrow> ui option" where
  "set_device sm d s = do {
     k \<leftarrow> find_device d s;
     dm \<leftarrow> fold_opt (set_bound s sm) [0..<length (sm_mappings sm)] (device_mappings s ! k);
     Some (s\<lparr>device_mappings := (device_mappings s)[k := dm]\<rparr>) }"

definition clear_device :: "state_mapping \<Rightarrow> device \<Rightarrow> ui \<Rightarrow> ui option" where
  "clear_device sm d s = do {
     k \<leftarrow> find_device d s;
     dm \<leftarrow> fold_opt (clear_bound s sm) [0..<length (sm_mappings sm)] (device_mappings s ! k);
     Some (s\<lparr>device_mappings := (device_mappings s)[k := dm]\<rparr>) }"

section \<open>Contexts\<close>

definition ctx_new :: "token list \<Rightarrow> ctx option" where
  "ctx_new sts = (if sts = [] then None
     else Some \<lparr>active = 0, has_device_mappings = False, ctx_states = sts,
       state_mappings = replicate (length sts) \<lparr>sm_mappings = [], sm_callbacks = [], sm_datas = []\<rparr>, ctx_devices = []\<rparr>)"

definition find_state :: "token \<Rightarrow> ctx \<Rightarrow> nat option" where
  "find_state st c = position (\<lambda>x. x = st) (ctx_states c)"

definition set_device_mappings :: "ctx \<Rightarrow> ui \<Rightarrow> (ctx \<times> ui) option" where
  "set_device_mappings c s = (if has_device_mappings c then None else do {
     s \<leftarrow> fold_opt (set_device (state_mappings c ! active c)) (ctx_devices c) s;
     Some (c\<lparr>has_device_mappings := True\<rparr>, s) })"

definition clear_device_mappings :: "ctx \<Rightarrow> ui \<Rightarrow> (ctx \<times> ui) option" where
  "clear_device_mappings c s = (if \<not> has_device_mappings c then None else do {
     s \<leftarrow> fold_opt (clear_device (state_mappings c ! active c)) (ctx_devices c) s;
     Some (c\<lparr>has_device_mappings := False\<rparr>, s) })"

definition add_mapping :: "token \<Rightarrow> token \<Rightarrow> nat \<Rightarrow> nat \<Rightarrow> ctx \<Rightarrow> ctx option" where
  "add_mapping st m callback data c = (
    if has_device_mappings c \<and> st = ctx_states c ! active c then None
    else do {
      i \<leftarrow> find_state st c;
      let sm = state_mappings c ! i;
      if m \<in> set (sm_mappings sm) then None
      else Some (c\<lparr>state_mappings := (state_mappings c)[i := \<lparr>sm_mappings = sm_mappings sm @ [m],
        sm_callbacks = sm_callbacks sm @ [callback], sm_datas = sm_datas sm @ [data]\<rparr>]\<rparr>) })"

definition remove_mapping :: "token \<Rightarrow> token \<Rightarrow> ctx \<Rightarrow> ctx option" where
  "remove_mapping st m c = (
    if has_device_mappings c \<and> st = ctx_states c ! active c then None
    else do {
      i \<leftarrow> find_state st c;
      let sm = state_mappings c ! i;
      j \<leftarrow> position (\<lambda>x. x = m) (sm_mappings sm);
      Some (c\<lparr>state_mappings := (state_mappings c)[i := \<lparr>sm_mappings = erase_at j (sm_mappings sm),
        sm_callbacks = erase_at j (sm_callbacks sm), sm_datas = erase_at j (sm_datas sm)\<rparr>]\<rparr>) })"

definition ctx_add_device :: "ui \<Rightarrow> device \<Rightarrow> ctx \<Rightarrow> ctx option" where
  "ctx_add_device s d c = (
    if has_device_mappings c \<or> d \<notin> set (devices s) \<or> d \<in> set (ctx_devices c) then None
    else Some (c\<lparr>ctx_devices := ctx_devices c @ [d]\<rparr>))"

definition ctx_remove_device :: "ui \<Rightarrow> device \<Rightarrow> ctx \<Rightarrow> ctx option" where
  "ctx_remove_device s d c = (
    if has_device_mappings c \<or> d \<notin> set (devices s) then None
    else do { i \<leftarrow> position (\<lambda>x. x = d) (ctx_devices c); Some (c\<lparr>ctx_devices := erase_at i (ctx_devices c)\<rparr>) })"

definition ctx_has_device :: "ui \<Rightarrow> device \<Rightarrow> ctx \<Rightarrow> bool option" where
  "ctx_has_device s d c = (if d \<notin> set (devices s) then None else Some (d \<in> set (ctx_devices c)))"

definition set_active :: "token \<Rightarrow> ctx \<Rightarrow> ctx option" where
  "set_active st c = (if has_device_mappings c then None else do { i \<leftarrow> find_state st c; Some (c\<lparr>active := i\<rparr>) })"

text \<open>A method called on the context at a place of the vector.\<close>

definition put_ctx :: "nat \<Rightarrow> ctx \<Rightarrow> ui \<Rightarrow> ui" where
  "put_ctx i c s = s\<lparr>contexts := (contexts s)[i := c]\<rparr>"

definition set_at :: "nat \<Rightarrow> ui \<Rightarrow> ui option" where
  "set_at i s = do { (c, s) \<leftarrow> set_device_mappings (contexts s ! i) s; Some (put_ctx i c s) }"

definition clear_at :: "nat \<Rightarrow> ui \<Rightarrow> ui option" where
  "clear_at i s = do { (c, s) \<leftarrow> clear_device_mappings (contexts s ! i) s; Some (put_ctx i c s) }"

definition modify_at :: "nat \<Rightarrow> (ctx \<Rightarrow> ctx option) \<Rightarrow> ui \<Rightarrow> ui option" where
  "modify_at i f s = do { c \<leftarrow> f (contexts s ! i); Some (put_ctx i c s) }"

definition find_context :: "token \<Rightarrow> ui \<Rightarrow> nat option" where
  "find_context a s = position (\<lambda>x. x = a) (context_assets s)"

definition add_context :: "token \<Rightarrow> token list \<Rightarrow> ui \<Rightarrow> ui option" where
  "add_context a sts s = (if a \<in> set (context_assets s) then None else do {
     c \<leftarrow> ctx_new sts;
     Some (s\<lparr>context_assets := context_assets s @ [a], contexts := contexts s @ [c]\<rparr>) })"

definition remove_context :: "token \<Rightarrow> ui \<Rightarrow> ui option" where
  "remove_context a s = (if a = default_context s then None else do {
     i \<leftarrow> find_context a s;
     Some (s\<lparr>contexts := erase_at i (contexts s), context_assets := erase_at i (context_assets s)\<rparr>) })"

section \<open>Messages of the users\<close>

datatype ui_message =
    AddAxisMove token axis command command
  | AddAxisTilt token axis command command
  | AddButtonPress token button command
  | AddButtonRelease token button command
  | AddContext token "token list"
  | AddDevice token device
  | Bind token token token nat nat
  | QueryContexts nat
  | QueryDevices nat
  | RemoveContext token
  | RemoveDevice token device
  | SetState token token
  | Unbind token token token

definition new_filter :: "col_cfg \<Rightarrow> filter \<Rightarrow> ui \<Rightarrow> (int \<times> ui) option" where
  "new_filter cfg x s = (
    let f = next_available_filter s in
    if f + 1 \<ge> 2 ^ 31 then None
    else do {
      (r, fs) \<leftarrow> col_emplace cfg (filter_type x) (filter_key f) x (filters s);
      if r = None then None else Some (f, s\<lparr>next_available_filter := f + 1, filters := fs\<rparr>) })"

definition map_axis :: "token \<Rightarrow> axis \<Rightarrow> int \<Rightarrow> ui \<Rightarrow> ui option" where
  "map_axis m code f s = (
    let (i, s) = add_or_find_mapping m s; mapping = mappings s ! i in
    if code \<ge> axis_count \<or> map_axes mapping ! code \<noteq> 0 then None
    else Some (s\<lparr>mappings := (mappings s)[i := mapping\<lparr>map_axes := (map_axes mapping)[code := f]\<rparr>]\<rparr>))"

definition map_button :: "token \<Rightarrow> button \<Rightarrow> int \<Rightarrow> ui \<Rightarrow> ui option" where
  "map_button m code f s = (
    let (i, s) = add_or_find_mapping m s; mapping = mappings s ! i in
    if code \<ge> button_count \<or> map_buttons mapping ! code \<noteq> 0 then None
    else Some (s\<lparr>mappings := (mappings s)[i := mapping\<lparr>map_buttons := (map_buttons mapping)[code := f]\<rparr>]\<rparr>))"

definition clear_if_set :: "nat \<Rightarrow> ui \<Rightarrow> ui option" where
  "clear_if_set i s = (if has_device_mappings (contexts s ! i) then clear_at i s else Some s)"

definition clear_if_active :: "nat \<Rightarrow> token \<Rightarrow> ui \<Rightarrow> ui option" where
  "clear_if_active i st s = (let c = contexts s ! i in
     if has_device_mappings c \<and> ctx_states c ! active c = st then clear_at i s else Some s)"

text \<open>The first context becomes the default context and gets the devices that are known.\<close>

definition process_add_context :: "token \<Rightarrow> token list \<Rightarrow> ui \<Rightarrow> ui option" where
  "process_add_context a sts s = (
    let first_context = (context_assets s = []) in do {
    s \<leftarrow> add_context a sts s;
    if \<not> first_context then Some s
    else do {
      let s = s\<lparr>default_context := a\<rparr>;
      i \<leftarrow> find_context (default_context s) s;
      if has_device_mappings (contexts s ! i) then None
      else fold_opt (\<lambda>d s. modify_at i (ctx_add_device s d) s) (devices s) s } })"

definition process_remove_context :: "token \<Rightarrow> ui \<Rightarrow> ui option" where
  "process_remove_context a s = do {
    i \<leftarrow> find_context a s;
    s \<leftarrow> clear_if_set i s;
    let removing_default_context = (a = default_context s);
    let s = (if removing_default_context then s\<lparr>default_context := 0\<rparr> else s);
    s \<leftarrow> remove_context a s;
    Some (if removing_default_context \<and> context_assets s \<noteq> [] then s\<lparr>default_context := hd (context_assets s)\<rparr> else s) }"

definition query_contexts :: "ui \<Rightarrow> context_info list" where
  "query_contexts s = map (\<lambda>i. \<lparr>ci_asset = context_assets s ! i, ci_states = ctx_states (contexts s ! i),
     ci_devices = ctx_devices (contexts s ! i)\<rparr>) [0..<length (contexts s)]"

definition query_devices :: "ui \<Rightarrow> device_info list" where
  "query_devices s = map (\<lambda>i. \<lparr>di_id = devices s ! i, di_sources = device_sources s ! i\<rparr>) [0..<length (devices s)]"

fun process_ui :: "col_cfg \<Rightarrow> ui_message \<Rightarrow> ui \<Rightarrow> ui option" where
  "process_ui cfg (AddAxisMove m code x y) s = do { (f, s) \<leftarrow> new_filter cfg (AxisMove x y) s; map_axis m code f s }"
| "process_ui cfg (AddAxisTilt m code x y) s = do { (f, s) \<leftarrow> new_filter cfg (AxisTilt x y) s; map_axis m code f s }"
| "process_ui cfg (AddButtonPress m code x) s = do { (f, s) \<leftarrow> new_filter cfg (ButtonPress x) s; map_button m code f s }"
| "process_ui cfg (AddButtonRelease m code x) s =
    do { (f, s) \<leftarrow> new_filter cfg (ButtonRelease x) s; map_button m code f s }"
| "process_ui cfg (AddContext a sts) s = process_add_context a sts s"
| "process_ui cfg (AddDevice a d) s =
    do { i \<leftarrow> find_context a s; s \<leftarrow> clear_if_set i s; modify_at i (ctx_add_device s d) s }"
| "process_ui cfg (Bind a st m callback data) s =
    do { i \<leftarrow> find_context a s; s \<leftarrow> clear_if_active i st s; modify_at i (add_mapping st m callback data) s }"
| "process_ui cfg (QueryContexts n) s = Some (s\<lparr>log_of := log_of s @ [AnswerContexts n (query_contexts s)]\<rparr>)"
| "process_ui cfg (QueryDevices n) s = Some (s\<lparr>log_of := log_of s @ [AnswerDevices n (query_devices s)]\<rparr>)"
| "process_ui cfg (RemoveContext a) s = process_remove_context a s"
| "process_ui cfg (RemoveDevice a d) s =
    do { i \<leftarrow> find_context a s; s \<leftarrow> clear_if_set i s; modify_at i (ctx_remove_device s d) s }"
| "process_ui cfg (SetState a st) s =
    do { i \<leftarrow> find_context a s; s \<leftarrow> clear_if_set i s; modify_at i (set_active st) s }"
| "process_ui cfg (Unbind a st m) s =
    do { i \<leftarrow> find_context a s; s \<leftarrow> clear_if_active i st s; modify_at i (remove_mapping st m) s }"

section \<open>Messages of the devices\<close>

datatype input_message =
    DeviceFound device
  | DeviceLost device
  | AddSource device int string string
  | RemoveSource device string
  | Input input

text \<open>The visitors of a filter; every other filter is unreachable.\<close>

fun handle_axis_move :: "input \<Rightarrow> nat \<Rightarrow> nat \<Rightarrow> filter \<Rightarrow> event list option" where
  "handle_axis_move inp callback data (AxisMove x y) = do {
     (px, py) \<leftarrow> getPosition inp;
     Some [Called callback x (Whole px) data, Called callback y (Whole py) data] }"
| "handle_axis_move inp callback data _ = None"

text \<open>The negation of the least integer overflows.\<close>

fun handle_axis_tilt :: "input \<Rightarrow> nat \<Rightarrow> nat \<Rightarrow> filter \<Rightarrow> event list option" where
  "handle_axis_tilt inp callback data (AxisTilt x y) = do {
     t \<leftarrow> getTilt inp;
     let value_min = - min t 0;
     let value_max = max t 0;
     if value_min \<ge> 2 ^ 31 then None
     else Some [Called callback x (Scaled value_min) data, Called callback y (Scaled value_max) data] }"
| "handle_axis_tilt inp callback data _ = None"

fun handle_button :: "bool \<Rightarrow> nat \<Rightarrow> nat \<Rightarrow> filter \<Rightarrow> event list option" where
  "handle_button reversed callback data (ButtonPress x) = Some [Called callback x (Whole (if reversed then 0 else 1)) data]"
| "handle_button reversed callback data (ButtonRelease x) = Some [Called callback x (Whole (if reversed then 1 else 0)) data]"
| "handle_button reversed callback data _ = None"

text \<open>The filter in a cell of the table is looked up and called with the callback and the data of the cell.\<close>

definition call_filter :: "(nat \<Rightarrow> nat \<Rightarrow> filter \<Rightarrow> event list option) \<Rightarrow> row \<Rightarrow> nat \<Rightarrow> ui \<Rightarrow> ui option" where
  "call_filter handle r i s = (if i \<ge> length (r_filters r) then None
    else case col_find (filter_key (r_filters r ! i)) (filters s) of
      None \<Rightarrow> Some s
    | Some b \<Rightarrow> do {
        (es, _) \<leftarrow> col_call (\<lambda>t k x. (x, do {
          callback \<leftarrow> r_callbacks r ! i; data \<leftarrow> r_datas r ! i; handle callback data x })) (Some b) (filters s);
        es \<leftarrow> es;
        Some (s\<lparr>log_of := log_of s @ es\<rparr>) })"

definition process_value :: "input \<Rightarrow> ui \<Rightarrow> ui option" where
  "process_value inp s = do {
     k \<leftarrow> find_device (getDevice inp) s;
     let dm = device_mappings s ! k;
     case getState inp of
       AXIS_TILT \<Rightarrow> do { a \<leftarrow> getAxis inp; call_filter (handle_axis_tilt inp) (axes dm) a s }
     | AXIS_TRIGGER \<Rightarrow> Some s
     | BUTTON_DOWN \<Rightarrow> do { b \<leftarrow> getButton inp; call_filter (handle_button False) (buttons dm) b s }
     | BUTTON_UP \<Rightarrow> do { b \<leftarrow> getButton inp; call_filter (handle_button True) (buttons dm) b s }
     | CURSOR_MOVE \<Rightarrow> call_filter (handle_axis_move inp) (axes dm) MOUSE_MOVE s
     | KEY_CHARACTER \<Rightarrow> Some s }"

definition device_found :: "device \<Rightarrow> ui \<Rightarrow> ui option" where
  "device_found d s = do {
     s \<leftarrow> add_device d s;
     if default_context s = 0 then Some s
     else do {
       i \<leftarrow> find_context (default_context s) s;
       s \<leftarrow> clear_at i s;
       s \<leftarrow> modify_at i (ctx_add_device s d) s;
       set_at i s } }"

definition leave_device :: "device \<Rightarrow> nat \<Rightarrow> ui \<Rightarrow> ui option" where
  "leave_device d i s = do {
     h \<leftarrow> ctx_has_device s d (contexts s ! i);
     if \<not> h then Some s
     else do { s \<leftarrow> clear_at i s; s \<leftarrow> modify_at i (ctx_remove_device s d) s; set_at i s } }"

definition device_lost :: "device \<Rightarrow> ui \<Rightarrow> ui option" where
  "device_lost d s = do { s \<leftarrow> fold_opt (leave_device d) [0..<length (contexts s)] s; remove_device d s }"

definition has_path :: "string \<Rightarrow> device_source \<Rightarrow> bool" where
  "has_path p src \<longleftrightarrow> src_path src = p"

definition add_source :: "device \<Rightarrow> device_source \<Rightarrow> ui \<Rightarrow> ui option" where
  "add_source d src s = do {
     i \<leftarrow> find_device d s;
     if position (has_path (src_path src)) (device_sources s ! i) \<noteq> None then None
     else Some (s\<lparr>device_sources := (device_sources s)[i := device_sources s ! i @ [src]]\<rparr>) }"

definition remove_source :: "device \<Rightarrow> string \<Rightarrow> ui \<Rightarrow> ui option" where
  "remove_source d p s = do {
     i \<leftarrow> find_device d s;
     j \<leftarrow> position (has_path p) (device_sources s ! i);
     Some (s\<lparr>device_sources := (device_sources s)[i := erase_at j (device_sources s ! i)]\<rparr>) }"

fun process_input :: "input_message \<Rightarrow> ui \<Rightarrow> ui option" where
  "process_input (DeviceFound d) s = device_found d s"
| "process_input (DeviceLost d) s = device_lost d s"
| "process_input (AddSource d t p n) s = add_source d \<lparr>src_type = t, src_path = p, src_name = n\<rparr> s"
| "process_input (RemoveSource d p) s = remove_source d p s"
| "process_input (Input inp) s = process_value inp s"

section \<open>The update\<close>

definition set_if_unset :: "nat \<Rightarrow> ui \<Rightarrow> ui option" where
  "set_if_unset i s = (if has_device_mappings (contexts s ! i) then Some s else set_at i s)"

definition set_all :: "ui \<Rightarrow> ui option" where
  "set_all s = fold_opt set_if_unset [0..<length (contexts s)] s"

text \<open>The arguments are what the update takes from its three queues: a size of the window, the messages and the
  messages of the devices.  What a callback posts is taken by a later update.\<close>

definition ui_update :: "col_cfg \<Rightarrow> (int \<times> int) option \<Rightarrow> ui_message list \<Rightarrow> input_message list \<Rightarrow> ui \<Rightarrow> ui option" where
  "ui_update cfg notification_dimension messages inputs s = do {
     let s = (case notification_dimension of None \<Rightarrow> s | Some d \<Rightarrow> s\<lparr>dimension := d\<rparr>);
     s \<leftarrow> fold_opt (process_ui cfg) messages s;
     s \<leftarrow> set_all s;
     fold_opt process_input inputs s }"

end
