(* ===== verification/Hid_Demand.thy ===== *)
theory Hid_Demand
  imports Hid_Ui
begin

text \<open>
  What the tables of the devices promise: a table holds a multiset of demands, each a cell with the filter, callback
  and data that a mapping wants there, and no cell is demanded twice.  Setting mappings adds their demands, clearing
  takes them back.  The same law holds for one array of cells, for the table of one device and for the tables of all
  devices, and is proved once in a locale.
\<close>

section \<open>Demands by key\<close>

definition pick :: "'k \<Rightarrow> ('k \<times> 'v) multiset \<Rightarrow> 'v multiset" where
  "pick k D = image_mset snd (filter_mset (\<lambda>p. fst p = k) D)"

lemma pick_simps [simp]:
  "pick k {#} = {#}" "pick k (D + E) = pick k D + pick k E"
  "pick k (add_mset p D) = (if fst p = k then add_mset (snd p) (pick k D) else pick k D)"
  by (simp_all add: pick_def)

lemma pick_pair [simp]: "pick k (image_mset (Pair j) M) = (if j = k then M else {#})"
  by (induction M) auto

lemma pick_absent: "(\<And>p. p \<in># D \<Longrightarrow> fst p \<noteq> k) \<Longrightarrow> pick k D = {#}"
  by (auto simp: pick_def filter_mset_eq_conv)

lemma pick_elem: "v \<in># pick k D \<longleftrightarrow> (k, v) \<in># D"
  by (force simp: pick_def)

section \<open>The law of a store of demands\<close>

locale demand_store =
  fixes holds :: "'r \<Rightarrow> 'a multiset \<Rightarrow> bool"
    and put :: "'x \<Rightarrow> 'r \<Rightarrow> 'r option"
    and take_back :: "'x \<Rightarrow> 'r \<Rightarrow> 'r option"
    and want :: "'x \<Rightarrow> 'a multiset"
    and fits :: "'a multiset \<Rightarrow> bool"
    and valid :: "'x \<Rightarrow> bool"
  assumes put_Some: "holds r D \<Longrightarrow> put x r = Some r' \<Longrightarrow> valid x \<and> holds r' (D + want x)"
    and put_None: "holds r D \<Longrightarrow> put x r = None \<Longrightarrow> valid x \<Longrightarrow> \<not> fits (D + want x)"
    and take_Some: "valid x \<Longrightarrow> holds r (D + want x) \<Longrightarrow> \<exists>r'. take_back x r = Some r' \<and> holds r' D"
    and fits_mono: "fits (D + E) \<Longrightarrow> fits D"
    and holds_fits: "holds r D \<Longrightarrow> fits D"
begin

lemma put_all_Some:
  "holds r D \<Longrightarrow> fold_opt put xs r = Some r' \<Longrightarrow> (\<forall>x \<in> set xs. valid x) \<and> holds r' (D + sum_list (map want xs))"
proof (induction xs arbitrary: r D)
  case (Cons x xs)
  then obtain q where q: "put x r = Some q" "fold_opt put xs q = Some r'" by auto
  have "valid x \<and> holds q (D + want x)" using put_Some [OF Cons.prems(1) q(1)] .
  then show ?case using Cons.IH [of q "D + want x"] q(2) by (simp add: add.assoc)
qed simp

lemma put_all_None:
  "holds r D \<Longrightarrow> fold_opt put xs r = None \<Longrightarrow> \<forall>x \<in> set xs. valid x \<Longrightarrow> \<not> fits (D + sum_list (map want xs))"
proof (induction xs arbitrary: r D)
  case (Cons x xs)
  have rest: "D + sum_list (map want (x # xs)) = (D + want x) + sum_list (map want xs)" by (simp add: add.assoc)
  show ?case
  proof (cases "put x r")
    case None
    then show ?thesis using put_None [OF Cons.prems(1)] Cons.prems(3) fits_mono unfolding rest by auto
  next
    case (Some q)
    then have "holds q (D + want x)" using put_Some [OF Cons.prems(1)] by blast
    then show ?thesis using Cons.IH [of q] Cons.prems(2,3) Some unfolding rest by simp
  qed
qed simp

lemma put_all_fits:
  assumes "holds r D" "\<forall>x \<in> set xs. valid x" "fits (D + sum_list (map want xs))"
  shows "\<exists>r'. fold_opt put xs r = Some r' \<and> holds r' (D + sum_list (map want xs))"
  using put_all_None [OF assms(1), of xs] put_all_Some [OF assms(1), of xs] assms(2,3)
  by (cases "fold_opt put xs r") auto

lemma take_all:
  "\<forall>x \<in> set xs. valid x \<Longrightarrow> holds r (D + sum_list (map want xs)) \<Longrightarrow> \<exists>r'. fold_opt take_back xs r = Some r' \<and> holds r' D"
proof (induction xs arbitrary: r)
  case (Cons x xs)
  have "holds r ((D + sum_list (map want xs)) + want x)" using Cons.prems(2) by (simp add: ac_simps)
  then obtain q where "take_back x r = Some q" "holds q (D + sum_list (map want xs))" using take_Some Cons.prems(1) by fastforce
  then show ?case using Cons.IH [of q] Cons.prems(1) by auto
qed simp

text \<open>Taking back what was put leaves a store of the old demands.\<close>

lemma put_take:
  "holds r D \<Longrightarrow> fold_opt put xs r = Some r' \<Longrightarrow> \<exists>q. fold_opt take_back xs r' = Some q \<and> holds q D"
  using put_all_Some take_all by blast

end

section \<open>One array of cells\<close>

type_synonym cell_demand = "int \<times> nat \<times> nat"

definition cell_holds :: "row \<Rightarrow> nat \<Rightarrow> cell_demand multiset \<Rightarrow> bool" where
  "cell_holds r i D \<longleftrightarrow> (if D = {#} then r_filters r ! i = 0
     else r_filters r ! i \<noteq> 0 \<and> r_callbacks r ! i \<noteq> None \<and> r_datas r ! i \<noteq> None \<and>
       D = {#(r_filters r ! i, the (r_callbacks r ! i), the (r_datas r ! i))#})"

definition row_holds :: "nat \<Rightarrow> row \<Rightarrow> (nat \<times> cell_demand) multiset \<Rightarrow> bool" where
  "row_holds n r D \<longleftrightarrow> length (r_filters r) = n \<and> length (r_callbacks r) = n \<and> length (r_datas r) = n \<and>
     (\<forall>i < n. cell_holds r i (pick i D))"

definition cell_wants :: "nat list \<Rightarrow> int list \<Rightarrow> nat \<Rightarrow> nat \<Rightarrow> (nat \<times> cell_demand) multiset" where
  "cell_wants is fs callback data = mset (map (\<lambda>i. (i, fs ! i, callback, data)) (filter (\<lambda>i. fs ! i \<noteq> 0) is))"

definition row_fits :: "nat \<Rightarrow> (nat \<times> cell_demand) multiset \<Rightarrow> bool" where
  "row_fits n D \<longleftrightarrow> (\<forall>i < n. size (pick i D) \<le> 1)"

lemma cell_holds_size: "cell_holds r i D \<Longrightarrow> size D \<le> 1"
  by (auto simp: cell_holds_def split: if_splits)

lemma row_holds_fits: "row_holds n r D \<Longrightarrow> row_fits n D"
  using cell_holds_size by (auto simp: row_holds_def row_fits_def)

lemma row_fits_mono: "row_fits n (D + E) \<Longrightarrow> row_fits n D"
  by (auto simp: row_fits_def)

lemma row_put_cell:
  assumes "row_holds n r D" "i < n" "r_filters r ! i = 0" "f \<noteq> 0"
  shows "row_holds n \<lparr>r_filters = (r_filters r)[i := f], r_callbacks = (r_callbacks r)[i := Some c],
    r_datas = (r_datas r)[i := Some d]\<rparr> (add_mset (i, f, c, d) D)"
  using assms by (auto simp: row_holds_def cell_holds_def nth_list_update split: if_splits)

lemma row_clear_cell:
  assumes "row_holds n r (add_mset (i, f, c, d) D)" "i < n"
  shows "r_filters r ! i = f \<and> row_holds n (r\<lparr>r_filters := (r_filters r)[i := 0]\<rparr>) D"
proof -
  have i: "cell_holds r i (add_mset (f, c, d) (pick i D))" using assms by (auto simp: row_holds_def)
  then have "pick i D = {#}" "r_filters r ! i = f" by (auto simp: cell_holds_def split: if_splits)
  then show ?thesis using assms by (auto simp: row_holds_def cell_holds_def nth_list_update split: if_splits)
qed

lemma cell_wants_Cons [simp]:
  "cell_wants [] fs c d = {#}"
  "cell_wants (i # is) fs c d = (if fs ! i = 0 then cell_wants is fs c d else add_mset (i, fs ! i, c, d) (cell_wants is fs c d))"
  by (simp_all add: cell_wants_def)

lemma pick_cell_wants:
  "distinct is \<Longrightarrow> pick i (cell_wants is fs c d) = (if i \<in> set is \<and> fs ! i \<noteq> 0 then {#(fs ! i, c, d)#} else {#})"
  by (induction "is") auto

lemma set_row_Some:
  assumes "row_holds n r D" "set is \<subseteq> {..<n}" "set_row is fs c d r = Some r'"
  shows "row_holds n r' (D + cell_wants is fs c d)"
  using assms
proof (induction "is" fs c d r arbitrary: D rule: set_row.induct)
  case (2 i "is" fs c d r)
  show ?case
  proof (cases "fs ! i = 0")
    case True
    then show ?thesis using 2 by simp
  next
    case False
    then have "r_filters r ! i = 0" "i < n" using 2(4,5) by (auto split: if_splits)
    then show ?thesis using 2(2) [OF False _ row_put_cell [OF 2(3)]] 2(4,5) False by simp
  qed
qed simp

lemma set_row_None:
  assumes "row_holds n r D" "set is \<subseteq> {..<n}" "set_row is fs c d r = None"
  shows "\<not> row_fits n (D + cell_wants is fs c d)"
  using assms
proof (induction "is" fs c d r arbitrary: D rule: set_row.induct)
  case (2 i "is" fs c d r)
  have n: "i < n" using 2(4) by simp
  consider "fs ! i = 0" | "fs ! i \<noteq> 0" "r_filters r ! i = 0" | "fs ! i \<noteq> 0" "r_filters r ! i \<noteq> 0" by blast
  then show ?case
  proof cases
    case 2
    then show ?thesis using "2.IH"(2) [OF _ _ row_put_cell [OF "2.prems"(1) n 2(2,1)]] "2.prems"(2,3) by simp
  next
    case 3
    then have "pick i D \<noteq> {#}" using "2.prems"(1) n by (auto simp: row_holds_def cell_holds_def)
    then have "size (pick i (D + cell_wants (i # is) fs c d)) > 1" using 3(1) by (simp add: nonempty_has_size)
    then show ?thesis using n unfolding row_fits_def by (meson not_le)
  qed (use 2 in simp)
qed simp

lemma clear_row_Some:
  assumes "row_holds n r (D + cell_wants is fs c d)" "set is \<subseteq> {..<n}"
  shows "\<exists>r'. clear_row is fs r = Some r' \<and> row_holds n r' D"
  using assms
proof (induction "is" arbitrary: r)
  case (Cons i "is")
  show ?case
  proof (cases "fs ! i = 0")
    case False
    then show ?thesis using row_clear_cell [of n r i "fs ! i" c d] Cons by simp
  qed (use Cons in simp)
qed simp

section \<open>The table of one device\<close>

type_synonym table_demand = "bool \<times> nat \<times> cell_demand"

text \<open>Buttons are marked \<open>True\<close>, axes \<open>False\<close>.\<close>

definition dm_holds :: "device_mapping \<Rightarrow> table_demand multiset \<Rightarrow> bool" where
  "dm_holds dm D \<longleftrightarrow> row_holds button_count (buttons dm) (pick True D) \<and> row_holds axis_count (axes dm) (pick False D)"

definition dm_fits :: "table_demand multiset \<Rightarrow> bool" where
  "dm_fits D \<longleftrightarrow> row_fits button_count (pick True D) \<and> row_fits axis_count (pick False D)"

definition mapping_wants :: "mapping \<Rightarrow> nat \<Rightarrow> nat \<Rightarrow> table_demand multiset" where
  "mapping_wants m c d = image_mset (Pair True) (cell_wants [0..<button_count] (map_buttons m) c d) +
     image_mset (Pair False) (cell_wants [0..<axis_count] (map_axes m) c d)"

definition bound_wants :: "ui \<Rightarrow> state_mapping \<Rightarrow> nat \<Rightarrow> table_demand multiset" where
  "bound_wants s sm j = (case find_mapping (sm_mappings sm ! j) s of
     None \<Rightarrow> {#} | Some k \<Rightarrow> mapping_wants (mappings s ! k) (sm_callbacks sm ! j) (sm_datas sm ! j))"

definition bound_known :: "ui \<Rightarrow> state_mapping \<Rightarrow> nat \<Rightarrow> bool" where
  "bound_known s sm j \<longleftrightarrow> sm_mappings sm ! j \<in> set (mapping_entities s)"

lemma find_mapping_None: "find_mapping m s = None \<longleftrightarrow> m \<notin> set (mapping_entities s)"
  by (auto simp: find_mapping_def position_None)

lemma upt_below: "set [0..<n] \<subseteq> {..<n}"
  by auto

lemma dm_holds_set:
  assumes "dm_holds dm D" "set_mapping m c d dm = Some dm'"
  shows "dm_holds dm' (D + mapping_wants m c d)"
  using assms set_row_Some [OF _ upt_below] by (auto simp: dm_holds_def set_mapping_def mapping_wants_def)

lemma dm_holds_set_None:
  assumes "dm_holds dm D" "set_mapping m c d dm = None"
  shows "\<not> dm_fits (D + mapping_wants m c d)"
proof -
  have h: "row_holds button_count (buttons dm) (pick True D)" "row_holds axis_count (axes dm) (pick False D)"
    using assms(1) by (simp_all add: dm_holds_def)
  show ?thesis using assms(2) set_row_None [OF h(1) upt_below, of "map_buttons m" c d]
      set_row_None [OF h(2) upt_below, of "map_axes m" c d]
    by (auto simp: set_mapping_def dm_fits_def mapping_wants_def split: bind_split_asm)
qed

lemma dm_holds_clear:
  assumes "dm_holds dm (D + mapping_wants m c d)"
  shows "\<exists>dm'. clear_mapping m dm = Some dm' \<and> dm_holds dm' D"
proof -
  have h: "row_holds button_count (buttons dm) (pick True D + cell_wants [0..<button_count] (map_buttons m) c d)"
    "row_holds axis_count (axes dm) (pick False D + cell_wants [0..<axis_count] (map_axes m) c d)"
    using assms by (simp_all add: dm_holds_def mapping_wants_def)
  obtain b where "clear_row [0..<button_count] (map_buttons m) (buttons dm) = Some b" "row_holds button_count b (pick True D)"
    using clear_row_Some [OF h(1) upt_below] by blast
  moreover obtain a where "clear_row [0..<axis_count] (map_axes m) (axes dm) = Some a" "row_holds axis_count a (pick False D)"
    using clear_row_Some [OF h(2) upt_below] by blast
  ultimately show ?thesis by (simp add: clear_mapping_def dm_holds_def)
qed

lemma dm_fits_mono: "dm_fits (D + E) \<Longrightarrow> dm_fits D"
  using row_fits_mono by (auto simp: dm_fits_def)

lemma dm_holds_fits: "dm_holds dm D \<Longrightarrow> dm_fits D"
  using row_holds_fits by (auto simp: dm_holds_def dm_fits_def)

interpretation db: demand_store dm_holds "set_bound s sm" "clear_bound s sm" "bound_wants s sm" dm_fits "bound_known s sm"
  for s sm
proof unfold_locales
  fix dm D j dm'
  assume h: "dm_holds dm D" "set_bound s sm j dm = Some dm'"
  then show "bound_known s sm j \<and> dm_holds dm' (D + bound_wants s sm j)"
    using dm_holds_set find_mapping_None [of "sm_mappings sm ! j" s]
    by (auto simp: set_bound_def bound_wants_def bound_known_def)
next
  fix dm D j
  assume h: "dm_holds dm D" "set_bound s sm j dm = None" "bound_known s sm j"
  then obtain k where "find_mapping (sm_mappings sm ! j) s = Some k"
    using find_mapping_None by (fastforce simp: bound_known_def)
  then show "\<not> dm_fits (D + bound_wants s sm j)" using dm_holds_set_None h(1,2) by (auto simp: set_bound_def bound_wants_def)
next
  fix dm D j
  assume h: "bound_known s sm j" "dm_holds dm (D + bound_wants s sm j)"
  then obtain k where "find_mapping (sm_mappings sm ! j) s = Some k"
    using find_mapping_None by (fastforce simp: bound_known_def)
  then show "\<exists>dm'. clear_bound s sm j dm = Some dm' \<and> dm_holds dm' D"
    using dm_holds_clear h(2) by (auto simp: clear_bound_def bound_wants_def)
qed (fact dm_fits_mono dm_holds_fits)+

section \<open>The tables of all devices\<close>

type_synonym demand = "device \<times> table_demand"

definition tables_hold :: "device list \<Rightarrow> device_mapping list \<Rightarrow> demand multiset \<Rightarrow> bool" where
  "tables_hold ds dms D \<longleftrightarrow> distinct ds \<and> length dms = length ds \<and> (\<forall>k < length ds. dm_holds (dms ! k) (pick (ds ! k) D))"

definition tables_fit :: "device list \<Rightarrow> demand multiset \<Rightarrow> bool" where
  "tables_fit ds D \<longleftrightarrow> (\<forall>d \<in> set ds. dm_fits (pick d D))"

definition state_wants :: "ui \<Rightarrow> state_mapping \<Rightarrow> table_demand multiset" where
  "state_wants s sm = sum_list (map (bound_wants s sm) [0..<length (sm_mappings sm)])"

definition state_known :: "ui \<Rightarrow> state_mapping \<Rightarrow> bool" where
  "state_known s sm \<longleftrightarrow> set (sm_mappings sm) \<subseteq> set (mapping_entities s)"

lemma state_known_bound: "state_known s sm \<longleftrightarrow> (\<forall>j \<in> set [0..<length (sm_mappings sm)]. bound_known s sm j)"
  using all_set_conv_all_nth [of "sm_mappings sm" "\<lambda>x. x \<in> set (mapping_entities s)"]
  by (auto simp: state_known_def bound_known_def)

text \<open>A state of the machine that differs from \<open>s\<close> in the tables only.\<close>

definition only_tables :: "ui \<Rightarrow> ui \<Rightarrow> demand multiset \<Rightarrow> bool" where
  "only_tables s t D \<longleftrightarrow> (\<exists>dms. t = s\<lparr>device_mappings := dms\<rparr> \<and> tables_hold (devices s) dms D)"

lemma bound_tables [simp]:
  "set_bound (s\<lparr>device_mappings := dms\<rparr>) sm = set_bound s sm" "clear_bound (s\<lparr>device_mappings := dms\<rparr>) sm = clear_bound s sm"
  "find_device d (s\<lparr>device_mappings := dms\<rparr>) = find_device d s"
  by (auto simp: fun_eq_iff set_bound_def clear_bound_def find_mapping_def find_device_def)

lemma find_device_Some: "find_device d s = Some k \<Longrightarrow> k < length (devices s) \<and> devices s ! k = d"
  using position_Some by (fastforce simp: find_device_def)

lemma find_device_None: "find_device d s = None \<longleftrightarrow> d \<notin> set (devices s)"
  by (auto simp: find_device_def position_None)

lemma tables_put:
  assumes "tables_hold ds dms D" "k < length ds" "dm_holds dm (pick (ds ! k) D + W)"
  shows "tables_hold ds (dms[k := dm]) (D + image_mset (Pair (ds ! k)) W)"
  using assms by (auto simp: tables_hold_def nth_list_update nth_eq_iff_index_eq)

lemma tables_take:
  assumes "tables_hold ds dms (D + image_mset (Pair (ds ! k)) W)" "k < length ds" "dm_holds dm (pick (ds ! k) D)"
  shows "tables_hold ds (dms[k := dm]) D"
  using assms by (auto simp: tables_hold_def nth_list_update nth_eq_iff_index_eq)

interpretation dt: demand_store "only_tables s" "set_device sm" "clear_device sm"
  "\<lambda>d. image_mset (Pair d) (state_wants s sm)" "tables_fit (devices s)" "\<lambda>d. d \<in> set (devices s) \<and> state_known s sm"
  for s sm
proof unfold_locales
  fix t D d t'
  assume h: "only_tables s t D" "set_device sm d t = Some t'"
  obtain dms where t: "t = s\<lparr>device_mappings := dms\<rparr>" "tables_hold (devices s) dms D"
    using h(1) by (auto simp: only_tables_def)
  obtain k dm where k: "find_device d s = Some k"
    "fold_opt (set_bound s sm) [0..<length (sm_mappings sm)] (dms ! k) = Some dm" "t' = s\<lparr>device_mappings := dms[k := dm]\<rparr>"
    using h(2) t(1) by (auto simp: set_device_def)
  note kd = find_device_Some [OF k(1)]
  have "dm_holds (dms ! k) (pick d D)" using t(2) kd by (auto simp: tables_hold_def)
  from db.put_all_Some [OF this k(2)]
  have "state_known s sm" "dm_holds dm (pick d D + state_wants s sm)" by (simp_all add: state_known_bound state_wants_def)
  then show "(d \<in> set (devices s) \<and> state_known s sm) \<and> only_tables s t' (D + image_mset (Pair d) (state_wants s sm))"
    using tables_put [OF t(2), of k dm "state_wants s sm"] kd k(3) by (auto simp: only_tables_def)
next
  fix t D d
  assume h: "only_tables s t D" "set_device sm d t = None" "d \<in> set (devices s) \<and> state_known s sm"
  obtain dms where t: "t = s\<lparr>device_mappings := dms\<rparr>" "tables_hold (devices s) dms D"
    using h(1) by (auto simp: only_tables_def)
  obtain k where k: "find_device d s = Some k" using find_device_None h(3) by fastforce
  note kd = find_device_Some [OF k(1)]
  have n: "fold_opt (set_bound s sm) [0..<length (sm_mappings sm)] (dms ! k) = None"
    using h(2) t(1) k by (auto simp: set_device_def split: bind_split_asm)
  have "dm_holds (dms ! k) (pick d D)" using t(2) kd by (auto simp: tables_hold_def)
  from db.put_all_None [OF this n]
  have "\<not> dm_fits (pick d D + state_wants s sm)" using h(3) by (simp add: state_known_bound state_wants_def)
  then show "\<not> tables_fit (devices s) (D + image_mset (Pair d) (state_wants s sm))" using h(3) by (auto simp: tables_fit_def)
next
  fix d t D
  assume h: "d \<in> set (devices s) \<and> state_known s sm" "only_tables s t (D + image_mset (Pair d) (state_wants s sm))"
  obtain dms where t: "t = s\<lparr>device_mappings := dms\<rparr>" "tables_hold (devices s) dms (D + image_mset (Pair d) (state_wants s sm))"
    using h(2) by (auto simp: only_tables_def)
  obtain k where k: "find_device d s = Some k" using find_device_None h(1) by fastforce
  note kd = find_device_Some [OF k(1)]
  have "dm_holds (dms ! k) (pick d D + state_wants s sm)" using t(2) kd by (auto simp: tables_hold_def)
  then obtain dm where dm: "fold_opt (clear_bound s sm) [0..<length (sm_mappings sm)] (dms ! k) = Some dm" "dm_holds dm (pick d D)"
    using db.take_all [of "[0..<length (sm_mappings sm)]" s sm "dms ! k" "pick d D"] h(1)
    by (auto simp: state_known_bound state_wants_def)
  then show "\<exists>t'. clear_device sm d t = Some t' \<and> only_tables s t' D"
    using tables_take [of "devices s" dms D k "state_wants s sm" dm] t kd k by (auto simp: clear_device_def only_tables_def)
next
  show "\<And>D E. tables_fit (devices s) (D + E) \<Longrightarrow> tables_fit (devices s) D" using dm_fits_mono by (auto simp: tables_fit_def)
  show "\<And>t D. only_tables s t D \<Longrightarrow> tables_fit (devices s) D"
    using dm_holds_fits by (fastforce simp: only_tables_def tables_hold_def tables_fit_def in_set_conv_nth)
qed

end
