(* ===== verification/Hid_Invariant.thy ===== *)
theory Hid_Invariant
  imports Hid_Demand
begin

text \<open>
  The invariant of the context machine: the tables of the devices hold exactly the demands of the contexts whose
  mappings are set, and every filter that a mapping names is in the collection and is of the kind of its place.
  Every message keeps it, and clearing mappings never comes to its sanity check.
\<close>

section \<open>The demands of the contexts\<close>

definition current :: "ctx \<Rightarrow> state_mapping" where
  "current c = state_mappings c ! active c"

definition ctx_wants :: "ui \<Rightarrow> ctx \<Rightarrow> demand multiset" where
  "ctx_wants s c = (if has_device_mappings c
     then sum_list (map (\<lambda>d. image_mset (Pair d) (state_wants s (current c))) (ctx_devices c)) else {#})"

definition demands :: "ui \<Rightarrow> demand multiset" where
  "demands s = sum_list (map (ctx_wants s) (contexts s))"

definition tables_ok :: "ui \<Rightarrow> bool" where
  "tables_ok s \<longleftrightarrow> tables_hold (devices s) (device_mappings s) (demands s)"

lemma only_tables_self: "only_tables s s D \<longleftrightarrow> tables_hold (devices s) (device_mappings s) D"
proof
  show "only_tables s s D \<Longrightarrow> tables_hold (devices s) (device_mappings s) D"
    by (auto simp: only_tables_def) (metis ui.select_convs(3) ui.surjective ui.update_convs(3))
qed (auto simp: only_tables_def intro: exI [of _ "device_mappings s"])

lemma bound_wants_eq: "bound_wants s sm j = (case position (\<lambda>x. x = sm_mappings sm ! j) (mapping_entities s) of
    None \<Rightarrow> {#} | Some k \<Rightarrow> mapping_wants (mappings s ! k) (sm_callbacks sm ! j) (sm_datas sm ! j))"
  by (simp add: bound_wants_def find_mapping_def)

lemma wants_cong:
  assumes "mapping_entities t = mapping_entities s" "mappings t = mappings s"
  shows "state_wants t = state_wants s" "ctx_wants t = ctx_wants s" "state_known t = state_known s"
proof -
  have "bound_wants t = bound_wants s" using assms by (simp add: fun_eq_iff bound_wants_eq split: option.split)
  then show "state_wants t = state_wants s" by (intro ext) (simp add: state_wants_def)
  then show "ctx_wants t = ctx_wants s" by (intro ext) (simp add: ctx_wants_def)
  show "state_known t = state_known s" using assms by (simp add: fun_eq_iff state_known_def)
qed

lemma sum_list_update:
  "i < length cs \<Longrightarrow> sum_list (map f (cs[i := c])) + f (cs ! i) = sum_list (map f cs) + f c" for f :: "_ \<Rightarrow> _ multiset"
proof (induction cs arbitrary: i)
  case (Cons a cs)
  then show ?case by (cases i) (auto simp: ac_simps)
qed simp

lemma put_ctx_simps [simp]:
  "contexts (put_ctx i c s) = (contexts s)[i := c]" "devices (put_ctx i c s) = devices s"
  "device_mappings (put_ctx i c s) = device_mappings s" "mappings (put_ctx i c s) = mappings s"
  "mapping_entities (put_ctx i c s) = mapping_entities s" "context_assets (put_ctx i c s) = context_assets s"
  "filters (put_ctx i c s) = filters s" "next_available_filter (put_ctx i c s) = next_available_filter s"
  "device_sources (put_ctx i c s) = device_sources s" "default_context (put_ctx i c s) = default_context s"
  "log_of (put_ctx i c s) = log_of s" "dimension (put_ctx i c s) = dimension s"
  by (simp_all add: put_ctx_def)

lemma demands_put:
  "i < length (contexts s) \<Longrightarrow> demands (put_ctx i c s) + ctx_wants s (contexts s ! i) = demands s + ctx_wants s c"
  using sum_list_update [of i "contexts s" "ctx_wants s" c] wants_cong [of "put_ctx i c s" s] by (simp add: demands_def)

lemma demands_tables [simp]: "demands (s\<lparr>device_mappings := dms\<rparr>) = demands s"
  using wants_cong [of "s\<lparr>device_mappings := dms\<rparr>" s] by (simp add: demands_def)

section \<open>Setting and clearing\<close>

definition ctx_known :: "ui \<Rightarrow> ctx \<Rightarrow> bool" where
  "ctx_known s c \<longleftrightarrow> set (ctx_devices c) \<subseteq> set (devices s) \<and> (ctx_devices c \<noteq> [] \<longrightarrow> state_known s (current c))"

lemma ctx_known_devices:
  "ctx_known s c \<Longrightarrow> \<forall>d \<in> set (ctx_devices c). d \<in> set (devices s) \<and> state_known s (current c)"
  by (auto simp: ctx_known_def)

lemma clear_at_Some:
  assumes "tables_ok s" "i < length (contexts s)" "has_device_mappings (contexts s ! i)" "ctx_known s (contexts s ! i)"
  shows "\<exists>dms. clear_at i s = Some (put_ctx i ((contexts s ! i)\<lparr>has_device_mappings := False\<rparr>) (s\<lparr>device_mappings := dms\<rparr>)) \<and>
    tables_ok (put_ctx i ((contexts s ! i)\<lparr>has_device_mappings := False\<rparr>) (s\<lparr>device_mappings := dms\<rparr>))"
proof -
  let ?c = "contexts s ! i" and ?c' = "(contexts s ! i)\<lparr>has_device_mappings := False\<rparr>"
  let ?D = "demands (put_ctx i ?c' s)"
  have d: "demands s = ?D + sum_list (map (\<lambda>d. image_mset (Pair d) (state_wants s (current ?c))) (ctx_devices ?c))"
    using demands_put [OF assms(2), of ?c'] assms(3) by (simp add: ctx_wants_def)
  have "only_tables s s (demands s)" using assms(1) by (simp add: only_tables_self tables_ok_def)
  from dt.take_all [OF ctx_known_devices [OF assms(4)] this [unfolded d]]
  obtain t where t: "fold_opt (clear_device (current ?c)) (ctx_devices ?c) s = Some t" "only_tables s t ?D" by blast
  obtain dms where dms: "t = s\<lparr>device_mappings := dms\<rparr>" "tables_hold (devices s) dms ?D" using t(2) by (auto simp: only_tables_def)
  have "put_ctx i ?c' t = (put_ctx i ?c' s)\<lparr>device_mappings := dms\<rparr>" using dms(1) by (simp add: put_ctx_def)
  then have "tables_ok (put_ctx i ?c' t)" using dms(2) by (simp add: tables_ok_def)
  moreover have "clear_at i s = Some (put_ctx i ?c' t)"
    using t(1) assms(3) by (simp add: clear_at_def clear_device_mappings_def current_def)
  ultimately show ?thesis using dms(1) by blast
qed

lemma set_at_Some:
  assumes "tables_ok s" "i < length (contexts s)" "set_at i s = Some s'"
  shows "\<not> has_device_mappings (contexts s ! i) \<and> ctx_known s (contexts s ! i) \<and>
    (\<exists>dms. s' = put_ctx i ((contexts s ! i)\<lparr>has_device_mappings := True\<rparr>) (s\<lparr>device_mappings := dms\<rparr>) \<and> tables_ok s')"
proof -
  let ?c = "contexts s ! i" and ?c' = "(contexts s ! i)\<lparr>has_device_mappings := True\<rparr>"
  obtain t where t: "\<not> has_device_mappings ?c" "fold_opt (set_device (current ?c)) (ctx_devices ?c) s = Some t" "s' = put_ctx i ?c' t"
    using assms(3) by (auto simp: set_at_def set_device_mappings_def current_def split: if_splits)
  let ?D = "demands (put_ctx i ?c' s)"
  have d: "?D = demands s + sum_list (map (\<lambda>d. image_mset (Pair d) (state_wants s (current ?c))) (ctx_devices ?c))"
    using demands_put [OF assms(2), of ?c'] t(1) by (simp add: ctx_wants_def current_def)
  have "only_tables s s (demands s)" using assms(1) by (simp add: only_tables_self tables_ok_def)
  from dt.put_all_Some [OF this t(2)]
  have k: "ctx_known s ?c" "only_tables s t ?D" by (cases "ctx_devices ?c"; auto simp: d ctx_known_def)+
  obtain dms where dms: "t = s\<lparr>device_mappings := dms\<rparr>" "tables_hold (devices s) dms ?D" using k(2) by (auto simp: only_tables_def)
  have "s' = (put_ctx i ?c' s)\<lparr>device_mappings := dms\<rparr>" using dms(1) t(3) by (simp add: put_ctx_def)
  then have "tables_ok s'" using dms(2) by (simp add: tables_ok_def)
  then show ?thesis using t dms(1) k(1) by blast
qed

lemma set_at_fits:
  assumes "tables_ok s" "i < length (contexts s)" "\<not> has_device_mappings (contexts s ! i)" "ctx_known s (contexts s ! i)"
    "tables_fit (devices s) (demands (put_ctx i ((contexts s ! i)\<lparr>has_device_mappings := True\<rparr>) s))"
  shows "\<exists>s'. set_at i s = Some s'"
proof -
  let ?c = "contexts s ! i" and ?c' = "(contexts s ! i)\<lparr>has_device_mappings := True\<rparr>"
  have d: "demands (put_ctx i ?c' s) =
      demands s + sum_list (map (\<lambda>d. image_mset (Pair d) (state_wants s (current ?c))) (ctx_devices ?c))"
    using demands_put [OF assms(2), of ?c'] assms(3) by (simp add: ctx_wants_def current_def)
  have "only_tables s s (demands s)" using assms(1) by (simp add: only_tables_self tables_ok_def)
  from dt.put_all_fits [OF this ctx_known_devices [OF assms(4)]] assms(5)
  obtain t where "fold_opt (set_device (current ?c)) (ctx_devices ?c) s = Some t" by (auto simp: d)
  then show ?thesis using assms(3) by (simp add: set_at_def set_device_mappings_def current_def)
qed

section \<open>The invariant\<close>

definition sm_ok :: "state_mapping \<Rightarrow> bool" where
  "sm_ok sm \<longleftrightarrow> distinct (sm_mappings sm) \<and> length (sm_callbacks sm) = length (sm_mappings sm) \<and>
     length (sm_datas sm) = length (sm_mappings sm)"

definition ctx_ok :: "ui \<Rightarrow> ctx \<Rightarrow> bool" where
  "ctx_ok s c \<longleftrightarrow> active c < length (ctx_states c) \<and> length (state_mappings c) = length (ctx_states c) \<and>
     (\<forall>sm \<in> set (state_mappings c). sm_ok sm) \<and> distinct (ctx_devices c) \<and> set (ctx_devices c) \<subseteq> set (devices s) \<and>
     (has_device_mappings c \<longrightarrow> ctx_known s c)"

definition mapping_ok :: "mapping \<Rightarrow> bool" where
  "mapping_ok m \<longleftrightarrow> length (map_buttons m) = button_count \<and> length (map_axes m) = axis_count"

definition registry_ok :: "ui \<Rightarrow> bool" where
  "registry_ok s \<longleftrightarrow> length (device_sources s) = length (devices s) \<and>
     distinct (mapping_entities s) \<and> length (mappings s) = length (mapping_entities s) \<and> (\<forall>m \<in> set (mappings s). mapping_ok m) \<and>
     distinct (context_assets s) \<and> length (contexts s) = length (context_assets s) \<and>
     (default_context s = 0 \<or> default_context s \<in> set (context_assets s))"

text \<open>\<open>kinds_ok M n T fs\<close>: every filter in \<open>fs\<close> is one of the first \<open>n\<close> and is found in \<open>M\<close> under a type of \<open>T\<close>.\<close>

definition kinds_ok :: "(u64 \<rightharpoonup> nat \<times> filter) \<Rightarrow> int \<Rightarrow> nat set \<Rightarrow> int list \<Rightarrow> bool" where
  "kinds_ok M n T fs \<longleftrightarrow> (\<forall>f \<in> set fs. f \<noteq> 0 \<longrightarrow>
     1 \<le> f \<and> f < n \<and> (\<exists>x. M (filter_key f) = Some (filter_type x, x) \<and> filter_type x \<in> T))"

definition filters_hold :: "col_cfg \<Rightarrow> ui \<Rightarrow> (u64 \<rightharpoonup> nat \<times> filter) \<Rightarrow> bool" where
  "filters_hold cfg s M \<longleftrightarrow> col_rep cfg (filters s) M \<and> length (arrays (filters s)) = 4 \<and>
     1 \<le> next_available_filter s \<and> next_available_filter s < 2 ^ 31 \<and> dom M \<subseteq> filter_key ` {1..<next_available_filter s} \<and>
     (\<forall>k t x. M k = Some (t, x) \<longrightarrow> t = filter_type x) \<and>
     (\<forall>m \<in> set (mappings s). kinds_ok M (next_available_filter s) {2, 3} (map_buttons m) \<and>
       kinds_ok M (next_available_filter s) {0, 1} (map_axes m))"

definition ui_ok :: "col_cfg \<Rightarrow> ui \<Rightarrow> bool" where
  "ui_ok cfg s \<longleftrightarrow> tables_ok s \<and> registry_ok s \<and> (\<forall>c \<in> set (contexts s). ctx_ok s c) \<and> (\<exists>M. filters_hold cfg s M)"

lemma ui_okD:
  assumes "ui_ok cfg s"
  shows "tables_ok s" "registry_ok s" "\<And>c. c \<in> set (contexts s) \<Longrightarrow> ctx_ok s c" "\<exists>M. filters_hold cfg s M"
    "\<And>i. i < length (contexts s) \<Longrightarrow> ctx_ok s (contexts s ! i)"
  using assms unfolding ui_ok_def by (blast | simp)+

lemma ctx_ok_cong:
  assumes "mapping_entities t = mapping_entities s" "mappings t = mappings s" "devices t = devices s"
  shows "ctx_ok t = ctx_ok s" "ctx_known t = ctx_known s"
  using wants_cong(3) [OF assms(1,2)] assms(3) by (auto simp: fun_eq_iff ctx_ok_def ctx_known_def)

lemma filters_hold_cong:
  assumes "filters t = filters s" "next_available_filter t = next_available_filter s" "mappings t = mappings s"
  shows "filters_hold cfg t = filters_hold cfg s"
  using assms by (simp add: fun_eq_iff filters_hold_def)

text \<open>A step that changes the contexts and the tables only.\<close>

lemma ui_ok_contexts:
  assumes "ui_ok cfg s" "tables_ok t" "registry_ok t" "\<And>c. c \<in> set (contexts t) \<Longrightarrow> ctx_ok s c"
    "mapping_entities t = mapping_entities s" "mappings t = mappings s" "devices t = devices s"
    "filters t = filters s" "next_available_filter t = next_available_filter s"
  shows "ui_ok cfg t"
  using assms(1-4) ctx_ok_cong(1) [OF assms(5-7)] filters_hold_cong [OF assms(8,9,6)] by (simp add: ui_ok_def)

lemma registry_ok_put: "registry_ok s \<Longrightarrow> registry_ok (put_ctx i c s)"
  by (simp add: registry_ok_def)

lemma ui_ok_put:
  assumes "ui_ok cfg s" "i < length (contexts s)" "ctx_ok s c" "ctx_wants s c = ctx_wants s (contexts s ! i)"
  shows "ui_ok cfg (put_ctx i c s)"
proof (rule ui_ok_contexts [OF assms(1)])
  note d = ui_okD [OF assms(1)]
  have "demands (put_ctx i c s) = demands s" using demands_put [OF assms(2), of c] assms(4) by simp
  then show "tables_ok (put_ctx i c s)" using d(1) by (simp add: tables_ok_def)
  show "registry_ok (put_ctx i c s)" using registry_ok_put d(2) .
  fix c' assume "c' \<in> set (contexts (put_ctx i c s))"
  then show "ctx_ok s c'" using d(3) assms(3) set_update_subset_insert by fastforce
qed simp_all

lemma clear_at_ok:
  assumes "ui_ok cfg s" "i < length (contexts s)" "has_device_mappings (contexts s ! i)"
  shows "\<exists>dms. clear_at i s = Some (put_ctx i ((contexts s ! i)\<lparr>has_device_mappings := False\<rparr>) (s\<lparr>device_mappings := dms\<rparr>)) \<and>
    ui_ok cfg (put_ctx i ((contexts s ! i)\<lparr>has_device_mappings := False\<rparr>) (s\<lparr>device_mappings := dms\<rparr>))"
proof -
  note d = ui_okD [OF assms(1)]
  let ?c = "(contexts s ! i)\<lparr>has_device_mappings := False\<rparr>"
  have "ctx_known s (contexts s ! i)" using d(5) [OF assms(2)] assms(3) by (simp add: ctx_ok_def)
  from clear_at_Some [OF d(1) assms(2,3) this]
  obtain dms where c: "clear_at i s = Some (put_ctx i ?c (s\<lparr>device_mappings := dms\<rparr>))"
    "tables_ok (put_ctx i ?c (s\<lparr>device_mappings := dms\<rparr>))" by blast
  have "ui_ok cfg (put_ctx i ?c (s\<lparr>device_mappings := dms\<rparr>))"
  proof (rule ui_ok_contexts [OF assms(1) c(2)])
    show "registry_ok (put_ctx i ?c (s\<lparr>device_mappings := dms\<rparr>))" using d(2) by (simp add: registry_ok_def)
    have "ctx_ok s ?c" using d(5) [OF assms(2)] by (simp add: ctx_ok_def)
    then show "\<And>c'. c' \<in> set (contexts (put_ctx i ?c (s\<lparr>device_mappings := dms\<rparr>))) \<Longrightarrow> ctx_ok s c'"
      using d(3) set_update_subset_insert by fastforce
  qed simp_all
  then show ?thesis using c(1) by blast
qed

lemma set_at_ok:
  assumes "ui_ok cfg s" "i < length (contexts s)" "set_at i s = Some s'"
  shows "ui_ok cfg s' \<and> \<not> has_device_mappings (contexts s ! i) \<and>
    (\<exists>dms. s' = put_ctx i ((contexts s ! i)\<lparr>has_device_mappings := True\<rparr>) (s\<lparr>device_mappings := dms\<rparr>))"
proof -
  note d = ui_okD [OF assms(1)]
  let ?c = "(contexts s ! i)\<lparr>has_device_mappings := True\<rparr>"
  from set_at_Some [OF d(1) assms(2,3)]
  obtain dms where c: "\<not> has_device_mappings (contexts s ! i)" "ctx_known s (contexts s ! i)"
    "s' = put_ctx i ?c (s\<lparr>device_mappings := dms\<rparr>)" "tables_ok s'" by blast
  have "ui_ok cfg s'"
  proof (rule ui_ok_contexts [OF assms(1) c(4)])
    show "registry_ok s'" using d(2) c(3) by (simp add: registry_ok_def)
    have "ctx_ok s ?c" using d(5) [OF assms(2)] c(2) by (simp add: ctx_ok_def ctx_known_def current_def)
    then show "\<And>c'. c' \<in> set (contexts s') \<Longrightarrow> ctx_ok s c'"
      using d(3) c(3) set_update_subset_insert by fastforce
  qed (simp_all add: c(3))
  then show ?thesis using c(1,3) by blast
qed

end
