(* ===== verification/Hid_Messages.thy ===== *)
theory Hid_Messages
  imports Hid_Invariant
begin

text \<open>
  Every message of the users keeps the invariant of the context machine, as long as no filter is added to a mapping
  that is in use at that time.
\<close>

section \<open>Filters\<close>

text \<open>A collection has at most as many components of a type as its map has keys.\<close>

lemma component_count:
  assumes "col_inv cfg c as" "t < length as" "finite (dom (entry (tlookup (lookup c)) as))"
  shows "length (as ! t) \<le> card (dom (entry (tlookup (lookup c)) as))"
proof -
  note d = col_invD [OF assms(1)]
  let ?L = "tlookup (lookup c)"
  have L: "\<And>i. i < length (as ! t) \<Longrightarrow> ?L (snd (as ! t ! i)) = Some (slot_set t i)"
    using slots_matchD(4) [OF d(6) assms(2)] by blast
  have i: "slot_get_index (slot_set t i) = i" if "i < length (as ! t)" for i
    using d(5) [OF assms(2)] that by (intro slot_index_set) simp
  have "inj_on (\<lambda>i. snd (as ! t ! i)) {..<length (as ! t)}"
  proof (rule inj_onI)
    fix x y
    assume h: "x \<in> {..<length (as ! t)}" "y \<in> {..<length (as ! t)}" "snd (as ! t ! x) = snd (as ! t ! y)"
    then have "slot_set t x = slot_set t y" using L [of x] L [of y] by simp
    then show "x = y" using i h(1,2) by (metis lessThan_iff)
  qed
  moreover have "(\<lambda>i. snd (as ! t ! i)) ` {..<length (as ! t)} \<subseteq> dom (entry ?L as)"
    using L by (auto simp: entry_def)
  ultimately show ?thesis using card_inj_on_le assms(3) by fastforce
qed

lemma filter_key_inj: "1 \<le> f \<Longrightarrow> f < 2 ^ 31 \<Longrightarrow> 1 \<le> g \<Longrightarrow> g < 2 ^ 31 \<Longrightarrow> filter_key f = filter_key g \<longleftrightarrow> f = g"
  by (simp add: filter_key_def word_of_int_eq_iff take_bit_int_eq_self)

lemma filter_key_nonzero: "1 \<le> f \<Longrightarrow> f < 2 ^ 31 \<Longrightarrow> filter_key f \<noteq> 0"
  using word_of_int_eq_iff [of f 0, where 'a = 64] by (simp add: filter_key_def take_bit_int_eq_self)

lemma length_col_emplace: "col_emplace cfg t k x c = Some (r, c') \<Longrightarrow> length (arrays c') = length (arrays c)"
  by (auto simp: col_emplace_def Let_def split: if_splits option.splits prod.splits)

lemma filters_room:
  assumes "filters_hold cfg s M" "next_available_filter s \<le> 2 ^ 24" "t < 4"
  shows "col_room t (filters s)"
proof -
  obtain as where as: "col_inv cfg (filters s) as" "M = entry (tlookup (lookup (filters s))) as"
    using assms(1) by (auto simp: filters_hold_def col_rep_def)
  have l: "length (arrays (filters s)) = 4" "dom M \<subseteq> filter_key ` {1..<next_available_filter s}"
    using assms(1) by (simp_all add: filters_hold_def)
  have t: "t < length as" using col_invD(2) [OF as(1)] l(1) assms(3) by simp
  have "finite (dom M)" "card (dom M) \<le> nat (next_available_filter s - 1)"
    using l(2) card_image_le [of "{1..<next_available_filter s}" filter_key] finite_subset [OF l(2)]
      card_mono [OF _ l(2)] by auto
  then have "length (as ! t) < 2 ^ 24"
    using component_count [OF as(1) t] as(2) assms(1,2) by (simp add: filters_hold_def)
  then show ?thesis using va.len_law [OF col_invD(4) [OF as(1) t]] l(1) assms(3) by (simp add: col_room_def)
qed

lemma conforms_mono:
  "kinds_ok M n T fs \<Longrightarrow> n \<le> n' \<Longrightarrow> (\<And>k v. M k = Some v \<Longrightarrow> M' k = Some v) \<Longrightarrow> kinds_ok M' n' T fs"
  unfolding kinds_ok_def by fastforce

text \<open>A new filter is found under its key, and nothing that was found is lost.\<close>

lemma new_filter_ok:
  assumes "filters_hold cfg s M" "next_available_filter s \<le> 2 ^ 24" "new_filter cfg x s = Some (f, t)"
  shows "f = next_available_filter s \<and> (\<exists>fs. t = s\<lparr>next_available_filter := f + 1, filters := fs\<rparr>) \<and>
    filters_hold cfg t (M(filter_key f \<mapsto> (filter_type x, x)))"
proof -
  note h = assms(1) [unfolded filters_hold_def]
  obtain i fs where e: "f = next_available_filter s" "f + 1 < 2 ^ 31"
    "col_emplace cfg (filter_type x) (filter_key f) x (filters s) = Some (Some i, fs)"
    "t = s\<lparr>next_available_filter := f + 1, filters := fs\<rparr>"
    using assms(3) by (auto simp: new_filter_def Let_def split: if_splits)
  have f: "1 \<le> f" "f < 2 ^ 31" using h e(1,2) by auto
  have "filter_type x < 4" by (cases x) simp_all
  then have "col_room (filter_type x) (filters s)" using filters_room assms(1,2) by blast
  then have M: "M (filter_key f) = None" "col_rep cfg fs (M(filter_key f \<mapsto> (filter_type x, x)))"
    using cm.add_law [of cfg "filters s" M "filter_key f" "filter_type x" x] h filter_key_nonzero [OF f] e(3) by auto
  have keep: "kinds_ok (M(filter_key f \<mapsto> (filter_type x, x))) (f + 1) T gs" if "kinds_ok M f T gs" for T gs
    by (rule conforms_mono [OF that]) (use M(1) in auto)
  have "filters_hold cfg t (M(filter_key f \<mapsto> (filter_type x, x)))"
    unfolding filters_hold_def
  proof (intro conjI ballI)
    show "dom (M(filter_key f \<mapsto> (filter_type x, x))) \<subseteq> filter_key ` {1..<next_available_filter t}" using h e(1,4) f by auto
    show "\<forall>k u y. (M(filter_key f \<mapsto> (filter_type x, x))) k = Some (u, y) \<longrightarrow> u = filter_type y" using h by auto
    fix m assume "m \<in> set (mappings t)"
    then have "kinds_ok M f {2, 3} (map_buttons m)" "kinds_ok M f {0, 1} (map_axes m)" using h e(1,4) by auto
    then show "kinds_ok (M(filter_key f \<mapsto> (filter_type x, x))) (next_available_filter t) {2, 3} (map_buttons m)"
      "kinds_ok (M(filter_key f \<mapsto> (filter_type x, x))) (next_available_filter t) {0, 1} (map_axes m)"
      using keep e(4) by simp_all
  qed (use h e M(2) length_col_emplace [OF e(3)] f in simp_all)
  then show ?thesis using e(1,4) by blast
qed

section \<open>Mappings in use\<close>

definition ctx_uses :: "ctx \<Rightarrow> token set" where
  "ctx_uses c = (if has_device_mappings c \<and> ctx_devices c \<noteq> [] then set (sm_mappings (current c)) else {})"

definition in_use :: "ui \<Rightarrow> token set" where
  "in_use s = (\<Union>c \<in> set (contexts s). ctx_uses c)"

text \<open>A mapping changes, or a new one comes, which no context has in use.\<close>

lemma position_append: "x \<in> set xs \<Longrightarrow> position (\<lambda>y. y = x) (xs @ ys) = position (\<lambda>y. y = x) xs"
  by (induction xs) auto

lemma ctx_wants_unused:
  assumes "ctx_ok s c" "ctx_uses c \<inter> {m} = {}"
    and "\<And>x. x \<in> set (mapping_entities s) \<Longrightarrow> find_mapping x t = find_mapping x s"
    and "\<And>x k. x \<noteq> m \<Longrightarrow> find_mapping x s = Some k \<Longrightarrow> mappings t ! k = mappings s ! k"
  shows "ctx_wants t c = ctx_wants s c"
proof (cases "has_device_mappings c \<and> ctx_devices c \<noteq> []")
  case True
  have "bound_wants t (current c) j = bound_wants s (current c) j" if j: "j < length (sm_mappings (current c))" for j
  proof -
    have "sm_mappings (current c) ! j \<noteq> m" using assms(2) True j nth_mem by (fastforce simp: ctx_uses_def)
    moreover have "sm_mappings (current c) ! j \<in> set (mapping_entities s)"
      using assms(1) True j nth_mem by (fastforce simp: ctx_ok_def ctx_known_def state_known_def)
    ultimately show ?thesis using assms(3,4) by (auto simp: bound_wants_def split: option.split)
  qed
  then have "state_wants t (current c) = state_wants s (current c)"
    unfolding state_wants_def by (intro arg_cong [of _ _ sum_list] map_cong) simp_all
  then show ?thesis by (simp add: ctx_wants_def)
qed (auto simp: ctx_wants_def)

lemma add_or_find_mapping_ok:
  assumes "registry_ok s" "add_or_find_mapping m s = (i, t)"
  shows "i < length (mappings t)" "mapping_entities t ! i = m" "\<exists>es ms. t = s\<lparr>mapping_entities := es, mappings := ms\<rparr>"
    "registry_ok t" "\<And>x. x \<in> set (mapping_entities s) \<Longrightarrow> find_mapping x t = find_mapping x s"
    "\<And>k. k < length (mappings s) \<Longrightarrow> mappings t ! k = mappings s ! k" "set (mappings t) \<subseteq> {mapping_new} \<union> set (mappings s)"
    "set (mapping_entities s) \<subseteq> set (mapping_entities t)"
proof -
  have n: "distinct (mapping_entities s)" "length (mappings s) = length (mapping_entities s)" using assms(1) by (simp_all add: registry_ok_def)
  have "i < length (mappings t) \<and> mapping_entities t ! i = m \<and> (\<exists>es ms. t = s\<lparr>mapping_entities := es, mappings := ms\<rparr>) \<and>
    registry_ok t \<and> (\<forall>x \<in> set (mapping_entities s). find_mapping x t = find_mapping x s) \<and>
    (\<forall>k < length (mappings s). mappings t ! k = mappings s ! k) \<and> set (mappings t) \<subseteq> {mapping_new} \<union> set (mappings s) \<and>
    set (mapping_entities s) \<subseteq> set (mapping_entities t)"
  proof (cases "find_mapping m s")
    case None
    then show ?thesis
      using assms n find_mapping_None [of m s] position_append
      by (auto simp: add_or_find_mapping_def registry_ok_def find_mapping_def nth_append mapping_ok_def mapping_new_def
          intro!: exI [of _ "mapping_entities s @ [m]"] exI [of _ "mappings s @ [mapping_new]"])
  next
    case (Some k)
    then have "i = k" "t = s" using assms(2) by (simp_all add: add_or_find_mapping_def)
    moreover have "k < length (mappings s)" "mapping_entities s ! k = m"
      using position_Some Some n(2) by (fastforce simp: find_mapping_def)+
    moreover have "s = s\<lparr>mapping_entities := mapping_entities s, mappings := mappings s\<rparr>" by simp
    ultimately show ?thesis using assms(1) by blast
  qed
  then show "i < length (mappings t)" "mapping_entities t ! i = m" "\<exists>es ms. t = s\<lparr>mapping_entities := es, mappings := ms\<rparr>"
    "registry_ok t" "\<And>x. x \<in> set (mapping_entities s) \<Longrightarrow> find_mapping x t = find_mapping x s"
    "\<And>k. k < length (mappings s) \<Longrightarrow> mappings t ! k = mappings s ! k" "set (mappings t) \<subseteq> {mapping_new} \<union> set (mappings s)"
    "set (mapping_entities s) \<subseteq> set (mapping_entities t)"
    by blast+
qed


lemma map_entry_ok:
  assumes "ui_ok cfg s" "add_or_find_mapping m s = (i, u)" "m \<notin> in_use s" "mapping_ok p"
    "t = u\<lparr>mappings := (mappings u)[i := p]\<rparr>" "filters_hold cfg t M"
  shows "ui_ok cfg t \<and> in_use t = in_use s"
proof -
  note d = ui_okD [OF assms(1)]
  note u = add_or_find_mapping_ok [OF d(2) assms(2)]
  have mu: "find_mapping x t = find_mapping x s" if "x \<in> set (mapping_entities s)" for x
    using u(5) [OF that] assms(5) by (simp add: find_mapping_def)
  have lm: "length (mappings s) = length (mapping_entities s)" "length (mappings u) = length (mapping_entities u)"
    "distinct (mapping_entities u)" using d(2) u(4) by (simp_all add: registry_ok_def)
  have mk: "mappings t ! k = mappings s ! k" if x: "x \<noteq> m" "find_mapping x s = Some k" for x k
  proof -
    have k: "k < length (mapping_entities s)" "mapping_entities s ! k = x"
      using position_Some x(2) by (fastforce simp: find_mapping_def)+
    then have "find_mapping x u = Some k" using u(5) x(2) nth_mem by metis
    then have "mapping_entities u ! k = x" using position_Some by (fastforce simp: find_mapping_def)
    then have "k \<noteq> i" using u(2) x(1) by auto
    then show ?thesis using u(6) k lm(1) assms(5) by simp
  qed
  obtain es ms where es: "t = s\<lparr>mapping_entities := es, mappings := ms\<rparr>" using u(3) assms(5) by auto
  have sub: "set (mapping_entities s) \<subseteq> set (mapping_entities t)" using u(8) assms(5) by simp
  have w: "ctx_wants t c = ctx_wants s c" if c: "c \<in> set (contexts s)" for c
    by (rule ctx_wants_unused [OF d(3) [OF c] _ mu mk]) (use assms(3) c in \<open>auto simp: in_use_def\<close>)
  have "demands t = demands s"
    unfolding demands_def using es w by (intro arg_cong [of _ _ sum_list]) (simp add: map_eq_conv)
  then have "tables_ok t" using d(1) es by (simp add: tables_ok_def)
  moreover have "registry_ok t" using u(1,4) assms(4,5) set_update_subset_insert by (fastforce simp: registry_ok_def)
  moreover have "\<forall>c \<in> set (contexts t). ctx_ok t c"
    using d(3) es sub by (fastforce simp: ctx_ok_def ctx_known_def state_known_def)
  ultimately have "ui_ok cfg t" using assms(6) by (auto simp: ui_ok_def)
  then show ?thesis using es by (simp add: in_use_def)
qed

text \<open>The kinds of filter a place of a mapping takes.\<close>

lemma conforms_update:
  assumes "kinds_ok M n T fs" "M (filter_key f) = Some (filter_type x, x)" "filter_type x \<in> T" "1 \<le> f" "f < n"
  shows "kinds_ok M n T (fs[i := f])"
  unfolding kinds_ok_def
proof (intro ballI impI)
  fix g assume g: "g \<in> set (fs[i := f])" "g \<noteq> 0"
  then have "g = f \<or> g \<in> set fs" using set_update_subset_insert [of fs i f] by blast
  then show "1 \<le> g \<and> g < n \<and> (\<exists>x. M (filter_key g) = Some (filter_type x, x) \<and> filter_type x \<in> T)"
    using assms g(2) unfolding kinds_ok_def by blast
qed

lemma conforms_zero: "kinds_ok M n T (replicate k 0)"
  by (simp add: kinds_ok_def)

lemma filters_hold_mappings:
  assumes "filters_hold cfg s M" "registry_ok s" "add_or_find_mapping m s = (i, u)" "q \<in> set (mappings u)"
  shows "kinds_ok M (next_available_filter s) {2, 3} (map_buttons q)" "kinds_ok M (next_available_filter s) {0, 1} (map_axes q)"
  using add_or_find_mapping_ok(7) [OF assms(2,3)] assms(1,4) conforms_zero
  by (auto simp: filters_hold_def mapping_new_def)

lemma filters_hold_entry:
  assumes "filters_hold cfg s M" "registry_ok s" "add_or_find_mapping m s = (i, u)"
    "kinds_ok M (next_available_filter s) {2, 3} (map_buttons p)" "kinds_ok M (next_available_filter s) {0, 1} (map_axes p)"
  shows "filters_hold cfg (u\<lparr>mappings := (mappings u)[i := p]\<rparr>) M"
proof -
  obtain es ms where es: "u = s\<lparr>mapping_entities := es, mappings := ms\<rparr>"
    using add_or_find_mapping_ok(3) [OF assms(2,3)] by blast
  have "kinds_ok M (next_available_filter s) {2, 3} (map_buttons q) \<and> kinds_ok M (next_available_filter s) {0, 1} (map_axes q)"
    if "q \<in> set ((mappings u)[i := p])" for q
  proof -
    have "q = p \<or> q \<in> set (mappings u)" using that set_update_subset_insert [of "mappings u" i p] by blast
    then show ?thesis using assms(4,5) filters_hold_mappings [OF assms(1-3)] by blast
  qed
  then show ?thesis using assms(1) es by (simp add: filters_hold_def)
qed

section \<open>Adding a filter to a mapping\<close>

definition adds_to :: "ui_message \<Rightarrow> token option" where
  "adds_to msg = (case msg of
     AddAxisMove m _ _ _ \<Rightarrow> Some m
   | AddAxisTilt m _ _ _ \<Rightarrow> Some m
   | AddButtonPress m _ _ \<Rightarrow> Some m
   | AddButtonRelease m _ _ \<Rightarrow> Some m
   | _ \<Rightarrow> None)"

lemma new_filter_ui:
  assumes "ui_ok cfg s" "next_available_filter s \<le> 2 ^ 24" "new_filter cfg x s = Some (f, t)"
  shows "ui_ok cfg t" "in_use t = in_use s" "next_available_filter t = next_available_filter s + 1"
    "\<exists>M. filters_hold cfg t M \<and> M (filter_key f) = Some (filter_type x, x)" "1 \<le> f" "f < next_available_filter t"
proof -
  note d = ui_okD [OF assms(1)]
  obtain M where M: "filters_hold cfg s M" using d(4) by blast
  note n = new_filter_ok [OF M assms(2,3)]
  obtain fs where t: "t = s\<lparr>next_available_filter := f + 1, filters := fs\<rparr>" using n by blast
  have "demands t = demands s" using wants_cong(2) [of t s] t by (simp add: demands_def)
  then have "tables_ok t" using d(1) t by (simp add: tables_ok_def)
  moreover have "ctx_ok t = ctx_ok s" using t by (intro ctx_ok_cong) simp_all
  ultimately show "ui_ok cfg t" using d(2,3) n t by (auto simp: ui_ok_def registry_ok_def)
  show "in_use t = in_use s" "next_available_filter t = next_available_filter s + 1" using t n by (simp_all add: in_use_def)
  show "\<exists>M. filters_hold cfg t M \<and> M (filter_key f) = Some (filter_type x, x)" using n by (metis fun_upd_same)
  show "1 \<le> f" "f < next_available_filter t" using n M t by (simp_all add: filters_hold_def)
qed

lemma map_button_ok:
  assumes "ui_ok cfg s" "filters_hold cfg s M" "M (filter_key f) = Some (filter_type x, x)" "filter_type x \<in> {2, 3}"
    "1 \<le> f" "f < next_available_filter s" "m \<notin> in_use s" "map_button m code f s = Some t"
  shows "ui_ok cfg t \<and> in_use t = in_use s \<and> next_available_filter t = next_available_filter s"
proof -
  note d = ui_okD [OF assms(1)]
  obtain i u where u: "add_or_find_mapping m s = (i, u)" by fastforce
  note a = add_or_find_mapping_ok [OF d(2) u]
  let ?q = "mappings u ! i"
  let ?p = "?q\<lparr>map_buttons := (map_buttons ?q)[code := f]\<rparr>"
  have t: "t = u\<lparr>mappings := (mappings u)[i := ?p]\<rparr>" using assms(8) u by (auto simp: map_button_def Let_def split: if_splits)
  have q: "?q \<in> set (mappings u)" using a(1) by simp
  note c = filters_hold_mappings [OF assms(2) d(2) u q]
  have "filters_hold cfg t M"
    unfolding t by (rule filters_hold_entry [OF assms(2) d(2) u]) (use conforms_update [OF c(1) assms(3-6)] c(2) in simp_all)
  moreover have "mapping_ok ?p" using a(4) q by (simp add: registry_ok_def mapping_ok_def)
  ultimately show ?thesis using map_entry_ok [OF assms(1) u assms(7) _ t] a(3) t by auto
qed

lemma map_axis_ok:
  assumes "ui_ok cfg s" "filters_hold cfg s M" "M (filter_key f) = Some (filter_type x, x)" "filter_type x \<in> {0, 1}"
    "1 \<le> f" "f < next_available_filter s" "m \<notin> in_use s" "map_axis m code f s = Some t"
  shows "ui_ok cfg t \<and> in_use t = in_use s \<and> next_available_filter t = next_available_filter s"
proof -
  note d = ui_okD [OF assms(1)]
  obtain i u where u: "add_or_find_mapping m s = (i, u)" by fastforce
  note a = add_or_find_mapping_ok [OF d(2) u]
  let ?q = "mappings u ! i"
  let ?p = "?q\<lparr>map_axes := (map_axes ?q)[code := f]\<rparr>"
  have t: "t = u\<lparr>mappings := (mappings u)[i := ?p]\<rparr>" using assms(8) u by (auto simp: map_axis_def Let_def split: if_splits)
  have q: "?q \<in> set (mappings u)" using a(1) by simp
  note c = filters_hold_mappings [OF assms(2) d(2) u q]
  have "filters_hold cfg t M"
    unfolding t by (rule filters_hold_entry [OF assms(2) d(2) u]) (use conforms_update [OF c(2) assms(3-6)] c(1) in simp_all)
  moreover have "mapping_ok ?p" using a(4) q by (simp add: registry_ok_def mapping_ok_def)
  ultimately show ?thesis using map_entry_ok [OF assms(1) u assms(7) _ t] a(3) t by auto
qed

section \<open>Messages about contexts\<close>

lemma find_context_Some: "registry_ok s \<Longrightarrow> find_context a s = Some i \<Longrightarrow> i < length (contexts s) \<and> context_assets s ! i = a"
  using position_Some by (fastforce simp: find_context_def registry_ok_def)

lemma put_ctx_same [simp]: "put_ctx i (contexts s ! i) s = s"
  by (simp add: put_ctx_def)

text \<open>The context at \<open>i\<close> is cleared: \<open>t\<close> is \<open>s\<close> with other tables and the context marked.\<close>

lemma clear_if_set_ok:
  assumes "ui_ok cfg s" "i < length (contexts s)"
  shows "\<exists>dms. clear_if_set i s = Some (put_ctx i ((contexts s ! i)\<lparr>has_device_mappings := False\<rparr>) (s\<lparr>device_mappings := dms\<rparr>)) \<and>
    ui_ok cfg (put_ctx i ((contexts s ! i)\<lparr>has_device_mappings := False\<rparr>) (s\<lparr>device_mappings := dms\<rparr>))"
proof (cases "has_device_mappings (contexts s ! i)")
  case True
  then show ?thesis using clear_at_ok [OF assms] by (simp add: clear_if_set_def)
next
  case False
  then have same: "(contexts s ! i)\<lparr>has_device_mappings := False\<rparr> = contexts s ! i" by simp
  show ?thesis unfolding same using False assms(1) by (intro exI [of _ "device_mappings s"]) (simp add: clear_if_set_def)
qed

lemma clear_if_active_ok:
  assumes "ui_ok cfg s" "i < length (contexts s)"
  shows "\<exists>c dms. clear_if_active i st s = Some (put_ctx i c (s\<lparr>device_mappings := dms\<rparr>)) \<and>
    ui_ok cfg (put_ctx i c (s\<lparr>device_mappings := dms\<rparr>)) \<and> (has_device_mappings c \<longrightarrow> ctx_states c ! active c \<noteq> st) \<and>
    (c = contexts s ! i \<or> c = (contexts s ! i)\<lparr>has_device_mappings := False\<rparr>)"
proof (cases "has_device_mappings (contexts s ! i) \<and> ctx_states (contexts s ! i) ! active (contexts s ! i) = st")
  case True
  then obtain dms where
    "clear_at i s = Some (put_ctx i ((contexts s ! i)\<lparr>has_device_mappings := False\<rparr>) (s\<lparr>device_mappings := dms\<rparr>))"
    "ui_ok cfg (put_ctx i ((contexts s ! i)\<lparr>has_device_mappings := False\<rparr>) (s\<lparr>device_mappings := dms\<rparr>))"
    using clear_at_ok [OF assms] by blast
  then show ?thesis using True
    by (intro exI [of _ "(contexts s ! i)\<lparr>has_device_mappings := False\<rparr>"] exI [of _ dms]) (simp add: clear_if_active_def)
next
  case False
  then show ?thesis using assms(1)
    by (intro exI [of _ "contexts s ! i"] exI [of _ "device_mappings s"]) (auto simp: clear_if_active_def Let_def)
qed

lemma in_use_put: "ctx_uses c \<subseteq> in_use s \<Longrightarrow> in_use (put_ctx i c s) \<subseteq> in_use s"
  using set_update_subset_insert [of "contexts s" i c] unfolding in_use_def put_ctx_simps by blast

lemma in_use_tables [simp]: "in_use (s\<lparr>device_mappings := dms\<rparr>) = in_use s"
  by (simp add: in_use_def)

lemma in_use_member: "i < length (contexts s) \<Longrightarrow> ctx_uses (contexts s ! i) \<subseteq> in_use s"
  using nth_mem [of i "contexts s"] unfolding in_use_def by blast

text \<open>What a method may do to its context: it stays well-formed, keeps its demands, and uses no other mapping.\<close>

definition harmless :: "ui \<Rightarrow> ctx \<Rightarrow> ctx \<Rightarrow> bool" where
  "harmless s c c' \<longleftrightarrow> ctx_ok s c' \<and> ctx_wants s c' = ctx_wants s c \<and> ctx_uses c' \<subseteq> ctx_uses c"

lemma modify_at_ok:
  assumes "ui_ok cfg s" "i < length (contexts s)" "modify_at i f s = Some t"
    "\<And>c'. f (contexts s ! i) = Some c' \<Longrightarrow> harmless s (contexts s ! i) c'"
  shows "ui_ok cfg t \<and> in_use t \<subseteq> in_use s \<and> next_available_filter t = next_available_filter s \<and>
    length (contexts t) = length (contexts s)"
proof -
  obtain c' where c: "f (contexts s ! i) = Some c'" "t = put_ctx i c' s" using assms(3) by (auto simp: modify_at_def)
  then have h: "harmless s (contexts s ! i) c'" using assms(4) by blast
  then have "ctx_uses c' \<subseteq> in_use s" using in_use_member [OF assms(2)] by (auto simp: harmless_def)
  from in_use_put [OF this] show ?thesis
    using ui_ok_put [OF assms(1,2), of c'] h c(2) by (simp add: harmless_def)
qed

lemma harmless_unset:
  "\<not> has_device_mappings c \<Longrightarrow> \<not> has_device_mappings c' \<Longrightarrow> ctx_ok s c' \<Longrightarrow> harmless s c c'"
  by (simp add: harmless_def ctx_wants_def ctx_uses_def)

lemma add_device_harmless: "ctx_ok s c \<Longrightarrow> ctx_add_device s d c = Some c' \<Longrightarrow> harmless s c c'"
  by (rule harmless_unset) (auto simp: ctx_add_device_def ctx_ok_def split: if_splits)

lemma remove_device_harmless: 
  assumes "ctx_ok s c" "ctx_remove_device s d c = Some c'"
  shows "harmless s c c'"
proof (rule harmless_unset)
  obtain j where j: "\<not> has_device_mappings c" "position (\<lambda>x. x = d) (ctx_devices c) = Some j"
    "c' = c\<lparr>ctx_devices := erase_at j (ctx_devices c)\<rparr>" using assms(2) by (auto simp: ctx_remove_device_def split: if_splits)
  then show "\<not> has_device_mappings c" "\<not> has_device_mappings c'" by simp_all
  have l: "j < length (ctx_devices c)" using position_Some [OF j(2)] by blast
  have "distinct (ctx_devices c)" using assms(1) by (simp add: ctx_ok_def)
  note e = set_erase_at [OF this l] distinct_erase_at [OF this l]
  have "set (erase_at j (ctx_devices c)) \<subseteq> set (devices s)" using assms(1) e(1) by (auto simp: ctx_ok_def)
  then show "ctx_ok s c'" using assms(1) j e(2) by (simp add: ctx_ok_def)
qed

lemma set_active_harmless: "ctx_ok s c \<Longrightarrow> set_active st c = Some c' \<Longrightarrow> harmless s c c'"
  using position_Some by (intro harmless_unset) (fastforce simp: set_active_def find_state_def ctx_ok_def split: if_splits)+

lemma sm_update_harmless:
  assumes "ctx_ok s c" "find_state st c = Some i" "\<not> (has_device_mappings c \<and> st = ctx_states c ! active c)" "sm_ok sm"
  shows "harmless s c (c\<lparr>state_mappings := (state_mappings c)[i := sm]\<rparr>)" (is "harmless s c ?c")
proof -
  have "ctx_states c ! i = st" using position_Some assms(2) by (fastforce simp: find_state_def)
  then have cur: "current ?c = current c" if "has_device_mappings c"
    using assms(3) that by (cases "i = active c") (auto simp: current_def)
  have "\<forall>x \<in> set ((state_mappings c)[i := sm]). sm_ok x"
    using assms(1,4) set_update_subset_insert [of "state_mappings c" i sm] by (auto simp: ctx_ok_def)
  then show ?thesis using assms(1) cur by (auto simp: harmless_def ctx_ok_def ctx_known_def ctx_wants_def ctx_uses_def)
qed

lemma find_state_below: "ctx_ok s c \<Longrightarrow> find_state st c = Some i \<Longrightarrow> state_mappings c ! i \<in> set (state_mappings c)"
  using position_Some by (fastforce simp: find_state_def ctx_ok_def)

lemma add_mapping_harmless:
  assumes "ctx_ok s c" "add_mapping st m callback data c = Some c'"
  shows "harmless s c c'"
proof -
  obtain i where i: "find_state st c = Some i" "\<not> (has_device_mappings c \<and> st = ctx_states c ! active c)"
    "m \<notin> set (sm_mappings (state_mappings c ! i))"
    "c' = c\<lparr>state_mappings := (state_mappings c)[i := \<lparr>sm_mappings = sm_mappings (state_mappings c ! i) @ [m],
      sm_callbacks = sm_callbacks (state_mappings c ! i) @ [callback], sm_datas = sm_datas (state_mappings c ! i) @ [data]\<rparr>]\<rparr>"
    using assms(2) by (auto simp: add_mapping_def Let_def split: if_splits)
  have "sm_ok (state_mappings c ! i)" using find_state_below [OF assms(1) i(1)] assms(1) by (simp add: ctx_ok_def)
  then show ?thesis unfolding i(4) using i(3) by (intro sm_update_harmless [OF assms(1) i(1,2)]) (simp add: sm_ok_def)
qed

lemma remove_mapping_harmless:
  assumes "ctx_ok s c" "remove_mapping st m c = Some c'"
  shows "harmless s c c'"
proof -
  obtain i j where i: "find_state st c = Some i" "\<not> (has_device_mappings c \<and> st = ctx_states c ! active c)"
    "position (\<lambda>x. x = m) (sm_mappings (state_mappings c ! i)) = Some j"
    "c' = c\<lparr>state_mappings := (state_mappings c)[i := \<lparr>sm_mappings = erase_at j (sm_mappings (state_mappings c ! i)),
      sm_callbacks = erase_at j (sm_callbacks (state_mappings c ! i)), sm_datas = erase_at j (sm_datas (state_mappings c ! i))\<rparr>]\<rparr>"
    using assms(2) by (auto simp: remove_mapping_def Let_def split: if_splits)
  have "sm_ok (state_mappings c ! i)" using find_state_below [OF assms(1) i(1)] assms(1) by (simp add: ctx_ok_def)
  moreover have "j < length (sm_mappings (state_mappings c ! i))" using position_Some [OF i(3)] by blast
  ultimately show ?thesis
    unfolding i(4) by (intro sm_update_harmless [OF assms(1) i(1,2)]) (simp add: sm_ok_def distinct_erase_at)
qed

section \<open>Contexts come and go\<close>

lemma ctx_new_ok:
  assumes "ctx_new sts = Some c"
  shows "ctx_ok s c" "\<not> has_device_mappings c" "ctx_wants s c = {#}" "ctx_uses c = {}"
  using assms by (auto simp: ctx_new_def ctx_ok_def ctx_wants_def ctx_uses_def sm_ok_def split: if_splits)

lemma add_context_ok:
  assumes "ui_ok cfg s" "add_context a sts s = Some t"
  shows "ui_ok cfg t" "in_use t = in_use s" "next_available_filter t = next_available_filter s"
    "context_assets t = context_assets s @ [a]" "mappings t = mappings s"
    "\<exists>c. contexts t = contexts s @ [c] \<and> \<not> has_device_mappings c"
proof -
  note d = ui_okD [OF assms(1)]
  obtain c where c: "a \<notin> set (context_assets s)" "ctx_new sts = Some c"
    "t = s\<lparr>context_assets := context_assets s @ [a], contexts := contexts s @ [c]\<rparr>"
    using assms(2) by (auto simp: add_context_def split: if_splits)
  note n = ctx_new_ok [OF c(2)]
  have "demands t = demands s" using wants_cong(2) [of t s] c(3) n(3) by (simp add: demands_def)
  then have "tables_ok t" using d(1) c(3) by (simp add: tables_ok_def)
  then show "ui_ok cfg t"
    by (rule ui_ok_contexts [OF assms(1)]) (use d(2,3) n(1) c in \<open>auto simp: registry_ok_def\<close>)
  show "in_use t = in_use s" using c(3) n(4) by (auto simp: in_use_def)
  show "next_available_filter t = next_available_filter s" "context_assets t = context_assets s @ [a]" "mappings t = mappings s"
    "\<exists>c. contexts t = contexts s @ [c] \<and> \<not> has_device_mappings c" using c(3) n(2) by simp_all
qed

definition kept :: "col_cfg \<Rightarrow> ui \<Rightarrow> ui \<Rightarrow> bool" where
  "kept cfg s t \<longleftrightarrow> ui_ok cfg t \<and> in_use t \<subseteq> in_use s \<and> next_available_filter t \<le> next_available_filter s + 1"

lemma ui_ok_default:
  assumes "ui_ok cfg s" "a = 0 \<or> a \<in> set (context_assets s)"
  shows "ui_ok cfg (s\<lparr>default_context := a\<rparr>)" "in_use (s\<lparr>default_context := a\<rparr>) = in_use s"
proof -
  note d = ui_okD [OF assms(1)]
  have "demands (s\<lparr>default_context := a\<rparr>) = demands s" using wants_cong(2) [of "s\<lparr>default_context := a\<rparr>" s] by (simp add: demands_def)
  then have "tables_ok (s\<lparr>default_context := a\<rparr>)" using d(1) by (simp add: tables_ok_def)
  then show "ui_ok cfg (s\<lparr>default_context := a\<rparr>)"
    by (rule ui_ok_contexts [OF assms(1)]) (use d(2,3) assms(2) in \<open>auto simp: registry_ok_def\<close>)
qed (simp add: in_use_def)

lemma add_devices_ok:
  assumes "ui_ok cfg s" "i < length (contexts s)" "fold_opt (\<lambda>d s. modify_at i (ctx_add_device s d) s) ds s = Some t"
  shows "ui_ok cfg t \<and> in_use t \<subseteq> in_use s \<and> next_available_filter t = next_available_filter s"
proof -
  let ?I = "\<lambda>t. ui_ok cfg t \<and> in_use t \<subseteq> in_use s \<and> next_available_filter t = next_available_filter s \<and>
    length (contexts t) = length (contexts s)"
  have "?I t"
  proof (rule fold_opt_invariant [OF assms(3), where I = ?I])
    fix d u v
    assume h: "?I u" "modify_at i (ctx_add_device u d) u = Some v"
    then have i: "i < length (contexts u)" using assms(2) by simp
    have "ctx_ok u (contexts u ! i)" using ui_okD(5) h(1) i by blast
    then have "ui_ok cfg v \<and> in_use v \<subseteq> in_use u \<and> next_available_filter v = next_available_filter u \<and>
        length (contexts v) = length (contexts u)"
      using modify_at_ok [OF _ i h(2)] add_device_harmless h(1) by blast
    then show "?I v" using h(1) by auto
  qed (use assms(1) in simp)
  then show ?thesis by simp
qed

lemma process_add_context_ok:
  assumes "ui_ok cfg s" "process_add_context a sts s = Some t"
  shows "kept cfg s t"
proof -
  obtain u where u: "add_context a sts s = Some u" using assms(2) by (auto simp: process_add_context_def Let_def)
  note c = add_context_ok [OF assms(1) u]
  show ?thesis
  proof (cases "context_assets s = []")
    case True
    let ?u = "u\<lparr>default_context := a\<rparr>"
    have uu: "ui_ok cfg ?u" "in_use ?u = in_use s" using ui_ok_default [OF c(1), of a] c(2,4) by auto
    obtain i where i: "find_context a ?u = Some i" "fold_opt (\<lambda>d s. modify_at i (ctx_add_device s d) s) (devices ?u) ?u = Some t"
      using assms(2) u True by (auto simp: process_add_context_def Let_def split: if_splits)
    have "i < length (contexts ?u)" using find_context_Some [OF ui_okD(2) [OF uu(1)] i(1)] by blast
    from add_devices_ok [OF uu(1) this i(2)] show ?thesis using uu(2) c(3) by (simp add: kept_def)
  next
    case False
    then have "t = u" using assms(2) u by (auto simp: process_add_context_def Let_def)
    then show ?thesis using c(1-3) by (simp add: kept_def)
  qed
qed

lemma remove_context_ok:
  assumes "ui_ok cfg s" "remove_context a s = Some t" "find_context a s = Some i" "\<not> has_device_mappings (contexts s ! i)"
  shows "ui_ok cfg t" "in_use t \<subseteq> in_use s" "next_available_filter t = next_available_filter s"
proof -
  note d = ui_okD [OF assms(1)]
  have i: "i < length (contexts s)" "i < length (context_assets s)" "context_assets s ! i = a"
    using find_context_Some [OF d(2) assms(3)] d(2) by (simp_all add: registry_ok_def)
  have t: "t = s\<lparr>contexts := erase_at i (contexts s), context_assets := erase_at i (context_assets s)\<rparr>" "a \<noteq> default_context s"
    using assms(2,3) by (auto simp: remove_context_def split: if_splits)
  have m: "mset (contexts t) = mset (contexts s) - {#contexts s ! i#}" using mset_erase_at [OF i(1)] t(1) by simp
  have sub: "set (contexts t) \<subseteq> set (contexts s)" using m by (metis diff_subset_eq_self set_mset_mono set_mset_mset)
  have "ctx_wants s (contexts s ! i) = {#}" using assms(4) by (simp add: ctx_wants_def)
  then have "demands t = demands s"
    using wants_cong(2) [of t s] m t(1) i(1)
    by (simp add: demands_def sum_mset_sum_list [symmetric] image_mset_Diff sum_mset_diff)
  then have "tables_ok t" using d(1) t(1) by (simp add: tables_ok_def)
  then show "ui_ok cfg t"
  proof (rule ui_ok_contexts [OF assms(1)])
    have "distinct (context_assets s)" using d(2) by (simp add: registry_ok_def)
    note e = set_erase_at [OF this i(2)] distinct_erase_at [OF this i(2)]
    then show "registry_ok t" using d(2) t i(3) by (simp add: registry_ok_def)
  qed (use t(1) sub d(3) in auto)
  show "in_use t \<subseteq> in_use s" using sub by (auto simp: in_use_def)
  show "next_available_filter t = next_available_filter s" using t(1) by simp
qed

lemma process_remove_context_ok:
  assumes "ui_ok cfg s" "process_remove_context a s = Some t"
  shows "kept cfg s t"
proof -
  obtain i u v where i: "find_context a s = Some i" and u: "clear_if_set i s = Some u" and
    v: "remove_context a (if a = default_context u then u\<lparr>default_context := 0\<rparr> else u) = Some v" and
    t: "t = (if a = default_context u \<and> context_assets v \<noteq> [] then v\<lparr>default_context := hd (context_assets v)\<rparr> else v)"
    using assms(2) by (auto simp: process_remove_context_def Let_def)
  have l: "i < length (contexts s)" using find_context_Some [OF ui_okD(2) [OF assms(1)] i] by blast
  obtain dms where dms: "u = put_ctx i ((contexts s ! i)\<lparr>has_device_mappings := False\<rparr>) (s\<lparr>device_mappings := dms\<rparr>)" "ui_ok cfg u"
    using clear_if_set_ok [OF assms(1) l] u by auto
  define w where "w = (if a = default_context u then u\<lparr>default_context := 0\<rparr> else u)"
  have w: "ui_ok cfg w" "contexts w = contexts u" "context_assets w = context_assets s" "in_use w = in_use u"
    "next_available_filter w = next_available_filter s"
    using ui_ok_default [OF dms(2), of 0] dms by (auto simp: w_def)
  have "ctx_uses ((contexts s ! i)\<lparr>has_device_mappings := False\<rparr>) = {}" by (simp add: ctx_uses_def)
  then have use: "in_use u \<subseteq> in_use s"
    using in_use_put [of "(contexts s ! i)\<lparr>has_device_mappings := False\<rparr>" "s\<lparr>device_mappings := dms\<rparr>" i] dms(1) by simp
  have fw: "find_context a w = Some i" using i w(3) by (simp add: find_context_def)
  have "\<not> has_device_mappings (contexts w ! i)" using w(2) dms(1) l by simp
  note r = remove_context_ok [OF w(1) v [folded w_def] fw this]
  have "ui_ok cfg t" "in_use t = in_use v" "next_available_filter t = next_available_filter v"
    using ui_ok_default [OF r(1), of "hd (context_assets v)"] r(1) by (auto simp: t)
  then show ?thesis using r use w(4,5) by (auto simp: kept_def)
qed

section \<open>Every message\<close>

lemma cleared_modify:
  assumes "ui_ok cfg s" "i < length (contexts s)" "u = put_ctx i c (s\<lparr>device_mappings := dms\<rparr>)" "ui_ok cfg u"
    "c = contexts s ! i \<or> c = (contexts s ! i)\<lparr>has_device_mappings := False\<rparr>" "modify_at i f u = Some t"
    "\<And>c'. ctx_ok u c \<Longrightarrow> f c = Some c' \<Longrightarrow> harmless u c c'"
  shows "kept cfg s t"
proof -
  have l: "i < length (contexts u)" "contexts u ! i = c" using assms(2,3) by simp_all
  have "ctx_ok u c" using ui_okD(5) [OF assms(4) l(1)] l(2) by simp
  then have m: "ui_ok cfg t" "in_use t \<subseteq> in_use u" "next_available_filter t = next_available_filter u"
    using modify_at_ok [OF assms(4) l(1) assms(6)] assms(7) l(2) by auto
  have "ctx_uses c \<subseteq> ctx_uses (contexts s ! i)" using assms(5) by (auto simp: ctx_uses_def current_def)
  then have "ctx_uses c \<subseteq> in_use (s\<lparr>device_mappings := dms\<rparr>)" using in_use_member [OF assms(2)] by simp
  from in_use_put [OF this] have "in_use u \<subseteq> in_use s" using assms(3) by simp
  then show ?thesis using m assms(3) by (auto simp: kept_def)
qed

lemma set_modify:
  assumes "ui_ok cfg s" "find_context a s = Some i" "clear_if_set i s = Some u" "modify_at i f u = Some t"
    "\<And>c c'. ctx_ok u c \<Longrightarrow> f c = Some c' \<Longrightarrow> harmless u c c'"
  shows "kept cfg s t"
proof -
  have l: "i < length (contexts s)" using find_context_Some [OF ui_okD(2) [OF assms(1)] assms(2)] by blast
  obtain dms where "u = put_ctx i ((contexts s ! i)\<lparr>has_device_mappings := False\<rparr>) (s\<lparr>device_mappings := dms\<rparr>)" "ui_ok cfg u"
    using clear_if_set_ok [OF assms(1) l] assms(3) by auto
  then show ?thesis using cleared_modify [OF assms(1) l _ _ _ assms(4) assms(5)] by blast
qed

lemma active_modify:
  assumes "ui_ok cfg s" "find_context a s = Some i" "clear_if_active i st s = Some u" "modify_at i f u = Some t"
    "\<And>c c'. ctx_ok u c \<Longrightarrow> f c = Some c' \<Longrightarrow> harmless u c c'"
  shows "kept cfg s t"
proof -
  have l: "i < length (contexts s)" using find_context_Some [OF ui_okD(2) [OF assms(1)] assms(2)] by blast
  obtain c dms where "u = put_ctx i c (s\<lparr>device_mappings := dms\<rparr>)" "ui_ok cfg u"
    "c = contexts s ! i \<or> c = (contexts s ! i)\<lparr>has_device_mappings := False\<rparr>"
    using clear_if_active_ok [OF assms(1) l, of st] assms(3) by auto
  then show ?thesis using cleared_modify [OF assms(1) l _ _ _ assms(4) assms(5)] by blast
qed

lemma ui_ok_log: "ui_ok cfg s \<Longrightarrow> ui_ok cfg (s\<lparr>log_of := es\<rparr>) \<and> in_use (s\<lparr>log_of := es\<rparr>) = in_use s"
proof -
  assume s: "ui_ok cfg s"
  note d = ui_okD [OF s]
  have "demands (s\<lparr>log_of := es\<rparr>) = demands s" using wants_cong(2) [of "s\<lparr>log_of := es\<rparr>" s] by (simp add: demands_def)
  then have "tables_ok (s\<lparr>log_of := es\<rparr>)" using d(1) by (simp add: tables_ok_def)
  then have "ui_ok cfg (s\<lparr>log_of := es\<rparr>)"
    by (rule ui_ok_contexts [OF s]) (use d(2,3) in \<open>auto simp: registry_ok_def\<close>)
  then show ?thesis by (simp add: in_use_def)
qed

lemma add_button_kept:
  assumes "ui_ok cfg s" "next_available_filter s \<le> 2 ^ 24" "m \<notin> in_use s" "filter_type x \<in> {2, 3}"
    "new_filter cfg x s = Some (f, u)" "map_button m code f u = Some t"
  shows "kept cfg s t"
proof -
  note n = new_filter_ui [OF assms(1,2,5)]
  obtain M where "filters_hold cfg u M" "M (filter_key f) = Some (filter_type x, x)" using n(4) by blast
  from map_button_ok [OF n(1) this assms(4) n(5,6) _ assms(6)] show ?thesis using n(2,3) assms(3) by (simp add: kept_def)
qed

lemma add_axis_kept:
  assumes "ui_ok cfg s" "next_available_filter s \<le> 2 ^ 24" "m \<notin> in_use s" "filter_type x \<in> {0, 1}"
    "new_filter cfg x s = Some (f, u)" "map_axis m code f u = Some t"
  shows "kept cfg s t"
proof -
  note n = new_filter_ui [OF assms(1,2,5)]
  obtain M where "filters_hold cfg u M" "M (filter_key f) = Some (filter_type x, x)" using n(4) by blast
  from map_axis_ok [OF n(1) this assms(4) n(5,6) _ assms(6)] show ?thesis using n(2,3) assms(3) by (simp add: kept_def)
qed

lemma process_message_kept:
  assumes "ui_ok cfg s" "next_available_filter s \<le> 2 ^ 24" "\<And>m. adds_to msg = Some m \<Longrightarrow> m \<notin> in_use s"
    "process_ui cfg msg s = Some t"
  shows "kept cfg s t"
proof (cases msg)
  case (AddAxisMove m code x y)
  then show ?thesis using assms add_axis_kept [OF assms(1,2), of m "AxisMove x y" _ _ code t] by (auto simp: adds_to_def)
next
  case (AddAxisTilt m code x y)
  then show ?thesis using assms add_axis_kept [OF assms(1,2), of m "AxisTilt x y" _ _ code t] by (auto simp: adds_to_def)
next
  case (AddButtonPress m code x)
  then show ?thesis using assms add_button_kept [OF assms(1,2), of m "ButtonPress x" _ _ code t] by (auto simp: adds_to_def)
next
  case (AddButtonRelease m code x)
  then show ?thesis using assms add_button_kept [OF assms(1,2), of m "ButtonRelease x" _ _ code t] by (auto simp: adds_to_def)
next
  case (AddContext a sts)
  then show ?thesis using assms process_add_context_ok by simp
next
  case (AddDevice a d)
  then show ?thesis using assms(4) set_modify [OF assms(1)] add_device_harmless by fastforce
next
  case (Bind a st m callback data)
  then show ?thesis using assms(4) active_modify [OF assms(1)] add_mapping_harmless by fastforce
next
  case (QueryContexts n)
  then have "t = s\<lparr>log_of := log_of s @ [AnswerContexts n (query_contexts s)]\<rparr>" using assms(4) by simp
  then show ?thesis using ui_ok_log [OF assms(1)] by (simp add: kept_def)
next
  case (QueryDevices n)
  then have "t = s\<lparr>log_of := log_of s @ [AnswerDevices n (query_devices s)]\<rparr>" using assms(4) by simp
  then show ?thesis using ui_ok_log [OF assms(1)] by (simp add: kept_def)
next
  case (RemoveContext a)
  then show ?thesis using assms process_remove_context_ok by simp
next
  case (RemoveDevice a d)
  then show ?thesis using assms(4) set_modify [OF assms(1)] remove_device_harmless by fastforce
next
  case (SetState a st)
  then show ?thesis using assms(4) set_modify [OF assms(1)] set_active_harmless by fastforce
next
  case (Unbind a st m)
  then show ?thesis using assms(4) active_modify [OF assms(1)] remove_mapping_harmless by fastforce
qed

lemma process_messages_kept:
  assumes "ui_ok cfg s" "next_available_filter s + int (length msgs) \<le> 2 ^ 24"
    "\<forall>msg \<in> set msgs. \<forall>m. adds_to msg = Some m \<longrightarrow> m \<notin> in_use s" "fold_opt (process_ui cfg) msgs s = Some t"
  shows "ui_ok cfg t \<and> in_use t \<subseteq> in_use s"
  using assms
proof (induction msgs arbitrary: s)
  case (Cons msg msgs)
  obtain u where u: "process_ui cfg msg s = Some u" "fold_opt (process_ui cfg) msgs u = Some t" using Cons.prems(4) by auto
  have "next_available_filter s \<le> 2 ^ 24" using Cons.prems(2) by simp
  then have k: "kept cfg s u" using process_message_kept [OF Cons.prems(1) _ _ u(1)] Cons.prems(3) by simp
  have "ui_ok cfg t \<and> in_use t \<subseteq> in_use u"
    using Cons.IH [of u] k Cons.prems(2,3) u(2) by (auto simp: kept_def)
  then show ?case using k by (auto simp: kept_def)
qed simp

end
