(* ===== verification/Hid_Inputs.thy ===== *)
theory Hid_Inputs
  imports Hid_Messages
begin

text \<open>
  After the messages of the users the mappings of all contexts are set, and the messages of the devices are processed
  while they stay so: devices come and go, and inputs are looked up.
\<close>

section \<open>All contexts are set\<close>

definition all_set :: "ui \<Rightarrow> bool" where
  "all_set s \<longleftrightarrow> (\<forall>c \<in> set (contexts s). has_device_mappings c)"

lemma fold_opt_append: "fold_opt f (xs @ ys) s = Option.bind (fold_opt f xs s) (fold_opt f ys)"
  by (induction xs arbitrary: s) (simp_all split: bind_split)

lemma set_if_unset_ok:
  assumes "ui_ok cfg s" "i < length (contexts s)" "set_if_unset i s = Some t"
  shows "ui_ok cfg t" "\<exists>dms. t = put_ctx i ((contexts s ! i)\<lparr>has_device_mappings := True\<rparr>) (s\<lparr>device_mappings := dms\<rparr>)"
proof -
  have "ui_ok cfg t \<and> (\<exists>dms. t = put_ctx i ((contexts s ! i)\<lparr>has_device_mappings := True\<rparr>) (s\<lparr>device_mappings := dms\<rparr>))"
  proof (cases "has_device_mappings (contexts s ! i)")
    case True
    then have "(contexts s ! i)\<lparr>has_device_mappings := True\<rparr> = contexts s ! i" by simp
    then show ?thesis using assms True by (intro conjI exI [of _ "device_mappings s"]) (simp_all only: set_if_unset_def if_True option.inject, simp)
  next
    case False
    then show ?thesis using set_at_ok [OF assms(1,2)] assms(3) by (auto simp: set_if_unset_def)
  qed
  then show "ui_ok cfg t" "\<exists>dms. t = put_ctx i ((contexts s ! i)\<lparr>has_device_mappings := True\<rparr>) (s\<lparr>device_mappings := dms\<rparr>)"
    by blast+
qed

lemma set_all_upto:
  assumes "ui_ok cfg s" "n \<le> length (contexts s)" "fold_opt set_if_unset [0..<n] s = Some t"
  shows "ui_ok cfg t \<and> (\<forall>i < n. has_device_mappings (contexts t ! i)) \<and>
    (\<exists>dms cs. t = s\<lparr>device_mappings := dms, contexts := cs\<rparr> \<and> map (has_device_mappings_update (\<lambda>_. True)) cs =
      map (has_device_mappings_update (\<lambda>_. True)) (contexts s))"
  using assms
proof (induction n arbitrary: t)
  case 0
  then have "t = s" by simp
  then show ?case using 0 by (intro conjI exI [of _ "device_mappings s"] exI [of _ "contexts s"]) simp_all
next
  case (Suc n)
  obtain u where u: "fold_opt set_if_unset [0..<n] s = Some u" "set_if_unset n u = Some t"
    using Suc.prems(3) by (auto simp: fold_opt_append)
  obtain dms cs where i: "ui_ok cfg u" "\<forall>i < n. has_device_mappings (contexts u ! i)"
    "u = s\<lparr>device_mappings := dms, contexts := cs\<rparr>"
    "map (has_device_mappings_update (\<lambda>_. True)) cs = map (has_device_mappings_update (\<lambda>_. True)) (contexts s)"
    using Suc.IH [OF Suc.prems(1) _ u(1)] Suc.prems(2) by auto
  have l: "length cs = length (contexts s)" using i(4) map_eq_imp_length_eq by blast
  then have n: "n < length (contexts u)" using i(3) Suc.prems(2) by simp
  note o = set_if_unset_ok [OF i(1) n u(2)]
  obtain dms' where t: "t = put_ctx n ((contexts u ! n)\<lparr>has_device_mappings := True\<rparr>) (u\<lparr>device_mappings := dms'\<rparr>)" using o(2) by blast
  have "map (has_device_mappings_update (\<lambda>_. True)) (contexts t) = map (has_device_mappings_update (\<lambda>_. True)) (contexts u)"
    using t n by (simp add: map_update list_update_same_conv)
  moreover have "\<forall>i < Suc n. has_device_mappings (contexts t ! i)" using i(2) t n by (auto simp: nth_list_update less_Suc_eq)
  moreover have "t = s\<lparr>device_mappings := dms', contexts := contexts t\<rparr>" using t i(3) by (simp add: put_ctx_def)
  ultimately show ?case using o(1) i(3,4) by auto
qed

lemma set_all_ok:
  assumes "ui_ok cfg s" "set_all s = Some t"
  shows "ui_ok cfg t" "all_set t"
    "\<exists>dms cs. t = s\<lparr>device_mappings := dms, contexts := cs\<rparr> \<and> map (has_device_mappings_update (\<lambda>_. True)) cs =
      map (has_device_mappings_update (\<lambda>_. True)) (contexts s)"
proof -
  note u = set_all_upto [OF assms(1) order.refl assms(2) [unfolded set_all_def]]
  then show "ui_ok cfg t"
    "\<exists>dms cs. t = s\<lparr>device_mappings := dms, contexts := cs\<rparr> \<and> map (has_device_mappings_update (\<lambda>_. True)) cs =
      map (has_device_mappings_update (\<lambda>_. True)) (contexts s)" by blast+
  have "length (contexts t) = length (contexts s)" using u map_eq_imp_length_eq by auto
  then show "all_set t" using u by (auto simp: all_set_def in_set_conv_nth)
qed

section \<open>Devices come\<close>

lemma in_sum_list: "p \<in># sum_list (map f xs) \<longleftrightarrow> (\<exists>x \<in> set xs. p \<in># f x)"
  by (induction xs) auto

lemma ctx_wants_devices: "ctx_ok s c \<Longrightarrow> p \<in># ctx_wants s c \<Longrightarrow> fst p \<in> set (ctx_devices c)"
  by (auto simp: ctx_wants_def in_sum_list split: if_splits)

lemma demands_devices: "ui_ok cfg s \<Longrightarrow> p \<in># demands s \<Longrightarrow> fst p \<in> set (devices s)"
proof -
  assume s: "ui_ok cfg s" and "p \<in># demands s"
  then obtain c where c: "c \<in> set (contexts s)" "p \<in># ctx_wants s c" by (auto simp: demands_def in_sum_list)
  have "ctx_ok s c" using ui_okD(3) [OF s c(1)] .
  then show ?thesis using ctx_wants_devices [OF _ c(2)] by (auto simp: ctx_ok_def)
qed

lemma row_new_holds: "row_holds n (row_new n) {#}"
  by (simp add: row_holds_def row_new_def cell_holds_def)

lemma add_device_ok:
  assumes "ui_ok cfg s" "add_device d s = Some t"
  shows "ui_ok cfg t" "d \<notin> set (devices s)" "devices t = devices s @ [d]" "contexts t = contexts s"
    "demands t = demands s" "context_assets t = context_assets s" "default_context t = default_context s"
    "mappings t = mappings s" "mapping_entities t = mapping_entities s" "filters t = filters s" "in_use t = in_use s"
    "next_available_filter t = next_available_filter s"
proof -
  note d = ui_okD [OF assms(1)]
  have t: "d \<notin> set (devices s)" "t = s\<lparr>devices := devices s @ [d], device_mappings := device_mappings s @ [device_mapping_new],
       device_sources := device_sources s @ [[]]\<rparr>"
    using assms(2) by (auto simp: add_device_def split: if_splits)
  then show "d \<notin> set (devices s)" "devices t = devices s @ [d]" "contexts t = contexts s"
    "context_assets t = context_assets s" "default_context t = default_context s"
    "mappings t = mappings s" "mapping_entities t = mapping_entities s" "filters t = filters s" "in_use t = in_use s"
    "next_available_filter t = next_available_filter s" by (simp_all add: in_use_def)
  show dem: "demands t = demands s" using wants_cong(2) [of t s] t(2) by (simp add: demands_def)
  have none: "pick d (demands s) = {#}" using demands_devices [OF assms(1)] t(1) by (intro pick_absent) blast
  have "tables_ok t"
    using d(1) t dem none row_new_holds
    by (auto simp: tables_ok_def tables_hold_def nth_append less_Suc_eq dm_holds_def device_mapping_new_def)
  moreover have "registry_ok t" using d(2) t(2) by (simp add: registry_ok_def)
  moreover have "ctx_ok t c" if "ctx_ok s c" for c using that t(2) by (auto simp: ctx_ok_def ctx_known_def state_known_def)
  moreover have "filters_hold cfg t = filters_hold cfg s" using t(2) by (intro filters_hold_cong) simp_all
  ultimately show "ui_ok cfg t" using d(3,4) t(2) by (auto simp: ui_ok_def)
qed

text \<open>A context is cleared, changed and set again.\<close>

definition reset_at :: "nat \<Rightarrow> (ui \<Rightarrow> ctx \<Rightarrow> ctx option) \<Rightarrow> ui \<Rightarrow> ui option" where
  "reset_at i f s = do { s \<leftarrow> clear_at i s; s \<leftarrow> modify_at i (f s) s; set_at i s }"

lemma reset_at_ok:
  assumes "ui_ok cfg s" "i < length (contexts s)" "all_set s" "reset_at i f s = Some t"
    "\<And>u c c'. devices u = devices s \<Longrightarrow> ctx_ok u c \<Longrightarrow> f u c = Some c' \<Longrightarrow> harmless u c c'"
  shows "ui_ok cfg t \<and> all_set t \<and> (\<exists>dms u c'. devices u = devices s \<and>
    f u ((contexts s ! i)\<lparr>has_device_mappings := False\<rparr>) = Some c' \<and>
    t = put_ctx i (c'\<lparr>has_device_mappings := True\<rparr>) (s\<lparr>device_mappings := dms\<rparr>))"
proof -
  let ?c = "(contexts s ! i)\<lparr>has_device_mappings := False\<rparr>"
  have h: "has_device_mappings (contexts s ! i)" using assms(2,3) by (simp add: all_set_def)
  obtain u v where uv: "clear_at i s = Some u" "modify_at i (f u) u = Some v" "set_at i v = Some t"
    using assms(4) by (auto simp: reset_at_def)
  obtain dms where u: "u = put_ctx i ?c (s\<lparr>device_mappings := dms\<rparr>)" "ui_ok cfg u"
    using clear_at_ok [OF assms(1,2) h] uv(1) by auto
  have l: "i < length (contexts u)" "contexts u ! i = ?c" "devices u = devices s" using u(1) assms(2) by simp_all
  obtain c' where c': "f u ?c = Some c'" "v = put_ctx i c' u" using uv(2) l(2) by (auto simp: modify_at_def)
  have "ctx_ok u ?c" using ui_okD(5) [OF u(2) l(1)] l(2) by simp
  then have v: "ui_ok cfg v" "length (contexts v) = length (contexts u)"
    using modify_at_ok [OF u(2) l(1) uv(2)] assms(5) [OF l(3)] l(2) by auto
  then have lv: "i < length (contexts v)" "contexts v ! i = c'" using l(1) c'(2) by simp_all
  obtain dms' where t: "ui_ok cfg t" "t = put_ctx i (c'\<lparr>has_device_mappings := True\<rparr>) (v\<lparr>device_mappings := dms'\<rparr>)"
    using set_at_ok [OF v(1) lv(1) uv(3)] lv(2) by auto
  have tt: "t = put_ctx i (c'\<lparr>has_device_mappings := True\<rparr>) (s\<lparr>device_mappings := dms'\<rparr>)"
    using t(2) c'(2) u(1) by (simp add: put_ctx_def)
  have "all_set t" using assms(3) tt set_update_subset_insert by (fastforce simp: all_set_def)
  then show ?thesis using t(1) tt c'(1) l(3) by blast
qed

lemma device_found_ok:
  assumes "ui_ok cfg s" "all_set s" "device_found d s = Some t"
  shows "ui_ok cfg t \<and> all_set t"
proof -
  obtain u where u: "add_device d s = Some u" using assms(3) by (auto simp: device_found_def)
  note a = add_device_ok [OF assms(1) u]
  show ?thesis
  proof (cases "default_context u = 0")
    case True
    then have "t = u" using assms(3) u by (simp add: device_found_def)
    then show ?thesis using a(1,4) assms(2) by (simp add: all_set_def)
  next
    case False
    then obtain i where i: "find_context (default_context u) u = Some i" "reset_at i (\<lambda>s. ctx_add_device s d) u = Some t"
      using assms(3) u by (auto simp: device_found_def reset_at_def)
    have l: "i < length (contexts u)" using find_context_Some [OF ui_okD(2) [OF a(1)] i(1)] by blast
    have "all_set u" using a(4) assms(2) by (simp add: all_set_def)
    from reset_at_ok [OF a(1) l this i(2)] show ?thesis using add_device_harmless by blast
  qed
qed

section \<open>Devices go\<close>

lemma leave_device_ok:
  assumes "ui_ok cfg s" "all_set s" "i < length (contexts s)" "leave_device d i s = Some t"
  shows "ui_ok cfg t \<and> all_set t \<and> (\<exists>dms c. t = put_ctx i c (s\<lparr>device_mappings := dms\<rparr>) \<and> d \<notin> set (ctx_devices c) \<and>
    set (ctx_devices c) \<subseteq> set (ctx_devices (contexts s ! i)))"
proof (cases "d \<in> set (ctx_devices (contexts s ! i))")
  case False
  then have "t = s" using assms(4) by (auto simp: leave_device_def ctx_has_device_def split: if_splits)
  then show ?thesis using assms(1,2) False
    by (intro conjI exI [of _ "device_mappings s"] exI [of _ "contexts s ! i"]) simp_all
next
  case True
  then have r: "reset_at i (\<lambda>s. ctx_remove_device s d) s = Some t"
    using assms(4) by (auto simp: leave_device_def ctx_has_device_def reset_at_def split: if_splits)
  obtain dms u c' where c': "ui_ok cfg t" "all_set t"
    "ctx_remove_device u d ((contexts s ! i)\<lparr>has_device_mappings := False\<rparr>) = Some c'"
    "t = put_ctx i (c'\<lparr>has_device_mappings := True\<rparr>) (s\<lparr>device_mappings := dms\<rparr>)"
    using reset_at_ok [OF assms(1,3,2) r] remove_device_harmless by blast
  have dist: "distinct (ctx_devices (contexts s ! i))" using ui_okD(5) [OF assms(1,3)] by (simp add: ctx_ok_def)
  obtain j where j: "position (\<lambda>x. x = d) (ctx_devices (contexts s ! i)) = Some j"
    "ctx_devices c' = erase_at j (ctx_devices (contexts s ! i))"
    using c'(3) by (auto simp: ctx_remove_device_def split: if_splits)
  have "set (ctx_devices c') = set (ctx_devices (contexts s ! i)) - {d}"
    using set_erase_at [OF dist] position_Some [OF j(1)] j(2) by simp
  then show ?thesis using c'(1,2,4) by (intro conjI exI [of _ dms] exI [of _ "c'\<lparr>has_device_mappings := True\<rparr>"]) auto
qed

lemma leave_all_ok:
  assumes "ui_ok cfg s" "all_set s" "n \<le> length (contexts s)" "fold_opt (leave_device d) [0..<n] s = Some t"
  shows "ui_ok cfg t \<and> all_set t \<and> (\<forall>i < n. d \<notin> set (ctx_devices (contexts t ! i))) \<and> length (contexts t) = length (contexts s) \<and>
    devices t = devices s \<and> (\<exists>dms cs. t = s\<lparr>device_mappings := dms, contexts := cs\<rparr>)"
  using assms
proof (induction n arbitrary: t)
  case 0
  then have "t = s" by simp
  then show ?case using 0 by (intro conjI exI [of _ "device_mappings s"] exI [of _ "contexts s"]) simp_all
next
  case (Suc n)
  obtain u where u: "fold_opt (leave_device d) [0..<n] s = Some u" "leave_device d n u = Some t"
    using Suc.prems(4) by (auto simp: fold_opt_append)
  then have i: "ui_ok cfg u" "all_set u" "\<forall>i < n. d \<notin> set (ctx_devices (contexts u ! i))" "length (contexts u) = length (contexts s)"
    "devices u = devices s" "\<exists>dms cs. u = s\<lparr>device_mappings := dms, contexts := cs\<rparr>"
    using Suc.IH [OF Suc.prems(1,2) _ u(1)] Suc.prems(3) by auto
  have n: "n < length (contexts u)" using i(4) Suc.prems(3) by simp
  obtain dms c where t: "ui_ok cfg t" "all_set t" "t = put_ctx n c (u\<lparr>device_mappings := dms\<rparr>)" "d \<notin> set (ctx_devices c)"
    using leave_device_ok [OF i(1,2) n u(2)] by blast
  have "\<forall>i < Suc n. d \<notin> set (ctx_devices (contexts t ! i))" using i(3) t(3,4) n by (auto simp: nth_list_update less_Suc_eq)
  moreover obtain dms' cs where "u = s\<lparr>device_mappings := dms', contexts := cs\<rparr>" using i(6) by blast
  then have "t = s\<lparr>device_mappings := dms, contexts := contexts t\<rparr>" using t(3) by (simp add: put_ctx_def)
  then have "\<exists>dms cs. t = s\<lparr>device_mappings := dms, contexts := cs\<rparr>" by blast
  ultimately show ?case using t(1-3) i(4,5) by simp
qed

lemma remove_device_ok:
  assumes "ui_ok cfg s" "remove_device d s = Some t" "\<forall>c \<in> set (contexts s). d \<notin> set (ctx_devices c)"
  shows "ui_ok cfg t" "contexts t = contexts s" "set (devices t) = set (devices s) - {d}"
proof -
  note d = ui_okD [OF assms(1)]
  obtain i where i: "find_device d s = Some i" "t = s\<lparr>device_sources := erase_at i (device_sources s),
      device_mappings := erase_at i (device_mappings s), devices := erase_at i (devices s)\<rparr>"
    using assms(2) by (auto simp: remove_device_def)
  note id = find_device_Some [OF i(1)]
  have th: "tables_hold (devices s) (device_mappings s) (demands s)" using d(1) by (simp add: tables_ok_def)
  have dist: "distinct (devices s)" "length (device_mappings s) = length (devices s)" using th by (simp_all add: tables_hold_def)
  show dev: "set (devices t) = set (devices s) - {d}" using set_erase_at [OF dist(1)] id i(2) by simp
  show "contexts t = contexts s" using i(2) by simp
  have dem: "demands t = demands s" using wants_cong(2) [of t s] i(2) by (simp add: demands_def)
  have "dm_holds (device_mappings t ! k) (pick (devices t ! k) (demands s))" if k: "k < length (devices t)" for k
  proof -
    have l: "k < length (devices s) - 1" using k i(2) by simp
    have "devices s \<noteq> []" "device_mappings s \<noteq> []" using dist(2) id by auto
    then have last: "last (devices s) = devices s ! (length (devices s) - 1)"
      "last (device_mappings s) = device_mappings s ! (length (devices s) - 1)"
      using dist(2) by (simp_all add: last_conv_nth)
    have "devices t ! k = devices s ! (if k = i then length (devices s) - 1 else k)"
      "device_mappings t ! k = device_mappings s ! (if k = i then length (devices s) - 1 else k)"
      using nth_erase_at [of i "devices s" k] nth_erase_at [of i "device_mappings s" k] l id i(2) dist(2) last by auto
    then show ?thesis using th l by (simp add: tables_hold_def)
  qed
  then have "tables_ok t" using dem dist i(2) distinct_erase_at [OF dist(1)] id by (simp add: tables_ok_def tables_hold_def)
  moreover have "registry_ok t" using d(2) i(2) by (simp add: registry_ok_def)
  moreover have "ctx_ok t c" if "c \<in> set (contexts s)" for c
  proof -
    have "set (ctx_devices c) \<subseteq> set (devices t)" using d(3) [OF that] assms(3) that dev by (auto simp: ctx_ok_def)
    then show ?thesis using d(3) [OF that] i(2) by (auto simp: ctx_ok_def ctx_known_def state_known_def)
  qed
  moreover have "filters_hold cfg t = filters_hold cfg s" using i(2) by (intro filters_hold_cong) simp_all
  ultimately show "ui_ok cfg t" using d(4) i(2) by (auto simp: ui_ok_def)
qed

lemma device_lost_ok:
  assumes "ui_ok cfg s" "all_set s" "device_lost d s = Some t"
  shows "ui_ok cfg t" "all_set t" "set (devices t) = set (devices s) - {d}" "\<forall>c \<in> set (contexts t). d \<notin> set (ctx_devices c)"
proof -
  obtain u where u: "fold_opt (leave_device d) [0..<length (contexts s)] s = Some u" "remove_device d u = Some t"
    using assms(3) by (auto simp: device_lost_def)
  note l = leave_all_ok [OF assms(1,2) order.refl u(1)]
  then have none: "\<forall>c \<in> set (contexts u). d \<notin> set (ctx_devices c)" by (simp add: all_set_conv_all_nth)
  note r = remove_device_ok [OF _ u(2) none]
  show "ui_ok cfg t" "all_set t" "set (devices t) = set (devices s) - {d}" "\<forall>c \<in> set (contexts t). d \<notin> set (ctx_devices c)"
    using l r none by (auto simp: all_set_def)
qed

section \<open>Every message of the devices\<close>

lemma ui_ok_sources:
  assumes "ui_ok cfg s" "length ss = length (device_sources s)"
  shows "ui_ok cfg (s\<lparr>device_sources := ss\<rparr>)"
proof -
  note d = ui_okD [OF assms(1)]
  have "demands (s\<lparr>device_sources := ss\<rparr>) = demands s" using wants_cong(2) [of "s\<lparr>device_sources := ss\<rparr>" s] by (simp add: demands_def)
  then have "tables_ok (s\<lparr>device_sources := ss\<rparr>)" using d(1) by (simp add: tables_ok_def)
  then show ?thesis by (rule ui_ok_contexts [OF assms(1)]) (use d(2,3) assms(2) in \<open>auto simp: registry_ok_def\<close>)
qed

lemma call_filter_log: "call_filter h r i s = Some t \<Longrightarrow> \<exists>es. t = s\<lparr>log_of := log_of s @ es\<rparr>"
  by (auto simp: call_filter_def split: if_splits option.splits intro: exI [of _ "[]"])

lemma process_value_log: "process_value inp s = Some t \<Longrightarrow> \<exists>es. t = s\<lparr>log_of := log_of s @ es\<rparr>"
  by (cases "getState inp") (auto simp: process_value_def Let_def dest!: call_filter_log intro: exI [of _ "[]"])

lemma process_input_kept:
  assumes "ui_ok cfg s" "all_set s" "process_input msg s = Some t"
  shows "ui_ok cfg t \<and> all_set t"
proof (cases msg)
  case (DeviceFound d)
  then show ?thesis using device_found_ok [OF assms(1,2)] assms(3) by simp
next
  case (DeviceLost d)
  then show ?thesis using device_lost_ok(1,2) [OF assms(1,2)] assms(3) by simp
next
  case (AddSource d ty p n)
  then show ?thesis using assms ui_ok_sources [OF assms(1)]
    by (auto simp: add_source_def all_set_def split: if_splits)
next
  case (RemoveSource d p)
  then show ?thesis using assms ui_ok_sources [OF assms(1)] by (auto simp: remove_source_def all_set_def)
next
  case (Input inp)
  then show ?thesis using assms process_value_log [of inp s t] ui_ok_log [OF assms(1)] by (auto simp: all_set_def)
qed

lemma ui_ok_dimension:
  assumes "ui_ok cfg s"
  shows "ui_ok cfg (s\<lparr>dimension := x\<rparr>)" "in_use (s\<lparr>dimension := x\<rparr>) = in_use s"
proof -
  note d = ui_okD [OF assms(1)]
  have "demands (s\<lparr>dimension := x\<rparr>) = demands s" using wants_cong(2) [of "s\<lparr>dimension := x\<rparr>" s] by (simp add: demands_def)
  then have "tables_ok (s\<lparr>dimension := x\<rparr>)" using d(1) by (simp add: tables_ok_def)
  then show "ui_ok cfg (s\<lparr>dimension := x\<rparr>)" by (rule ui_ok_contexts [OF assms(1)]) (use d(2,3) in \<open>auto simp: registry_ok_def\<close>)
qed (simp add: in_use_def)

text \<open>A list of messages that adds no filter to a mapping in use, and at most so many filters that a slot of the
  collection can count them.\<close>

definition timely :: "ui \<Rightarrow> ui_message list \<Rightarrow> bool" where
  "timely s msgs \<longleftrightarrow> next_available_filter s + int (length msgs) \<le> 2 ^ 24 \<and>
     (\<forall>msg \<in> set msgs. \<forall>m. adds_to msg = Some m \<longrightarrow> m \<notin> in_use s)"

lemma ui_update_ok:
  assumes "ui_ok cfg s" "timely s msgs" "ui_update cfg dim msgs inputs s = Some t"
  shows "ui_ok cfg t \<and> all_set t"
proof -
  define s0 where "s0 = (case dim of None \<Rightarrow> s | Some d \<Rightarrow> s\<lparr>dimension := d\<rparr>)"
  have s0: "ui_ok cfg s0" "in_use s0 = in_use s" "next_available_filter s0 = next_available_filter s"
    using assms(1) ui_ok_dimension [OF assms(1)] by (simp_all add: s0_def split: option.split)
  obtain u v where u: "fold_opt (process_ui cfg) msgs s0 = Some u" and v: "set_all u = Some v" and
    t: "fold_opt process_input inputs v = Some t"
    using assms(3) by (auto simp: ui_update_def Let_def s0_def)
  have "ui_ok cfg u" using process_messages_kept [OF s0(1) _ _ u] assms(2) s0(2,3) by (simp add: timely_def)
  note v' = set_all_ok [OF this v]
  show ?thesis
    by (rule fold_opt_invariant [OF t, where I = "\<lambda>t. ui_ok cfg t \<and> all_set t"]) (use v'(1,2) process_input_kept in blast)+
qed

end
