(* ===== verification/Hid_Behaviour.thy ===== *)
theory Hid_Behaviour
  imports Hid_Inputs
begin

text \<open>
  What the users of the context machine may rely on, in every state that updates can lead to: which callback an input
  reaches, what a message does to the mappings, that devices leave without a trace, and when a message fails an
  assertion; and two ways in which correct use leads to undefined behaviour.
\<close>

section \<open>The mappings as a map\<close>

text \<open>The filter under a key, read as a call of the collection does.\<close>

definition filter_of :: "ui \<Rightarrow> int \<Rightarrow> filter option" where
  "filter_of s f = map_option fst (col_call (\<lambda>t k x. (x, x)) (col_find (filter_key f) (filters s)) (filters s))"

definition button_of :: "ui \<Rightarrow> token \<Rightarrow> button \<Rightarrow> int" where
  "button_of s m b = (case find_mapping m s of None \<Rightarrow> 0 | Some k \<Rightarrow> map_buttons (mappings s ! k) ! b)"

definition axis_of :: "ui \<Rightarrow> token \<Rightarrow> axis \<Rightarrow> int" where
  "axis_of s m a = (case find_mapping m s of None \<Rightarrow> 0 | Some k \<Rightarrow> map_axes (mappings s ! k) ! a)"

definition button_filter :: "ui \<Rightarrow> token \<Rightarrow> button \<Rightarrow> filter option" where
  "button_filter s m b = (if button_of s m b = 0 then None else filter_of s (button_of s m b))"

definition axis_filter :: "ui \<Rightarrow> token \<Rightarrow> axis \<Rightarrow> filter option" where
  "axis_filter s m a = (if axis_of s m a = 0 then None else filter_of s (axis_of s m a))"

lemma filter_found:
  assumes "filters_hold cfg s M" "M (filter_key f) = Some (t, x)" "1 \<le> f" "f < next_available_filter s"
  shows "\<exists>b c. col_find (filter_key f) (filters s) = Some b \<and>
    col_call h (Some b) (filters s) = Some (snd (h (filter_type x) (filter_key f) x), c)" "filter_of s f = Some x"
proof -
  obtain as where as: "col_inv cfg (filters s) as" "M = entry (tlookup (lookup (filters s))) as"
    using assms(1) by (auto simp: filters_hold_def col_rep_def)
  have k: "filter_key f \<noteq> 0" using filter_key_nonzero assms(1,3,4) by (simp add: filters_hold_def)
  obtain b where b: "col_find (filter_key f) (filters s) = Some b" using col_find_entry [OF as(1) k] assms(2) as(2) by auto
  have t: "t = filter_type x" using assms(1,2) by (auto simp: filters_hold_def)
  have e: "entry (tlookup (lookup (filters s))) as (filter_key f) = Some (filter_type x, x)" using assms(2) as(2) t by simp
  show "\<exists>b c. col_find (filter_key f) (filters s) = Some b \<and>
    col_call h (Some b) (filters s) = Some (snd (h (filter_type x) (filter_key f) x), c)"
    using col_call_ok [OF as(1) k b e, of h] b by blast
  show "filter_of s f = Some x" using col_call_ok [OF as(1) k b e, of "\<lambda>t k x. (x, x)"] b by (auto simp: filter_of_def)
qed

lemma entry_conforms:
  assumes "filters_hold cfg s M" "registry_ok s"
  shows "b < button_count \<Longrightarrow> button_of s m b \<noteq> 0 \<Longrightarrow> 1 \<le> button_of s m b \<and> button_of s m b < next_available_filter s \<and>
      (\<exists>x. M (filter_key (button_of s m b)) = Some (filter_type x, x) \<and> filter_type x \<in> {2, 3})"
    "a < axis_count \<Longrightarrow> axis_of s m a \<noteq> 0 \<Longrightarrow> 1 \<le> axis_of s m a \<and> axis_of s m a < next_available_filter s \<and>
      (\<exists>x. M (filter_key (axis_of s m a)) = Some (filter_type x, x) \<and> filter_type x \<in> {0, 1})"
proof -
  have in_maps: "mappings s ! k \<in> set (mappings s)" if "find_mapping m s = Some k" for k
    using position_Some that assms(2) by (fastforce simp: find_mapping_def registry_ok_def)
  show "1 \<le> button_of s m b \<and> button_of s m b < next_available_filter s \<and>
      (\<exists>x. M (filter_key (button_of s m b)) = Some (filter_type x, x) \<and> filter_type x \<in> {2, 3})"
    if h: "b < button_count" "button_of s m b \<noteq> 0"
  proof -
    obtain k where k: "find_mapping m s = Some k" using h(2) by (auto simp: button_of_def split: option.splits)
    have "map_buttons (mappings s ! k) ! b \<in> set (map_buttons (mappings s ! k))"
      using in_maps [OF k] h(1) assms(2) by (simp add: registry_ok_def mapping_ok_def)
    then show ?thesis using assms(1) in_maps [OF k] h(2) k by (auto simp: filters_hold_def kinds_ok_def button_of_def)
  qed
  show "1 \<le> axis_of s m a \<and> axis_of s m a < next_available_filter s \<and>
      (\<exists>x. M (filter_key (axis_of s m a)) = Some (filter_type x, x) \<and> filter_type x \<in> {0, 1})"
    if h: "a < axis_count" "axis_of s m a \<noteq> 0"
  proof -
    obtain k where k: "find_mapping m s = Some k" using h(2) by (auto simp: axis_of_def split: option.splits)
    have "map_axes (mappings s ! k) ! a \<in> set (map_axes (mappings s ! k))"
      using in_maps [OF k] h(1) assms(2) by (simp add: registry_ok_def mapping_ok_def)
    then show ?thesis using assms(1) in_maps [OF k] h(2) k by (auto simp: filters_hold_def kinds_ok_def axis_of_def)
  qed
qed

section \<open>Which demands a cell answers\<close>

lemma cell_wants_member: "(i, f, c, d) \<in># cell_wants is fs c' d' \<longleftrightarrow> i \<in> set is \<and> fs ! i \<noteq> 0 \<and> f = fs ! i \<and> c = c' \<and> d = d'"
  by (auto simp: cell_wants_def)

text \<open>A mapping that is bound at \<open>j\<close> in the active state of a context demands its buttons and axes of the devices.\<close>

lemma bound_demand:
  assumes "c \<in> set (contexts s)" "has_device_mappings c" "d \<in> set (ctx_devices c)" "j < length (sm_mappings (current c))"
  shows "b < button_count \<Longrightarrow> button_of s (sm_mappings (current c) ! j) b \<noteq> 0 \<Longrightarrow>
      (b, button_of s (sm_mappings (current c) ! j) b, sm_callbacks (current c) ! j, sm_datas (current c) ! j)
        \<in># pick True (pick d (demands s))"
    "a < axis_count \<Longrightarrow> axis_of s (sm_mappings (current c) ! j) a \<noteq> 0 \<Longrightarrow>
      (a, axis_of s (sm_mappings (current c) ! j) a, sm_callbacks (current c) ! j, sm_datas (current c) ! j)
        \<in># pick False (pick d (demands s))"
proof -
  let ?m = "sm_mappings (current c) ! j"
  have up: "(d, p) \<in># demands s" if "p \<in># bound_wants s (current c) j" for p
    using that assms by (force simp: demands_def in_sum_list ctx_wants_def state_wants_def intro!: bexI [of _ c])
  show "(b, button_of s ?m b, sm_callbacks (current c) ! j, sm_datas (current c) ! j) \<in># pick True (pick d (demands s))"
    if "b < button_count" "button_of s ?m b \<noteq> 0"
    unfolding pick_elem by (rule up)
      (use that in \<open>auto simp: bound_wants_def button_of_def mapping_wants_def cell_wants_member split: option.splits\<close>)
  show "(a, axis_of s ?m a, sm_callbacks (current c) ! j, sm_datas (current c) ! j) \<in># pick False (pick d (demands s))"
    if "a < axis_count" "axis_of s ?m a \<noteq> 0"
    unfolding pick_elem by (rule up)
      (use that in \<open>auto simp: bound_wants_def axis_of_def mapping_wants_def cell_wants_member split: option.splits\<close>)
qed

text \<open>Every demand comes from such a mapping.\<close>

lemma demand_bound:
  assumes "(i, f, cb, x) \<in># pick v (pick d (demands s))"
  shows "\<exists>c \<in> set (contexts s). \<exists>j < length (sm_mappings (current c)). has_device_mappings c \<and> d \<in> set (ctx_devices c) \<and>
    f \<noteq> 0 \<and> cb = sm_callbacks (current c) ! j \<and> x = sm_datas (current c) ! j \<and>
    (if v then i < button_count \<and> f = button_of s (sm_mappings (current c) ! j) i
     else i < axis_count \<and> f = axis_of s (sm_mappings (current c) ! j) i)"
proof -
  have "(d, v, i, f, cb, x) \<in># demands s" using assms by (simp add: pick_elem)
  then obtain c where c: "c \<in> set (contexts s)" "(d, v, i, f, cb, x) \<in># ctx_wants s c" by (auto simp: demands_def in_sum_list)
  then have h: "has_device_mappings c" "d \<in> set (ctx_devices c)" "(v, i, f, cb, x) \<in># state_wants s (current c)"
    by (auto simp: ctx_wants_def in_sum_list split: if_splits)
  then obtain j where j: "j < length (sm_mappings (current c))" "(v, i, f, cb, x) \<in># bound_wants s (current c) j"
    by (auto simp: state_wants_def in_sum_list)
  then obtain k where k: "find_mapping (sm_mappings (current c) ! j) s = Some k"
    "(v, i, f, cb, x) \<in># mapping_wants (mappings s ! k) (sm_callbacks (current c) ! j) (sm_datas (current c) ! j)"
    by (auto simp: bound_wants_def split: option.splits)
  show ?thesis
    using c(1) h(1,2) j(1) k
    by (intro bexI [of _ c] exI [of _ j])
      (auto simp: mapping_wants_def cell_wants_member button_of_def axis_of_def split: if_splits)
qed

lemma row_cell:
  assumes "row_holds n r D" "i < n"
  shows "r_filters r ! i = 0 \<longleftrightarrow> pick i D = {#}"
    "(i, f, cb, x) \<in># D \<Longrightarrow> r_filters r ! i = f \<and> r_callbacks r ! i = Some cb \<and> r_datas r ! i = Some x"
    "r_filters r ! i \<noteq> 0 \<Longrightarrow> \<exists>cb x. r_callbacks r ! i = Some cb \<and> r_datas r ! i = Some x \<and> (i, r_filters r ! i, cb, x) \<in># D"
    "length (r_filters r) = n"
proof -
  have c: "cell_holds r i (pick i D)" "length (r_filters r) = n" using assms by (simp_all add: row_holds_def)
  then show "r_filters r ! i = 0 \<longleftrightarrow> pick i D = {#}" "length (r_filters r) = n"
    by (auto simp: cell_holds_def split: if_splits)
  show "r_filters r ! i = f \<and> r_callbacks r ! i = Some cb \<and> r_datas r ! i = Some x" if "(i, f, cb, x) \<in># D"
  proof -
    have "(f, cb, x) \<in># pick i D" using that by (simp add: pick_elem)
    then show ?thesis using c(1) by (auto simp: cell_holds_def split: if_splits)
  qed
  show "\<exists>cb x. r_callbacks r ! i = Some cb \<and> r_datas r ! i = Some x \<and> (i, r_filters r ! i, cb, x) \<in># D" if h: "r_filters r ! i \<noteq> 0"
  proof -
    obtain cb x where "r_callbacks r ! i = Some cb" "r_datas r ! i = Some x" "pick i D = {#(r_filters r ! i, cb, x)#}"
      using c(1) h by (auto simp: cell_holds_def split: if_splits)
    then show ?thesis using pick_elem [of "(r_filters r ! i, cb, x)" i D] by auto
  qed
qed

lemma device_rows:
  assumes "ui_ok cfg s" "find_device d s = Some k"
  shows "row_holds button_count (buttons (device_mappings s ! k)) (pick True (pick d (demands s)))"
    "row_holds axis_count (axes (device_mappings s ! k)) (pick False (pick d (demands s)))"
  using ui_okD(1) [OF assms(1)] find_device_Some [OF assms(2)] by (auto simp: tables_ok_def tables_hold_def dm_holds_def)

section \<open>The states that can be reached\<close>

inductive ui_reach :: "col_cfg \<Rightarrow> ui \<Rightarrow> bool" for cfg where
  start: "table_cfg (lookup_cfg cfg) \<Longrightarrow> ui_reach cfg (ui_new cfg)"
| update: "ui_reach cfg s \<Longrightarrow> timely s msgs \<Longrightarrow> ui_update cfg dim msgs inputs s = Some t \<Longrightarrow> ui_reach cfg t"

lemma ui_new_ok:
  assumes "table_cfg (lookup_cfg cfg)"
  shows "ui_ok cfg (ui_new cfg) \<and> all_set (ui_new cfg)"
proof -
  have i: "col_inv cfg (col_new cfg 4 :: filter col) (replicate 4 [])" using col_new_inv [OF assms, of 4] by simp
  have l: "tlookup (lookup (col_new cfg 4 :: filter col)) = Map.empty"
    using table_new_ok(2) [OF assms, of "0 :: u32"] by (simp add: col_new_def)
  have "filters_hold cfg (ui_new cfg) Map.empty"
    using i l unfolding filters_hold_def ui_new_def
    by (auto simp: col_rep_def entry_def kinds_ok_def col_new_def intro!: exI [of _ "replicate 4 []"])
  then show ?thesis
    by (auto simp: ui_ok_def tables_ok_def tables_hold_def registry_ok_def all_set_def ui_new_def)
qed

lemma reach_ok: "ui_reach cfg s \<Longrightarrow> ui_ok cfg s \<and> all_set s"
  by (induction rule: ui_reach.induct) (use ui_new_ok ui_update_ok in blast)+

text \<open>What the contexts want in a cell of a device, read off the contexts and the mappings: for each mapping that is bound in
  the active state of a context of the device, the filter it has for that button or axis, if any, with the callback and
  data it is bound with.  What a cell of a table says of it.\<close>

definition demanded :: "(ui \<Rightarrow> token \<Rightarrow> nat \<Rightarrow> int) \<Rightarrow> ui \<Rightarrow> device \<Rightarrow> nat \<Rightarrow> cell_demand set" where
  "demanded filter_in s d i =
     {(filter_in s (sm_mappings (current c) ! j) i, sm_callbacks (current c) ! j, sm_datas (current c) ! j) | c j.
       c \<in> set (contexts s) \<and> d \<in> set (ctx_devices c) \<and> j < length (sm_mappings (current c)) \<and>
       filter_in s (sm_mappings (current c) ! j) i \<noteq> 0}"

definition cell_answers :: "row \<Rightarrow> nat \<Rightarrow> cell_demand set \<Rightarrow> bool" where
  "cell_answers r i D \<longleftrightarrow> (if D = {} then r_filters r ! i = 0
     else r_filters r ! i \<noteq> 0 \<and> (\<exists>cb x. r_callbacks r ! i = Some cb \<and> r_datas r ! i = Some x \<and> D = {(r_filters r ! i, cb, x)}))"

lemma cell_holds_answers: "cell_holds r i P \<Longrightarrow> cell_answers r i (set_mset P) \<and> size P \<le> 1"
  by (auto simp: cell_holds_def cell_answers_def split: if_splits)

lemma demanded_pick:
  assumes "all_set s"
  shows "b < button_count \<Longrightarrow> demanded button_of s d b = set_mset (pick b (pick True (pick d (demands s))))"
    "a < axis_count \<Longrightarrow> demanded axis_of s d a = set_mset (pick a (pick False (pick d (demands s))))"
proof -
  have set: "has_device_mappings c" if "c \<in> set (contexts s)" for c using assms that by (simp add: all_set_def)
  show "demanded button_of s d b = set_mset (pick b (pick True (pick d (demands s))))" if b: "b < button_count"
  proof (intro equalityI subsetI)
    fix p assume "p \<in> demanded button_of s d b"
    then show "p \<in># pick b (pick True (pick d (demands s)))"
      using bound_demand(1) [OF _ set] b by (auto simp: demanded_def pick_elem)
  next
    fix p assume "p \<in># pick b (pick True (pick d (demands s)))"
    moreover obtain f cb y where p: "p = (f, cb, y)" by (cases p)
    ultimately have "(b, f, cb, y) \<in># pick True (pick d (demands s))" by (simp add: pick_elem)
    from demand_bound [OF this] show "p \<in> demanded button_of s d b" unfolding p demanded_def by auto
  qed
  show "demanded axis_of s d a = set_mset (pick a (pick False (pick d (demands s))))" if a: "a < axis_count"
  proof (intro equalityI subsetI)
    fix p assume "p \<in> demanded axis_of s d a"
    then show "p \<in># pick a (pick False (pick d (demands s)))"
      using bound_demand(2) [OF _ set] a by (auto simp: demanded_def pick_elem)
  next
    fix p assume "p \<in># pick a (pick False (pick d (demands s)))"
    moreover obtain f cb y where p: "p = (f, cb, y)" by (cases p)
    ultimately have "(a, f, cb, y) \<in># pick False (pick d (demands s))" by (simp add: pick_elem)
    from demand_bound [OF this] show "p \<in> demanded axis_of s d a" unfolding p demanded_def by auto
  qed
qed

text \<open>C11: In every state between two updates the tables of the devices hold exactly what the contexts demand, for every button
  and for every axis: a cell has a filter just when a mapping that is bound in the active state of a context of the
  device has that button or axis, it is the filter of that mapping with the callback and data it was bound with,
  and no two mappings compete for a cell.\<close>
theorem tables_hold_demands:
  assumes "ui_reach cfg s" "find_device d s = Some k"
  shows "(\<forall>b < button_count. cell_answers (buttons (device_mappings s ! k)) b (demanded button_of s d b) \<and>
      size (pick b (pick True (pick d (demands s)))) \<le> 1) \<and>
    (\<forall>a < axis_count. cell_answers (axes (device_mappings s ! k)) a (demanded axis_of s d a) \<and>
      size (pick a (pick False (pick d (demands s)))) \<le> 1)"
proof -
  have ok: "ui_ok cfg s" "all_set s" using reach_ok [OF assms(1)] by simp_all
  note h = device_rows [OF ok(1) assms(2)]
  show ?thesis
  proof (intro conjI allI impI)
    fix b assume b: "b < button_count"
    then have "cell_holds (buttons (device_mappings s ! k)) b (pick b (pick True (pick d (demands s))))"
      using h(1) by (simp add: row_holds_def)
    from cell_holds_answers [OF this]
    show "cell_answers (buttons (device_mappings s ! k)) b (demanded button_of s d b)"
      "size (pick b (pick True (pick d (demands s)))) \<le> 1" by (simp_all add: demanded_pick(1) [OF ok(2) b])
  next
    fix a assume a: "a < axis_count"
    then have "cell_holds (axes (device_mappings s ! k)) a (pick a (pick False (pick d (demands s))))"
      using h(2) by (simp add: row_holds_def)
    from cell_holds_answers [OF this]
    show "cell_answers (axes (device_mappings s ! k)) a (demanded axis_of s d a)"
      "size (pick a (pick False (pick d (demands s)))) \<le> 1" by (simp_all add: demanded_pick(2) [OF ok(2) a])
  qed
qed

text \<open>C12: Every filter in the table of a device is of the kind of its place, and was written together with a callback and
  data: a button is mapped to a press or a release, an axis to a move or a tilt.\<close>
theorem cells_hold_their_kind:
  assumes "ui_reach cfg s" "find_device d s = Some k"
  shows "(\<forall>b < button_count. r_filters (buttons (device_mappings s ! k)) ! b \<noteq> 0 \<longrightarrow>
      (\<exists>x cb p. filter_of s (r_filters (buttons (device_mappings s ! k)) ! b) = Some x \<and> filter_type x \<in> {2, 3} \<and>
        r_callbacks (buttons (device_mappings s ! k)) ! b = Some cb \<and> r_datas (buttons (device_mappings s ! k)) ! b = Some p)) \<and>
    (\<forall>a < axis_count. r_filters (axes (device_mappings s ! k)) ! a \<noteq> 0 \<longrightarrow>
      (\<exists>x cb p. filter_of s (r_filters (axes (device_mappings s ! k)) ! a) = Some x \<and> filter_type x \<in> {0, 1} \<and>
        r_callbacks (axes (device_mappings s ! k)) ! a = Some cb \<and> r_datas (axes (device_mappings s ! k)) ! a = Some p))"
proof -
  have ok: "ui_ok cfg s" using reach_ok [OF assms(1)] by simp
  note d = ui_okD [OF ok] and h = device_rows [OF ok assms(2)]
  obtain M where M: "filters_hold cfg s M" using d(4) by blast
  show ?thesis
  proof (intro conjI allI impI)
    fix b assume b: "b < button_count" "r_filters (buttons (device_mappings s ! k)) ! b \<noteq> 0"
    obtain cb x where c: "r_callbacks (buttons (device_mappings s ! k)) ! b = Some cb"
      "r_datas (buttons (device_mappings s ! k)) ! b = Some x"
      "(b, r_filters (buttons (device_mappings s ! k)) ! b, cb, x) \<in># pick True (pick d (demands s))"
      using row_cell(3) [OF h(1) b] by blast
    then obtain m where "r_filters (buttons (device_mappings s ! k)) ! b = button_of s m b"
      using demand_bound [OF c(3)] by auto
    then show "\<exists>x cb p. filter_of s (r_filters (buttons (device_mappings s ! k)) ! b) = Some x \<and> filter_type x \<in> {2, 3} \<and>
        r_callbacks (buttons (device_mappings s ! k)) ! b = Some cb \<and> r_datas (buttons (device_mappings s ! k)) ! b = Some p"
      using entry_conforms(1) [OF M d(2) b(1), of m] filter_found(2) [OF M] b(2) c(1,2) by metis
  next
    fix a assume a: "a < axis_count" "r_filters (axes (device_mappings s ! k)) ! a \<noteq> 0"
    obtain cb x where c: "r_callbacks (axes (device_mappings s ! k)) ! a = Some cb"
      "r_datas (axes (device_mappings s ! k)) ! a = Some x"
      "(a, r_filters (axes (device_mappings s ! k)) ! a, cb, x) \<in># pick False (pick d (demands s))"
      using row_cell(3) [OF h(2) a] by blast
    then obtain m where "r_filters (axes (device_mappings s ! k)) ! a = axis_of s m a"
      using demand_bound [OF c(3)] by auto
    then show "\<exists>x cb p. filter_of s (r_filters (axes (device_mappings s ! k)) ! a) = Some x \<and> filter_type x \<in> {0, 1} \<and>
        r_callbacks (axes (device_mappings s ! k)) ! a = Some cb \<and> r_datas (axes (device_mappings s ! k)) ! a = Some p"
      using entry_conforms(2) [OF M d(2) a(1), of m] filter_found(2) [OF M] a(2) c(1,2) by metis
  qed
qed

section \<open>Inputs\<close>

lemma call_filter_mapped:
  assumes "filters_hold cfg s M" "M (filter_key f) = Some (filter_type x, x)" "1 \<le> f" "f < next_available_filter s"
    "i < length (r_filters r)" "r_filters r ! i = f" "r_callbacks r ! i = Some cb" "r_datas r ! i = Some p"
  shows "call_filter h r i s = map_option (\<lambda>es. s\<lparr>log_of := log_of s @ es\<rparr>) (h cb p x)"
proof -
  obtain b c where "col_find (filter_key f) (filters s) = Some b"
    "col_call (\<lambda>t k x. (x, do { callback \<leftarrow> r_callbacks r ! i; data \<leftarrow> r_datas r ! i; h callback data x })) (Some b) (filters s) =
      Some (h cb p x, c)"
    using filter_found(1) [OF assms(1,2,3,4),
        of "\<lambda>t k x. (x, do { callback \<leftarrow> r_callbacks r ! i; data \<leftarrow> r_datas r ! i; h callback data x })"] assms(7,8) by auto
  then show ?thesis using assms(5,6) by (cases "h cb p x") (auto simp: call_filter_def)
qed

text \<open>What a button does: a press filter reports one when the button goes down and zero when it comes up, a release
  filter the other way round.\<close>

definition button_event :: "filter \<Rightarrow> bool \<Rightarrow> nat \<Rightarrow> nat \<Rightarrow> event list" where
  "button_event x down cb p = (case x of
     ButtonPress cmd \<Rightarrow> [Called cb cmd (Whole (if down then 1 else 0)) p]
   | ButtonRelease cmd \<Rightarrow> [Called cb cmd (Whole (if down then 0 else 1)) p]
   | _ \<Rightarrow> [])"

text \<open>C13: A button that a mapping of the active state maps reaches the callback the mapping was bound with, with the command
  of its filter, and nothing else changes; whichever context has the device.\<close>
theorem button_reaches_callback:
  assumes "ui_reach cfg s" "c \<in> set (contexts s)" "d \<in> set (ctx_devices c)" "j < length (sm_mappings (current c))"
    "button_filter s (sm_mappings (current c) ! j) b = Some x" "b < button_count" "in_bits 8 d"
  shows "process_value (ButtonStateInput d b down) s =
    Some (s\<lparr>log_of := log_of s @ button_event x down (sm_callbacks (current c) ! j) (sm_datas (current c) ! j)\<rparr>)"
proof -
  have ok: "ui_ok cfg s" "all_set s" using reach_ok [OF assms(1)] by simp_all
  note od = ui_okD [OF ok(1)]
  obtain M where M: "filters_hold cfg s M" using od(4) by blast
  let ?m = "sm_mappings (current c) ! j"
  let ?f = "button_of s ?m b"
  have f: "?f \<noteq> 0" "filter_of s ?f = Some x" using assms(5) by (auto simp: button_filter_def split: if_splits)
  obtain y where y: "1 \<le> ?f" "?f < next_available_filter s" "M (filter_key ?f) = Some (filter_type y, y)" "filter_type y \<in> {2, 3}"
    using entry_conforms(1) [OF M od(2) assms(6) f(1)] by blast
  have xy: "y = x" using filter_found(2) [OF M y(3,1,2)] f(2) by simp
  have "d \<in> set (devices s)" using od(3) [OF assms(2)] assms(3) by (auto simp: ctx_ok_def)
  then obtain k where k: "find_device d s = Some k" using find_device_None by fastforce
  note h = device_rows(1) [OF ok(1) k]
  have "has_device_mappings c" using ok(2) assms(2) by (simp add: all_set_def)
  note cell = row_cell(2) [OF h assms(6) bound_demand(1) [OF assms(2) this assms(3,4,6) f(1)]] row_cell(4) [OF h assms(6)]
  have call: "call_filter g (buttons (device_mappings s ! k)) b s =
      map_option (\<lambda>es. s\<lparr>log_of := log_of s @ es\<rparr>) (g (sm_callbacks (current c) ! j) (sm_datas (current c) ! j) x)" for g
    using call_filter_mapped [OF M y(3,1,2), of b "buttons (device_mappings s ! k)"] cell assms(6) xy by simp
  have dev: "getDevice (ButtonStateInput d b down) = d" using assms(7) sint_of_int_iff [of d, where 'a = 8] by (simp add: ButtonStateInput_def)
  have e: "handle_button (\<not> down) (sm_callbacks (current c) ! j) (sm_datas (current c) ! j) x =
      Some (button_event x down (sm_callbacks (current c) ! j) (sm_datas (current c) ! j))"
    using y(4) xy by (cases x) (auto simp: button_event_def)
  show ?thesis
    using k call [of "handle_button (\<not> down)"] e dev by (cases down) (simp_all add: process_value_def ButtonStateInput_def)
qed

end
