(* ===== verification/Hid_Contract.thy ===== *)
theory Hid_Contract
  imports Hid_Behaviour
begin

text \<open>
  The contract of the messages: what each does to the mappings, when it fails an assertion, that devices leave without
  a trace, and two ways in which correct use leads to undefined behaviour.
\<close>

section \<open>Messages and mappings\<close>

text \<open>Steps that leave the mappings and filters alone.\<close>

definition same_mappings :: "ui \<Rightarrow> ui \<Rightarrow> bool" where
  "same_mappings s t \<longleftrightarrow> mapping_entities t = mapping_entities s \<and> mappings t = mappings s \<and> filters t = filters s"

lemma same_mappings_of:
  assumes "same_mappings s t"
  shows "button_of t = button_of s" "axis_of t = axis_of s" "filter_of t = filter_of s"
    "button_filter t = button_filter s" "axis_filter t = axis_filter s"
proof -
  have "find_mapping m t = find_mapping m s" for m using assms by (simp add: same_mappings_def find_mapping_def)
  then show b: "button_of t = button_of s" "axis_of t = axis_of s"
    using assms by (auto simp: fun_eq_iff same_mappings_def button_of_def axis_of_def split: option.split)
  show f: "filter_of t = filter_of s" using assms by (simp add: fun_eq_iff same_mappings_def filter_of_def)
  show "button_filter t = button_filter s" "axis_filter t = axis_filter s"
    by (intro ext, simp add: button_filter_def axis_filter_def b f)+
qed

lemma same_mappings_refl [simp]: "same_mappings s s"
  by (simp add: same_mappings_def)

lemma same_mappings_trans: "same_mappings s t \<Longrightarrow> same_mappings t u \<Longrightarrow> same_mappings s u"
  by (simp add: same_mappings_def)

lemma clear_at_mappings: "clear_at i s = Some t \<Longrightarrow> same_mappings s t"
proof -
  assume "clear_at i s = Some t"
  then obtain u where u: "fold_opt (clear_device (state_mappings (contexts s ! i) ! active (contexts s ! i)))
      (ctx_devices (contexts s ! i)) s = Some u" "t = put_ctx i ((contexts s ! i)\<lparr>has_device_mappings := False\<rparr>) u"
    by (auto simp: clear_at_def clear_device_mappings_def split: if_splits)
  have "same_mappings s u"
    by (rule fold_opt_invariant [OF u(1), where I = "same_mappings s"]) (auto simp: same_mappings_def clear_device_def)
  then show ?thesis using u(2) by (simp add: same_mappings_def)
qed

lemma clear_mappings:
  "clear_if_set i s = Some t \<Longrightarrow> same_mappings s t" "clear_if_active i st s = Some t \<Longrightarrow> same_mappings s t"
  using clear_at_mappings by (auto simp: clear_if_set_def clear_if_active_def Let_def split: if_splits)

lemma modify_at_mappings: "modify_at i f s = Some t \<Longrightarrow> same_mappings s t"
  by (auto simp: modify_at_def same_mappings_def)

lemma process_add_context_mappings: "process_add_context a sts s = Some t \<Longrightarrow> same_mappings s t"
proof -
  assume t: "process_add_context a sts s = Some t"
  then obtain u where u: "add_context a sts s = Some u" by (auto simp: process_add_context_def Let_def)
  then have su: "same_mappings s u" by (auto simp: add_context_def same_mappings_def split: if_splits)
  show ?thesis
  proof (cases "context_assets s = []")
    case True
    obtain i where f: "fold_opt (\<lambda>d s. modify_at i (ctx_add_device s d) s) (devices u) (u\<lparr>default_context := a\<rparr>) = Some t"
      using t u True by (auto simp: process_add_context_def Let_def split: if_splits)
    show ?thesis
      by (rule fold_opt_invariant [OF f, where I = "same_mappings s"])
        (use su modify_at_mappings same_mappings_trans in \<open>auto simp: same_mappings_def\<close>)
  next
    case False
    then have "t = u" using t u by (auto simp: process_add_context_def Let_def)
    then show ?thesis using su by simp
  qed
qed

lemma process_remove_context_mappings: "process_remove_context a s = Some t \<Longrightarrow> same_mappings s t"
  by (auto simp: process_remove_context_def remove_context_def Let_def dest!: clear_mappings(1) split: if_splits)
    (auto simp: same_mappings_def)

lemma process_message_mappings:
  assumes "process_ui cfg msg s = Some t" "adds_to msg = None"
  shows "same_mappings s t"
  using assms clear_mappings modify_at_mappings same_mappings_trans process_add_context_mappings process_remove_context_mappings
  by (cases msg) (fastforce simp: adds_to_def same_mappings_def)+

text \<open>Adding a filter.\<close>

lemma add_or_find_of:
  assumes "registry_ok s" "add_or_find_mapping m s = (i, u)" "b < button_count" "a < axis_count"
  shows "button_of u m' b = button_of s m' b" "axis_of u m' a = axis_of s m' a" "filters u = filters s"
    "find_mapping m u = Some i"
proof -
  note o = add_or_find_mapping_ok [OF assms(1,2)]
  have "button_of u m' b = button_of s m' b \<and> axis_of u m' a = axis_of s m' a \<and> filters u = filters s \<and> find_mapping m u = Some i"
  proof (cases "find_mapping m s")
    case None
    have n: "m \<notin> set (mapping_entities s)" "length (mappings s) = length (mapping_entities s)"
      using None find_mapping_None assms(1) by (auto simp: registry_ok_def)
    have u: "i = length (mapping_entities s)"
      "u = s\<lparr>mapping_entities := mapping_entities s @ [m], mappings := mappings s @ [mapping_new]\<rparr>"
      using None assms(2) by (simp_all add: add_or_find_mapping_def)
    have new: "find_mapping m u = Some i" using position_absent [OF n(1)] u by (simp add: find_mapping_def)
    show ?thesis
    proof (cases "m' = m")
      case True
      then show ?thesis using None new u n(2) assms(3,4)
        by (simp add: button_of_def axis_of_def nth_append mapping_new_def)
    next
      case False
      have "find_mapping m' u = find_mapping m' s"
      proof (cases "m' \<in> set (mapping_entities s)")
        case True
        then show ?thesis using o(5) by blast
      next
        case out: False
        then have "m' \<notin> set (mapping_entities u)" using u(2) False by simp
        then show ?thesis using out find_mapping_None by metis
      qed
      moreover have "k < length (mappings s)" if "find_mapping m' s = Some k" for k
        using position_Some [OF that [unfolded find_mapping_def]] n(2) by simp
      ultimately show ?thesis using new u(2) by (cases "find_mapping m' s") (simp_all add: button_of_def axis_of_def nth_append)
    qed
  next
    case (Some k)
    then show ?thesis using assms(2) by (auto simp: add_or_find_mapping_def)
  qed
  then show "button_of u m' b = button_of s m' b" "axis_of u m' a = axis_of s m' a" "filters u = filters s"
    "find_mapping m u = Some i" by blast+
qed

lemma find_mapping_inj:
  "find_mapping m s = Some i \<Longrightarrow> find_mapping m' s = Some i \<Longrightarrow> m = m'"
  using position_Some [of "\<lambda>x. x = m"] position_Some [of "\<lambda>x. x = m'"] by (fastforce simp: find_mapping_def)

lemma map_button_of:
  assumes "registry_ok s" "map_button m code f s = Some t" "b < button_count" "a < axis_count"
  shows "button_of t m' b = (if m' = m \<and> b = code then f else button_of s m' b)" "axis_of t m' a = axis_of s m' a"
    "filters t = filters s" "button_of s m code = 0"
proof -
  obtain i u where u: "add_or_find_mapping m s = (i, u)" by fastforce
  note o = add_or_find_mapping_ok [OF assms(1) u] and w = add_or_find_of [OF assms(1) u]
  let ?q = "mappings u ! i"
  have t: "code < button_count" "map_buttons ?q ! code = 0"
    "t = u\<lparr>mappings := (mappings u)[i := ?q\<lparr>map_buttons := (map_buttons ?q)[code := f]\<rparr>]\<rparr>"
    using assms(2) u by (auto simp: map_button_def Let_def split: if_splits)
  have q: "length (map_buttons ?q) = button_count" using o(1,4) by (simp add: registry_ok_def mapping_ok_def)
  have fm: "find_mapping x t = find_mapping x u" for x using t(3) by (simp add: find_mapping_def)
  show "filters t = filters s" using t(3) w(3) [OF assms(3,4)] by simp
  show "button_of s m code = 0" using w(1) [OF t(1) assms(4), of m] w(4) [OF assms(3,4)] t(2) by (simp add: button_of_def)
  have "button_of t m' b = (if m' = m \<and> b = code then f else button_of u m' b) \<and> axis_of t m' a = axis_of u m' a"
  proof (cases "m' = m")
    case True
    then show ?thesis using fm w(4) [OF assms(3,4)] t(1,3) q o(1) by (simp add: button_of_def axis_of_def nth_list_update)
  next
    case False
    then have "find_mapping m' u \<noteq> Some i" using find_mapping_inj w(4) [OF assms(3,4)] by metis
    then show ?thesis using fm False t(3) by (auto simp: button_of_def axis_of_def split: option.split)
  qed
  then show "button_of t m' b = (if m' = m \<and> b = code then f else button_of s m' b)" "axis_of t m' a = axis_of s m' a"
    using w(1,2) [OF assms(3,4), of m'] by simp_all
qed

lemma map_axis_of:
  assumes "registry_ok s" "map_axis m code f s = Some t" "b < button_count" "a < axis_count"
  shows "axis_of t m' a = (if m' = m \<and> a = code then f else axis_of s m' a)" "button_of t m' b = button_of s m' b"
    "filters t = filters s" "axis_of s m code = 0"
proof -
  obtain i u where u: "add_or_find_mapping m s = (i, u)" by fastforce
  note o = add_or_find_mapping_ok [OF assms(1) u] and w = add_or_find_of [OF assms(1) u]
  let ?q = "mappings u ! i"
  have t: "code < axis_count" "map_axes ?q ! code = 0"
    "t = u\<lparr>mappings := (mappings u)[i := ?q\<lparr>map_axes := (map_axes ?q)[code := f]\<rparr>]\<rparr>"
    using assms(2) u by (auto simp: map_axis_def Let_def split: if_splits)
  have q: "length (map_axes ?q) = axis_count" using o(1,4) by (simp add: registry_ok_def mapping_ok_def)
  have fm: "find_mapping x t = find_mapping x u" for x using t(3) by (simp add: find_mapping_def)
  show "filters t = filters s" using t(3) w(3) [OF assms(3,4)] by simp
  show "axis_of s m code = 0" using w(2) [OF assms(3) t(1), of m] w(4) [OF assms(3,4)] t(2) by (simp add: axis_of_def)
  have "axis_of t m' a = (if m' = m \<and> a = code then f else axis_of u m' a) \<and> button_of t m' b = button_of u m' b"
  proof (cases "m' = m")
    case True
    then show ?thesis using fm w(4) [OF assms(3,4)] t(1,3) q o(1) by (simp add: button_of_def axis_of_def nth_list_update)
  next
    case False
    then have "find_mapping m' u \<noteq> Some i" using find_mapping_inj w(4) [OF assms(3,4)] by metis
    then show ?thesis using fm False t(3) by (auto simp: button_of_def axis_of_def split: option.split)
  qed
  then show "axis_of t m' a = (if m' = m \<and> a = code then f else axis_of s m' a)" "button_of t m' b = button_of s m' b"
    using w(1,2) [OF assms(3,4), of m'] by simp_all
qed

text \<open>After a new filter every mapping still names the filters it named.\<close>

lemma new_filter_of:
  assumes "filters_hold cfg s M" "registry_ok s" "next_available_filter s \<le> 2 ^ 24" "new_filter cfg x s = Some (f, u)"
    "b < button_count" "a < axis_count"
  shows "button_of u = button_of s" "axis_of u = axis_of s" "filter_of u f = Some x" "f \<noteq> 0" "registry_ok u"
    "button_of s m b \<noteq> 0 \<Longrightarrow> filter_of u (button_of s m b) = filter_of s (button_of s m b)"
    "axis_of s m a \<noteq> 0 \<Longrightarrow> filter_of u (axis_of s m a) = filter_of s (axis_of s m a)"
proof -
  note n = new_filter_ok [OF assms(1,3,4)]
  let ?M = "M(filter_key f \<mapsto> (filter_type x, x))"
  obtain fs where u: "u = s\<lparr>next_available_filter := f + 1, filters := fs\<rparr>" using n by blast
  have h: "filters_hold cfg u ?M" and f: "f = next_available_filter s" using n by blast+
  have r: "1 \<le> f" "f < next_available_filter u" "next_available_filter u < 2 ^ 31"
    using assms(1) f u h by (simp_all add: filters_hold_def)
  have fm: "find_mapping y u = find_mapping y s" for y using u by (simp add: find_mapping_def)
  show "button_of u = button_of s" "axis_of u = axis_of s"
    using fm u by (simp_all add: fun_eq_iff button_of_def axis_of_def split: option.split)
  show "filter_of u f = Some x" using filter_found(2) [OF h _ r(1,2)] by simp
  show "f \<noteq> 0" "registry_ok u" using r(1) u assms(2) by (simp_all add: registry_ok_def)
  have old: "filter_of u g = filter_of s g" if "1 \<le> g" "g < f" "M (filter_key g) = Some (filter_type y, y)" for g y
  proof -
    have "filter_key g \<noteq> filter_key f" using filter_key_inj [of g f] that r by simp
    then have "?M (filter_key g) = Some (filter_type y, y)" using that(3) by simp
    then show ?thesis using filter_found(2) [OF h, of g] filter_found(2) [OF assms(1) that(3)] that f r(2) by simp
  qed
  show "filter_of u (button_of s m b) = filter_of s (button_of s m b)" if "button_of s m b \<noteq> 0"
    using entry_conforms(1) [OF assms(1,2,5) that] old f by blast
  show "filter_of u (axis_of s m a) = filter_of s (axis_of s m a)" if "axis_of s m a \<noteq> 0"
    using entry_conforms(2) [OF assms(1,2,6) that] old f by blast
qed

lemma add_button_refines:
  assumes "ui_ok cfg s" "next_available_filter s \<le> 2 ^ 24" "new_filter cfg x s = Some (f, u)" "map_button m' code f u = Some t"
    "b < button_count" "a < axis_count"
  shows "button_filter t m b = (if m = m' \<and> b = code then Some x else button_filter s m b) \<and> axis_filter t m a = axis_filter s m a \<and>
    button_filter s m' code = None"
proof -
  note d = ui_okD [OF assms(1)]
  obtain M where M: "filters_hold cfg s M" using d(4) by blast
  note n = new_filter_of [OF M d(2) assms(2,3,5,6)]
  note w = map_button_of [OF n(5) assms(4,5,6)]
  have "filter_of t = filter_of u" using w(3) by (simp add: fun_eq_iff filter_of_def)
  then show ?thesis using n(1-4,6,7) w by (auto simp: button_filter_def axis_filter_def)
qed

lemma add_axis_refines:
  assumes "ui_ok cfg s" "next_available_filter s \<le> 2 ^ 24" "new_filter cfg x s = Some (f, u)" "map_axis m' code f u = Some t"
    "b < button_count" "a < axis_count"
  shows "axis_filter t m a = (if m = m' \<and> a = code then Some x else axis_filter s m a) \<and> button_filter t m b = button_filter s m b \<and>
    axis_filter s m' code = None"
proof -
  note d = ui_okD [OF assms(1)]
  obtain M where M: "filters_hold cfg s M" using d(4) by blast
  note n = new_filter_of [OF M d(2) assms(2,3,5,6)]
  note w = map_axis_of [OF n(5) assms(4,5,6)]
  have "filter_of t = filter_of u" using w(3) by (simp add: fun_eq_iff filter_of_def)
  then show ?thesis using n(1-4,6,7) w by (auto simp: button_filter_def axis_filter_def)
qed

text \<open>C21: The mappings are two maps, from a mapping and a button or an axis to a filter.  A message that adds a filter adds
  exactly that entry, at a place that was empty; every other message leaves them as they are.\<close>
theorem mappings_refine:
  assumes "ui_ok cfg s" "next_available_filter s \<le> 2 ^ 24" "process_ui cfg msg s = Some t" "b < button_count" "a < axis_count"
  shows "(case msg of
     AddButtonPress m' code x \<Rightarrow> button_filter s m' code = None \<and> axis_filter t m a = axis_filter s m a \<and>
       button_filter t m b = (if m = m' \<and> b = code then Some (ButtonPress x) else button_filter s m b)
   | AddButtonRelease m' code x \<Rightarrow> button_filter s m' code = None \<and> axis_filter t m a = axis_filter s m a \<and>
       button_filter t m b = (if m = m' \<and> b = code then Some (ButtonRelease x) else button_filter s m b)
   | AddAxisMove m' code x y \<Rightarrow> axis_filter s m' code = None \<and> button_filter t m b = button_filter s m b \<and>
       axis_filter t m a = (if m = m' \<and> a = code then Some (AxisMove x y) else axis_filter s m a)
   | AddAxisTilt m' code x y \<Rightarrow> axis_filter s m' code = None \<and> button_filter t m b = button_filter s m b \<and>
       axis_filter t m a = (if m = m' \<and> a = code then Some (AxisTilt x y) else axis_filter s m a)
   | _ \<Rightarrow> button_filter t m b = button_filter s m b \<and> axis_filter t m a = axis_filter s m a)"
proof (cases "adds_to msg")
  case None
  then show ?thesis
    using same_mappings_of(4,5) [OF process_message_mappings [OF assms(3)]] by (cases msg) (simp_all add: adds_to_def)
next
  case (Some m')
  then show ?thesis
    using assms(3) add_button_refines [OF assms(1,2) _ _ assms(4,5), of _ _ _ m' _ t m]
      add_axis_refines [OF assms(1,2) _ _ assms(4,5), of _ _ _ m' _ t m]
    by (cases msg) (auto simp: adds_to_def)
qed

end
