(* ===== verification/Hid_Limits.thy ===== *)
theory Hid_Limits
  imports Hid_Contract
begin

text \<open>
  When the context machine can and cannot go on: which messages fail an assertion, that a lost device is forgotten,
  and two ways in which correct use leads to undefined behaviour.
\<close>

section \<open>Devices go without a trace\<close>

lemma sum_list_erase:
  "j < length xs \<Longrightarrow> sum_list (map f xs) = sum_list (map f (erase_at j xs)) + f (xs ! j)" for f :: "_ \<Rightarrow> _ multiset"
proof -
  assume j: "j < length xs"
  then have "mset xs = add_mset (xs ! j) (mset (erase_at j xs))" by (simp add: mset_erase_at)
  then have "sum_mset (image_mset f (mset xs)) = sum_mset (image_mset f (mset (erase_at j xs))) + f (xs ! j)" by simp
  then show ?thesis by (simp flip: sum_mset_sum_list)
qed

lemma reset_demands:
  assumes "i < length (contexts s)" "mapping_entities t = mapping_entities s" "mappings t = mappings s"
    "contexts t = (contexts s)[i := c]"
  shows "demands t + ctx_wants s (contexts s ! i) = demands s + ctx_wants s c"
  using demands_put [OF assms(1), of c] wants_cong(2) [OF assms(2,3)] assms(4) wants_cong(2) [of "put_ctx i c s" s]
  by (simp add: demands_def)

lemma leave_device_total:
  assumes "ui_ok cfg s" "all_set s" "i < length (contexts s)" "d \<in> set (devices s)"
  shows "\<exists>t. leave_device d i s = Some t \<and> (\<forall>e. e \<noteq> d \<longrightarrow> pick e (demands t) = pick e (demands s))"
proof (cases "d \<in> set (ctx_devices (contexts s ! i))")
  case False
  then show ?thesis using assms(4) by (simp add: leave_device_def ctx_has_device_def)
next
  case True
  let ?c = "contexts s ! i"
  let ?W = "\<lambda>e. image_mset (Pair e) (state_wants s (current ?c))"
  have h: "has_device_mappings ?c" using assms(2,3) by (simp add: all_set_def)
  obtain dms where u: "clear_at i s = Some (put_ctx i (?c\<lparr>has_device_mappings := False\<rparr>) (s\<lparr>device_mappings := dms\<rparr>))"
    "ui_ok cfg (put_ctx i (?c\<lparr>has_device_mappings := False\<rparr>) (s\<lparr>device_mappings := dms\<rparr>))" using clear_at_ok [OF assms(1,3) h] by blast
  define u where "u = put_ctx i (?c\<lparr>has_device_mappings := False\<rparr>) (s\<lparr>device_mappings := dms\<rparr>)"
  obtain j where j: "position (\<lambda>x. x = d) (ctx_devices ?c) = Some j" "j < length (ctx_devices ?c)" "ctx_devices ?c ! j = d"
    using position_member [OF True] by blast
  let ?c' = "?c\<lparr>has_device_mappings := False, ctx_devices := erase_at j (ctx_devices ?c)\<rparr>"
  let ?c'' = "?c\<lparr>ctx_devices := erase_at j (ctx_devices ?c)\<rparr>"
  have r: "ctx_remove_device u d (?c\<lparr>has_device_mappings := False\<rparr>) = Some ?c'"
    using j(1) assms(4) by (simp add: ctx_remove_device_def u_def)
  define v where "v = put_ctx i ?c' u"
  have l: "i < length (contexts u)" "contexts u ! i = ?c\<lparr>has_device_mappings := False\<rparr>" using assms(3) by (simp_all add: u_def)
  have m: "modify_at i (ctx_remove_device u d) u = Some v" using r l(2) by (simp add: modify_at_def v_def)
  have "ctx_ok u (contexts u ! i)" using ui_okD(5) [OF u(2) [folded u_def] l(1)] .
  then have v: "ui_ok cfg v" using modify_at_ok [OF u(2) [folded u_def] l(1) m] remove_device_harmless by blast
  have lv: "i < length (contexts v)" "contexts v ! i = ?c'" "\<not> has_device_mappings (contexts v ! i)"
    using l(1) by (simp_all add: v_def)
  have set: "?c'\<lparr>has_device_mappings := True\<rparr> = ?c''" using h by simp
  let ?t = "put_ctx i (?c'\<lparr>has_device_mappings := True\<rparr>) v"
  have wants: "ctx_wants s ?c = ctx_wants s ?c'' + ?W d"
    using sum_list_erase [OF j(2), of ?W] j(3) h by (simp add: ctx_wants_def current_def)
  have "demands ?t + ctx_wants s ?c = demands s + ctx_wants s ?c''"
    unfolding set by (rule reset_demands) (simp_all add: assms(3) v_def u_def)
  then have "(demands ?t + ?W d) + ctx_wants s ?c'' = demands s + ctx_wants s ?c''" unfolding wants by (simp only: ac_simps)
  then have dem: "demands s = demands ?t + ?W d" by (simp only: add_right_cancel)
  have "only_tables s s (demands s)" using ui_okD(1) [OF assms(1)] by (simp add: only_tables_self tables_ok_def)
  then have fit: "tables_fit (devices s) (demands ?t)" using dt.holds_fits dt.fits_mono dem by metis
  have known: "ctx_known v (contexts v ! i)"
  proof -
    have "ctx_known s ?c" using ui_okD(5) [OF assms(1,3)] h by (simp add: ctx_ok_def)
    moreover have "set (erase_at j (ctx_devices ?c)) \<subseteq> set (ctx_devices ?c)"
      using mset_erase_at [OF j(2)] by (metis diff_subset_eq_self set_mset_mono set_mset_mset)
    moreover have "ctx_devices ?c \<noteq> []" using j(2) by auto
    ultimately show ?thesis unfolding lv(2) by (auto simp: ctx_known_def v_def u_def state_known_def current_def)
  qed
  have dv: "devices v = devices s" by (simp add: v_def u_def)
  have "tables_fit (devices v) (demands (put_ctx i ((contexts v ! i)\<lparr>has_device_mappings := True\<rparr>) v))"
    unfolding dv lv(2) by (rule fit)
  then obtain t where t: "set_at i v = Some t" using set_at_fits [OF ui_okD(1) [OF v] lv(1) lv(3) known] by blast
  have "leave_device d i s = Some t"
    using True assms(4) u(1) m t by (simp add: leave_device_def ctx_has_device_def flip: u_def)
  moreover have "demands t = demands ?t"
  proof -
    obtain dms' where "t = put_ctx i ((contexts v ! i)\<lparr>has_device_mappings := True\<rparr>) (v\<lparr>device_mappings := dms'\<rparr>)"
      using set_at_ok [OF v lv(1) t] by blast
    then have "t = ?t\<lparr>device_mappings := dms'\<rparr>" by (simp add: lv(2) put_ctx_def)
    then show ?thesis by simp
  qed
  ultimately show ?thesis using dem by auto
qed

lemma leave_all_total:
  assumes "ui_ok cfg s" "all_set s" "d \<in> set (devices s)" "n \<le> length (contexts s)"
  shows "\<exists>t. fold_opt (leave_device d) [0..<n] s = Some t \<and> (\<forall>e. e \<noteq> d \<longrightarrow> pick e (demands t) = pick e (demands s))"
  using assms(4)
proof (induction n)
  case (Suc n)
  then obtain u where u: "fold_opt (leave_device d) [0..<n] s = Some u" "\<forall>e. e \<noteq> d \<longrightarrow> pick e (demands u) = pick e (demands s)" by auto
  have l: "ui_ok cfg u" "all_set u" "n < length (contexts u)" "d \<in> set (devices u)"
    using leave_all_ok [OF assms(1,2) _ u(1)] Suc.prems assms(3) by auto
  show ?case using leave_device_total [OF l] u by (fastforce simp: fold_opt_append)
qed simp

text \<open>C20: A device that is lost can always be removed: it is taken from every context, its table goes, and every other device
  keeps the demands it answers.\<close>
theorem lost_device_forgotten:
  assumes "ui_reach cfg s" "d \<in> set (devices s)"
  shows "\<exists>t. process_input (DeviceLost d) s = Some t \<and> set (devices t) = set (devices s) - {d} \<and>
    (\<forall>c \<in> set (contexts t). d \<notin> set (ctx_devices c)) \<and> ui_ok cfg t \<and> all_set t \<and>
    (\<forall>e. e \<noteq> d \<longrightarrow> pick e (demands t) = pick e (demands s))"
proof -
  have ok: "ui_ok cfg s" "all_set s" using reach_ok [OF assms(1)] by simp_all
  obtain u where u: "fold_opt (leave_device d) [0..<length (contexts s)] s = Some u"
    "\<forall>e. e \<noteq> d \<longrightarrow> pick e (demands u) = pick e (demands s)" using leave_all_total [OF ok assms(2) order.refl] by blast
  have "d \<in> set (devices u)" using leave_all_ok [OF ok order.refl u(1)] assms(2) by simp
  then obtain i where "find_device d u = Some i" using find_device_None by fastforce
  then obtain t where r: "remove_device d u = Some t" "contexts t = contexts u" "mappings t = mappings u" "mapping_entities t = mapping_entities u"
    by (simp add: remove_device_def)
  then have l: "device_lost d s = Some t" using u(1) by (simp add: device_lost_def)
  have "demands t = demands u" using r wants_cong(2) [of t u] by (simp add: demands_def)
  then show ?thesis using device_lost_ok [OF ok l] l u(2) by simp
qed

section \<open>Which messages fail\<close>

definition ctx_at :: "token \<Rightarrow> ui \<Rightarrow> ctx option" where
  "ctx_at a s = map_option (\<lambda>i. contexts s ! i) (find_context a s)"

definition bound_in :: "token \<Rightarrow> ctx \<Rightarrow> token set" where
  "bound_in st c = (case find_state st c of None \<Rightarrow> {} | Some i \<Rightarrow> set (sm_mappings (state_mappings c ! i)))"

text \<open>The arguments of a message about contexts are right.\<close>

definition admissible :: "ui_message \<Rightarrow> ui \<Rightarrow> bool" where
  "admissible msg s \<longleftrightarrow> (case msg of
     AddContext a sts \<Rightarrow> a \<notin> set (context_assets s) \<and> sts \<noteq> []
   | RemoveContext a \<Rightarrow> a \<in> set (context_assets s) \<and> \<not> (a = 0 \<and> default_context s = 0)
   | AddDevice a d \<Rightarrow> d \<in> set (devices s) \<and> (\<exists>c. ctx_at a s = Some c \<and> d \<notin> set (ctx_devices c))
   | RemoveDevice a d \<Rightarrow> \<exists>c. ctx_at a s = Some c \<and> d \<in> set (ctx_devices c)
   | SetState a st \<Rightarrow> \<exists>c. ctx_at a s = Some c \<and> st \<in> set (ctx_states c)
   | Bind a st m callback data \<Rightarrow> \<exists>c. ctx_at a s = Some c \<and> st \<in> set (ctx_states c) \<and> m \<notin> bound_in st c
   | Unbind a st m \<Rightarrow> \<exists>c. ctx_at a s = Some c \<and> m \<in> bound_in st c
   | _ \<Rightarrow> True)"

lemma find_state_None: "find_state st c = None \<longleftrightarrow> st \<notin> set (ctx_states c)"
  by (auto simp: find_state_def position_None)

lemma find_context_None: "find_context a s = None \<longleftrightarrow> a \<notin> set (context_assets s)"
  by (auto simp: find_context_def position_None)

lemma set_modify_defined:
  assumes "ui_ok cfg s" "find_context a s = Some i"
  shows "\<exists>u c. clear_if_set i s = Some u \<and> contexts u ! i = c \<and> c = (contexts s ! i)\<lparr>has_device_mappings := False\<rparr> \<and>
    devices u = devices s"
  using clear_if_set_ok [OF assms(1)] find_context_Some [OF ui_okD(2) [OF assms(1)] assms(2)] by fastforce

lemma bound_in_marked [simp]: "bound_in st (c\<lparr>has_device_mappings := b\<rparr>) = bound_in st c"
  by (simp add: bound_in_def find_state_def split: option.split)

lemma active_modify_defined:
  assumes "ui_ok cfg s" "find_context a s = Some i"
  shows "\<exists>u c. clear_if_active i st s = Some u \<and> contexts u ! i = c \<and> \<not> (has_device_mappings c \<and> st = ctx_states c ! active c) \<and>
    ctx_states c = ctx_states (contexts s ! i) \<and> bound_in st c = bound_in st (contexts s ! i)"
proof -
  have i: "i < length (contexts s)" using find_context_Some [OF ui_okD(2) [OF assms(1)] assms(2)] by blast
  obtain c dms where c: "clear_if_active i st s = Some (put_ctx i c (s\<lparr>device_mappings := dms\<rparr>))"
    "has_device_mappings c \<longrightarrow> ctx_states c ! active c \<noteq> st" "c = contexts s ! i \<or> c = (contexts s ! i)\<lparr>has_device_mappings := False\<rparr>"
    using clear_if_active_ok [OF assms(1) i, of st] by blast
  then have "bound_in st c = bound_in st (contexts s ! i)" "ctx_states c = ctx_states (contexts s ! i)"
    by auto
  then show ?thesis using c(1,2) i by auto
qed

lemma add_devices_defined:
  assumes "i < length (contexts s)" "\<not> has_device_mappings (contexts s ! i)" "distinct (ctx_devices (contexts s ! i) @ ds)"
    "set ds \<subseteq> set (devices s)"
  shows "fold_opt (\<lambda>d s. modify_at i (ctx_add_device s d) s) ds s \<noteq> None"
  using assms
proof (induction ds arbitrary: s)
  case (Cons d ds)
  let ?t = "put_ctx i ((contexts s ! i)\<lparr>ctx_devices := ctx_devices (contexts s ! i) @ [d]\<rparr>) s"
  have "modify_at i (ctx_add_device s d) s = Some ?t" using Cons.prems by (simp add: modify_at_def ctx_add_device_def)
  then show ?case using Cons.IH [of ?t] Cons.prems by simp
qed simp

lemma add_context_defined:
  assumes "ui_ok cfg s"
  shows "process_add_context a sts s \<noteq> None \<longleftrightarrow> a \<notin> set (context_assets s) \<and> sts \<noteq> []"
proof (cases "a \<notin> set (context_assets s) \<and> sts \<noteq> []")
  case True
  note d = ui_okD [OF assms]
  obtain c where c: "ctx_new sts = Some c" "ctx_devices c = []" "\<not> has_device_mappings c" using True by (simp add: ctx_new_def)
  let ?u = "s\<lparr>context_assets := context_assets s @ [a], contexts := contexts s @ [c]\<rparr>"
  have u: "add_context a sts s = Some ?u" using True c(1) by (simp add: add_context_def)
  show ?thesis
  proof (cases "context_assets s = []")
    case first: True
    then have e: "contexts s = []" using d(2) by (simp add: registry_ok_def)
    have "distinct (devices s)" using d(1) by (simp add: tables_ok_def tables_hold_def)
    then have "fold_opt (\<lambda>d s. modify_at 0 (ctx_add_device s d) s) (devices s) (?u\<lparr>default_context := a\<rparr>) \<noteq> None"
      using c e by (intro add_devices_defined) simp_all
    moreover have "find_context a (?u\<lparr>default_context := a\<rparr>) = Some 0" using first by (simp add: find_context_def)
    ultimately show ?thesis using True first u e c(3) by (simp add: process_add_context_def Let_def)
  next
    case False
    then show ?thesis using True u by (simp add: process_add_context_def Let_def)
  qed
next
  case False
  then have "add_context a sts s = None" by (auto simp: add_context_def ctx_new_def)
  then show ?thesis using False by (simp add: process_add_context_def Let_def)
qed

lemma remove_context_defined:
  assumes "ui_ok cfg s"
  shows "process_remove_context a s \<noteq> None \<longleftrightarrow> a \<in> set (context_assets s) \<and> \<not> (a = 0 \<and> default_context s = 0)"
proof (cases "find_context a s")
  case None
  then show ?thesis using find_context_None [of a s] by (simp add: process_remove_context_def)
next
  case (Some i)
  have i: "i < length (contexts s)" using find_context_Some [OF ui_okD(2) [OF assms] Some] by blast
  obtain dms where "clear_if_set i s = Some (put_ctx i ((contexts s ! i)\<lparr>has_device_mappings := False\<rparr>) (s\<lparr>device_mappings := dms\<rparr>))"
    using clear_if_set_ok [OF assms i] by blast
  moreover have "a \<in> set (context_assets s)" using Some find_context_None [of a s] by fastforce
  ultimately show ?thesis using Some
    by (auto simp: process_remove_context_def remove_context_def find_context_def Let_def)
qed

lemma modify_at_None: "modify_at i f s = None \<longleftrightarrow> f (contexts s ! i) = None"
  by (simp add: modify_at_def split: bind_split)

lemma position_memD: "position (\<lambda>x. x = d) xs = Some j \<Longrightarrow> d \<in> set xs"
  using position_Some [of "\<lambda>x. x = d" xs j] nth_mem [of j xs] by auto

lemma ctx_ops_None:
  "ctx_add_device s d c = None \<longleftrightarrow> has_device_mappings c \<or> d \<notin> set (devices s) \<or> d \<in> set (ctx_devices c)"
  "ctx_remove_device s d c = None \<longleftrightarrow> has_device_mappings c \<or> d \<notin> set (devices s) \<or> d \<notin> set (ctx_devices c)"
  "set_active st c = None \<longleftrightarrow> has_device_mappings c \<or> st \<notin> set (ctx_states c)"
  "add_mapping st m callback data c = None \<longleftrightarrow>
    (has_device_mappings c \<and> st = ctx_states c ! active c) \<or> st \<notin> set (ctx_states c) \<or> m \<in> bound_in st c"
  "remove_mapping st m c = None \<longleftrightarrow> (has_device_mappings c \<and> st = ctx_states c ! active c) \<or> m \<notin> bound_in st c"
  using find_state_None [of st c]
  by (auto simp: ctx_add_device_def ctx_remove_device_def set_active_def add_mapping_def remove_mapping_def bound_in_def
      Let_def position_None dest: position_memD split: bind_split option.split)

text \<open>C25: A message about contexts fails an assertion only when its arguments are wrong: an unknown context, device or state, a
  device or mapping that is there already or is not there.  In particular the sanity check of clearing never fails.
  The exception is a context with the token zero, which cannot be removed while no other context is the default.\<close>
theorem messages_fail_iff:
  assumes "ui_reach cfg s" "adds_to msg = None"
  shows "process_ui cfg msg s = None \<longleftrightarrow> \<not> admissible msg s"
proof -
  have ok: "ui_ok cfg s" using reach_ok [OF assms(1)] by simp
  have at: "ctx_at a s = Some c \<longleftrightarrow> (\<exists>i. find_context a s = Some i \<and> contexts s ! i = c)" for a c
    by (auto simp: ctx_at_def)
  have c: "set (ctx_devices (contexts s ! i)) \<subseteq> set (devices s)" if "find_context a s = Some i" for a i
  proof -
    have "i < length (contexts s)" using find_context_Some [OF ui_okD(2) [OF ok] that] by blast
    then show ?thesis using ui_okD(5) [OF ok] by (simp add: ctx_ok_def)
  qed
  show ?thesis
  proof (cases msg)
    case (AddContext a sts)
    then show ?thesis using add_context_defined [OF ok, of a sts]
      by (cases "process_add_context a sts s") (simp_all add: admissible_def)
  next
    case (RemoveContext a)
    then show ?thesis using remove_context_defined [OF ok, of a]
      by (cases "process_remove_context a s") (simp_all add: admissible_def)
  next
    case (AddDevice a d)
    show ?thesis
    proof (cases "find_context a s")
      case (Some i)
      then show ?thesis using AddDevice set_modify_defined [OF ok Some]
        by (auto simp: admissible_def at modify_at_None ctx_ops_None)
    qed (use AddDevice in \<open>simp add: admissible_def at\<close>)
  next
    case (RemoveDevice a d)
    show ?thesis
    proof (cases "find_context a s")
      case (Some i)
      then show ?thesis using RemoveDevice set_modify_defined [OF ok Some] c [OF Some]
        by (auto simp: admissible_def at modify_at_None ctx_ops_None)
    qed (use RemoveDevice in \<open>simp add: admissible_def at\<close>)
  next
    case (SetState a st)
    show ?thesis
    proof (cases "find_context a s")
      case (Some i)
      then show ?thesis using SetState set_modify_defined [OF ok Some]
        by (auto simp: admissible_def at modify_at_None ctx_ops_None)
    qed (use SetState in \<open>simp add: admissible_def at\<close>)
  next
    case (Bind a st m callback data)
    show ?thesis
    proof (cases "find_context a s")
      case (Some i)
      then obtain u where u: "clear_if_active i st s = Some u"
        "\<not> (has_device_mappings (contexts u ! i) \<and> st = ctx_states (contexts u ! i) ! active (contexts u ! i))"
        "ctx_states (contexts u ! i) = ctx_states (contexts s ! i)" "bound_in st (contexts u ! i) = bound_in st (contexts s ! i)"
        using active_modify_defined [OF ok Some, of st] by blast
      have "process_ui cfg msg s = None \<longleftrightarrow> st \<notin> set (ctx_states (contexts s ! i)) \<or> m \<in> bound_in st (contexts s ! i)"
        using u(2) by (auto simp: Bind Some u(1) modify_at_None ctx_ops_None u(3,4))
      then show ?thesis by (simp add: admissible_def at Some Bind)
    qed (use Bind in \<open>simp add: admissible_def at\<close>)
  next
    case (Unbind a st m)
    show ?thesis
    proof (cases "find_context a s")
      case (Some i)
      then obtain u where u: "clear_if_active i st s = Some u"
        "\<not> (has_device_mappings (contexts u ! i) \<and> st = ctx_states (contexts u ! i) ! active (contexts u ! i))"
        "ctx_states (contexts u ! i) = ctx_states (contexts s ! i)" "bound_in st (contexts u ! i) = bound_in st (contexts s ! i)"
        using active_modify_defined [OF ok Some, of st] by blast
      have "process_ui cfg msg s = None \<longleftrightarrow> m \<notin> bound_in st (contexts s ! i)"
        using u(2) by (auto simp: Unbind Some u(1) modify_at_None ctx_ops_None u(3,4))
      then show ?thesis by (simp add: admissible_def at Some Unbind)
    qed (use Unbind in \<open>simp add: admissible_def at\<close>)
  qed (use assms(2) in \<open>simp_all add: adds_to_def admissible_def\<close>)
qed

section \<open>A button nobody mapped\<close>

lemma find_zero: "ks \<noteq> [] \<Longrightarrow> ks ! 0 = 0 \<Longrightarrow> find_bucket 0 ks = Some 0"
  by (simp add: find_bucket_def hash_of_def find_bucket_at_def to_bucket_def find_bucket_loop.simps)

lemma call_slot_zero:
  assumes "filters_hold cfg s M" "tslots (lookup (filters s)) \<noteq> []" "tslots (lookup (filters s)) ! 0 = 0"
    "col_call h (Some 0) (filters s) = Some (r, c)"
  shows "\<exists>k x y. r = snd (h 0 k (AxisMove x y))"
proof -
  have l: "length (arrays (filters s)) = 4" using assms(1) by (simp add: filters_hold_def)
  obtain as where as: "col_inv cfg (filters s) as" "M = entry (tlookup (lookup (filters s))) as"
    using assms(1) by (auto simp: filters_hold_def col_rep_def)
  note d = col_invD [OF as(1)]
  obtain x k k' where x: "at 0 (arrays (filters s) ! 0) = Some (x, k)" "r = snd (h 0 k' x)"
    using assms(2-4) l by (auto simp: col_call_def slot_zero case_prod_beta Let_def)
  have a: "0 < length as" using d(2) l by simp
  have rep: "vec_rep (comp_cfg cfg 0) (arrays (filters s) ! 0) (as ! 0)" using d(4) [OF a] .
  have "0 < length (as ! 0)"
  proof (rule ccontr)
    assume "\<not> 0 < length (as ! 0)"
    then have "vcells (arrays (filters s) ! 0) = replicate (capacity (comp_cfg cfg 0) (arrays (filters s) ! 0)) Raw"
      using rep by (simp add: vec_rep_def)
    then show False using x(1) by (simp add: at_def read_at.simps split: if_splits)
  qed
  then have i: "at 0 (arrays (filters s) ! 0) = Some (as ! 0 ! 0)" "tlookup (lookup (filters s)) (snd (as ! 0 ! 0)) = Some (slot_set 0 0)"
    using va.get_law [OF rep] slots_matchD(4) [OF d(6) a] by simp_all
  then have "as ! 0 ! 0 = (x, k)" using x(1) by simp
  then have "M k = Some (0, x)" using i(2) as(2) by (simp add: entry_def slot_zero)
  then have "filter_type x = 0" using assms(1) by (auto simp: filters_hold_def)
  then show ?thesis using x(2) by (cases x) auto
qed

text \<open>C35: A button that no mapping of the device maps is looked up under the key zero, which marks the empty buckets of the
  collection: when the first bucket is empty it is found there, and the filter that slot number zero stands for is
  called, a filter for an axis or none at all, which is marked as unreachable for a button.\<close>
theorem unmapped_button_undefined:
  assumes "ui_reach cfg s" "find_device d s = Some k" "r_filters (buttons (device_mappings s ! k)) ! b = 0" "in_bits 8 d"
    "tkeys (lookup (filters s)) \<noteq> []" "tkeys (lookup (filters s)) ! 0 = 0"
    "tslots (lookup (filters s)) \<noteq> []" "tslots (lookup (filters s)) ! 0 = 0"
  shows "process_value (ButtonStateInput d b down) s = None"
proof -
  have ok: "ui_ok cfg s" using reach_ok [OF assms(1)] by simp
  obtain M where M: "filters_hold cfg s M" using ui_okD(4) [OF ok] by blast
  have f: "col_find (filter_key 0) (filters s) = Some 0" using find_zero [OF assms(5,6)] by (simp add: col_find_def filter_key_def)
  have call: "call_filter (handle_button (\<not> down)) (buttons (device_mappings s ! k)) b s = None"
  proof (rule ccontr)
    let ?r = "buttons (device_mappings s ! k)"
    let ?h = "\<lambda>t k x. (x, do { callback \<leftarrow> r_callbacks ?r ! b; data \<leftarrow> r_datas ?r ! b; handle_button (\<not> down) callback data x })"
    assume "call_filter (handle_button (\<not> down)) ?r b s \<noteq> None"
    then obtain es c where c: "col_call ?h (Some 0) (filters s) = Some (Some es, c)"
      using f assms(3) by (auto simp: call_filter_def split: if_splits)
    from call_slot_zero [OF M assms(7,8) c] show False by auto
  qed
  have dev: "getDevice (ButtonStateInput d b down) = d"
    using assms(4) sint_of_int_iff [of d, where 'a = 8] by (simp add: ButtonStateInput_def)
  show ?thesis using assms(2) call dev by (cases down) (simp_all add: process_value_def ButtonStateInput_def)
qed

section \<open>A button mapped too late\<close>

lemma fold_opt_fails:
  assumes "x \<in> set xs" "I s" "\<And>y s t. I s \<Longrightarrow> f y s = Some t \<Longrightarrow> I t" "\<And>s. I s \<Longrightarrow> f x s = None"
  shows "fold_opt f xs s = None"
  using assms(1,2)
proof (induction xs arbitrary: s)
  case (Cons y xs)
  then show ?case using assms(3,4) by (cases "f y s") auto
qed simp

lemma clear_row_other:
  "clear_row is fs r = Some r' \<Longrightarrow> r_filters r ! b \<noteq> f \<Longrightarrow> f \<noteq> 0 \<Longrightarrow> r_filters r' ! b \<noteq> f"
proof (induction "is" arbitrary: r)
  case (Cons i "is")
  have "(r_filters r)[i := 0] ! b \<noteq> f" using Cons.prems(2,3)
    by (cases "i = b"; cases "b < length (r_filters r)") (simp_all add: list_update_beyond)
  then show ?case using Cons by (auto split: if_splits)
qed simp

lemma clear_row_fails:
  "b \<in> set is \<Longrightarrow> fs ! b = f \<Longrightarrow> f \<noteq> 0 \<Longrightarrow> r_filters r ! b \<noteq> f \<Longrightarrow> clear_row is fs r = None"
proof (induction "is" arbitrary: r)
  case (Cons i "is")
  have "(r_filters r)[i := 0] ! b \<noteq> f" using Cons.prems(3,4)
    by (cases "i = b"; cases "b < length (r_filters r)") (simp_all add: list_update_beyond)
  then show ?case using Cons by auto
qed simp

definition lacks :: "int \<Rightarrow> button \<Rightarrow> device_mapping \<Rightarrow> bool" where
  "lacks f b dm \<longleftrightarrow> r_filters (buttons dm) ! b \<noteq> f"

lemma clear_bound_lacks:
  assumes "lacks f b dm" "f \<noteq> 0" "clear_bound s sm j dm = Some dm'"
  shows "lacks f b dm'"
proof -
  obtain k where "clear_row [0..<button_count] (map_buttons (mappings s ! k)) (buttons dm) = Some (buttons dm')"
    using assms(3) by (auto simp: clear_bound_def clear_mapping_def)
  from clear_row_other [OF this] show ?thesis using assms(1,2) by (simp add: lacks_def)
qed

lemma clear_bound_fails:
  assumes "lacks f b dm" "f \<noteq> 0" "b < button_count" "button_of s (sm_mappings sm ! j) b = f"
  shows "clear_bound s sm j dm = None"
proof (cases "find_mapping (sm_mappings sm ! j) s")
  case (Some k)
  then have "map_buttons (mappings s ! k) ! b = f" using assms(4) by (simp add: button_of_def)
  then have "clear_row [0..<button_count] (map_buttons (mappings s ! k)) (buttons dm) = None"
    using assms(1-3) by (intro clear_row_fails [of b]) (simp_all add: lacks_def)
  then show ?thesis using Some by (simp add: clear_bound_def clear_mapping_def)
qed (simp add: clear_bound_def)

definition all_lack :: "int \<Rightarrow> button \<Rightarrow> ui \<Rightarrow> ui \<Rightarrow> bool" where
  "all_lack f b s u \<longleftrightarrow> (\<exists>dms. u = s\<lparr>device_mappings := dms\<rparr> \<and> length dms = length (devices s) \<and> (\<forall>dm \<in> set dms. lacks f b dm))"

lemma clear_device_lacks:
  assumes "all_lack f b s u" "f \<noteq> 0" "clear_device sm d u = Some u'"
  shows "all_lack f b s u'"
proof -
  obtain dms where u: "u = s\<lparr>device_mappings := dms\<rparr>" "length dms = length (devices s)" "\<forall>dm \<in> set dms. lacks f b dm"
    using assms(1) by (auto simp: all_lack_def)
  obtain k dm where k: "find_device d s = Some k" "u' = s\<lparr>device_mappings := dms[k := dm]\<rparr>"
    "fold_opt (clear_bound s sm) [0..<length (sm_mappings sm)] (dms ! k) = Some dm"
    using assms(3) u(1) by (auto simp: clear_device_def)
  have "lacks f b (dms ! k)" using u(2,3) find_device_Some [OF k(1)] by simp
  then have "lacks f b dm"
    by (rule fold_opt_invariant [OF k(3), where I = "lacks f b"]) (rule clear_bound_lacks [OF _ assms(2)])
  then show ?thesis using u(2,3) k(2) set_update_subset_insert [of dms k dm] by (fastforce simp: all_lack_def)
qed

lemma clear_device_fails:
  assumes "all_lack f b s u" "f \<noteq> 0" "b < button_count" "d \<in> set (devices s)" "m \<in> set (sm_mappings sm)" "button_of s m b = f"
  shows "clear_device sm d u = None"
proof -
  obtain dms where u: "u = s\<lparr>device_mappings := dms\<rparr>" "length dms = length (devices s)" "\<forall>dm \<in> set dms. lacks f b dm"
    using assms(1) by (auto simp: all_lack_def)
  obtain k where k: "find_device d s = Some k" using assms(4) find_device_None by fastforce
  obtain j where j: "j < length (sm_mappings sm)" "sm_mappings sm ! j = m" using assms(5) by (auto simp: in_set_conv_nth)
  have "lacks f b (dms ! k)" using u(2,3) find_device_Some [OF k] by simp
  then have "fold_opt (clear_bound s sm) [0..<length (sm_mappings sm)] (dms ! k) = None"
  proof (rule fold_opt_fails [where I = "lacks f b", rotated])
    show "j \<in> set [0..<length (sm_mappings sm)]" using j(1) by simp
    show "\<And>dm. lacks f b dm \<Longrightarrow> clear_bound s sm j dm = None" using clear_bound_fails assms(2,3,6) j(2) by blast
  qed (rule clear_bound_lacks [OF _ assms(2)])
  then show ?thesis using k u(1) by (simp add: clear_device_def)
qed

text \<open>C36: A button that is added to a mapping while the mapping is in use is not written to the tables of the devices: it does
  nothing, and the next time the mappings of the context are cleared the sanity check fails.\<close>
theorem late_button_fails_check:
  assumes "ui_reach cfg s" "next_available_filter s \<le> 2 ^ 24" "i < length (contexts s)" "d \<in> set (ctx_devices (contexts s ! i))"
    "m \<in> set (sm_mappings (current (contexts s ! i)))" "process_ui cfg (AddButtonPress m b x) s = Some t"
  shows "device_mappings t = device_mappings s \<and> clear_at i t = None"
proof -
  have ok: "ui_ok cfg s" using reach_ok [OF assms(1)] by simp
  note o = ui_okD [OF ok]
  obtain M where M: "filters_hold cfg s M" using o(4) by blast
  obtain f u where f: "new_filter cfg (ButtonPress x) s = Some (f, u)" "map_button m b f u = Some t" using assms(6) by auto
  note n = new_filter_ok [OF M assms(2) f(1)]
  obtain fs where u: "u = s\<lparr>next_available_filter := f + 1, filters := fs\<rparr>" using n by blast
  have f0: "f = next_available_filter s" "f \<noteq> 0" using n M by (auto simp: filters_hold_def)
  have nu: "registry_ok u" using o(2) u by (simp add: registry_ok_def)
  obtain k v where v: "add_or_find_mapping m u = (k, v)" by fastforce
  obtain ms' where b: "b < button_count" "t = v\<lparr>mappings := ms'\<rparr>" using f(2) v by (auto simp: map_button_def Let_def split: if_splits)
  obtain es ms where es: "v = u\<lparr>mapping_entities := es, mappings := ms\<rparr>" using add_or_find_mapping_ok(3) [OF nu v] by blast
  then have same: "devices t = devices s" "device_mappings t = device_mappings s" "contexts t = contexts s"
    using b(2) u by simp_all
  have ac: "0 < axis_count" by (simp add: axis_count_def)
  have bt: "button_of t m b = f" using map_button_of(1) [OF nu f(2) b(1) ac, of m] by simp
  have "lacks f b dm" if dm: "dm \<in> set (device_mappings s)" for dm
  proof -
    have len: "length (device_mappings s) = length (devices s)" using o(1) by (simp add: tables_ok_def tables_hold_def)
    obtain q where q: "q < length (devices s)" "dm = device_mappings s ! q" using dm len by (auto simp: in_set_conv_nth)
    have row: "row_holds button_count (buttons dm) (pick True (pick (devices s ! q) (demands s)))"
      using o(1) q by (simp add: tables_ok_def tables_hold_def dm_holds_def)
    show ?thesis
    proof (rule ccontr)
      assume "\<not> lacks f b dm"
      then have fb: "r_filters (buttons dm) ! b = f" by (simp add: lacks_def)
      then obtain cb p where "(b, f, cb, p) \<in># pick True (pick (devices s ! q) (demands s))"
        using row_cell(3) [OF row b(1)] f0(2) by auto
      from demand_bound [OF this] obtain m' where "f = button_of s m' b" by auto
      then show False using entry_conforms(1) [OF M o(2) b(1), of m'] f0 by auto
    qed
  qed
  then have lack: "all_lack f b t t"
    using o(1) same unfolding all_lack_def
    by (intro exI [of _ "device_mappings t"]) (simp add: tables_ok_def tables_hold_def)
  have dt: "d \<in> set (devices t)" using o(5) [OF assms(3)] assms(4) same(1) by (auto simp: ctx_ok_def)
  have "fold_opt (clear_device (current (contexts t ! i))) (ctx_devices (contexts t ! i)) t = None"
  proof (rule fold_opt_fails [where I = "all_lack f b t", rotated])
    show "all_lack f b t t" by (rule lack)
    show "d \<in> set (ctx_devices (contexts t ! i))" using assms(4) same(3) by simp
    show "\<And>w. all_lack f b t w \<Longrightarrow> clear_device (current (contexts t ! i)) d w = None"
      using clear_device_fails [OF _ f0(2) b(1) dt _ bt] assms(5) same(3) by simp
  qed (rule clear_device_lacks [OF _ f0(2)])
  then show ?thesis using same(2) by (simp add: clear_at_def clear_device_mappings_def current_def)
qed

end
