(* ===== verification/Hid_Examples.thy ===== *)
theory Hid_Examples
  imports Hid_Limits
begin

text \<open>
  The context machine at work, with the small configuration of \<open>Collection\<close>: a context with one device, and the same
  with a mapping of one button.  Both states are reached by an update; they are where the properties are applied.
\<close>

section \<open>A device and a context\<close>

definition hid_cfg :: col_cfg where
  "hid_cfg = \<lparr>lookup_cfg = \<lparr>static_capacity = Some 4, alloc_ok = (\<lambda>n. False)\<rparr>,
     comp_cfg = (\<lambda>t. \<lparr>static_capacity = Some 2, alloc_ok = (\<lambda>n. False)\<rparr>)\<rparr>"

lemma hid_cfgs:
  "comp_cfg hid_cfg t = \<lparr>static_capacity = Some 2, alloc_ok = (\<lambda>n. False)\<rparr>"
  "lookup_cfg hid_cfg = \<lparr>static_capacity = Some 4, alloc_ok = (\<lambda>n. False)\<rparr>"
  by (simp_all add: hid_cfg_def)

definition filter_vec :: "(filter \<times> u64) list \<Rightarrow> (filter \<times> u64) vec" where
  "filter_vec xs = \<lparr>stor = \<lparr>good = True, cells = map Live xs @ replicate (2 - length xs) Raw\<rparr>, vcap = 2, vend = length xs\<rparr>"

lemma filter_vec_new: "vec_new (comp_cfg hid_cfg t) 0 = filter_vec []"
  by (simp add: hid_cfgs filter_vec_def vec_new_def reserve_power_of_two_def vec_allocate_def uninit_vec_def
      storage_allocate_def fresh_storage_def numeral_2_eq_2)

lemma filter_vec_append:
  "try_emplace_back (comp_cfg hid_cfg t) x (filter_vec []) = Some (True, filter_vec [x])"
  "try_emplace_back (comp_cfg hid_cfg t) x (filter_vec [y]) = Some (True, filter_vec [y, x])"
  "vsize (filter_vec xs) = length xs"
  by (simp_all add: filter_vec_def try_emplace_back_def vsize_def emplace_back_no_reallocate_def hid_cfgs(1)
      capacity_def emplace_back_no_failure_def construct_at.simps numeral_2_eq_2)

text \<open>The collection without filters, with one, and with two of the type of presses.\<close>

definition filters_0 :: "filter col" where
  "filters_0 = \<lparr>lookup = \<lparr>tslots = [0, 0, 0, 0], tkeys = [0, 0, 0, 0]\<rparr>, arrays = replicate 4 (filter_vec [])\<rparr>"

definition filters_1 :: "filter col" where
  "filters_1 = \<lparr>lookup = \<lparr>tslots = [0, slot_set 2 0, 0, 0], tkeys = [0, 1, 0, 0]\<rparr>,
     arrays = (replicate 4 (filter_vec []))[2 := filter_vec [(ButtonPress 9, 1)]]\<rparr>"

definition filters_2 :: "filter col" where
  "filters_2 = \<lparr>lookup = \<lparr>tslots = [slot_set 2 1, slot_set 2 0, 0, 0], tkeys = [2, 1, 0, 0]\<rparr>,
     arrays = (replicate 4 (filter_vec []))[2 := filter_vec [(ButtonPress 9, 1), (ButtonPress 10, 2)]]\<rparr>"

lemmas probe_evals = col_find_def find_bucket_def find_bucket_at_def to_bucket_def find_bucket_loop.simps hash_of_def
  try_place.simps find_empty_bucket_def

lemma filters_0_new: "col_new hid_cfg 4 = filters_0"
  by (simp add: filters_0_def col_new_def filter_vec_new table_new_def reserve_nonempty_def reserve_power_of_two_def hid_cfgs(2)
      table_zero_def map_replicate_const numeral_eq_Suc)

lemma filters_1_emplace: "col_emplace hid_cfg 2 1 (ButtonPress 9) filters_0 = Some (Some 0, filters_1)"
  by (simp add: filters_0_def filters_1_def col_emplace_def probe_evals filter_vec_append fill_bucket_def Let_def)

lemma filters_2_emplace: "col_emplace hid_cfg 2 2 (ButtonPress 10) filters_1 = Some (Some 1, filters_2)"
  by (simp add: filters_1_def filters_2_def col_emplace_def probe_evals filter_vec_append fill_bucket_def Let_def)

definition demo_ctx :: "state_mapping \<Rightarrow> ctx" where
  "demo_ctx sm = \<lparr>active = 0, has_device_mappings = True, ctx_states = [1], state_mappings = [sm], ctx_devices = [3]\<rparr>"

definition demo_idle :: ui where
  "demo_idle = \<lparr>dimension = (640, 480), devices = [3], device_mappings = [device_mapping_new], device_sources = [[]],
     filters = filters_0, next_available_filter = 1, mapping_entities = [], mappings = [], context_assets = [1],
     contexts = [demo_ctx \<lparr>sm_mappings = [], sm_callbacks = [], sm_datas = []\<rparr>], default_context = 1, log_of = []\<rparr>"

lemmas demo_steps = ui_update_def set_all_def set_if_unset_def set_at_def set_device_mappings_def clear_at_def
  clear_device_mappings_def modify_at_def put_ctx_def device_found_def add_device_def find_context_def find_device_def
  process_add_context_def add_context_def ctx_new_def ctx_add_device_def set_device_def clear_device_def

lemma demo_table: "table_cfg (lookup_cfg hid_cfg)"
  by (simp add: hid_cfgs table_cfg_def table_bound_def)

lemma demo_idle_update:
  "ui_update hid_cfg (Some (640, 480)) [AddContext 1 [1]] [DeviceFound 3] (ui_new hid_cfg) = Some demo_idle"
  by (simp add: demo_steps ui_new_def demo_idle_def demo_ctx_def filters_0_new)

lemma demo_idle_reach: "ui_reach hid_cfg demo_idle"
  by (rule ui_reach.update [OF ui_reach.start [OF demo_table] _ demo_idle_update]) (simp add: timely_def ui_new_def adds_to_def)

section \<open>A mapped button\<close>

definition demo_row :: "nat \<Rightarrow> int list \<Rightarrow> nat \<Rightarrow> row" where
  "demo_row n fs b = \<lparr>r_filters = fs, r_callbacks = (replicate n None)[b := Some 11], r_datas = (replicate n None)[b := Some 12]\<rparr>"

definition demo_mapping :: mapping where
  "demo_mapping = \<lparr>map_buttons = (replicate button_count 0)[7 := 1], map_axes = replicate axis_count 0\<rparr>"

definition demo_bound :: state_mapping where
  "demo_bound = \<lparr>sm_mappings = [5], sm_callbacks = [11], sm_datas = [12]\<rparr>"

definition demo_mapped :: ui where
  "demo_mapped = \<lparr>dimension = (0, 0), devices = [3],
     device_mappings = [\<lparr>buttons = demo_row button_count ((replicate button_count 0)[7 := 1]) 7, axes = row_new axis_count\<rparr>],
     device_sources = [[]],
     filters = filters_1,
     next_available_filter = 2, mapping_entities = [5], mappings = [demo_mapping], context_assets = [1],
     contexts = [demo_ctx demo_bound], default_context = 1, log_of = []\<rparr>"

lemma set_row_zero: "\<forall>i \<in> set is. fs ! i = 0 \<Longrightarrow> set_row is fs c d r = Some r"
  by (induction "is") auto

lemma set_row_append:
  "set_row (is @ js) fs c d r = Option.bind (set_row is fs c d r) (set_row js fs c d)"
  by (induction "is" fs c d r rule: set_row.induct) auto

lemma set_row_one:
  assumes "b < n" "f \<noteq> 0" "length (r_filters r) = n" "r_filters r ! b = 0"
  shows "set_row [0..<n] ((replicate n 0)[b := f]) c d r = Some \<lparr>r_filters = (r_filters r)[b := f],
    r_callbacks = (r_callbacks r)[b := Some c], r_datas = (r_datas r)[b := Some d]\<rparr>"
proof -
  have "[0..<n] = [0..<b] @ b # [Suc b..<n]" using assms(1) upt_add_eq_append [of 0 b "n - b"] upt_conv_Cons [of b n] by simp
  then show ?thesis using assms by (simp add: set_row_append set_row_zero)
qed

lemma counts: "7 < button_count" "button_count = 152" "axis_count = 18"
  by (simp_all add: button_count_def axis_count_def)

lemma demo_set_mapping:
  "set_mapping demo_mapping 11 12 device_mapping_new =
    Some \<lparr>buttons = demo_row button_count ((replicate button_count 0)[7 := 1]) 7, axes = row_new axis_count\<rparr>"
  using set_row_one [of 7 button_count 1 "row_new button_count" 11 12] counts(1)
  by (simp add: set_mapping_def demo_mapping_def device_mapping_new_def row_new_def set_row_zero demo_row_def)

lemma demo_new_filter:
  "next_available_filter s = 1 \<Longrightarrow> filters s = filters_0 \<Longrightarrow> new_filter hid_cfg (ButtonPress 9) s =
    Some (1, s\<lparr>next_available_filter := 2, filters := filters_1\<rparr>)"
  using filters_1_emplace by (simp add: new_filter_def filter_key_def)

lemma demo_map_button:
  "mapping_entities s = [] \<Longrightarrow> mappings s = [] \<Longrightarrow> map_button 5 7 1 s = Some (s\<lparr>mapping_entities := [5], mappings := [demo_mapping]\<rparr>)"
  using counts(1)
  by (simp add: map_button_def add_or_find_mapping_def find_mapping_def mapping_new_def demo_mapping_def Let_def)

lemma demo_mapped_update:
  "ui_update hid_cfg None [AddContext 1 [1], AddButtonPress 5 7 9, Bind 1 1 5 11 12] [DeviceFound 3] (ui_new hid_cfg) =
    Some demo_mapped"
  using demo_set_mapping
  by (simp add: demo_steps ui_new_def filters_0_new demo_ctx_def demo_new_filter demo_map_button clear_if_active_def add_mapping_def
      find_state_def demo_bound_def Let_def)
   (simp add: set_bound_def find_mapping_def demo_mapped_def demo_ctx_def demo_bound_def)

lemma demo_mapped_reach: "ui_reach hid_cfg demo_mapped"
  by (rule ui_reach.update [OF ui_reach.start [OF demo_table] _ demo_mapped_update])
    (simp add: timely_def ui_new_def adds_to_def in_use_def)

section \<open>The properties at work\<close>

lemma demo_finds: "find_device 3 demo_mapped = Some 0" "find_device 3 demo_idle = Some 0"
  by (simp_all add: find_device_def demo_mapped_def demo_idle_def)

text \<open>The button is demanded once and its cell says so; an axis is not demanded and its cell is empty.\<close>

theorem tables_hold_demands_witness:
  "demanded button_of demo_mapped 3 7 = {(1, 11, 12)} \<and> demanded axis_of demo_mapped 3 2 = {} \<and>
    (let dm = device_mappings demo_mapped ! 0 in r_filters (buttons dm) ! 7 = 1 \<and> r_callbacks (buttons dm) ! 7 = Some 11 \<and>
      r_datas (buttons dm) ! 7 = Some 12 \<and> r_filters (axes dm) ! 2 = 0)"
proof -
  have "button_of demo_mapped 5 7 = 1" "axis_of demo_mapped 5 2 = 0"
    using counts by (simp_all add: button_of_def axis_of_def find_mapping_def demo_mapped_def demo_mapping_def)
  then have "demanded button_of demo_mapped 3 7 = {(1, 11, 12)}" "demanded axis_of demo_mapped 3 2 = {}"
    by (auto simp: demanded_def demo_mapped_def demo_ctx_def current_def demo_bound_def)
  moreover have "2 < axis_count" using counts by simp
  ultimately show ?thesis using tables_hold_demands [OF demo_mapped_reach demo_finds(1)] counts(1)
    by (auto simp: cell_answers_def Let_def)
qed

theorem cells_hold_their_kind_witness:
  "\<exists>x cb p. filter_of demo_mapped (r_filters (buttons (device_mappings demo_mapped ! 0)) ! 7) = Some x \<and> filter_type x \<in> {2, 3} \<and>
    r_callbacks (buttons (device_mappings demo_mapped ! 0)) ! 7 = Some cb \<and> r_datas (buttons (device_mappings demo_mapped ! 0)) ! 7 = Some p"
proof -
  have "r_filters (buttons (device_mappings demo_mapped ! 0)) ! 7 \<noteq> 0"
    using counts(1) by (simp add: demo_mapped_def demo_row_def)
  then show ?thesis
    using conjunct1 [OF cells_hold_their_kind [OF demo_mapped_reach demo_finds(1)]] counts(1) by blast
qed

lemma demo_button: "button_filter demo_mapped 5 7 = Some (ButtonPress 9)"
proof -
  have "button_of demo_mapped 5 7 = 1"
    using counts(1) by (simp add: button_of_def find_mapping_def demo_mapped_def demo_mapping_def)
  moreover have "filter_of demo_mapped 1 = Some (ButtonPress 9)"
    by (simp add: filter_of_def filter_key_def demo_mapped_def filters_1_def probe_evals col_call_def slot_type_set slot_index_set
        at_def filter_vec_def read_at.simps vec_write_def assign_at.simps Let_def)
  ultimately show ?thesis by (simp add: button_filter_def)
qed

theorem button_reaches_callback_witness:
  "process_value (ButtonStateInput 3 7 True) demo_mapped = Some (demo_mapped\<lparr>log_of := [Called 11 9 (Whole 1) 12]\<rparr>)"
  using button_reaches_callback [OF demo_mapped_reach, of "demo_ctx demo_bound" 3 0 7 "ButtonPress 9" True] demo_button counts(1)
  by (simp add: button_event_def current_def demo_ctx_def demo_bound_def in_bits_def) (simp add: demo_mapped_def demo_ctx_def demo_bound_def)

theorem mappings_refine_witness:
  "\<exists>t. process_ui hid_cfg (AddButtonPress 5 7 9) demo_idle = Some t \<and> button_filter demo_idle 5 7 = None \<and>
    button_filter t 5 7 = Some (ButtonPress 9)"
proof -
  obtain t where t: "process_ui hid_cfg (AddButtonPress 5 7 9) demo_idle = Some t"
    by (simp add: demo_new_filter demo_map_button demo_idle_def)
  have "ui_ok hid_cfg demo_idle" "next_available_filter demo_idle \<le> 2 ^ 24"
    using reach_ok [OF demo_idle_reach] by (simp_all add: demo_idle_def)
  from mappings_refine [OF this t counts(1), of 0 5]
  have "button_filter demo_idle 5 7 = None" "button_filter t 5 7 = Some (ButtonPress 9)" by (simp_all add: counts(3))
  then show ?thesis using t by blast
qed

theorem lost_device_forgotten_witness:
  "\<exists>t. process_input (DeviceLost 3) demo_mapped = Some t \<and> set (devices t) = set (devices demo_mapped) - {3} \<and>
    (\<forall>c \<in> set (contexts t). 3 \<notin> set (ctx_devices c)) \<and> ui_ok hid_cfg t \<and> all_set t \<and>
    (\<forall>e. e \<noteq> 3 \<longrightarrow> pick e (demands t) = pick e (demands demo_mapped))"
  by (rule lost_device_forgotten [OF demo_mapped_reach]) (simp add: demo_mapped_def)

theorem messages_fail_iff_witness:
  "process_ui hid_cfg (SetState 1 2) demo_mapped = None \<and> process_ui hid_cfg (SetState 1 1) demo_mapped \<noteq> None"
  using messages_fail_iff [OF demo_mapped_reach, of "SetState 1 2"] messages_fail_iff [OF demo_mapped_reach, of "SetState 1 1"]
  by (simp add: adds_to_def admissible_def ctx_at_def find_context_def) (simp add: demo_mapped_def demo_ctx_def)

theorem unmapped_button_undefined_witness: "process_value (ButtonStateInput 3 8 True) demo_mapped = None"
  by (rule unmapped_button_undefined [OF demo_mapped_reach demo_finds(1)])
    (simp_all add: demo_mapped_def demo_row_def filters_1_def in_bits_def button_count_def)

lemma demo_late:
  "process_ui hid_cfg (AddButtonPress 5 8 10) demo_mapped = Some (demo_mapped\<lparr>next_available_filter := 3, filters := filters_2,
    mappings := [demo_mapping\<lparr>map_buttons := (map_buttons demo_mapping)[8 := 2]\<rparr>]\<rparr>)"
  using filters_2_emplace counts(2)
  by (simp add: new_filter_def filter_key_def map_button_def add_or_find_mapping_def find_mapping_def demo_mapped_def Let_def)
    (simp add: demo_mapping_def)

theorem late_button_fails_check_witness:
  "\<exists>t. process_ui hid_cfg (AddButtonPress 5 8 10) demo_mapped = Some t \<and> device_mappings t = device_mappings demo_mapped \<and>
    clear_at 0 t = None"
  using late_button_fails_check [OF demo_mapped_reach _ _ _ _ demo_late, of 0 3] demo_late
  by (intro exI conjI; (assumption | simp add: demo_mapped_def demo_ctx_def demo_bound_def current_def))

end
