(* ===== verification/Spec2Isabelle.thy ===== *)
theory Spec2Isabelle
  imports Vector Fragmentation Exchange_Queue Page_Queue Unordered_Collection
    Multi_Collection File_Behaviour Json_Serializer Ini_Serializer Text_Error Hid_Examples
begin

text \<open>
  A verification library for the core of the engine: its containers and queues, the collections built on them, the
  readers and writers of its texts, the loader that keeps its files, and the machine that turns inputs into calls.  All sources are below \<^verbatim>\<open>src/code/src/\<close>.

  \<^bold>\<open>The program and the theories.\<close>  The lowest layer is machine arithmetic and memory; on it stand the containers, on
  those the queues and collections, and on the collections the loader of files and the context machine.  The text serializers stand beside
  them on a layer of tables.

  \<^item> \<open>Machine_Arith\<close>: \<^verbatim>\<open>utility/bitmanip.hpp\<close> and \<^verbatim>\<open>utility/overflow.hpp\<close>, on words of the widths of the code.
  \<^item> \<open>Storage\<close>: \<^verbatim>\<open>utility/storage.hpp\<close>.  A storage is a list of cells, each raw, live or moved from.
  \<^item> \<open>Vector\<close>, \<open>Fragmentation\<close>: \<^verbatim>\<open>utility/container/vector.hpp\<close> with \<^verbatim>\<open>container.hpp\<close>, and \<^verbatim>\<open>fragmentation.hpp\<close>.
    The records \<open>vec\<close> and \<open>frag\<close> are the data members of the classes over a storage.
  \<^item> \<open>Exchange_Queue\<close>, \<open>Ring_Queue\<close>, \<open>Page_Queue\<close>: \<^verbatim>\<open>core/container/ExchangeQueue.hpp\<close> and \<^verbatim>\<open>core/container/Queue.hpp\<close>.
    Each queue is modelled by whole calls; the first two also by the single accesses of their threads, as step
    functions over a record of the shared memory and the program counters, with all interleavings.
  \<^item> \<open>Lookup_Table\<close>, \<open>Collection\<close>, \<open>Unordered_Collection\<close>, \<open>Multi_Collection\<close>: \<^verbatim>\<open>core/container/Collection.hpp\<close>.
    The hash table that the three collections contain in the same words is modelled once, for slots of any type.
  \<^item> \<open>Serialization\<close>, \<open>Text_Reader\<close>, \<open>Text_Writer\<close>: \<^verbatim>\<open>core/serialization.hpp\<close> and \<^verbatim>\<open>utility/lookup_table.hpp\<close>, and what
    readers and writers share.  The types that the templates are instantiated with are values of the datatype \<open>ty\<close>.
  \<^item> \<open>Json_Structurer\<close>, \<open>Json_Serializer\<close>, \<open>Ini_Structurer\<close>, \<open>Ini_Serializer\<close>: the files of the same names in \<^verbatim>\<open>core/\<close>.
    A buffer is a list of bytes and a negative size, which counts up to its end, as in the code.
    \<open>Json_Text\<close> and \<open>Ini_Text\<close> hold reference printers.  \<open>Text_Error\<close>: the position of an error, \<^verbatim>\<open>core/error.cpp\<close>.
  \<^item> \<open>Crc\<close>: \<^verbatim>\<open>utility/crypto/crc.hpp\<close>, and the names that \<^verbatim>\<open>engine/Asset.hpp\<close> makes with it.
  \<^item> \<open>File_Index\<close>, \<open>File_Loader\<close>: \<^verbatim>\<open>engine/file/loader.cpp\<close>.  The record \<open>loader\<close> holds the collections and the
    implementation object of that file; there is a definition for every message handler, every helper and every
    function that is posted.  \<open>File_Graph\<close>, \<open>File_Lifetime\<close> and \<open>File_Behaviour\<close> hold the invariant, its preservation,
    and the properties.
  \<^item> \<open>Hid_Input\<close>, \<open>Hid_Ui\<close>: \<^verbatim>\<open>engine/hid/input.hpp\<close> and \<^verbatim>\<open>engine/hid/ui.cpp\<close>.  The record \<open>ui\<close> holds the variables of that
    file, with its filters in a collection of \<open>Collection\<close>; \<open>ui_update\<close> is one update, over what it takes from its
    queues.  \<open>Hid_Demand\<close> says what the tables of the devices promise, \<open>Hid_Invariant\<close>, \<open>Hid_Messages\<close> and \<open>Hid_Inputs\<close>
    that every message keeps it; \<open>Hid_Behaviour\<close>, \<open>Hid_Contract\<close> and \<open>Hid_Limits\<close> hold the properties, and
    \<open>Hid_Examples\<close> two states that updates lead to.

  \<^bold>\<open>Reading a definition.\<close>  An operation that is undefined, or that comes to code marked as unreachable, is \<open>None\<close>; a
  refusal that the code reports is a value (a false flag, an error, an unchanged state).  Assertions are read as in a
  checked build: one that guards a branch takes the branch, and one that would stop the program is \<open>None\<close> where what
  follows it would be undefined.  Machine integers are words where wrapping matters and natural numbers with explicit
  ranges elsewhere.  Memory is granted by the parameter \<open>alloc_ok\<close> of a configuration, and refused allocations are
  branches.

  \<^bold>\<open>Parameters.\<close>  The libraries \<^verbatim>\<open>ful\<close> and \<^verbatim>\<open>fio\<close> are submodules whose code is not in the repository.  What the texts
  use of them is the record \<open>lib\<close> with the hypotheses \<open>reads_ok\<close>, \<open>numbers_ok\<close> and \<open>writes_ok\<close>, which hold of the
  decimal reader and printer \<open>dec_lib\<close>; the searches that the loader uses are the record \<open>names\<close> with \<open>names_ok\<close>, which
  holds of \<open>plain_names\<close>.  The functions that users give to the loader are a parameter too: what they do to it is send
  messages.

  \<^bold>\<open>Loops, fuel and bounds.\<close>  The loops are total functions, but for the ones named here.  The probing of the hash table has five steps, its growth
  ends when the allocator refuses or the size would wrap; texts are read with the remaining length as the measure; the
  relations of the loader are worked off with the number of attachments and of waiting owners as the measure
  (\<open>remove_attachments\<close>, \<open>finish_relations\<close>).  The writer of JSON texts indents by at most sixteen levels and the
  round trip is stated up to there.  The filters of the context machine are counted up to \<open>2 ^ 24\<close>, the places that a
  slot of their collection can number.  The loops that read the members and elements of a JSON text, and the key-values and
  headers of an INI text, take fuel (\<open>members_loop\<close>, \<open>elements_loop\<close>, \<open>key_values_loop\<close>, \<open>headers_loop\<close>): they are
  called with no less than the number of bytes that are left, of which every round consumes one at least, and the theorems
  \<open>json_structure_total\<close> and \<open>ini_structure_total\<close> show that it is enough.  The search for a page in the page queue is a
  partial function, which is shown to return.  No other definition uses fuel.

  \<^bold>\<open>What is shown.\<close>
  \<^item> Arithmetic: each variant of the overflow checks agrees with the mathematical result, except for the signed ARM addition
    below 32 bits and the signed product of four parts (the lemmas named \<open>spurious\<close>); the power-of-two ceiling is exact.
  \<^item> Containers: every operation is given as an effect on the list or map the container represents, with its safety;
    the contracts are the locales \<open>dense_array\<close>, \<open>slot_container\<close>, \<open>slot_table\<close>, \<open>component_map\<close> and \<open>multi_map\<close>,
    interpreted on the models.
  \<^item> Queues: every result of any sequence of calls is that of a bounded or unbounded first-in first-out queue (locale \<open>fifo\<close>), a mailbox for the exchange queue (locale
    \<open>mailbox\<close>), safety of all interleavings of one producer and one consumer, and schedules in which more go wrong.
  \<^item> Texts: reading returns, stays in the text and keeps types; what is written is read back.
  \<^item> Files: the index after a scan is the one that its definition by the set of files demands; the graph of owners and
    attachments is kept consistent by every message that does not spoil it (locale \<open>message_strand\<close>), and then dependencies
    are loaded first, nothing waits for ever and nothing is leaked in the absence of cycles; delayed messages keep their
    order.
  \<^item> Inputs: the tables of the devices hold exactly what the mappings of the active states demand (locale
    \<open>demand_store\<close>, for an array of cells, the table of a device and all tables), so that a mapped button reaches its
    callback, a lost device is forgotten, and messages fail only when their arguments are wrong.
  \<^item> Errors: for each defect of the code there is a theorem that exhibits it, at the end of the theory of its component.

  \<^bold>\<open>Assumptions.\<close>  The queues are verified under sequential consistency; the weaker memory orders of the code are not
  modelled.  In the loader a reference to an entry of a collection stands for its key, and its collections and vectors
  are given the memory they ask for; the collections as maps are justified by \<open>component_map\<close>.  The properties of its
  graph hold as long as no message has spoilt it.  The predicate \<open>spoils\<close> lists those messages: a loaded file is read again, or a
  dependency is recorded that will never be told of (its filetype is not registered or not the one its file was loaded with,
  or it is asked for by the radical of a file that is loaded under its own name), or an entry is made for nothing or
  under the number of the users.  Each is carried out by the code and by the model, and
  \<open>loader_keeps_graph\<close> shows that they are the right ones: every other message keeps the invariant, and they lose it;
  \<open>gives_up\<close> lists the messages whose outcome is undefined.  The exchange queue is shown to be safe
  with the parameter \<open>excl\<close> of \<open>writer_step\<close> and \<open>reader_step\<close> set, under which the updates of the
  bitset exclude each other; the code has no such exclusion, and \<open>Exchange_Queue\<close> shows what goes wrong without it.  The properties of the context
  machine exclude adding to a mapping that is in use (\<open>timely\<close>), which \<open>late_button_fails_check\<close> shows to go wrong.

  \<^bold>\<open>Not modelled.\<close>  Graphics, audio, physics, windows, the readers of devices and the file system are calls of other libraries and of
  the operating system; the mathematics and the animation are in floating point; the types in \<^verbatim>\<open>utility/\<close> such as
  variant and optional are plumbing at the level of types; debug output, tests and benchmarks are not part of the
  behaviour.  The concurrent replacement of pages in the page queue, the several-writer variant of the exchange queue
  and the copies of the serialization helpers are open.

  \<^bold>\<open>Plan.\<close>  Next are the regular expressions and algorithms of \<^verbatim>\<open>utility/\<close>, the console and the graphical user
  interface; then the invariant of the loader with files that are read again.
\<close>

end
